(* ===== verification/Prelude.thy ===== *)
theory Prelude
  imports Main "HOL-Library.Char_ord" "HOL-Library.List_Lexorder" "HOL-Library.Product_Lexorder"
    "HOL-Library.Multiset"
begin

section \<open>Prelude: the vocabulary the component theories share\<close>

text \<open>
  The Rust standard library operations that several components use, as executable functions on
  lists, and their laws. A Rust \<open>String\<close> or \<open>&str\<close> is its UTF-8 byte sequence, a
  \<^typ>\<open>string\<close> (Isabelle's characters are bytes), and its \<open>Ord\<close> is the byte-wise
  lexicographic order that \<open>List_Lexorder\<close> gives. A tuple's derived \<open>Ord\<close> is
  \<open>Product_Lexorder\<close>. A \<open>u64\<close> or \<open>u128\<close> that only counts or orders is a
  \<^typ>\<open>nat\<close>; wherever the source saturates or can wrap, the width is written out.
\<close>

named_theorems list_edit \<open>laws of position, removal and insertion by index\<close>

type_synonym u64 = nat

abbreviation u64_max :: nat where
  "u64_max \<equiv> 18446744073709551615"

definition saturating_add :: "u64 \<Rightarrow> u64 \<Rightarrow> u64" where
  "saturating_add a b = min (a + b) u64_max"

definition saturating_sub :: "u64 \<Rightarrow> u64 \<Rightarrow> u64" where
  "saturating_sub a b = a - b"

subsection \<open>Results\<close>

text \<open>The \<open>?\<close> operator on a \<open>Result\<close>, and a loop whose body may return an error.\<close>

definition and_then :: "'e + 'a \<Rightarrow> ('a \<Rightarrow> 'e + 'b) \<Rightarrow> 'e + 'b" where
  "and_then r f = (case r of Inl e \<Rightarrow> Inl e | Inr x \<Rightarrow> f x)"

primrec try_fold :: "('a \<Rightarrow> 's \<Rightarrow> 'e + 's) \<Rightarrow> 'a list \<Rightarrow> 's \<Rightarrow> 'e + 's" where
  "try_fold f [] s = Inr s"
| "try_fold f (x # xs) s = and_then (f x s) (try_fold f xs)"

text \<open>\<open>ensure!\<close> and checks one after the other.\<close>

definition ensure :: "bool \<Rightarrow> 'e \<Rightarrow> 'e + unit" where
  "ensure b e = (if b then Inr () else Inl e)"

abbreviation all_ok :: "('a \<Rightarrow> 'e + unit) \<Rightarrow> 'a list \<Rightarrow> 'e + unit" where
  "all_ok f xs \<equiv> try_fold (\<lambda>x _. f x) xs ()"

abbreviation also_ok :: "'e + unit \<Rightarrow> 'e + 'a \<Rightarrow> 'e + 'a" where
  "also_ok r s \<equiv> and_then r (\<lambda>_. s)"

lemma and_then_simps [simp]: "and_then (Inl e) f = Inl e" "and_then (Inr x) f = f x"
  by (simp_all add: and_then_def)

lemma and_then_Inr: "and_then r f = Inr y \<longleftrightarrow> (\<exists>x. r = Inr x \<and> f x = Inr y)"
  by (cases r) simp_all

lemma ensure_Inr [simp]: "ensure b e = Inr x \<longleftrightarrow> b"
  by (simp add: ensure_def)

lemma try_fold_append: "try_fold f (xs @ ys) s = and_then (try_fold f xs s) (try_fold f ys)"
  by (induction xs arbitrary: s) (auto simp: and_then_def split: sum.splits)

lemma try_fold_invariant:
  assumes "try_fold f xs s = Inr t" "P s" "\<And>x s t. x \<in> set xs \<Longrightarrow> P s \<Longrightarrow> f x s = Inr t \<Longrightarrow> P t"
  shows "P t"
  using assms by (induction xs arbitrary: s) (auto simp: and_then_Inr)

subsection \<open>Searching, removing and inserting by index\<close>

text \<open>\<open>Iterator::position\<close>: the index of the first element that satisfies the predicate.\<close>

fun position :: "('a \<Rightarrow> bool) \<Rightarrow> 'a list \<Rightarrow> nat option" where
  "position p [] = None"
| "position p (x # xs) = (if p x then Some 0 else map_option Suc (position p xs))"

text \<open>\<open>Vec::remove\<close> and \<open>Vec::insert\<close>; the callers stay in range.\<close>

definition remove_at :: "nat \<Rightarrow> 'a list \<Rightarrow> 'a list" where
  "remove_at i xs = take i xs @ drop (Suc i) xs"

definition insert_at :: "nat \<Rightarrow> 'a \<Rightarrow> 'a list \<Rightarrow> 'a list" where
  "insert_at i x xs = take i xs @ x # drop i xs"

text \<open>\<open>iter_mut().find(p)\<close> followed by an assignment through the reference.\<close>

fun update_first :: "('a \<Rightarrow> bool) \<Rightarrow> ('a \<Rightarrow> 'a) \<Rightarrow> 'a list \<Rightarrow> 'a list" where
  "update_first p f [] = []"
| "update_first p f (x # xs) = (if p x then f x # xs else x # update_first p f xs)"

lemma position_None_iff: "position p xs = None \<longleftrightarrow> (\<forall>x\<in>set xs. \<not> p x)"
  by (induction xs) auto

lemma position_SomeD:
  "position p xs = Some i \<Longrightarrow> i < length xs \<and> p (xs ! i) \<and> (\<forall>j<i. \<not> p (xs ! j))"
proof (induction xs arbitrary: i)
  case Nil
  then show ?case by simp
next
  case (Cons x xs)
  show ?case
  proof (cases "p x")
    case True
    with Cons.prems show ?thesis by simp
  next
    case False
    with Cons.prems obtain j where j: "position p xs = Some j" "i = Suc j" by auto
    from Cons.IH [OF j(1)] False j(2) show ?thesis
      by (auto simp: less_Suc_eq_0_disj)
  qed
qed

lemma position_split:
  assumes "position p xs = Some i"
  obtains ys x zs where "xs = ys @ x # zs" "length ys = i" "p x" "\<forall>y\<in>set ys. \<not> p y"
proof -
  from position_SomeD [OF assms] have i: "i < length xs" "p (xs ! i)" "\<forall>j<i. \<not> p (xs ! j)"
    by auto
  show thesis
  proof (rule that [of "take i xs" "xs ! i" "drop (Suc i) xs"])
    show "xs = take i xs @ xs ! i # drop (Suc i) xs"
      using i(1) by (simp add: id_take_nth_drop)
    show "\<forall>y\<in>set (take i xs). \<not> p y"
      using i by (auto simp: in_set_conv_nth)
  qed (use i in auto)
qed

lemma position_append:
  "\<forall>y\<in>set ys. \<not> p y \<Longrightarrow> position p (ys @ zs) = map_option ((+) (length ys)) (position p zs)"
proof (induction ys)
  case Nil
  show ?case by (cases "position p zs") simp_all
next
  case (Cons y ys)
  then show ?case by (cases "position p zs") simp_all
qed

lemma position_map: "position p (map f xs) = position (\<lambda>x. p (f x)) xs"
  by (induction xs) auto

lemma map_remove_at: "map f (remove_at i xs) = remove_at i (map f xs)"
  by (simp add: remove_at_def take_map drop_map)

lemma map_insert_at: "map f (insert_at i x xs) = insert_at i (f x) (map f xs)"
  by (simp add: insert_at_def take_map drop_map)

lemma remove_at_append [list_edit]: "remove_at (length ys) (ys @ x # zs) = ys @ zs"
  by (simp add: remove_at_def)

lemma insert_at_append [list_edit]: "insert_at (length ys) x (ys @ zs) = ys @ x # zs"
  by (simp add: insert_at_def)

lemma insert_at_0 [list_edit]: "insert_at 0 x xs = x # xs"
  by (simp add: insert_at_def)

lemma insert_at_length [list_edit]: "insert_at (length xs) x xs = xs @ [x]"
  by (simp add: insert_at_def)

lemma mset_insert_at [list_edit]: "mset (insert_at i x xs) = add_mset x (mset xs)"
  unfolding insert_at_def
  by (metis append_take_drop_id mset.simps(2) mset_append union_mset_add_mset_right)

lemma mset_remove_at [list_edit]:
  assumes "i < length xs"
  shows "add_mset (xs ! i) (mset (remove_at i xs)) = mset xs"
proof -
  have "mset xs = mset (take i xs @ xs ! i # drop (Suc i) xs)"
    using assms by (simp add: id_take_nth_drop [symmetric])
  then show ?thesis by (simp add: remove_at_def)
qed

lemma filter_insert_at [list_edit]: "\<not> p x \<Longrightarrow> filter p (insert_at i x xs) = filter p xs"
  unfolding insert_at_def by (metis append_take_drop_id filter.simps(2) filter_append)

lemma filter_remove_at [list_edit]:
  assumes "i < length xs" "\<not> p (xs ! i)"
  shows "filter p (remove_at i xs) = filter p xs"
proof -
  have "filter p xs = filter p (take i xs @ xs ! i # drop (Suc i) xs)"
    using assms(1) by (simp add: id_take_nth_drop [symmetric])
  then show ?thesis using assms(2) by (simp add: remove_at_def)
qed

lemma filter_neq [simp]: "x \<notin> set xs \<Longrightarrow> filter (\<lambda>y. y \<noteq> x) xs = xs"
  by (induction xs) auto

subsection \<open>Updating the first match\<close>

lemma update_first_none [simp]: "\<forall>x\<in>set xs. \<not> p x \<Longrightarrow> update_first p f xs = xs"
  by (induction xs) auto

lemma length_update_first [simp]: "length (update_first p f xs) = length xs"
  by (induction xs) auto

lemma map_update_first [simp]: "(\<And>x. p x \<Longrightarrow> g (f x) = g x) \<Longrightarrow> map g (update_first p f xs) = map g xs"
  by (induction xs) auto

lemma find_update_first:
  "(\<And>x. p x \<Longrightarrow> p (f x)) \<Longrightarrow> find p (update_first p f xs) = map_option f (find p xs)"
  by (induction xs) auto

lemma find_update_first_other:
  "(\<And>x. p x \<Longrightarrow> \<not> q x) \<Longrightarrow> (\<And>x. p x \<Longrightarrow> \<not> q (f x)) \<Longrightarrow> find q (update_first p f xs) = find q xs"
  by (induction xs) auto

lemma set_update_first_subset: "set (update_first p f xs) \<subseteq> set xs \<union> f ` {x \<in> set xs. p x}"
  by (induction xs) auto

lemma set_update_firstE:
  assumes "y \<in> set (update_first p f xs)"
  obtains "y \<in> set xs" | x where "x \<in> set xs" "p x" "y = f x"
  using assms set_update_first_subset [of p f xs] by blast

lemma find_SomeD: "find p xs = Some x \<Longrightarrow> x \<in> set xs \<and> p x"
  by (induction xs) (auto split: if_splits)

lemma find_append [simp]: "find p (xs @ ys) = (case find p xs of Some x \<Rightarrow> Some x | None \<Rightarrow> find p ys)"
  by (induction xs) auto

lemma find_none [simp]: "\<forall>x\<in>set xs. \<not> p x \<Longrightarrow> find p xs = None"
  by (induction xs) auto

lemma find_key_Some:
  "distinct (map k xs) \<Longrightarrow> find (\<lambda>y. k y = a) xs = Some y \<longleftrightarrow> y \<in> set xs \<and> k y = a"
  by (induction xs) (auto split: if_splits)

lemma find_key_set_eq:
  assumes "distinct (map k xs)" "distinct (map k ys)" "set xs = set ys"
  shows "find (\<lambda>y. k y = a) xs = find (\<lambda>y. k y = a) ys"
  using find_key_Some [OF assms(1), of a] find_key_Some [OF assms(2), of a] assms(3)
  by (cases "find (\<lambda>y. k y = a) xs"; cases "find (\<lambda>y. k y = a) ys") auto

lemma find_eq_position:
  "find p xs = map_option (nth xs) (position p xs)"
  by (induction xs) (auto simp: option.map_comp comp_def)

subsection \<open>Prefixes and white space\<close>

text \<open>\<open>str::strip_prefix\<close>, and \<open>str::starts_with\<close> as its success.\<close>

definition strip_prefix :: "string \<Rightarrow> string \<Rightarrow> string option" where
  "strip_prefix p s = (if take (length p) s = p then Some (drop (length p) s) else None)"

definition starts_with :: "string \<Rightarrow> string \<Rightarrow> bool" where
  "starts_with s p \<longleftrightarrow> strip_prefix p s \<noteq> None"

lemma strip_prefix_Some_iff: "strip_prefix p s = Some r \<longleftrightarrow> s = p @ r"
  unfolding strip_prefix_def by (metis append_eq_conv_conj option.inject option.distinct(1))

lemma strip_prefix_append [simp]: "strip_prefix p (p @ r) = Some r"
  by (simp add: strip_prefix_Some_iff)

lemma starts_with_iff: "starts_with s p \<longleftrightarrow> (\<exists>r. s = p @ r)"
  by (auto simp: starts_with_def strip_prefix_Some_iff)

text \<open>The UTF-8 encodings of the characters \<open>char::is_whitespace\<close> accepts, and \<open>str::trim\<close>.\<close>

definition white_space :: "string list" where
  "white_space =
     map (\<lambda>n. [char_of (n :: nat)]) [9, 10, 11, 12, 13, 32] @
     map (\<lambda>n. [CHR 0xC2, char_of (n :: nat)]) [0x85, 0xA0] @
     [[CHR 0xE1, CHR 0x9A, CHR 0x80], [CHR 0xE2, CHR 0x81, CHR 0x9F], [CHR 0xE3, CHR 0x80, CHR 0x80]] @
     map (\<lambda>n. [CHR 0xE2, CHR 0x80, char_of (n :: nat)]) ([0x80 ..< 0x8B] @ [0xA8, 0xA9, 0xAF])"

lemma drop_prefix_shorter: "w \<noteq> [] \<Longrightarrow> take (length w) s = w \<Longrightarrow> length (drop (length w) s) < length s"
  by (cases s; cases w) auto

function trim_start :: "string list \<Rightarrow> string \<Rightarrow> string" where
  "trim_start ws s =
     (case find (\<lambda>w. w \<noteq> [] \<and> take (length w) s = w) ws of
        None \<Rightarrow> s
      | Some w \<Rightarrow> trim_start ws (drop (length w) s))"
  by pat_completeness auto
termination
  by (relation "measure (\<lambda>(ws, s). length s)") (auto dest!: find_SomeD drop_prefix_shorter)

declare trim_start.simps [simp del]

definition trim :: "string \<Rightarrow> string" where
  "trim s = rev (trim_start (map rev white_space) (rev (trim_start white_space s)))"

subsection \<open>Stable sorting by a key\<close>

text \<open>
  \<open>slice::sort_by\<close> and \<open>sort_by_key\<close> are stable, as \<^const>\<open>sort_key\<close> is. When the key
  tells the elements apart, the result depends only on the multiset of elements.
\<close>

lemma sort_key_mset_eq:
  assumes "mset xs = mset ys" and inj: "inj_on f (set xs)"
  shows "sort_key f xs = sort_key f ys"
proof (rule properties_for_sort_key)
  show "mset (sort_key f ys) = mset xs" using assms(1) by simp
  show "sorted (map f (sort_key f ys))" by simp
  fix k
  assume k: "k \<in> set (sort_key f ys)"
  have same: "filter (\<lambda>x. f k = f x) zs = filter (\<lambda>x. k = x) zs" if "set zs = set xs" for zs
  proof (rule filter_cong [OF refl])
    fix x assume "x \<in> set zs"
    with that k mset_eq_setD [OF assms(1)] inj show "(f k = f x) = (k = x)"
      by (auto dest: inj_onD)
  qed
  have "filter (\<lambda>x. k = x) zs = replicate (count (mset zs) k) k" for zs
    by (induction zs) auto
  moreover have "set (sort_key f ys) = set xs" "set xs = set xs"
    using mset_eq_setD [OF assms(1)] by auto
  ultimately show "filter (\<lambda>x. f k = f x) (sort_key f ys) = filter (\<lambda>x. f k = f x) xs"
    using same [of "sort_key f ys"] same [of xs] assms(1) by simp
qed

subsection \<open>Machines that only move forward\<close>

text \<open>
  The interface of a component whose every operation keeps an invariant and moves its state up
  a preorder (a ledger whose evidence never falls, a set that only grows, a head that only
  rises). Every run then does too.
\<close>

locale monotone_machine =
  fixes step :: "'o \<Rightarrow> 's \<Rightarrow> 's"
    and inv :: "'s \<Rightarrow> bool"
    and le :: "'s \<Rightarrow> 's \<Rightarrow> bool"
  assumes inv_step: "inv s \<Longrightarrow> inv (step x s)"
    and le_refl: "le s s"
    and le_trans: "le s t \<Longrightarrow> le t u \<Longrightarrow> le s u"
    and step_le: "inv s \<Longrightarrow> le s (step x s)"
begin

lemma run_inv: "inv s \<Longrightarrow> inv (fold step xs s)"
  by (induction xs arbitrary: s) (auto intro: inv_step)

lemma run_le: "inv s \<Longrightarrow> le s (fold step xs s)"
proof (induction xs arbitrary: s)
  case Nil
  show ?case by (simp add: le_refl)
next
  case (Cons x xs)
  have "le (step x s) (fold step xs (step x s))"
    by (rule Cons.IH) (rule inv_step [OF Cons.prems])
  with step_le [OF Cons.prems, of x] show ?case by (auto intro: le_trans)
qed

lemma run_le_suffix: "inv s \<Longrightarrow> le (fold step xs s) (fold step (xs @ ys) s)"
  by (simp add: run_le run_inv)

end

end
