(* ===== verification/Seat_Queue.thy ===== *)
theory Seat_Queue
  imports Prelude
begin

section \<open>The seat queue\<close>

text \<open>
  Models \<open>crates/fractal-kernel/src/seat_queue.rs\<close>: the ordered queue of mission runs of one
  agent seat. \<open>replay\<close> rebuilds the order from the recorded joins and moves, and \<open>select\<close> is
  the one selector of what a seat holds and takes next. The section on \<open>ordered_line\<close> states
  what every move of an ordered line keeps, as the interface the lane (theory \<open>Lane\<close>) shares.
\<close>

subsection \<open>Placements, joins and moves\<close>

datatype placement = Top | Bottom | Before | After

definition parse :: "string \<Rightarrow> placement option" where
  "parse value =
     (if value = ''top'' then Some Top
      else if value = ''bottom'' then Some Bottom
      else if value = ''before'' then Some Before
      else if value = ''after'' then Some After
      else None)"

fun as_str :: "placement \<Rightarrow> string" where
  "as_str Top = ''top''"
| "as_str Bottom = ''bottom''"
| "as_str Before = ''before''"
| "as_str After = ''after''"

fun needs_anchor :: "placement \<Rightarrow> bool" where
  "needs_anchor Before = True"
| "needs_anchor After = True"
| "needs_anchor _ = False"

record queue_join =
  join_of :: string
  join_at :: nat

record queue_move =
  move_run :: string
  move_placement :: placement
  move_anchor :: "string option"
  move_at :: nat

definition join_run :: "string list \<Rightarrow> string \<Rightarrow> string list" where
  "join_run order run = (if \<exists>queued\<in>set order. queued = run then order else order @ [run])"

text \<open>
  \<open>apply_move\<close> with its two early returns. The \<open>expect("the anchor is queued")\<close> of the source
  is the value \<^const>\<open>None\<close> of \<open>move_slot\<close>; \<open>apply_move_slot\<close> below shows it never arises.
\<close>

definition move_slot :: "placement \<Rightarrow> string option \<Rightarrow> string list \<Rightarrow> nat option" where
  "move_slot placement anchor order =
     (case placement of
        Top \<Rightarrow> Some 0
      | Bottom \<Rightarrow> Some (length order)
      | Before \<Rightarrow> (case anchor of None \<Rightarrow> None | Some a \<Rightarrow> position (\<lambda>queued. queued = a) order)
      | After \<Rightarrow> (case anchor of None \<Rightarrow> None
                 | Some a \<Rightarrow> map_option Suc (position (\<lambda>queued. queued = a) order)))"

definition valid_anchor :: "string list \<Rightarrow> queue_move \<Rightarrow> bool" where
  "valid_anchor order movement =
     (needs_anchor (move_placement movement) \<longrightarrow>
       (case move_anchor movement of
          Some a \<Rightarrow> a \<noteq> move_run movement \<and> (\<exists>run\<in>set order. run = a)
        | None \<Rightarrow> False))"

definition apply_move :: "string list \<Rightarrow> queue_move \<Rightarrow> string list" where
  "apply_move order movement =
     (case position (\<lambda>run. run = move_run movement) order of
        None \<Rightarrow> order
      | Some from \<Rightarrow>
          if \<not> valid_anchor order movement then order
          else let rest = remove_at from order in
            (case move_slot (move_placement movement) (move_anchor movement) rest of
               Some to \<Rightarrow> insert_at to (order ! from) rest
             | None \<Rightarrow> order))"

fun join_due :: "nat \<Rightarrow> string list \<Rightarrow> queue_join list \<Rightarrow> string list \<times> queue_join list" where
  "join_due at order [] = (order, [])"
| "join_due at order (j # pending) =
     (if join_at j \<le> at then join_due at (join_run order (join_of j)) pending
      else (order, j # pending))"

definition join_named :: "string set \<Rightarrow> string list \<Rightarrow> queue_move \<Rightarrow> string list" where
  "join_named known order movement =
     fold (\<lambda>run ord. if run \<in> known then join_run ord run else ord)
       (move_run movement # (case move_anchor movement of None \<Rightarrow> [] | Some a \<Rightarrow> [a])) order"

fun replay_moves ::
  "string set \<Rightarrow> string list \<Rightarrow> queue_join list \<Rightarrow> queue_move list \<Rightarrow> string list \<times> queue_join list"
where
  "replay_moves known order pending [] = (order, pending)"
| "replay_moves known order pending (m # moves) =
     (let (order1, pending1) = join_due (move_at m) order pending;
          order2 = join_named known order1 m
      in replay_moves known (apply_move order2 m) pending1 moves)"

definition replay :: "queue_join list \<Rightarrow> queue_move list \<Rightarrow> string list" where
  "replay joins moves =
     (let js = sort_key (\<lambda>j. (join_at j, join_of j)) joins;
          known = join_of ` set js;
          (order, pending) = replay_moves known [] js moves
      in fold (\<lambda>j ord. join_run ord (join_of j)) pending order)"

subsection \<open>The selector\<close>

record seat_step =
  subject :: string
  step_run :: string
  step :: string
  status :: string
  assignee :: "string option"
  claimant :: "string option"
  available_to :: "string list"
  created_at :: nat
  carried_claimant :: "string option"

record seat_selection =
  held :: "string list"
  ready :: "string list"

definition next_work :: "seat_selection \<Rightarrow> string option" where
  "next_work s = (case ready s of [] \<Rightarrow> None | x # _ \<Rightarrow> Some x)"

definition wake :: "seat_selection \<Rightarrow> string option" where
  "wake s = (if held s = [] then next_work s else None)"

definition nests_under :: "seat_step \<Rightarrow> seat_step \<Rightarrow> bool" where
  "nests_under ancestor s =
     (step_run ancestor = step_run s
      \<and> assignee ancestor = assignee s
      \<and> available_to ancestor = available_to s
      \<and> length (step ancestor) < length (step s)
      \<and> take (length (step ancestor)) (step s) = step ancestor
      \<and> step s ! length (step ancestor) = CHR ''/'')"

definition reached_through_parent :: "seat_step \<Rightarrow> seat_step list \<Rightarrow> bool" where
  "reached_through_parent s steps =
     (\<exists>candidate\<in>set steps. nests_under candidate s \<and> status candidate \<noteq> ''verifying'')"

definition submitted_with_ready_nested_work :: "seat_step \<Rightarrow> seat_step list \<Rightarrow> bool" where
  "submitted_with_ready_nested_work parent steps =
     (status parent = ''verifying''
      \<and> (\<exists>s\<in>set steps. status s = ''ready'' \<and> nests_under parent s))"

text \<open>A run that is not queued ranks last: \<open>usize::MAX\<close>.\<close>

definition rank :: "string list \<Rightarrow> string \<Rightarrow> nat" where
  "rank run_order run =
     (case position (\<lambda>queued. queued = run) run_order of Some i \<Rightarrow> i | None \<Rightarrow> u64_max)"

definition ready_key :: "string \<Rightarrow> string list \<Rightarrow> seat_step \<Rightarrow> bool \<times> nat \<times> nat \<times> string" where
  "ready_key agent run_order s =
     (carried_claimant s \<noteq> Some agent, rank run_order (step_run s), created_at s, subject s)"

definition is_held :: "string \<Rightarrow> seat_step list \<Rightarrow> seat_step \<Rightarrow> bool" where
  "is_held agent steps s =
     (status s \<in> {''claimed'', ''working'', ''verifying''}
      \<and> (claimant s = Some agent \<or> assignee s = Some agent)
      \<and> \<not> submitted_with_ready_nested_work s steps)"

definition is_ready :: "string \<Rightarrow> seat_step list \<Rightarrow> seat_step \<Rightarrow> bool" where
  "is_ready agent steps s =
     (status s = ''ready'' \<and> assignee s = Some agent \<and> \<not> reached_through_parent s steps)"

definition select :: "string \<Rightarrow> seat_step list \<Rightarrow> string list \<Rightarrow> seat_selection" where
  "select agent steps run_order =
     \<lparr>held = map subject (filter (is_held agent steps) steps),
      ready = map subject (sort_key (ready_key agent run_order) (filter (is_ready agent steps) steps))\<rparr>"

subsection \<open>What a move of an ordered line keeps\<close>

text \<open>
  An ordered line is a list of entries told apart by a key; a move takes one entry out and puts
  it back elsewhere. The laws: no entry appears, disappears or changes, and the other entries
  keep their relative order. Every sequence of moves then keeps the line's population and the
  relative order of every entry it does not name.
\<close>

locale ordered_line =
  fixes key :: "'e \<Rightarrow> string"
    and mv :: "'m \<Rightarrow> 'e list \<Rightarrow> 'e list"
    and moved :: "'m \<Rightarrow> string"
  assumes mv_mset: "distinct (map key es) \<Longrightarrow> mset (mv m es) = mset es"
    and mv_others: "distinct (map key es) \<Longrightarrow>
      filter (\<lambda>e. key e \<noteq> moved m) (mv m es) = filter (\<lambda>e. key e \<noteq> moved m) es"
begin

lemma mv_distinct: "distinct (map key es) \<Longrightarrow> distinct (map key (mv m es))"
  using mv_mset [of es m] by (metis mset_eq_imp_distinct_iff mset_map)

lemma mv_set: "distinct (map key es) \<Longrightarrow> set (mv m es) = set es"
  using mv_mset [of es m] by (rule mset_eq_setD)

lemma moves_mset: "distinct (map key es) \<Longrightarrow> mset (fold mv ms es) = mset es"
  by (induction ms arbitrary: es) (simp_all add: mv_mset mv_distinct)

lemma moves_others:
  "distinct (map key es) \<Longrightarrow>
   filter (\<lambda>e. key e \<notin> moved ` set ms) (fold mv ms es) = filter (\<lambda>e. key e \<notin> moved ` set ms) es"
proof (induction ms arbitrary: es)
  case Nil
  then show ?case by simp
next
  case (Cons m ms)
  let ?p = "\<lambda>e. key e \<notin> moved ` set ms" and ?q = "\<lambda>e. key e \<noteq> moved m"
  have pq: "(\<lambda>e. key e \<notin> moved ` set (m # ms)) = (\<lambda>e. ?p e \<and> ?q e)" by auto
  have "filter ?p (fold mv ms (mv m es)) = filter ?p (mv m es)"
    by (rule Cons.IH) (rule mv_distinct [OF Cons.prems])
  then have "filter ?q (filter ?p (fold mv ms (mv m es))) = filter ?p (filter ?q (mv m es))"
    by (simp add: conj_commute)
  also have "\<dots> = filter ?q (filter ?p es)"
    by (simp add: mv_others [OF Cons.prems] conj_commute)
  finally show ?case by (simp add: pq conj_commute)
qed

end

subsection \<open>Lemmas: one move\<close>

lemma needs_anchor_iff: "needs_anchor p \<longleftrightarrow> p = Before \<or> p = After"
  by (cases p) auto

lemma remove_at_position:
  assumes "distinct xs" "position (\<lambda>y. y = x) xs = Some i"
  shows "remove_at i xs = filter (\<lambda>y. y \<noteq> x) xs" "xs ! i = x"
proof -
  from assms(2) obtain ys z zs where xs: "xs = ys @ z # zs" "length ys = i" "z = x"
    by (rule position_split) auto
  with assms(1) show "remove_at i xs = filter (\<lambda>y. y \<noteq> x) xs" "xs ! i = x"
    by (auto simp: remove_at_append nth_append)
qed

lemma apply_move_slot:
  assumes "position (\<lambda>run. run = move_run m) order = Some from" "valid_anchor order m"
  shows "\<exists>to. move_slot (move_placement m) (move_anchor m) (remove_at from order) = Some to"
proof (cases "needs_anchor (move_placement m)")
  case True
  with assms(2) obtain a where a: "move_anchor m = Some a" "a \<noteq> move_run m" "a \<in> set order"
    by (auto simp: valid_anchor_def split: option.splits)
  from assms(1) obtain ys z zs where o: "order = ys @ z # zs" "length ys = from" "z = move_run m"
    by (rule position_split) auto
  with a have "a \<in> set (remove_at from order)" by (auto simp: remove_at_append)
  then have "position (\<lambda>queued. queued = a) (remove_at from order) \<noteq> None"
    by (simp add: position_None_iff)
  with True a(1) show ?thesis by (auto simp: move_slot_def needs_anchor_iff)
next
  case False
  then show ?thesis by (cases "move_placement m") (auto simp: move_slot_def)
qed

lemma apply_move_mset [list_edit]: "mset (apply_move order m) = mset order"
proof (cases "position (\<lambda>run. run = move_run m) order")
  case (Some i)
  then have "i < length order" by (auto dest: position_SomeD)
  with Some show ?thesis
    by (auto simp: apply_move_def Let_def mset_insert_at mset_remove_at split: option.splits)
qed (simp add: apply_move_def)

lemma apply_move_others:
  "filter (\<lambda>r. r \<noteq> move_run m) (apply_move order m) = filter (\<lambda>r. r \<noteq> move_run m) order"
proof (cases "position (\<lambda>run. run = move_run m) order")
  case (Some i)
  then have "i < length order" "order ! i = move_run m" by (auto dest: position_SomeD)
  with Some show ?thesis
    by (auto simp: apply_move_def Let_def filter_insert_at filter_remove_at split: option.splits)
qed (simp add: apply_move_def)

interpretation seat_line: ordered_line "\<lambda>r. r" "\<lambda>m order. apply_move order m" move_run
  by unfold_locales (simp_all add: apply_move_mset apply_move_others)

lemma apply_move_set: "set (apply_move order m) = set order"
  using apply_move_mset by (rule mset_eq_setD)

lemma apply_move_distinct: "distinct (apply_move order m) = distinct order"
  using apply_move_mset by (rule mset_eq_imp_distinct_iff)

subsection \<open>Lemmas: replay\<close>

lemma join_run_set [simp]: "set (join_run order r) = insert r (set order)"
  by (auto simp: join_run_def)

lemma join_run_distinct [simp]: "distinct (join_run order r) = distinct order"
  by (auto simp: join_run_def)

lemma join_due_population:
  "join_due at order pending = (order', pending') \<Longrightarrow>
   set order' \<union> join_of ` set pending' = set order \<union> join_of ` set pending
   \<and> (distinct order \<longrightarrow> distinct order')"
  by (induction at order pending rule: join_due.induct) (auto split: if_splits)

lemma join_named_population:
  "set (join_named known order m)
     = set order \<union> known \<inter> (insert (move_run m) (set_option (move_anchor m)))"
  "distinct order \<Longrightarrow> distinct (join_named known order m)"
  by (auto simp: join_named_def split: option.splits)

lemma replay_moves_population:
  assumes "replay_moves known order pending ms = (order', pending')"
    and "known = set order \<union> join_of ` set pending" and "distinct order"
  shows "set order' \<union> join_of ` set pending' = known \<and> distinct order'"
  using assms
proof (induction ms arbitrary: order pending)
  case Nil
  then show ?case by auto
next
  case (Cons m ms)
  obtain o1 p1 where d: "join_due (move_at m) order pending = (o1, p1)" by fastforce
  from join_due_population [OF d] Cons.prems
  have 1: "set o1 \<union> join_of ` set p1 = known" "distinct o1" by auto
  let ?o2 = "apply_move (join_named known o1 m) m"
  have "known = set ?o2 \<union> join_of ` set p1" "distinct ?o2"
    using 1 by (auto simp: apply_move_set apply_move_distinct join_named_population)
  with Cons.prems(1) d show ?case by (intro Cons.IH) simp_all
qed

lemma join_rest_population:
  "set (fold (\<lambda>j ord. join_run ord (join_of j)) pending order) = set order \<union> join_of ` set pending"
  "distinct order \<Longrightarrow> distinct (fold (\<lambda>j ord. join_run ord (join_of j)) pending order)"
  by (induction pending arbitrary: order) auto

lemma join_key_inj: "inj_on (\<lambda>j. (join_at j, join_of j)) (A :: queue_join set)"
  by (rule inj_onI) (auto intro: queue_join.equality)

subsection \<open>Properties of the queue\<close>

text \<open>
  Rebuilding a seat's order from its joins and moves gives every joined run exactly once,
  whatever the moves say, and the result does not depend on the order in which the joins are
  listed, so replicas that hold the same joins agree.
\<close>

lemma replay_population:
  "distinct (replay joins moves)
   \<and> set (replay joins moves) = join_of ` set joins
   \<and> (mset joins' = mset joins \<longrightarrow> replay joins' moves = replay joins moves)"
proof -
  let ?js = "sort_key (\<lambda>j. (join_at j, join_of j)) joins"
  obtain order pending where r: "replay_moves (join_of ` set ?js) [] ?js moves = (order, pending)"
    by fastforce
  from replay_moves_population [OF r]
  have "set order \<union> join_of ` set pending = join_of ` set joins" "distinct order" by auto
  with r have "distinct (replay joins moves)" "set (replay joins moves) = join_of ` set joins"
    by (simp_all add: replay_def Let_def join_rest_population)
  moreover have "replay joins' moves = replay joins moves" if "mset joins' = mset joins"
    using sort_key_mset_eq [OF that join_key_inj] by (simp add: replay_def Let_def)
  ultimately show ?thesis by blast
qed

text \<open>
  A move of a queued run in a queue without repeats never hits the "anchor is queued" panic
  and puts the run exactly where its placement says, leaving the other runs in order: first, last,
  directly before or directly after the anchor; a move whose anchor is missing, is the run itself
  or is not queued changes nothing.
\<close>

lemma apply_move_places:
  assumes "distinct order" "move_run m \<in> set order"
  shows "let rest = filter (\<lambda>r. r \<noteq> move_run m) order; moved = apply_move order m in
    (case move_placement m of
       Top \<Rightarrow> moved = move_run m # rest
     | Bottom \<Rightarrow> moved = rest @ [move_run m]
     | _ \<Rightarrow>
       if valid_anchor order m then
         \<exists>a xs ys. move_anchor m = Some a \<and> rest = xs @ a # ys
           \<and> moved = (if move_placement m = Before then xs @ move_run m # a # ys
                       else xs @ a # move_run m # ys)
       else moved = order)"
proof -
  obtain i where i: "position (\<lambda>r. r = move_run m) order = Some i"
    using assms(2) by (cases "position (\<lambda>r. r = move_run m) order") (auto simp: position_None_iff)
  note rest = remove_at_position [OF assms(1) i]
  let ?rest = "filter (\<lambda>r. r \<noteq> move_run m) order"
  show ?thesis
  proof (cases "needs_anchor (move_placement m) \<and> valid_anchor order m")
    case False
    with i rest show ?thesis
      by (cases "move_placement m")
        (auto simp: apply_move_def move_slot_def valid_anchor_def list_edit Let_def)
  next
    case True
    then obtain a where a: "move_anchor m = Some a" "a \<noteq> move_run m" "a \<in> set order"
      by (auto simp: valid_anchor_def split: option.splits)
    then have "a \<in> set ?rest" by simp
    then obtain k where k: "position (\<lambda>q. q = a) ?rest = Some k"
      by (cases "position (\<lambda>q. q = a) ?rest") (auto simp: position_None_iff)
    then obtain xs z ys where xs: "?rest = xs @ z # ys" "length xs = k" "z = a"
      by (rule position_split) auto
    have ins: "insert_at (Suc (length xs)) r (xs @ a # ys) = xs @ a # r # ys" for r
      using insert_at_append [of "xs @ [a]" r ys] by simp
    from True i rest a k xs show ?thesis
      by (auto simp: needs_anchor_iff apply_move_def move_slot_def insert_at_append ins Let_def; blast)
  qed
qed

subsection \<open>Properties of the selector\<close>

lemma select_simps [simp]:
  "held (select agent steps ro) = map subject (filter (is_held agent steps) steps)"
  "ready (select agent steps ro)
     = map subject (sort_key (ready_key agent ro) (filter (is_ready agent steps) steps))"
  by (simp_all add: select_def)

lemma held_nonempty: "s \<in> set steps \<Longrightarrow> is_held agent steps s \<Longrightarrow> held (select agent steps ro) \<noteq> []"
  by (auto simp: filter_empty_conv)

lemma ready_nonempty: "s \<in> set steps \<Longrightarrow> is_ready agent steps s \<Longrightarrow> ready (select agent steps ro) \<noteq> []"
  by (metis filter_empty_conv mset_sort mset_zero_iff select_simps(2) Nil_is_map_conv)

text \<open>
  The step a seat is woken for is one of the listed ready steps assigned to it that no parent
  step reaches, it is first in the selector's order (a step a revision took from the seat before
  any other, then queue position, creation time and subject), and a seat is only woken while it
  holds nothing.
\<close>

lemma wake_is_first_ready:
  assumes "wake (select agent steps run_order) = Some next"
  shows "(\<forall>s\<in>set steps. \<not> is_held agent steps s)
    \<and> (\<exists>s\<in>set steps. subject s = next \<and> is_ready agent steps s
         \<and> (\<forall>s'\<in>set steps. is_ready agent steps s' \<longrightarrow>
               ready_key agent run_order s \<le> ready_key agent run_order s'))"
proof -
  let ?rs = "filter (is_ready agent steps) steps"
  from assms have "held (select agent steps run_order) = []"
    and rd: "next_work (select agent steps run_order) = Some next"
    by (auto simp: wake_def split: if_splits)
  then have h: "\<forall>s\<in>set steps. \<not> is_held agent steps s" by (auto simp: filter_empty_conv)
  from rd obtain s ss where s: "sort_key (ready_key agent run_order) ?rs = s # ss" "next = subject s"
    by (auto simp: next_work_def split: list.splits)
  have "set (s # ss) = set ?rs" using s(1) by (metis set_sort)
  moreover have "sorted (map (ready_key agent run_order) (s # ss))" using s(1) by (metis sorted_sort_key)
  ultimately have "s \<in> set ?rs" "\<forall>s'\<in>set ?rs. ready_key agent run_order s \<le> ready_key agent run_order s'"
    by auto
  with h s(2) show ?thesis by auto
qed

lemma some_step_occupies_seat:
  assumes "\<forall>s\<in>set steps. status s \<in> {''ready'', ''claimed'', ''working'', ''verifying''}"
    and "s \<in> set steps" "status s = ''ready''" "assignee s = Some agent"
  shows "\<exists>s'\<in>set steps. is_held agent steps s' \<or> is_ready agent steps s'"
  using assms(2-)
proof (induction "length (step s)" arbitrary: s rule: less_induct)
  case less
  show ?case
  proof (cases "reached_through_parent s steps")
    case False
    with less.prems show ?thesis by (auto simp: is_ready_def)
  next
    case True
    then obtain c where c: "c \<in> set steps" "nests_under c s" "status c \<noteq> ''verifying''"
      by (auto simp: reached_through_parent_def)
    then have len: "length (step c) < length (step s)" and asg: "assignee c = Some agent"
      using less.prems by (auto simp: nests_under_def)
    show ?thesis
    proof (cases "status c = ''ready''")
      case True
      then show ?thesis using less.hyps [OF len c(1) _ asg] by blast
    next
      case False
      then have "is_held agent steps c"
        using assms(1) c asg by (auto simp: is_held_def submitted_with_ready_nested_work_def)
      with c(1) show ?thesis by blast
    qed
  qed
qed

text \<open>
  C34. A seat with ready work is never idle for want of a selectable step: when every listed step
  is ready, claimed, working or verifying and at least one ready step is assigned to the seat, the
  seat either holds a step or is woken for one. Nested steps do not defeat this: an unsubmitted
  parent is itself held or ready, and a submitted one neither occupies the seat nor hides them.
\<close>

theorem select_no_starvation:
  assumes "\<forall>s\<in>set steps. status s \<in> {''ready'', ''claimed'', ''working'', ''verifying''}"
    and "s \<in> set steps" "status s = ''ready''" "assignee s = Some agent"
  shows "held (select agent steps run_order) \<noteq> [] \<or> wake (select agent steps run_order) \<noteq> None"
proof -
  from some_step_occupies_seat [OF assms] obtain s' where "s' \<in> set steps"
    "is_held agent steps s' \<or> is_ready agent steps s'" by blast
  then have "held (select agent steps run_order) \<noteq> [] \<or> ready (select agent steps run_order) \<noteq> []"
    using held_nonempty ready_nonempty by blast
  then show ?thesis by (auto simp: wake_def next_work_def split: list.splits)
qed

lemma select_no_starvation_witness:
  "let parent = \<lparr>subject = ''work/1'', step_run = ''r'', step = ''s'', status = ''verifying'',
         assignee = Some ''agent/a'', claimant = Some ''agent/a'', available_to = [], created_at = 1,
         carried_claimant = None\<rparr>;
       nested = \<lparr>subject = ''work/2'', step_run = ''r'', step = ''s/t'', status = ''ready'',
         assignee = Some ''agent/a'', claimant = None, available_to = [], created_at = 2,
         carried_claimant = None\<rparr>;
       sel = select ''agent/a'' [parent, nested] [''r'']
   in held sel \<noteq> [] \<or> wake sel \<noteq> None"
  unfolding Let_def by (rule select_no_starvation [where s = "\<lparr>subject = ''work/2'',
         step_run = ''r'', step = ''s/t'', status = ''ready'',
         assignee = Some ''agent/a'', claimant = None, available_to = [], created_at = 2,
         carried_claimant = None\<rparr>"]) simp_all

end
