(* ===== verification/Lane.thy ===== *)
theory Lane
  imports Seat_Queue
begin

section \<open>Lanes\<close>

text \<open>
  Models \<open>crates/fractal-kernel/src/lane.rs\<close>: one ordered line of entries that a mission run
  works through front first, rebuilt by \<open>replay\<close> from its join, leave, move, mark and approve
  claims. The moves interpret the \<open>ordered_line\<close> interface of the seat queue.
\<close>

subsection \<open>Claims, entries and history records\<close>

datatype change =
    Joined
  | Left string
  | Moved placement "string option"
  | Marked string "string option" "string option"
  | Approved

fun kind :: "change \<Rightarrow> string" where
  "kind Joined = ''joined''"
| "kind (Left _) = ''left''"
| "kind (Moved _ _) = ''moved''"
| "kind (Marked _ _ _) = ''marked''"
| "kind Approved = ''approved''"

record event =
  claim_id :: string
  event_at :: nat
  actor :: string
  event_entry :: string
  reason :: "string option"
  change :: change

record lane_entry =
  entry_position :: nat
  entry :: string
  state :: string
  detail :: "string option"
  head :: "string option"
  marked_by :: "string option"
  marked_at :: "nat option"
  joined_by :: string
  joined_at :: nat
  join_reason :: "string option"
  approved_by :: "string option"
  approved_at :: "nat option"

record recent_record =
  recent_kind :: string
  recent_entry :: string
  recent_actor :: string
  recent_at :: nat
  outcome :: "string option"
  recent_placement :: "string option"
  recent_anchor :: "string option"
  recent_reason :: "string option"

record replayed =
  entries :: "lane_entry list"
  recent :: "recent_record list"

subsection \<open>Operations\<close>

definition recent_of :: "event \<Rightarrow> recent_record" where
  "recent_of e =
     (let (out, plc, anc) =
        (case change e of
           Left o1 \<Rightarrow> (Some o1, None, None)
         | Moved p a \<Rightarrow> (None, Some (as_str p), a)
         | _ \<Rightarrow> (None, None, None))
      in \<lparr>recent_kind = kind (change e), recent_entry = event_entry e, recent_actor = actor e,
          recent_at = event_at e, outcome = out, recent_placement = plc, recent_anchor = anc,
          recent_reason = reason e\<rparr>)"

definition fresh_entry :: "event \<Rightarrow> lane_entry" where
  "fresh_entry e =
     \<lparr>entry_position = 0, entry = event_entry e, state = ''waiting'', detail = None, head = None,
      marked_by = None, marked_at = None, joined_by = actor e, joined_at = event_at e,
      join_reason = reason e, approved_by = None, approved_at = None\<rparr>"

definition entry_slot :: "placement \<Rightarrow> string option \<Rightarrow> lane_entry list \<Rightarrow> nat option" where
  "entry_slot placement anchor es =
     (case placement of
        Top \<Rightarrow> Some 0
      | Bottom \<Rightarrow> Some (length es)
      | Before \<Rightarrow> (case anchor of None \<Rightarrow> None | Some a \<Rightarrow> position (\<lambda>e. entry e = a) es)
      | After \<Rightarrow> (case anchor of None \<Rightarrow> None
                 | Some a \<Rightarrow> map_option Suc (position (\<lambda>e. entry e = a) es)))"

text \<open>\<open>move_entry\<close> returns false, and leaves the lane alone, where this is \<^const>\<open>None\<close>.\<close>

definition move_entry ::
  "lane_entry list \<Rightarrow> nat \<Rightarrow> placement \<Rightarrow> string option \<Rightarrow> lane_entry list option"
where
  "move_entry es from placement anchor =
     (if needs_anchor placement \<and>
         \<not> (case anchor of
              Some a \<Rightarrow> a \<noteq> entry (es ! from) \<and> (\<exists>e\<in>set es. entry e = a)
            | None \<Rightarrow> False)
      then None
      else let rest = remove_at from es in
        map_option (\<lambda>to. insert_at to (es ! from) rest) (entry_slot placement anchor rest))"

definition mark_entry :: "event \<Rightarrow> string \<Rightarrow> string option \<Rightarrow> string option \<Rightarrow> lane_entry \<Rightarrow> lane_entry" where
  "mark_entry ev st det hea e =
     e\<lparr>state := st, detail := det, head := hea, marked_by := Some (actor ev),
       marked_at := Some (event_at ev)\<rparr>"

definition approve_entry :: "event \<Rightarrow> lane_entry \<Rightarrow> lane_entry" where
  "approve_entry ev e = e\<lparr>approved_by := Some (actor ev), approved_at := Some (event_at ev)\<rparr>"

text \<open>One claim: the new entries and whether the claim applied.\<close>

definition apply_change :: "event \<Rightarrow> lane_entry list \<Rightarrow> lane_entry list \<times> bool" where
  "apply_change ev es =
     (case position (\<lambda>e. entry e = event_entry ev) es of
        None \<Rightarrow>
          (case change ev of
             Joined \<Rightarrow> (es @ [fresh_entry ev], True)
           | _ \<Rightarrow> (es, False))
      | Some i \<Rightarrow>
          (case change ev of
             Joined \<Rightarrow> (es, False)
           | Left _ \<Rightarrow> (remove_at i es, True)
           | Moved p a \<Rightarrow>
               (case move_entry es i p a of Some es' \<Rightarrow> (es', True) | None \<Rightarrow> (es, False))
           | Marked st det hea \<Rightarrow> (es[i := mark_entry ev st det hea (es ! i)], True)
           | Approved \<Rightarrow> (es[i := approve_entry ev (es ! i)], True)))"

fun is_mark :: "change \<Rightarrow> bool" where
  "is_mark (Marked _ _ _) = True"
| "is_mark _ = False"

definition replay_event :: "event \<Rightarrow> lane_entry list \<times> recent_record list \<Rightarrow> lane_entry list \<times> recent_record list" where
  "replay_event ev st =
     (let (es, rec) = st; (es', applied) = apply_change ev es
      in (es', if applied \<and> \<not> is_mark (change ev) then rec @ [recent_of ev] else rec))"

definition replay :: "event list \<Rightarrow> nat \<Rightarrow> replayed" where
  "replay events recent_limit =
     (let (es, rec) = fold replay_event (sort_key event_at events) ([], [])
      in \<lparr>entries = map (\<lambda>(i, e). e\<lparr>entry_position := i + 1\<rparr>) (enumerate 0 es),
          recent = take recent_limit (rev rec)\<rparr>)"

subsection \<open>Subjects of lanes and entries\<close>

definition lane_subject :: "string \<Rightarrow> string \<Rightarrow> string" where
  "lane_subject run name =
     ''lane/'' @ (case strip_prefix ''mission-run/'' run of Some r \<Rightarrow> r | None \<Rightarrow> run) @ ''/'' @ name"

definition entry_subject :: "string option \<Rightarrow> string \<Rightarrow> string" where
  "entry_subject prefix arg =
     (let argument = trim arg;
          short = (case strip_prefix ''#'' argument of Some s \<Rightarrow> s | None \<Rightarrow> argument)
      in case prefix of
           Some p \<Rightarrow>
             if short \<noteq> [] \<and> \<not> starts_with short p \<and> CHR ''/'' \<notin> set short then p @ short
             else argument
         | None \<Rightarrow> argument)"

definition short_entry :: "string option \<Rightarrow> string \<Rightarrow> string" where
  "short_entry prefix e =
     (case Option.bind prefix (\<lambda>p. strip_prefix p e) of
        Some rest \<Rightarrow> (if rest \<noteq> [] then rest else e)
      | None \<Rightarrow> e)"

subsection \<open>Lemmas: moves\<close>

lemma apply_change_absent:
  "\<forall>e\<in>set es. entry e \<noteq> event_entry ev \<Longrightarrow>
   apply_change ev es = (if change ev = Joined then (es @ [fresh_entry ev], True) else (es, False))"
  using position_None_iff [of "\<lambda>e. entry e = event_entry ev" es]
  by (simp add: apply_change_def split: change.splits)

lemma apply_change_present:
  assumes "\<forall>y\<in>set ys. entry y \<noteq> event_entry ev" "entry e = event_entry ev"
  shows "apply_change ev (ys @ e # zs) =
    (case change ev of
       Joined \<Rightarrow> (ys @ e # zs, False)
     | Left _ \<Rightarrow> (ys @ zs, True)
     | Moved p a \<Rightarrow>
         (case move_entry (ys @ e # zs) (length ys) p a of
            Some es' \<Rightarrow> (es', True) | None \<Rightarrow> (ys @ e # zs, False))
     | Marked st det hea \<Rightarrow> (ys @ mark_entry ev st det hea e # zs, True)
     | Approved \<Rightarrow> (ys @ approve_entry ev e # zs, True))"
proof -
  have "position (\<lambda>e. entry e = event_entry ev) (ys @ e # zs) = Some (length ys)"
    using assms by (simp add: position_append)
  then show ?thesis by (simp add: apply_change_def remove_at_append split: change.splits)
qed

lemma entry_cases:
  obtains "\<forall>e\<in>set es. entry e \<noteq> x"
  | ys e zs where "es = ys @ e # zs" "entry e = x" "\<forall>y\<in>set ys. entry y \<noteq> x"
  using split_list_first_prop [of es "\<lambda>e. entry e = x"] by blast

lemma move_entry_slot:
  assumes "i < length es" "\<not> needs_anchor p \<or> (\<exists>a. anchor = Some a \<and> a \<noteq> entry (es ! i) \<and> a \<in> entry ` set es)"
  shows "\<exists>es'. move_entry es i p anchor = Some es'"
proof (cases "needs_anchor p")
  case True
  with assms(2) obtain a e where a: "anchor = Some a" "entry e = a" "e \<in> set es" "a \<noteq> entry (es ! i)"
    by auto
  then have "e \<in> set (remove_at i es)"
    using assms(1) by (metis id_take_nth_drop in_set_conv_decomp remove_at_def set_ConsD Un_iff set_append)
  with a have "\<exists>k. position (\<lambda>e. entry e = a) (remove_at i es) = Some k"
    by (cases "position (\<lambda>e. entry e = a) (remove_at i es)") (auto simp: position_None_iff)
  with True a show ?thesis
    by (auto simp: move_entry_def entry_slot_def needs_anchor_iff Let_def)
next
  case False
  then show ?thesis by (cases p) (auto simp: move_entry_def entry_slot_def Let_def)
qed

lemma move_entry_mset:
  "i < length es \<Longrightarrow> move_entry es i p anchor = Some es' \<Longrightarrow> mset es' = mset es"
  by (auto simp: move_entry_def Let_def mset_insert_at mset_remove_at split: if_splits)

lemma move_entry_others:
  "i < length es \<Longrightarrow> move_entry es i p anchor = Some es' \<Longrightarrow>
   filter (\<lambda>e. entry e \<noteq> entry (es ! i)) es' = filter (\<lambda>e. entry e \<noteq> entry (es ! i)) es"
  by (auto simp: move_entry_def Let_def filter_insert_at filter_remove_at split: if_splits)

text \<open>A move of a named entry, as a move of an ordered line.\<close>

definition move_named :: "string \<times> placement \<times> string option \<Rightarrow> lane_entry list \<Rightarrow> lane_entry list" where
  "move_named m es =
     (case m of (x, p, a) \<Rightarrow>
        (case position (\<lambda>e. entry e = x) es of
           None \<Rightarrow> es
         | Some i \<Rightarrow> (case move_entry es i p a of Some es' \<Rightarrow> es' | None \<Rightarrow> es)))"

interpretation lane_line: ordered_line entry move_named fst
proof
  fix m :: "string \<times> placement \<times> string option" and es :: "lane_entry list"
  obtain x p a where m: "m = (x, p, a)" by (cases m)
  show "mset (move_named m es) = mset es"
    by (auto simp: m move_named_def split: option.splits dest!: position_SomeD dest: move_entry_mset)
  show "filter (\<lambda>e. entry e \<noteq> fst m) (move_named m es) = filter (\<lambda>e. entry e \<noteq> fst m) es"
    by (auto simp: m move_named_def split: option.splits dest!: position_SomeD dest: move_entry_others)
qed

lemma apply_change_Moved:
  "change ev = Moved p a \<Longrightarrow> fst (apply_change ev es) = move_named (event_entry ev, p, a) es"
  by (auto simp: apply_change_def move_named_def split: option.splits)

subsection \<open>Lemmas: one entry's own history\<close>

text \<open>
  What the claims that name one entry do to it, without the line around it: absent until a join,
  changed by marks and approvals, absent again after a leave. Moves do not appear.
\<close>

definition entry_step :: "string \<Rightarrow> event \<Rightarrow> lane_entry option \<Rightarrow> lane_entry option" where
  "entry_step x ev cur =
     (if event_entry ev \<noteq> x then cur
      else case cur of
        None \<Rightarrow> (if change ev = Joined then Some (fresh_entry ev) else None)
      | Some e \<Rightarrow>
          (case change ev of
             Left _ \<Rightarrow> None
           | Marked st det hea \<Rightarrow> Some (mark_entry ev st det hea e)
           | Approved \<Rightarrow> Some (approve_entry ev e)
           | _ \<Rightarrow> Some e))"

lemma entry_of_simps [simp]:
  "entry (fresh_entry ev) = event_entry ev"
  "entry (mark_entry ev st det hea e) = entry e"
  "entry (approve_entry ev e) = entry e"
  by (simp_all add: fresh_entry_def mark_entry_def approve_entry_def)

lemma apply_change_distinct:
  assumes "distinct (map entry es)"
  shows "distinct (map entry (fst (apply_change ev es)))"
proof (cases rule: entry_cases [of es "event_entry ev"])
  case 1
  with assms show ?thesis by (auto simp: apply_change_absent)
next
  case (2 ys e zs)
  show ?thesis
  proof (cases "\<exists>p a. change ev = Moved p a")
    case True
    with assms show ?thesis by (auto simp: apply_change_Moved lane_line.mv_distinct)
  next
    case False
    with 2 assms show ?thesis by (auto simp: apply_change_present split: change.splits)
  qed
qed

lemma apply_change_find:
  assumes "distinct (map entry es)"
  shows "find (\<lambda>e. entry e = x) (fst (apply_change ev es))
       = entry_step x ev (find (\<lambda>e. entry e = x) es)"
proof (cases rule: entry_cases [of es "event_entry ev"])
  case 1
  then show ?thesis
    by (auto simp: apply_change_absent entry_step_def split: option.splits)
next
  case (2 ys e zs)
  show ?thesis
  proof (cases "\<exists>p a. change ev = Moved p a")
    case True
    with assms have "find (\<lambda>e. entry e = x) (fst (apply_change ev es)) = find (\<lambda>e. entry e = x) es"
      by (auto simp: apply_change_Moved lane_line.mv_distinct lane_line.mv_set intro!: find_key_set_eq)
    with True show ?thesis by (auto simp: entry_step_def split: option.splits)
  next
    case False
    have none: "find (\<lambda>e. entry e = event_entry ev) zs = None"
      using assms 2 by (auto intro!: find_none simp: image_iff)
    from False 2 none show ?thesis
      by (auto simp: apply_change_present entry_step_def split: change.splits option.splits)
  qed
qed

subsection \<open>Lemmas: the whole replay\<close>

lemma replay_event_fst: "fst (replay_event ev st) = fst (apply_change ev (fst st))"
  by (simp add: replay_event_def split_beta Let_def)

lemma replay_fold_distinct:
  "distinct (map entry (fst st)) \<Longrightarrow> distinct (map entry (fst (fold replay_event evs st)))"
  by (induction evs arbitrary: st) (simp_all add: replay_event_fst apply_change_distinct)

lemma replay_fold_find:
  "distinct (map entry (fst st)) \<Longrightarrow>
   find (\<lambda>e. entry e = x) (fst (fold replay_event evs st))
     = fold (entry_step x) evs (find (\<lambda>e. entry e = x) (fst st))"
  by (induction evs arbitrary: st) (simp_all add: replay_event_fst apply_change_distinct apply_change_find)

lemma entry_step_position:
  "(\<And>e. cur = Some e \<Longrightarrow> entry_position e = 0) \<Longrightarrow> entry_step x ev cur = Some e' \<Longrightarrow> entry_position e' = 0"
  by (auto simp: entry_step_def fresh_entry_def mark_entry_def approve_entry_def
      split: if_splits option.splits change.splits)

lemma entry_history_position:
  assumes "\<And>e. cur = Some e \<Longrightarrow> entry_position e = 0" "fold (entry_step x) evs cur = Some e'"
  shows "entry_position e' = 0"
  using assms
proof (induction evs arbitrary: cur)
  case Nil
  then show ?case by simp
next
  case (Cons ev evs)
  show ?case
  proof (rule Cons.IH)
    show "entry_position e = 0" if "entry_step x ev cur = Some e" for e
      using Cons.prems(1) that by (rule entry_step_position)
  qed (use Cons.prems(2) in simp)
qed

definition number_entries :: "nat \<Rightarrow> lane_entry list \<Rightarrow> lane_entry list" where
  "number_entries n es = map (\<lambda>(i, e). e\<lparr>entry_position := i + 1\<rparr>) (enumerate n es)"

lemma number_entries_simps [simp]:
  "number_entries n [] = []"
  "number_entries n (e # es) = e\<lparr>entry_position := n + 1\<rparr> # number_entries (Suc n) es"
  by (simp_all add: number_entries_def)

lemma number_entries_facts:
  "length (number_entries n es) = length es"
  "map entry (number_entries n es) = map entry es"
  "map entry_position (number_entries n es) = [Suc n ..< Suc n + length es]"
  "map_option (\<lambda>e. e\<lparr>entry_position := 0\<rparr>) (find (\<lambda>e. entry e = x) (number_entries n es))
     = map_option (\<lambda>e. e\<lparr>entry_position := 0\<rparr>) (find (\<lambda>e. entry e = x) es)"
  by (induction es arbitrary: n) (auto simp: upt_conv_Cons simp del: upt_Suc)

lemma replay_entries:
  "entries (replay events n) = number_entries 0 (fst (fold replay_event (sort_key event_at events) ([], [])))"
  by (simp add: replay_def number_entries_def split_beta Let_def)

subsection \<open>Properties\<close>

text \<open>
  C35. The lane is exactly the independent histories of its entries put in line: an entry is in the
  replayed lane with a given join, status and approval if and only if its own claims, in graph
  time, leave it so (a leave forgets the status and approval, a repeated join changes nothing, a
  claim about an absent entry changes nothing); no entry is listed twice, and the positions count
  1, 2, 3, and so on.
\<close>

theorem lane_refines_histories:
  "map_option (\<lambda>e. e\<lparr>entry_position := 0\<rparr>) (find (\<lambda>e. entry e = x) (entries (replay events n)))
     = fold (entry_step x) (sort_key event_at events) None
   \<and> distinct (map entry (entries (replay events n)))
   \<and> map entry_position (entries (replay events n)) = [1 ..< Suc (length (entries (replay events n)))]"
proof -
  let ?es = "fst (fold replay_event (sort_key event_at events) ([], []))"
  let ?h = "fold (entry_step x) (sort_key event_at events) None"
  have f: "find (\<lambda>e. entry e = x) ?es = ?h"
    using replay_fold_find [of "([], [])" x "sort_key event_at events"] by simp
  have "map_option (\<lambda>e. e\<lparr>entry_position := 0\<rparr>) ?h = ?h"
  proof (cases ?h)
    case (Some e)
    then have "entry_position e = 0" using entry_history_position [of None] by blast
    with Some show ?thesis by simp
  qed simp
  moreover have "distinct (map entry ?es)"
    by (rule replay_fold_distinct) simp
  ultimately show ?thesis
    by (simp add: replay_entries number_entries_facts f)
qed

lemma replay_event_recent:
  "map recent_at (snd (replay_event ev st)) \<in> {map recent_at (snd st), map recent_at (snd st) @ [event_at ev]}"
  by (simp add: replay_event_def recent_of_def split_beta Let_def)

lemma replay_fold_recent:
  assumes "sorted (map event_at evs)" "sorted (map recent_at (snd st))"
    and "\<forall>t\<in>set (map recent_at (snd st)). \<forall>ev\<in>set evs. t \<le> event_at ev"
  shows "sorted (map recent_at (snd (fold replay_event evs st)))"
  using assms
proof (induction evs arbitrary: st)
  case Nil
  then show ?case by simp
next
  case (Cons ev evs)
  have "sorted (map recent_at (snd (replay_event ev st)))"
    using replay_event_recent [of ev st] Cons.prems by (auto simp: sorted_append)
  moreover have "\<forall>t\<in>set (map recent_at (snd (replay_event ev st))). \<forall>ev'\<in>set evs. t \<le> event_at ev'"
  proof -
    have "set (map recent_at (snd (replay_event ev st))) \<subseteq> insert (event_at ev) (set (map recent_at (snd st)))"
      using replay_event_recent [of ev st] by (metis (no_types, lifting) Un_insert_right insert_iff
          list.set(2) set_append singletonD subset_insertI sup_bot_right order_refl empty_set)
    with Cons.prems show ?thesis by fastforce
  qed
  ultimately show ?case using Cons.IH [of "replay_event ev st"] Cons.prems(1) by simp
qed

text \<open>
  Replicas that hold the same lane claims show the same lane and history: with distinct graph
  times the replay does not depend on the order the claims are listed in. The history is newest
  first and never longer than the limit.
\<close>

lemma lane_replicas_agree:
  assumes "mset events' = mset events" "inj_on event_at (set events)"
  shows "replay events' n = replay events n
    \<and> length (recent (replay events n)) \<le> n
    \<and> sorted (rev (map recent_at (recent (replay events n))))"
proof -
  have "sort_key event_at events' = sort_key event_at events"
    using assms by (intro sort_key_mset_eq) (auto dest: mset_eq_setD)
  then have "replay events' n = replay events n" by (simp add: replay_def)
  moreover have r: "recent (replay events n)
      = take n (rev (snd (fold replay_event (sort_key event_at events) ([], []))))"
    by (simp add: replay_def split_beta Let_def)
  moreover have "sorted (map recent_at (snd (fold replay_event (sort_key event_at events) ([], []))))"
    by (rule replay_fold_recent) simp_all
  then have "sorted (rev (map recent_at (recent (replay events n))))"
    unfolding r by (simp add: rev_map rev_take drop_map [symmetric] sorted_wrt_drop)
  ultimately show ?thesis by simp
qed

text \<open>
  A lane orders its entries exactly as a seat queue orders its runs: moving an entry that is in
  a lane without repeats gives, on the entries' names, the result of the seat queue's move.
\<close>

lemma lane_moves_like_seat_queue:
  assumes "distinct (map entry es)" "x \<in> entry ` set es"
  shows "map entry (move_named (x, p, a) es)
    = apply_move (map entry es)
        \<lparr>move_run = x, move_placement = p, move_anchor = a, move_at = t\<rparr>"
proof -
  obtain i where i: "position (\<lambda>e. entry e = x) es = Some i"
    using assms(2) by (cases "position (\<lambda>e. entry e = x) es") (auto simp: position_None_iff)
  then have e: "i < length es" "entry (es ! i) = x" by (auto dest: position_SomeD)
  have slot: "move_slot p a (remove_at i (map entry es)) = entry_slot p a (remove_at i es)"
    by (simp add: move_slot_def entry_slot_def map_remove_at [symmetric] position_map
        split: placement.split option.split)
  have va: "valid_anchor (map entry es) \<lparr>move_run = x, move_placement = p, move_anchor = a, move_at = t\<rparr>
    \<longleftrightarrow> \<not> (needs_anchor p \<and> \<not> (case a of Some a \<Rightarrow> a \<noteq> entry (es ! i) \<and> (\<exists>e\<in>set es. entry e = a)
            | None \<Rightarrow> False))"
    using e by (auto simp: valid_anchor_def split: option.splits)
  show ?thesis
    using i e
    by (cases "entry_slot p a (remove_at i es)")
      (simp_all add: move_named_def apply_move_def move_entry_def position_map slot va Let_def
        map_insert_at map_remove_at)
qed

end
