(* ===== verification/Text_Codec.thy ===== *)
theory Text_Codec
  imports Prelude
begin

section \<open>Text: character classes, decimal and hexadecimal\<close>

text \<open>
  The parts of the standard library that read and print text: ASCII classes, \<open>split_once\<close>,
  \<open>strip_suffix\<close>, decimal printing and parsing of integers, lowercase hexadecimal digits, ASCII letter case,
  \<open>char::is_whitespace\<close> and \<open>String::from_utf8\<close> on bytes.
\<close>

subsection \<open>Characters and splitting\<close>

definition is_digit :: "char \<Rightarrow> bool" where
  "is_digit c = (CHR ''0'' \<le> c \<and> c \<le> CHR ''9'')"

definition is_lower :: "char \<Rightarrow> bool" where
  "is_lower c = (CHR ''a'' \<le> c \<and> c \<le> CHR ''z'')"

definition is_upper :: "char \<Rightarrow> bool" where
  "is_upper c = (CHR ''A'' \<le> c \<and> c \<le> CHR ''Z'')"

definition is_hex :: "char \<Rightarrow> bool" where
  "is_hex c = (is_digit c \<or> CHR ''a'' \<le> c \<and> c \<le> CHR ''f'')"

definition strip_suffix :: "string \<Rightarrow> string \<Rightarrow> string option" where
  "strip_suffix suf s = map_option rev (strip_prefix (rev suf) (rev s))"

definition split_once :: "char \<Rightarrow> string \<Rightarrow> (string \<times> string) option" where
  "split_once c s =
     map_option (\<lambda>i. (take i s, drop (Suc i) s)) (position (\<lambda>x. x = c) s)"

lemma split_once_append: "c \<notin> set xs \<Longrightarrow> split_once c (xs @ c # ys) = Some (xs, ys)"
proof -
  assume "c \<notin> set xs"
  then have "position (\<lambda>x. x = c) (xs @ c # ys) = Some (length xs)" by (induction xs) auto
  then show ?thesis by (simp add: split_once_def)
qed

subsection \<open>Decimal\<close>

definition digit :: "nat \<Rightarrow> char" where
  "digit n = char_of (n + 48)"

definition digit_value :: "char \<Rightarrow> nat" where
  "digit_value c = of_char c - 48"

fun decimal :: "nat \<Rightarrow> string" where
  "decimal n = (if n < 10 then [digit n] else decimal (n div 10) @ [digit (n mod 10)])"

declare decimal.simps [simp del]

definition decimal_value :: "string \<Rightarrow> nat" where
  "decimal_value s = foldl (\<lambda>n c. 10 * n + digit_value c) 0 s"

text \<open>\<open>str::parse\<close> at an unsigned type with the given largest value, and at \<open>i64\<close>.\<close>

definition parse_unsigned :: "nat \<Rightarrow> string \<Rightarrow> nat option" where
  "parse_unsigned limit s =
     (let t = (case s of c # r \<Rightarrow> if c = CHR ''+'' then r else s | [] \<Rightarrow> s)
      in if t \<noteq> [] \<and> list_all is_digit t \<and> decimal_value t \<le> limit then Some (decimal_value t) else None)"

definition parse_i64 :: "string \<Rightarrow> int option" where
  "parse_i64 s =
     (case s of
        c # r \<Rightarrow>
          if c = CHR ''-'' then
            (if r \<noteq> [] \<and> list_all is_digit r \<and> decimal_value r \<le> 2 ^ 63 then Some (- int (decimal_value r)) else None)
          else map_option int (parse_unsigned (2 ^ 63 - 1) s)
      | [] \<Rightarrow> None)"

definition show_int :: "int \<Rightarrow> string" where
  "show_int i = (if i < 0 then CHR ''-'' # decimal (nat (- i)) else decimal (nat i))"

lemma digit_code: "n < 10 \<Longrightarrow> of_char (digit n) = n + (48 :: nat)"
  by (simp add: digit_def)

lemma digit_value_digit [simp]: "n < 10 \<Longrightarrow> digit_value (digit n) = n"
  by (simp add: digit_value_def digit_code)

lemma is_digit_iff: "is_digit c \<longleftrightarrow> 48 \<le> (of_char c :: nat) \<and> of_char c \<le> (57 :: nat)"
  by (simp add: is_digit_def less_eq_char_def)

lemma is_digit_digit [simp]: "n < 10 \<Longrightarrow> is_digit (digit n)"
  by (simp add: is_digit_iff digit_code)

lemma decimal_nonempty [simp]: "decimal n \<noteq> []"
  by (subst decimal.simps) simp

lemma decimal_digits: "list_all is_digit (decimal n)"
proof (induction n rule: decimal.induct)
  case (1 n)
  then show ?case by (subst decimal.simps) simp
qed

lemma decimal_value_decimal: "decimal_value (decimal n) = n"
proof (induction n rule: decimal.induct)
  case (1 n)
  then show ?case by (subst decimal.simps) (simp add: decimal_value_def)
qed

lemma not_digit: "\<not> is_digit CHR ''+''" "\<not> is_digit CHR ''-''" "\<not> is_digit CHR '':''"
  by (simp_all add: is_digit_iff)

lemma decimal_head: "decimal n = c # r \<Longrightarrow> is_digit c"
  using decimal_digits [of n] by simp

lemma parse_unsigned_decimal:
  assumes "n \<le> limit"
  shows "parse_unsigned limit (decimal n) = Some n"
proof -
  obtain c r where d: "decimal n = c # r" by (meson decimal_nonempty neq_Nil_conv)
  then have "c \<noteq> CHR ''+''" using decimal_head not_digit by blast
  then have "parse_unsigned limit (decimal n) =
      (if list_all is_digit (decimal n) \<and> decimal_value (decimal n) \<le> limit
       then Some (decimal_value (decimal n)) else None)"
    by (simp add: parse_unsigned_def d Let_def)
  with assms show ?thesis by (simp add: decimal_digits decimal_value_decimal)
qed

lemma parse_i64_show:
  assumes "- (2 ^ 63) \<le> i" "i < 2 ^ 63"
  shows "parse_i64 (show_int i) = Some i"
proof (cases "i < 0")
  case True
  with assms show ?thesis
    using decimal_digits [of "nat (- i)"]
    by (simp add: parse_i64_def show_int_def decimal_value_decimal nat_le_iff)
next
  case False
  then have "parse_unsigned (2 ^ 63 - 1) (decimal (nat i)) = Some (nat i)"
    using assms by (intro parse_unsigned_decimal) (simp add: nat_le_iff)
  with False show ?thesis
    using decimal_head [of "nat i"] not_digit
    by (cases "decimal (nat i)") (auto simp: parse_i64_def show_int_def)
qed

subsection \<open>Hexadecimal\<close>

definition hex_digit :: "nat \<Rightarrow> char" where
  "hex_digit n = char_of (if n < 10 then n + 48 else n + 87)"

definition hex_value :: "char \<Rightarrow> nat" where
  "hex_value c = (if is_digit c then of_char c - 48 else of_char c - 87)"

lemma is_hex_iff: "is_hex c \<longleftrightarrow> (48 \<le> (of_char c :: nat) \<and> of_char c \<le> (57 :: nat)) \<or> (97 \<le> (of_char c :: nat) \<and> of_char c \<le> (102 :: nat))"
  by (simp add: is_hex_def is_digit_iff less_eq_char_def)

lemma hex_value_less: "is_hex c \<Longrightarrow> hex_value c < 16"
  by (auto simp: is_hex_iff hex_value_def is_digit_iff)

lemma hex_digit_value: "is_hex c \<Longrightarrow> hex_digit (hex_value c) = c"
  by (auto simp: is_hex_iff hex_value_def hex_digit_def is_digit_iff)

lemma hex_value_order: "is_hex c \<Longrightarrow> is_hex d \<Longrightarrow> hex_value c < hex_value d \<longleftrightarrow> c < d"
  by (auto simp: is_hex_iff hex_value_def is_digit_iff less_char_def)

lemma hex_digit_code: "n < 16 \<Longrightarrow> of_char (hex_digit n) = (if n < 10 then n + 48 else n + 87 :: nat)"
  by (simp add: hex_digit_def)

lemma is_hex_hex_digit [simp]: "n < 16 \<Longrightarrow> is_hex (hex_digit n)"
  by (simp add: is_hex_iff hex_digit_code)

lemma hex_value_digit [simp]: "n < 16 \<Longrightarrow> hex_value (hex_digit n) = n"
  by (simp add: hex_value_def is_digit_iff hex_digit_code)

subsection \<open>UTF-8, letter case and whitespace\<close>

abbreviation code :: "char \<Rightarrow> nat" where "code c \<equiv> of_char c"

definition to_ascii_uppercase :: "char \<Rightarrow> char" where
  "to_ascii_uppercase c = (if is_lower c then char_of (code c - 32) else c)"

definition to_ascii_lowercase :: "char \<Rightarrow> char" where
  "to_ascii_lowercase c = (if is_upper c then char_of (code c + 32) else c)"

text \<open>The bytes of one whitespace character: one, two or three of them.\<close>

definition space1 :: "char \<Rightarrow> bool" where
  "space1 c = (9 \<le> code c \<and> code c \<le> 13 \<or> code c = 32)"

definition space2 :: "char \<Rightarrow> char \<Rightarrow> bool" where
  "space2 c d = (code c = 0xC2 \<and> code d \<in> {0x85, 0xA0})"

definition space3 :: "char \<Rightarrow> char \<Rightarrow> char \<Rightarrow> bool" where
  "space3 c d e =
     (code c = 0xE1 \<and> code d = 0x9A \<and> code e = 0x80
      \<or> code c = 0xE2 \<and> code d = 0x80 \<and> (0x80 \<le> code e \<and> code e \<le> 0x8A \<or> code e \<in> {0xA8, 0xA9, 0xAF})
      \<or> code c = 0xE2 \<and> code d = 0x81 \<and> code e = 0x9F
      \<or> code c = 0xE3 \<and> code d = 0x80 \<and> code e = 0x80)"

fun strip_whitespace :: "string \<Rightarrow> string" where
  "strip_whitespace [] = []"
| "strip_whitespace (c # cs) =
     (if space1 c then strip_whitespace cs
      else case cs of
        [] \<Rightarrow> [c]
      | d # ds \<Rightarrow>
          if space2 c d then strip_whitespace ds
          else case ds of
            [] \<Rightarrow> c # strip_whitespace cs
          | e # es \<Rightarrow> if space3 c d e then strip_whitespace es else c # strip_whitespace cs)"

definition continuation :: "char \<Rightarrow> bool" where
  "continuation c = (128 \<le> code c \<and> code c < 192)"

fun is_utf8 :: "string \<Rightarrow> bool" where
  "is_utf8 [] = True"
| "is_utf8 (a # r) =
     (if code a < 128 then is_utf8 r
      else case r of
        [] \<Rightarrow> False
      | b # r2 \<Rightarrow>
          if 0xC2 \<le> code a \<and> code a \<le> 0xDF then continuation b \<and> is_utf8 r2
          else case r2 of
            [] \<Rightarrow> False
          | c # r3 \<Rightarrow>
              if code a = 0xE0 \<and> 0xA0 \<le> code b \<and> code b \<le> 0xBF
                 \<or> 0xE1 \<le> code a \<and> code a \<le> 0xEC \<and> continuation b
                 \<or> code a = 0xED \<and> 0x80 \<le> code b \<and> code b \<le> 0x9F
                 \<or> 0xEE \<le> code a \<and> code a \<le> 0xEF \<and> continuation b
              then continuation c \<and> is_utf8 r3
              else case r3 of
                [] \<Rightarrow> False
              | d # r4 \<Rightarrow>
                  (code a = 0xF0 \<and> 0x90 \<le> code b \<and> code b \<le> 0xBF
                   \<or> 0xF1 \<le> code a \<and> code a \<le> 0xF3 \<and> continuation b
                   \<or> code a = 0xF4 \<and> 0x80 \<le> code b \<and> code b \<le> 0x8F)
                  \<and> continuation c \<and> continuation d \<and> is_utf8 r4)"

lemma code_char_of [simp]: "n < 256 \<Longrightarrow> code (char_of n) = n"
  by (simp add: of_char_of)

lemma code_less: "code c < 256"
  using mod_less_divisor [of 256 "code c"] by (simp only: of_char_mod_256)

definition ascii :: "string \<Rightarrow> bool" where
  "ascii t = list_all (\<lambda>c. code c < 128) t"

lemma lower_iff: "is_lower c \<longleftrightarrow> 97 \<le> code c \<and> code c \<le> 122"
  by (simp add: is_lower_def less_eq_char_def)

lemma upper_iff: "is_upper c \<longleftrightarrow> 65 \<le> code c \<and> code c \<le> 90"
  by (simp add: is_upper_def less_eq_char_def)

lemma code_uppercase: "code (to_ascii_uppercase c) = (if is_lower c then code c - 32 else code c)"
  by (cases "is_lower c") (auto simp: to_ascii_uppercase_def lower_iff intro!: mod_less)

lemma code_lowercase: "code (to_ascii_lowercase c) = (if is_upper c then code c + 32 else code c)"
  by (cases "is_upper c") (auto simp: to_ascii_lowercase_def upper_iff intro!: mod_less)

lemma code_inject: "code c = code d \<Longrightarrow> c = d"
  by (rule of_char_eqI)

lemma lower_of_upper: "to_ascii_lowercase (to_ascii_uppercase c) = to_ascii_lowercase c"
  by (rule code_inject) (auto simp: code_lowercase code_uppercase lower_iff upper_iff)

lemma upper_of_lower: "to_ascii_uppercase (to_ascii_lowercase c) = to_ascii_uppercase c"
  by (rule code_inject) (auto simp: code_lowercase code_uppercase lower_iff upper_iff)

lemma same_case:
  assumes "map to_ascii_uppercase s = map to_ascii_uppercase t"
  shows "map to_ascii_lowercase s = map to_ascii_lowercase t"
proof -
  have "map to_ascii_lowercase (map to_ascii_uppercase s) = map to_ascii_lowercase (map to_ascii_uppercase t)"
    unfolding assms ..
  then show ?thesis by (simp add: lower_of_upper comp_def del: map_eq_conv)
qed

lemma ascii_uppercase: "ascii (map to_ascii_uppercase t) = ascii t"
  by (induction t) (auto simp: ascii_def code_uppercase lower_iff)

lemma ascii_lowercase: "ascii (map to_ascii_lowercase t) = ascii t"
  by (induction t) (auto simp: ascii_def code_lowercase upper_iff)

lemma strip_Cons_ascii:
  assumes "code c < 128"
  shows "strip_whitespace (c # cs) = (if space1 c then strip_whitespace cs else c # strip_whitespace cs)"
proof -
  have "\<not> space2 c d" "\<not> space3 c d e" for d e using assms by (auto simp: space2_def space3_def)
  then show ?thesis by (auto simp only: strip_whitespace.simps if_False split: list.split if_split)
qed

lemma strip_ascii: "ascii t \<Longrightarrow> strip_whitespace t = filter (\<lambda>c. \<not> space1 c) t"
  by (induction t) (simp_all add: ascii_def strip_Cons_ascii del: strip_whitespace.simps(2))

lemma ascii_append: "ascii (s @ t) = (ascii s \<and> ascii t)"
  by (simp add: ascii_def)

subsection \<open>Searching, splitting and joining text\<close>

fun contains :: "string \<Rightarrow> string \<Rightarrow> bool" where
  "contains n [] = (n = [])"
| "contains n (c # cs) = (starts_with (c # cs) n \<or> contains n cs)"

text \<open>\<open>str::chars\<close>: a lead byte with its continuation bytes.\<close>

function utf8_chars :: "string \<Rightarrow> string list" where
  "utf8_chars [] = []"
| "utf8_chars (c # cs) = (c # takeWhile continuation cs) # utf8_chars (dropWhile continuation cs)"
  by pat_completeness auto
termination by (relation "measure length") (auto simp: less_Suc_eq_le length_dropWhile_le)

text \<open>\<open>str::split_once\<close> on a text.\<close>

fun split_once_text :: "string \<Rightarrow> string \<Rightarrow> (string \<times> string) option" where
  "split_once_text m [] = (if m = [] then Some ([], []) else None)"
| "split_once_text m (c # cs) =
     (if starts_with (c # cs) m then Some ([], drop (length m) (c # cs))
      else map_option (\<lambda>(a, b). (c # a, b)) (split_once_text m cs))"

fun split_on :: "char \<Rightarrow> string \<Rightarrow> string list" where
  "split_on c [] = [[]]"
| "split_on c (x # xs) =
     (if x = c then [] # split_on c xs else case split_on c xs of w # ws \<Rightarrow> (x # w) # ws | [] \<Rightarrow> [[x]])"

definition flush :: "string \<Rightarrow> string list" where
  "flush w = (if w = [] then [] else [w])"

fun split_whitespace_from :: "string \<Rightarrow> string \<Rightarrow> string list" where
  "split_whitespace_from w [] = flush w"
| "split_whitespace_from w (c # cs) =
     (if space1 c then flush w @ split_whitespace_from [] cs
      else case cs of
        [] \<Rightarrow> flush (w @ [c])
      | d # ds \<Rightarrow>
          if space2 c d then flush w @ split_whitespace_from [] ds
          else case ds of
            [] \<Rightarrow> split_whitespace_from (w @ [c]) cs
          | e # es \<Rightarrow> if space3 c d e then flush w @ split_whitespace_from [] es else split_whitespace_from (w @ [c]) cs)"

definition split_whitespace :: "string \<Rightarrow> string list" where
  "split_whitespace t = split_whitespace_from [] t"

fun join_text :: "string \<Rightarrow> string list \<Rightarrow> string" where
  "join_text sep [] = []"
| "join_text sep [w] = w"
| "join_text sep (w # ws) = w @ sep @ join_text sep ws"

lemma split_on_join: "ws \<noteq> [] \<Longrightarrow> \<forall>w\<in>set ws. c \<notin> set w \<Longrightarrow> split_on c (join_text [c] ws) = ws"
proof (induction ws rule: induct_list012)
  case (2 w)
  then show ?case by (induction w) auto
next
  case (3 v w ws)
  have "c \<notin> set v \<Longrightarrow> split_on c (v @ c # t) = v # split_on c t" for v t by (induction v) auto
  then show ?case using 3 by simp
qed simp

lemma join_text_hd: "ws \<noteq> [] \<Longrightarrow> \<exists>t. join_text sep ws = hd ws @ t"
  by (induction ws rule: induct_list012) auto

lemma join_text_set: "set (join_text [c] ws) \<subseteq> insert c (\<Union> (set ` set ws))"
  by (induction ws rule: induct_list012) auto

lemma join_text_append: "us \<noteq> [] \<Longrightarrow> join_text sep (us @ [v]) = join_text sep us @ sep @ v"
  by (induction us rule: induct_list012) auto

end
