(* ===== verification/Delivery_Ledger.thy ===== *)
theory Delivery_Ledger
  imports Text_Codec
begin

section \<open>The native delivery ledger\<close>

text \<open>
  Models \<open>crates/fractal-drivers/src/delivery_ledger.rs\<close>, the durable record of what a driver
  knows about each native message delivery, with the delivery-key grammar
  (\<open>push_mailbox.rs\<close>, \<open>message.rs\<close>), the schema names (\<open>contracts.rs\<close>) and the translation
  of the records earlier releases left (\<open>migrations/delivery_state\<close>). The ledger file is a field
  of the state and each write takes the outcome of \<open>fsatomic::replace\<close>: the staged write fails,
  the directory sync fails after the rename, or the write is durable. The JSON codec is a
  parameter: \<open>enc\<close> and \<open>dec\<close>.
\<close>

subsection \<open>Harnesses, phases and entries\<close>

datatype harness = Claude | Codex | OpenCode

fun harness_str :: "harness \<Rightarrow> string" where
  "harness_str Claude = ''claude''"
| "harness_str Codex = ''codex''"
| "harness_str OpenCode = ''opencode''"

datatype ledger_error =
    UnknownHarness string
  | CannotProve
  | ReadFailed
  | BadJson
  | UnsupportedSchema
  | ForeignHarness
  | ForeignAgent
  | MixedBindings
  | InvalidKey
  | CorrelationMismatch
  | InvalidTurn
  | TurnConflict
  | QuarantinedLedger ledger_error
  | WriteFailed

definition harness_parse :: "string \<Rightarrow> ledger_error + harness" where
  "harness_parse name =
     (if name = ''claude'' then Inr Claude
      else if name = ''codex'' then Inr Codex
      else if name = ''opencode'' then Inr OpenCode
      else Inl (UnknownHarness name))"

text \<open>Declaration order is the order of the phases.\<close>

datatype phase = Attempted | TransportAccepted | Persisted | Consumed

fun phase_rank :: "phase \<Rightarrow> nat" where
  "phase_rank Attempted = 0"
| "phase_rank TransportAccepted = 1"
| "phase_rank Persisted = 2"
| "phase_rank Consumed = 3"

lemma phase_rank_inject: "phase_rank p = phase_rank q \<longleftrightarrow> p = q"
  by (cases p; cases q) auto

instantiation phase :: linorder
begin

definition less_eq_phase :: "phase \<Rightarrow> phase \<Rightarrow> bool" where
  "less_eq_phase p q = (phase_rank p \<le> phase_rank q)"

definition less_phase :: "phase \<Rightarrow> phase \<Rightarrow> bool" where
  "less_phase p q = (phase_rank p < phase_rank q)"

instance
proof
  fix p q r :: phase
  show "p \<le> q \<Longrightarrow> q \<le> p \<Longrightarrow> p = q"
    unfolding less_eq_phase_def by (metis le_antisym phase_rank_inject)
qed (auto simp: less_eq_phase_def less_phase_def)

end

datatype evidence = TransportAcceptedEvidence | PersistedEvidence | ConsumedEvidence

datatype negative_receipt = Absent | Rejected | RetryAfterAbandonedIncarnation

datatype attestation = Observed | Asserted

record entry =
  filename :: string
  binding :: string
  correlation :: string
  entry_phase :: phase
  entry_attestation :: attestation
  incarnation :: "string option"
  accepted_turn_id :: "string option"
  negative :: "negative_receipt option"

record ledger_record =
  schema :: string
  harness_name :: string
  agent :: string
  runtime_id :: string
  entries :: "entry list"

datatype hold_reason = AmbiguousAttempt | UnreadReceipt | NegativeReceiptHold | Quarantined | Settled

datatype retention = Release | Hold hold_reason

datatype retry_decision = Retry | RetryHold hold_reason

record begin_request =
  begin_filename :: string
  begin_binding :: string
  begin_correlation :: string
  begin_incarnation :: "string option"

record 'b ledger =
  ledger_file :: "'b option"
  profile :: harness
  rec :: ledger_record
  quarantine :: "ledger_error option"

subsection \<open>What a harness can prove\<close>

fun proves :: "harness \<Rightarrow> phase \<Rightarrow> bool" where
  "proves Claude p = (p \<in> {Attempted, Consumed})"
| "proves Codex p = (p \<in> {Attempted, TransportAccepted, Consumed})"
| "proves OpenCode p = (p \<in> {Attempted, TransportAccepted, Persisted, Consumed})"

fun evidence_phase :: "evidence \<Rightarrow> phase" where
  "evidence_phase TransportAcceptedEvidence = TransportAccepted"
| "evidence_phase PersistedEvidence = Persisted"
| "evidence_phase ConsumedEvidence = Consumed"

definition graded :: "harness \<Rightarrow> evidence \<Rightarrow> ledger_error + phase" where
  "graded h ev = (if proves h (evidence_phase ev) then Inr (evidence_phase ev) else Inl CannotProve)"

definition releases :: "harness \<Rightarrow> phase \<Rightarrow> bool" where
  "releases h p = (Consumed \<le> p)"

subsection \<open>Keys and schema names\<close>

definition is_message_filename :: "string \<Rightarrow> bool" where
  "is_message_filename name =
     (case strip_suffix ''.md'' name of
        None \<Rightarrow> False
      | Some stem \<Rightarrow>
          (case split_once (CHR ''-'') stem of
             None \<Rightarrow> False
           | Some (ts, rand) \<Rightarrow>
               length ts = 13 \<and> list_all is_digit ts
               \<and> length rand = 6 \<and> list_all (\<lambda>b. is_digit b \<or> is_lower b) rand))"

definition is_delivery_key :: "string \<Rightarrow> bool" where
  "is_delivery_key key =
     (is_message_filename key
      \<or> (case strip_prefix ''message/'' key of
           None \<Rightarrow> False
         | Some ident \<Rightarrow>
             ident \<noteq> [] \<and> length ident \<le> 256
             \<and> list_all (\<lambda>b. is_digit b \<or> is_lower b \<or> is_upper b
                   \<or> b \<in> {CHR ''/'', CHR ''-'', CHR ''_'', CHR ''.''}) ident))"

definition LEDGER_SCHEMA :: string where
  "LEDGER_SCHEMA = ''st.delivery-ledger.v1''"

definition schema_matches :: "string \<Rightarrow> string \<Rightarrow> bool" where
  "schema_matches actual current =
     (actual = current
      \<or> (case strip_prefix ''st.'' current of
           None \<Rightarrow> False
         | Some suffix \<Rightarrow> strip_prefix ''st2.'' actual = Some suffix))"

definition schema_for_owner :: "string \<Rightarrow> string" where
  "schema_for_owner owner =
     (if starts_with owner ''st2.'' then ''st2.delivery-ledger.v1'' else LEDGER_SCHEMA)"

subsection \<open>Writing the file\<close>

datatype write_outcome = StageFails | DirSyncFails | Durable

definition replace_file :: "write_outcome \<Rightarrow> 'b \<Rightarrow> 'b option \<Rightarrow> 'b option \<times> bool" where
  "replace_file io bytes old =
     (case io of
        StageFails \<Rightarrow> (old, False)
      | DirSyncFails \<Rightarrow> (Some bytes, False)
      | Durable \<Rightarrow> (Some bytes, True))"

definition persist ::
  "(ledger_record \<Rightarrow> 'b) \<Rightarrow> write_outcome \<Rightarrow> 'b ledger \<Rightarrow> 'b ledger \<times> (ledger_error + unit)"
where
  "persist enc io l =
     (let (f, ok) = replace_file io (enc (rec l)) (ledger_file l)
      in (l\<lparr>ledger_file := f\<rparr>, if ok then Inr () else Inl WriteFailed))"

text \<open>The tail of an operation that has already changed the state: persist, then its result.\<close>

definition saved ::
  "(ledger_record \<Rightarrow> 'b) \<Rightarrow> write_outcome \<Rightarrow> 'b ledger \<Rightarrow> 'a \<Rightarrow> 'b ledger \<times> (ledger_error + 'a)"
where
  "saved enc io l x =
     (case persist enc io l of (l', Inr _) \<Rightarrow> (l', Inr x) | (l', Inl e) \<Rightarrow> (l', Inl e))"

subsection \<open>Reading the state\<close>

definition ledger_entry :: "'b ledger \<Rightarrow> string \<Rightarrow> entry option" where
  "ledger_entry l f = find (\<lambda>e. filename e = f) (entries (rec l))"

definition ledger_binding :: "'b ledger \<Rightarrow> string option" where
  "ledger_binding l = (case entries (rec l) of [] \<Rightarrow> None | e # _ \<Rightarrow> Some (binding e))"

definition correlated :: "'b ledger \<Rightarrow> string \<Rightarrow> string list" where
  "correlated l v = map filename (filter (\<lambda>e. correlation e = v) (entries (rec l)))"

definition retention :: "'b ledger \<Rightarrow> string \<Rightarrow> retention" where
  "retention l f =
     (if quarantine l \<noteq> None then Hold Quarantined
      else case ledger_entry l f of
        None \<Rightarrow> Release
      | Some e \<Rightarrow>
          if negative e \<noteq> None then Hold NegativeReceiptHold
          else if releases (profile l) (entry_phase e) then Release
          else if Persisted \<le> entry_phase e then Hold UnreadReceipt
          else Hold AmbiguousAttempt)"

definition settled :: "'b ledger \<Rightarrow> string \<Rightarrow> bool" where
  "settled l f = (ledger_entry l f \<noteq> None \<and> retention l f = Release)"

definition holds_other_than :: "'b ledger \<Rightarrow> string \<Rightarrow> bool" where
  "holds_other_than l f =
     (\<exists>e\<in>set (entries (rec l)). filename e \<noteq> f \<and> retention l (filename e) \<noteq> Release)"

definition retry :: "'b ledger \<Rightarrow> string \<Rightarrow> retry_decision" where
  "retry l f =
     (if quarantine l \<noteq> None then RetryHold Quarantined
      else if ledger_entry l f = None then Retry
      else case retention l f of
        Release \<Rightarrow> RetryHold Settled
      | Hold NegativeReceiptHold \<Rightarrow> Retry
      | Hold reason \<Rightarrow> RetryHold reason)"

subsection \<open>Operations that change the state\<close>

definition ensure_writable :: "'b ledger \<Rightarrow> ledger_error + unit" where
  "ensure_writable l = (case quarantine l of None \<Rightarrow> Inr () | Some e \<Rightarrow> Inl (QuarantinedLedger e))"

definition with_entries :: "(entry list \<Rightarrow> entry list) \<Rightarrow> 'b ledger \<Rightarrow> 'b ledger" where
  "with_entries f l = l\<lparr>rec := (rec l)\<lparr>entries := f (entries (rec l))\<rparr>\<rparr>"

definition update_entry :: "string \<Rightarrow> (entry \<Rightarrow> entry) \<Rightarrow> 'b ledger \<Rightarrow> 'b ledger" where
  "update_entry f g = with_entries (update_first (\<lambda>e. filename e = f) g)"

definition rebegun :: "begin_request \<Rightarrow> entry \<Rightarrow> entry" where
  "rebegun b e =
     e\<lparr>binding := begin_binding b, correlation := begin_correlation b,
       incarnation := begin_incarnation b, entry_phase := max (entry_phase e) Attempted,
       entry_attestation := Observed, negative := None,
       accepted_turn_id := (if negative e \<noteq> None then None else accepted_turn_id e)\<rparr>"

definition first_attempt :: "begin_request \<Rightarrow> entry" where
  "first_attempt b =
     \<lparr>filename = begin_filename b, binding = begin_binding b, correlation = begin_correlation b,
      entry_phase = Attempted, entry_attestation = Observed, incarnation = begin_incarnation b,
      accepted_turn_id = None, negative = None\<rparr>"

definition begin_delivery ::
  "(ledger_record \<Rightarrow> 'b) \<Rightarrow> write_outcome \<Rightarrow> 'b ledger \<Rightarrow> begin_request \<Rightarrow> 'b ledger \<times> (ledger_error + entry)"
where
  "begin_delivery enc io l b =
     (case ensure_writable l of
        Inl e \<Rightarrow> (l, Inl e)
      | Inr _ \<Rightarrow>
          if \<not> (is_delivery_key (begin_filename b) \<and> begin_binding b \<noteq> []) then (l, Inl InvalidKey)
          else case ledger_entry l (begin_filename b) of
            Some e \<Rightarrow> saved enc io (update_entry (begin_filename b) (rebegun b) l) (rebegun b e)
          | None \<Rightarrow> saved enc io (with_entries (\<lambda>es. es @ [first_attempt b]) l) (first_attempt b))"

definition record_evidence ::
  "(ledger_record \<Rightarrow> 'b) \<Rightarrow> write_outcome \<Rightarrow> 'b ledger \<Rightarrow> string \<Rightarrow> evidence
     \<Rightarrow> 'b ledger \<times> (ledger_error + phase option)"
where
  "record_evidence enc io l f ev =
     (case ensure_writable l of
        Inl e \<Rightarrow> (l, Inl e)
      | Inr _ \<Rightarrow>
          (case graded (profile l) ev of
             Inl e \<Rightarrow> (l, Inl e)
           | Inr p \<Rightarrow>
               (case ledger_entry l f of
                  None \<Rightarrow> (l, Inr None)
                | Some e \<Rightarrow>
                    if p \<le> entry_phase e then (l, Inr (Some (entry_phase e)))
                    else saved enc io
                      (update_entry f (\<lambda>e. e\<lparr>entry_phase := p, entry_attestation := Observed,
                         negative := None\<rparr>) l) (Some p))))"

definition turn_accepted :: "string \<Rightarrow> entry \<Rightarrow> entry" where
  "turn_accepted t e =
     e\<lparr>entry_phase := max (entry_phase e) TransportAccepted, accepted_turn_id := Some t,
       entry_attestation := Observed, negative := None\<rparr>"

definition accept_codex_turn ::
  "(ledger_record \<Rightarrow> 'b) \<Rightarrow> write_outcome \<Rightarrow> 'b ledger \<Rightarrow> string \<Rightarrow> string
     \<Rightarrow> 'b ledger \<times> (ledger_error + phase option)"
where
  "accept_codex_turn enc io l f t =
     (case ensure_writable l of
        Inl e \<Rightarrow> (l, Inl e)
      | Inr _ \<Rightarrow>
          if \<not> (profile l = Codex \<and> t \<noteq> []) then (l, Inl InvalidTurn)
          else case ledger_entry l f of
            None \<Rightarrow> (l, Inr None)
          | Some e \<Rightarrow>
              if accepted_turn_id e \<noteq> None \<and> accepted_turn_id e \<noteq> Some t then (l, Inl TurnConflict)
              else
                let e' = turn_accepted t e; l' = update_entry f (turn_accepted t) l;
                    changed = ((entry_phase e, accepted_turn_id e) \<noteq> (entry_phase e', accepted_turn_id e'))
                in if changed then saved enc io l' (Some (entry_phase e'))
                   else (l', Inr (Some (entry_phase e'))))"

definition refused :: "negative_receipt \<Rightarrow> entry \<Rightarrow> entry" where
  "refused receipt e = e\<lparr>negative := Some receipt, entry_attestation := Observed\<rparr>"

definition record_negative ::
  "(ledger_record \<Rightarrow> 'b) \<Rightarrow> write_outcome \<Rightarrow> 'b ledger \<Rightarrow> string \<Rightarrow> negative_receipt
     \<Rightarrow> 'b ledger \<times> (ledger_error + retention)"
where
  "record_negative enc io l f receipt =
     (case ensure_writable l of
        Inl e \<Rightarrow> (l, Inl e)
      | Inr _ \<Rightarrow>
          if retention l f = Release then (l, Inr Release)
          else case ledger_entry l f of
            None \<Rightarrow> (l, Inr (retention l f))
          | Some e \<Rightarrow>
              if negative e = Some receipt then (l, Inr (Hold NegativeReceiptHold))
              else saved enc io (update_entry f (refused receipt) l) (Hold NegativeReceiptHold))"

definition retain_entries ::
  "(ledger_record \<Rightarrow> 'b) \<Rightarrow> write_outcome \<Rightarrow> 'b ledger \<Rightarrow> (entry \<Rightarrow> bool) \<Rightarrow> 'b ledger \<times> (ledger_error + unit)"
where
  "retain_entries enc io l keep =
     (let l' = with_entries (filter keep) l
      in if length (entries (rec l')) \<noteq> length (entries (rec l)) then saved enc io l' () else (l', Inr ()))"

definition rebind where
  "rebind enc io l bnd = retain_entries enc io l (\<lambda>e. binding e = bnd)"

definition prune where
  "prune enc io l is_unread = retain_entries enc io l (\<lambda>e. is_unread (filename e))"

subsection \<open>Opening the ledger\<close>

definition validate :: "harness \<Rightarrow> (string \<Rightarrow> string \<Rightarrow> string) \<Rightarrow> entry \<Rightarrow> ledger_error + unit" where
  "validate h correlate e =
     (if \<not> (is_delivery_key (filename e) \<and> binding e \<noteq> []) then Inl InvalidKey
      else if correlation e \<noteq> correlate (binding e) (filename e) then Inl CorrelationMismatch
      else if \<not> proves h (entry_phase e) then Inl CannotProve
      else if \<not> (case accepted_turn_id e of None \<Rightarrow> True
                 | Some t \<Rightarrow> h = Codex \<and> TransportAccepted \<le> entry_phase e \<and> t \<noteq> [])
        then Inl InvalidTurn
      else Inr ())"

fun validate_all :: "harness \<Rightarrow> (string \<Rightarrow> string \<Rightarrow> string) \<Rightarrow> entry list \<Rightarrow> ledger_error + unit" where
  "validate_all h correlate [] = Inr ()"
| "validate_all h correlate (e # es) =
     (case validate h correlate e of Inl x \<Rightarrow> Inl x | Inr _ \<Rightarrow> validate_all h correlate es)"

fun one_binding :: "entry list \<Rightarrow> bool" where
  "one_binding (a # b # es) = (binding a = binding b \<and> one_binding (b # es))"
| "one_binding _ = True"

definition accept :: "harness \<Rightarrow> (string \<Rightarrow> string \<Rightarrow> string) \<Rightarrow> entry list \<Rightarrow> ledger_error + unit" where
  "accept h correlate es =
     (case validate_all h correlate es of
        Inl x \<Rightarrow> Inl x
      | Inr _ \<Rightarrow> if one_binding es then Inr () else Inl MixedBindings)"

definition load ::
  "('b \<Rightarrow> ledger_record option) \<Rightarrow> (string \<Rightarrow> string \<Rightarrow> string) \<Rightarrow> 'b \<Rightarrow> 'b ledger
     \<Rightarrow> 'b ledger \<times> (ledger_error + unit)"
where
  "load dec correlate bytes l =
     (case dec bytes of
        None \<Rightarrow> (l, Inl BadJson)
      | Some r \<Rightarrow>
          if \<not> schema_matches (schema r) LEDGER_SCHEMA then (l, Inl UnsupportedSchema)
          else case harness_parse (harness_name r) of
            Inl e \<Rightarrow> (l, Inl e)
          | Inr h \<Rightarrow>
              if h \<noteq> profile l then (l, Inl ForeignHarness)
              else if agent r \<noteq> agent (rec l) then (l, Inl ForeignAgent)
              else case accept (profile l) correlate (entries r) of
                Inl e \<Rightarrow> (l, Inl e)
              | Inr _ \<Rightarrow>
                  (l\<lparr>rec := r\<lparr>runtime_id := runtime_id (rec l), schema := LEDGER_SCHEMA\<rparr>\<rparr>, Inr ()))"

definition seed ::
  "(ledger_record \<Rightarrow> 'b) \<Rightarrow> write_outcome \<Rightarrow> (string \<Rightarrow> string \<Rightarrow> string) \<Rightarrow> entry list \<Rightarrow> 'b ledger
     \<Rightarrow> 'b ledger \<times> (ledger_error + unit)"
where
  "seed enc io correlate es l =
     (if es = [] then (l, Inr ())
      else case accept (profile l) correlate es of
        Inl e \<Rightarrow> (l, Inl e)
      | Inr _ \<Rightarrow> persist enc io (with_entries (\<lambda>_. es) l))"

datatype 'b read_outcome = ReadOk 'b | NotFound | ReadError

definition fresh_ledger :: "'b option \<Rightarrow> harness \<Rightarrow> string \<Rightarrow> string \<Rightarrow> 'b ledger" where
  "fresh_ledger f h agt rid =
     \<lparr>ledger_file = f, profile = h,
      rec = \<lparr>schema = LEDGER_SCHEMA, harness_name = harness_str h, agent = agt, runtime_id = rid,
             entries = []\<rparr>,
      quarantine = None\<rparr>"

text \<open>
  \<open>Ledger::open\<close>. The read is the outcome of \<open>fs::read\<close>; \<open>recovered\<close> is what the recovery seam
  returns for the state directory.
\<close>

definition open_ledger ::
  "('b \<Rightarrow> ledger_record option) \<Rightarrow> (ledger_record \<Rightarrow> 'b) \<Rightarrow> write_outcome \<Rightarrow> (string \<Rightarrow> string \<Rightarrow> string)
     \<Rightarrow> 'b read_outcome \<Rightarrow> ledger_error + entry list \<Rightarrow> harness \<Rightarrow> string \<Rightarrow> string \<Rightarrow> 'b ledger"
where
  "open_ledger dec enc io correlate read recovered h agt rid =
     (let l = fresh_ledger (case read of ReadOk b \<Rightarrow> Some b | _ \<Rightarrow> None) h agt rid;
          (l', outcome) =
            (case read of
               ReadOk bytes \<Rightarrow> load dec correlate bytes l
             | NotFound \<Rightarrow>
                 (case recovered of Inl e \<Rightarrow> (l, Inl e) | Inr es \<Rightarrow> seed enc io correlate es l)
             | ReadError \<Rightarrow> (l, Inl ReadFailed))
      in case outcome of
           Inr _ \<Rightarrow> l'
         | Inl e \<Rightarrow> (with_entries (\<lambda>_. []) l')\<lparr>quarantine := Some e\<rparr>)"

definition with_owner_schema :: "'b ledger \<Rightarrow> string \<Rightarrow> 'b ledger" where
  "with_owner_schema l owner = l\<lparr>rec := (rec l)\<lparr>schema := schema_for_owner owner\<rparr>\<rparr>"

subsection \<open>Records of earlier releases\<close>

definition asserted :: "string \<Rightarrow> string \<Rightarrow> string \<Rightarrow> phase \<Rightarrow> string option \<Rightarrow> entry" where
  "asserted f b c p inc =
     \<lparr>filename = f, binding = b, correlation = c, entry_phase = p, entry_attestation = Asserted,
      incarnation = inc, accepted_turn_id = None, negative = None\<rparr>"

definition asserted_entries :: "('b \<Rightarrow> ledger_record option) \<Rightarrow> 'b read_outcome \<Rightarrow> ledger_error + nat" where
  "asserted_entries dec read =
     (case read of
        NotFound \<Rightarrow> Inr 0
      | ReadError \<Rightarrow> Inl ReadFailed
      | ReadOk bytes \<Rightarrow>
          (case dec bytes of
             None \<Rightarrow> Inl BadJson
           | Some r \<Rightarrow> Inr (length (filter (\<lambda>e. entry_attestation e = Asserted) (entries r)))))"

datatype label = LabelAttempted | LabelAccepted

record codex_v1 =
  c_schema :: string
  c_agent :: string
  c_runtime_incarnation :: string
  c_thread_id :: string
  c_filename :: string
  c_client_id :: string
  c_phase :: label

record opencode_v1 =
  o_schema :: string
  o_agent :: string
  o_session_id :: string
  o_filename :: string
  o_message_id :: string
  o_phase :: label

definition codex_entry :: "(string \<Rightarrow> string \<Rightarrow> string) \<Rightarrow> codex_v1 \<Rightarrow> ledger_error + entry" where
  "codex_entry correlate r =
     (if \<not> (is_message_filename (c_filename r) \<and> c_thread_id r \<noteq> []) then Inl InvalidKey
      else if c_client_id r \<noteq> correlate (c_thread_id r) (c_filename r) then Inl CorrelationMismatch
      else Inr (asserted (c_filename r) (c_thread_id r) (c_client_id r)
        (case c_phase r of LabelAttempted \<Rightarrow> Attempted | LabelAccepted \<Rightarrow> Consumed)
        (if c_runtime_incarnation r \<noteq> [] then Some (c_runtime_incarnation r) else None)))"

definition opencode_entry :: "(string \<Rightarrow> string \<Rightarrow> string) \<Rightarrow> opencode_v1 \<Rightarrow> ledger_error + entry" where
  "opencode_entry correlate r =
     (if \<not> (is_message_filename (o_filename r) \<and> o_session_id r \<noteq> []) then Inl InvalidKey
      else if o_message_id r \<noteq> correlate (o_session_id r) (o_filename r) then Inl CorrelationMismatch
      else Inr (asserted (o_filename r) (o_session_id r) (o_message_id r)
        (case o_phase r of LabelAttempted \<Rightarrow> Attempted | LabelAccepted \<Rightarrow> Persisted) None))"

text \<open>\<open>translate\<close> for each version: bytes that do not decode, another schema or another agent are ignored.\<close>

definition translate_codex ::
  "('b \<Rightarrow> codex_v1 option) \<Rightarrow> 'b \<Rightarrow> string \<Rightarrow> (string \<Rightarrow> string \<Rightarrow> string) \<Rightarrow> ledger_error + entry list"
where
  "translate_codex dec bytes agt correlate =
     (case dec bytes of
        None \<Rightarrow> Inr []
      | Some r \<Rightarrow>
          if c_schema r \<noteq> ''st2.codex-delivery-state.v1'' \<or> c_agent r \<noteq> agt then Inr []
          else (case codex_entry correlate r of Inl e \<Rightarrow> Inl e | Inr e \<Rightarrow> Inr [e]))"

definition translate_opencode ::
  "('b \<Rightarrow> opencode_v1 option) \<Rightarrow> 'b \<Rightarrow> string \<Rightarrow> (string \<Rightarrow> string \<Rightarrow> string) \<Rightarrow> ledger_error + entry list"
where
  "translate_opencode dec bytes agt correlate =
     (case dec bytes of
        None \<Rightarrow> Inr []
      | Some r \<Rightarrow>
          if o_schema r \<noteq> ''st2.opencode-delivery-state.v1'' \<or> o_agent r \<noteq> agt then Inr []
          else (case opencode_entry correlate r of Inl e \<Rightarrow> Inl e | Inr e \<Rightarrow> Inr [e]))"

definition recover ::
  "('b \<Rightarrow> codex_v1 option) \<Rightarrow> ('b \<Rightarrow> opencode_v1 option) \<Rightarrow> 'b read_outcome \<Rightarrow> harness \<Rightarrow> string
     \<Rightarrow> (string \<Rightarrow> string \<Rightarrow> string) \<Rightarrow> ledger_error + entry list"
where
  "recover dec_codex dec_opencode read h agt correlate =
     (case read of
        NotFound \<Rightarrow> Inr []
      | ReadError \<Rightarrow> Inl ReadFailed
      | ReadOk bytes \<Rightarrow>
          (case h of
             Claude \<Rightarrow> Inr []
           | Codex \<Rightarrow> translate_codex dec_codex bytes agt correlate
           | OpenCode \<Rightarrow> translate_opencode dec_opencode bytes agt correlate))"

subsection \<open>Lemmas: the state after a write\<close>

named_theorems ledger_simps \<open>how the operations act on the fields of a ledger\<close>

lemma saved_simps [ledger_simps]:
  "rec (fst (saved enc io l x)) = rec l"
  "profile (fst (saved enc io l x)) = profile l"
  "quarantine (fst (saved enc io l x)) = quarantine l"
  by (simp_all add: saved_def persist_def replace_file_def split: write_outcome.splits)

lemma saved_Inr_iff:
  "snd (saved enc io l x) = Inr y \<longleftrightarrow> io = Durable \<and> y = x"
  by (auto simp: saved_def persist_def replace_file_def split: write_outcome.splits)

lemma saved_file:
  "io \<noteq> StageFails \<Longrightarrow> ledger_file (fst (saved enc io l x)) = Some (enc (rec l))"
  by (simp add: saved_def persist_def replace_file_def split: write_outcome.splits)

lemma with_entries_simps [ledger_simps]:
  "entries (rec (with_entries f l)) = f (entries (rec l))"
  "profile (with_entries f l) = profile l"
  "quarantine (with_entries f l) = quarantine l"
  "agent (rec (with_entries f l)) = agent (rec l)"
  "schema (rec (with_entries f l)) = schema (rec l)"
  "harness_name (rec (with_entries f l)) = harness_name (rec l)"
  "runtime_id (rec (with_entries f l)) = runtime_id (rec l)"
  by (simp_all add: with_entries_def)

lemma ledger_entry_cong: "rec l = rec l' \<Longrightarrow> ledger_entry l f = ledger_entry l' f"
  by (simp add: ledger_entry_def)

lemma ledger_entry_update:
  assumes "\<And>e. filename (g e) = filename e"
  shows "ledger_entry (update_entry f g l) f' =
    (if f' = f then map_option g (ledger_entry l f) else ledger_entry l f')"
proof (cases "f' = f")
  case True
  then show ?thesis
    using assms by (simp add: ledger_entry_def update_entry_def ledger_simps find_update_first)
next
  case False
  then show ?thesis
    using assms by (simp add: ledger_entry_def update_entry_def ledger_simps find_update_first_other)
qed

lemma ledger_entry_snoc:
  "ledger_entry (with_entries (\<lambda>es. es @ [e]) l) f =
     (case ledger_entry l f of Some x \<Rightarrow> Some x | None \<Rightarrow> if filename e = f then Some e else None)"
  by (simp add: ledger_entry_def ledger_simps split: option.splits)

lemma phase_order_simps [simp]:
  "Attempted \<le> p" "max p Attempted = p" "p \<le> Consumed" "Consumed \<le> p \<longleftrightarrow> p = Consumed"
  by (cases p; simp add: less_eq_phase_def max_def)+

lemma entry_edit_simps [ledger_simps]:
  "filename (rebegun b e) = filename e" "filename (turn_accepted t e) = filename e"
  "filename (refused r e) = filename e" "filename (first_attempt b) = begin_filename b"
  "entry_phase e \<le> entry_phase (rebegun b e)" "entry_phase e \<le> entry_phase (turn_accepted t e)"
  "entry_phase (refused r e) = entry_phase e" "entry_phase (rebegun b e) = entry_phase e"
  "negative (rebegun b e) = None" "negative (turn_accepted t e) = None" "negative (first_attempt b) = None"
  "negative (refused r e) = Some r" "entry_phase (first_attempt b) = Attempted"
  by (simp_all add: rebegun_def turn_accepted_def refused_def first_attempt_def)

subsection \<open>Runs of delivery operations\<close>

text \<open>One operation of a delivery, with the outcome of its write.\<close>

datatype delivery_op =
    Begin begin_request
  | Evidence string evidence
  | Turn string string
  | Refuse string negative_receipt

fun delivery_step ::
  "(ledger_record \<Rightarrow> 'b) \<Rightarrow> write_outcome \<times> delivery_op \<Rightarrow> 'b ledger \<Rightarrow> 'b ledger"
where
  "delivery_step enc (io, Begin b) l = fst (begin_delivery enc io l b)"
| "delivery_step enc (io, Evidence f ev) l = fst (record_evidence enc io l f ev)"
| "delivery_step enc (io, Turn f t) l = fst (accept_codex_turn enc io l f t)"
| "delivery_step enc (io, Refuse f r) l = fst (record_negative enc io l f r)"

text \<open>A consumed delivery carries no refusal.\<close>

definition settled_is_final :: "'b ledger \<Rightarrow> bool" where
  "settled_is_final l = (\<forall>f e. ledger_entry l f = Some e \<longrightarrow> entry_phase e = Consumed \<longrightarrow> negative e = None)"

definition phases_le :: "'b ledger \<Rightarrow> 'b ledger \<Rightarrow> bool" where
  "phases_le l l' =
     (quarantine l' = quarantine l \<and> profile l' = profile l
      \<and> (\<forall>f e. ledger_entry l f = Some e \<longrightarrow>
           (\<exists>e'. ledger_entry l' f = Some e' \<and> entry_phase e \<le> entry_phase e')))"

lemma phases_le_refl [simp]: "phases_le l l"
  by (simp add: phases_le_def)

lemma phases_le_update:
  assumes "\<And>e. filename (g e) = filename e"
    and "\<And>e. ledger_entry l f = Some e \<Longrightarrow> entry_phase e \<le> entry_phase (g e)"
  shows "phases_le l (update_entry f g l)"
proof -
  have "quarantine (update_entry f g l) = quarantine l" "profile (update_entry f g l) = profile l"
    by (simp_all add: update_entry_def ledger_simps)
  with assms show ?thesis by (auto simp: phases_le_def ledger_entry_update)
qed

lemma phases_le_snoc: "phases_le l (with_entries (\<lambda>es. es @ [e]) l)"
  by (auto simp: phases_le_def ledger_entry_snoc ledger_simps)

lemma phases_le_saved: "phases_le l l1 \<Longrightarrow> phases_le l (fst (saved enc io l1 x))"
  by (simp add: phases_le_def ledger_entry_def ledger_simps)

lemma settled_is_final_update:
  "(\<And>e. filename (g e) = filename e) \<Longrightarrow>
   (\<And>e. ledger_entry l f = Some e \<Longrightarrow> entry_phase (g e) = Consumed \<Longrightarrow> negative (g e) = None) \<Longrightarrow>
   settled_is_final l \<Longrightarrow> settled_is_final (update_entry f g l)"
  by (auto simp: settled_is_final_def ledger_entry_update split: if_splits)

lemma settled_is_final_snoc:
  "negative e = None \<Longrightarrow> settled_is_final l \<Longrightarrow> settled_is_final (with_entries (\<lambda>es. es @ [e]) l)"
  by (auto simp: settled_is_final_def ledger_entry_snoc split: option.splits if_splits)

lemma settled_is_final_saved:
  "settled_is_final l1 \<Longrightarrow> settled_is_final (fst (saved enc io l1 x))"
  by (simp add: settled_is_final_def ledger_entry_def ledger_simps)

lemmas phases_le_intros = phases_le_saved phases_le_update phases_le_snoc
lemmas settled_is_final_intros = settled_is_final_saved settled_is_final_update settled_is_final_snoc

lemma refused_not_consumed:
  assumes "settled_is_final l" "retention l f \<noteq> Release" "quarantine l = None" "ledger_entry l f = Some e"
  shows "entry_phase e \<noteq> Consumed"
  using assms by (auto simp: settled_is_final_def retention_def releases_def)

lemmas step_defs = begin_delivery_def record_evidence_def accept_codex_turn_def record_negative_def

lemma delivery_step_phases: "phases_le l (delivery_step enc s l)"
proof (cases "(enc, s, l)" rule: delivery_step.cases)
  case (1 enc' io b l')
  then show ?thesis
    by (simp add: begin_delivery_def ledger_simps phases_le_intros split: sum.split option.split)
next
  case (2 enc' io f ev l')
  then show ?thesis
    by (auto simp: record_evidence_def split: sum.split option.split intro!: phases_le_intros)
next
  case (3 enc' io f t l')
  then show ?thesis
    by (simp add: accept_codex_turn_def Let_def ledger_simps phases_le_intros split: sum.split option.split)
next
  case (4 enc' io f r l')
  then show ?thesis
    by (simp add: record_negative_def ledger_simps phases_le_intros split: sum.split option.split)
qed

lemma delivery_step_settled:
  assumes "settled_is_final l"
  shows "settled_is_final (delivery_step enc s l)"
proof (cases "(enc, s, l)" rule: delivery_step.cases)
  case (1 enc' io b l')
  with assms show ?thesis
    by (simp add: begin_delivery_def ledger_simps settled_is_final_intros split: sum.split option.split)
next
  case (2 enc' io f ev l')
  with assms show ?thesis
    by (simp add: record_evidence_def settled_is_final_intros split: sum.split option.split)
next
  case (3 enc' io f t l')
  with assms show ?thesis
    by (simp add: accept_codex_turn_def Let_def ledger_simps settled_is_final_intros
        split: sum.split option.split)
next
  case (4 enc' io f r l')
  have "settled_is_final (update_entry f (refused r) l)" if "retention l f \<noteq> Release" "quarantine l = None"
    using assms that by (intro settled_is_final_update) (auto simp: ledger_simps dest: refused_not_consumed)
  with 4 assms show ?thesis
    by (simp add: record_negative_def ensure_writable_def settled_is_final_saved split: option.split)
qed

interpretation delivery: monotone_machine "delivery_step enc" settled_is_final phases_le
proof
  fix s t u :: "'a ledger" and x
  show "settled_is_final s \<Longrightarrow> settled_is_final (delivery_step enc x s)" by (rule delivery_step_settled)
  show "phases_le s s" by simp
  show "phases_le s t \<Longrightarrow> phases_le t u \<Longrightarrow> phases_le s u"
    unfolding phases_le_def by (metis order_trans)
  show "phases_le s (delivery_step enc x s)" by (rule delivery_step_phases)
qed

lemma retry_Retry_iff:
  "retry l f = Retry \<longleftrightarrow>
     quarantine l = None \<and> (case ledger_entry l f of None \<Rightarrow> True | Some e \<Rightarrow> negative e \<noteq> None)"
  by (auto simp: retry_def retention_def split: option.splits if_splits hold_reason.splits)

subsection \<open>Properties\<close>

text \<open>
  Only a refusal authorises sending a message again: the ledger answers \<open>Retry\<close> exactly when it
  is not quarantined and it either holds no entry for the file or holds one with a negative
  receipt. Whether a phase was observed or asserted plays no part.
\<close>

lemma retry_only_by_refusal:
  "retry l f = Retry \<longleftrightarrow>
     quarantine l = None \<and> (\<forall>e. ledger_entry l f = Some e \<longrightarrow> negative e \<noteq> None)"
  by (simp add: retry_Retry_iff split: option.split)

text \<open>
  C2. Positive evidence never falls and a consumed delivery is final: over any sequence of
  deliveries, receipts, accepted turns and refusals, with any of their writes failing, no entry
  is lost, no phase is lowered, and a file whose delivery was consumed stays settled and is never
  offered for another transport.
\<close>

theorem delivery_monotone:
  assumes "settled_is_final l" "ledger_entry l f = Some e"
  shows "\<exists>e'. ledger_entry (fold (delivery_step enc) ops l) f = Some e'
     \<and> entry_phase e \<le> entry_phase e'
     \<and> (entry_phase e = Consumed \<longrightarrow> retry (fold (delivery_step enc) ops l) f \<noteq> Retry
          \<and> (quarantine l = None \<longrightarrow> settled (fold (delivery_step enc) ops l) f))"
proof -
  let ?l = "fold (delivery_step enc) ops l"
  have le: "phases_le l ?l" and fin: "settled_is_final ?l"
    by (rule delivery.run_le [OF assms(1)], rule delivery.run_inv [OF assms(1)])
  from le have q: "quarantine ?l = quarantine l" by (simp add: phases_le_def)
  from le assms(2) obtain e' where e': "ledger_entry ?l f = Some e'" "entry_phase e \<le> entry_phase e'"
    by (auto simp: phases_le_def)
  have "retry ?l f \<noteq> Retry \<and> (quarantine l = None \<longrightarrow> settled ?l f)" if "entry_phase e = Consumed"
  proof -
    from that e'(2) have c: "entry_phase e' = Consumed" by simp
    with fin e'(1) have "negative e' = None" by (simp add: settled_is_final_def)
    with c show ?thesis
      by (simp add: retry_def settled_def retention_def releases_def e'(1) q)
  qed
  with e' show ?thesis by simp
qed

text \<open>A concrete seat: one Codex thread with one attempted delivery, and a codec that stores the record itself.\<close>

definition example_correlate :: "string \<Rightarrow> string \<Rightarrow> string" where
  "example_correlate b f = b @ CHR ''/'' # f"

definition example_begin :: begin_request where
  "example_begin =
     \<lparr>begin_filename = ''message/quartz'', begin_binding = ''thread'',
      begin_correlation = example_correlate ''thread'' ''message/quartz'', begin_incarnation = None\<rparr>"

definition example_ledger :: "ledger_record ledger" where
  "example_ledger = fst (begin_delivery id Durable (fresh_ledger None Codex ''agent/a'' ''r1'') example_begin)"

lemma example_begin_key:
  "is_delivery_key (begin_filename example_begin)" "begin_binding example_begin \<noteq> []"
  by (simp_all add: example_begin_def is_delivery_key_def is_message_filename_def strip_prefix_def
      strip_suffix_def is_lower_def is_digit_def is_upper_def)

lemma example_ledger_eq:
  "rec example_ledger = \<lparr>schema = LEDGER_SCHEMA, harness_name = ''codex'', agent = ''agent/a'',
     runtime_id = ''r1'', entries = [first_attempt example_begin]\<rparr>"
  "quarantine example_ledger = None" "profile example_ledger = Codex"
  "ledger_entry example_ledger ''message/quartz'' = Some (first_attempt example_begin)"
proof -
  have e: "example_ledger = fst (saved id Durable
      (with_entries (\<lambda>es. es @ [first_attempt example_begin]) (fresh_ledger None Codex ''agent/a'' ''r1''))
      (first_attempt example_begin))"
    by (simp add: example_ledger_def begin_delivery_def example_begin_key ensure_writable_def
        fresh_ledger_def ledger_entry_def)
  show "rec example_ledger = \<lparr>schema = LEDGER_SCHEMA, harness_name = ''codex'', agent = ''agent/a'',
     runtime_id = ''r1'', entries = [first_attempt example_begin]\<rparr>"
    "quarantine example_ledger = None" "profile example_ledger = Codex"
    unfolding e by (simp_all add: ledger_simps with_entries_def fresh_ledger_def)
  then show "ledger_entry example_ledger ''message/quartz'' = Some (first_attempt example_begin)"
    by (simp add: ledger_entry_def ledger_simps example_begin_def)
qed

lemma delivery_monotone_witness:
  "\<exists>e'. ledger_entry (fold (delivery_step id)
       [(Durable, Refuse ''message/quartz'' Rejected), (StageFails, Begin example_begin)] example_ledger)
       ''message/quartz'' = Some e' \<and> Attempted \<le> entry_phase e'"
proof -
  have "settled_is_final example_ledger"
    by (simp add: settled_is_final_def ledger_entry_def example_ledger_eq ledger_simps)
  from delivery_monotone [OF this example_ledger_eq(4), where enc = id and ops =
      "[(Durable, Refuse ''message/quartz'' Rejected), (StageFails, Begin example_begin)]"]
  show ?thesis by (simp only: entry_edit_simps) blast
qed

end
