(* ===== verification/Delivery_Recovery.thy ===== *)
theory Delivery_Recovery
  imports Delivery_Ledger
begin

section \<open>Restarts of the native delivery ledger\<close>

text \<open>
  What \<open>Ledger::open\<close> makes of the file an earlier process left: which ledgers are accepted, that
  the operations of a driver only write acceptable ones, that a delivery begun before a crash is
  still known after it, and what becomes of the records of earlier releases
  (\<open>delivery_ledger.rs\<close>, \<open>migrations/delivery_state\<close>).
\<close>

subsection \<open>Lemmas: what opening accepts\<close>

abbreviation valid_entry :: "harness \<Rightarrow> (string \<Rightarrow> string \<Rightarrow> string) \<Rightarrow> entry \<Rightarrow> bool" where
  "valid_entry h correlate e \<equiv> validate h correlate e = Inr ()"

lemma valid_entry_iff:
  "valid_entry h correlate e \<longleftrightarrow>
     is_delivery_key (filename e) \<and> binding e \<noteq> [] \<and> correlation e = correlate (binding e) (filename e)
     \<and> proves h (entry_phase e)
     \<and> (\<forall>t. accepted_turn_id e = Some t \<longrightarrow> h = Codex \<and> TransportAccepted \<le> entry_phase e \<and> t \<noteq> [])"
  by (auto simp: validate_def split: option.splits)

lemma validate_all_iff: "validate_all h c es = Inr () \<longleftrightarrow> (\<forall>e\<in>set es. valid_entry h c e)"
  by (induction es) (auto split: sum.splits)

lemma one_binding_iff: "one_binding es \<longleftrightarrow> (\<forall>a\<in>set es. \<forall>b\<in>set es. binding a = binding b)"
proof (induction es rule: one_binding.induct)
  case (1 a b es)
  show ?case unfolding one_binding.simps(1) 1 list.set by (metis insert_iff)
qed simp_all

lemma accept_iff:
  "accept h c es = Inr () \<longleftrightarrow>
     (\<forall>e\<in>set es. valid_entry h c e) \<and> (\<forall>a\<in>set es. \<forall>b\<in>set es. binding a = binding b)"
proof -
  have "accept h c es = Inr () \<longleftrightarrow> validate_all h c es = Inr () \<and> one_binding es"
    by (simp add: accept_def split: sum.splits)
  then show ?thesis by (simp only: validate_all_iff one_binding_iff)
qed

lemma harness_parse_str [simp]: "harness_parse (harness_str h) = Inr h"
  by (cases h) (simp_all add: harness_parse_def)

text \<open>A ledger that its own file would be accepted as.\<close>

definition good_ledger :: "(string \<Rightarrow> string \<Rightarrow> string) \<Rightarrow> 'b ledger \<Rightarrow> bool" where
  "good_ledger correlate l =
     (quarantine l = None \<and> accept (profile l) correlate (entries (rec l)) = Inr ()
      \<and> schema_matches (schema (rec l)) LEDGER_SCHEMA \<and> harness_name (rec l) = harness_str (profile l))"

lemma reopen_good:
  assumes "good_ledger correlate l" "dec (enc (rec l)) = Some (rec l)"
    and l': "l' = open_ledger dec enc io correlate (ReadOk (enc (rec l))) recovered (profile l) (agent (rec l)) rid"
  shows "quarantine l' = None" "entries (rec l') = entries (rec l)" "profile l' = profile l"
  using assms(1,2)
  by (simp_all add: l' open_ledger_def fresh_ledger_def load_def good_ledger_def Let_def)

lemma good_ledger_cong:
  "rec l' = rec l \<Longrightarrow> quarantine l' = quarantine l \<Longrightarrow> profile l' = profile l \<Longrightarrow>
   good_ledger c l \<Longrightarrow> good_ledger c l'"
  by (simp add: good_ledger_def)

lemma good_ledger_saved: "good_ledger c l \<Longrightarrow> good_ledger c (fst (saved enc io l x))"
  by (rule good_ledger_cong) (simp_all add: ledger_simps)

lemma good_ledger_update:
  assumes "good_ledger c l"
    and "\<And>e. e \<in> set (entries (rec l)) \<Longrightarrow> filename e = f \<Longrightarrow>
      valid_entry (profile l) c (g e) \<and> binding (g e) = binding e"
  shows "good_ledger c (update_entry f g l)"
proof -
  let ?es = "entries (rec l)" and ?es' = "update_first (\<lambda>e. filename e = f) g (entries (rec l))"
  have ok: "\<And>e. e \<in> set ?es \<Longrightarrow> valid_entry (profile l) c e"
    and one: "\<And>a b. a \<in> set ?es \<Longrightarrow> b \<in> set ?es \<Longrightarrow> binding a = binding b"
    using assms(1) unfolding good_ledger_def accept_iff by blast+
  have new: "(\<exists>e\<in>set ?es. binding e' = binding e) \<and> valid_entry (profile l) c e'" if "e' \<in> set ?es'" for e'
    using that
  proof (cases rule: set_update_firstE)
    case 1
    with ok show ?thesis by metis
  next
    case (2 e)
    with assms(2) show ?thesis by metis
  qed
  have "accept (profile l) c ?es' = Inr ()"
    unfolding accept_iff
  proof (intro conjI ballI)
    fix a b assume "a \<in> set ?es'" "b \<in> set ?es'"
    then obtain a' b' where "a' \<in> set ?es" "b' \<in> set ?es" "binding a = binding a'" "binding b = binding b'"
      using new by blast
    then show "binding a = binding b" using one by metis
  next
    fix e assume "e \<in> set ?es'"
    then show "valid_entry (profile l) c e" using new by metis
  qed
  with assms(1) show ?thesis
    by (simp add: good_ledger_def update_entry_def ledger_simps)
qed

lemma good_ledger_snoc:
  assumes "good_ledger c l" "valid_entry (profile l) c x"
    and same: "\<forall>e\<in>set (entries (rec l)). binding e = binding x"
  shows "good_ledger c (with_entries (\<lambda>es. es @ [x]) l)"
proof -
  have ok: "\<forall>e\<in>set (entries (rec l)). valid_entry (profile l) c e"
    using assms(1) unfolding good_ledger_def accept_iff by blast
  have "accept (profile l) c (entries (rec l) @ [x]) = Inr ()"
    unfolding accept_iff
  proof (intro conjI ballI)
    fix a b assume "a \<in> set (entries (rec l) @ [x])" "b \<in> set (entries (rec l) @ [x])"
    with same have "binding a = binding x" "binding b = binding x" by auto
    then show "binding a = binding b" by simp
  qed (use ok assms(2) in auto)
  with assms(1) show ?thesis by (simp add: good_ledger_def ledger_simps)
qed

lemma good_ledger_filter:
  assumes "good_ledger c l"
  shows "good_ledger c (with_entries (filter keep) l)"
proof -
  have "accept (profile l) c (entries (rec l)) = Inr ()" using assms by (simp add: good_ledger_def)
  then have "accept (profile l) c (filter keep (entries (rec l))) = Inr ()"
    unfolding accept_iff set_filter by blast
  with assms show ?thesis by (simp add: good_ledger_def ledger_simps)
qed

lemma good_ledger_entry:
  "good_ledger c l \<Longrightarrow> e \<in> set (entries (rec l)) \<Longrightarrow> valid_entry (profile l) c e"
  unfolding good_ledger_def accept_iff by blast

lemma evidence_phase_ge: "TransportAccepted \<le> evidence_phase ev"
  by (cases ev) (simp_all add: less_eq_phase_def)

lemma graded_Inr: "graded h ev = Inr p \<longleftrightarrow> p = evidence_phase ev \<and> proves h p"
  by (auto simp: graded_def)

lemma proves_attempted: "proves h Attempted"
  by (cases h) simp_all

lemma proves_codex_turn: "proves Codex p \<Longrightarrow> proves Codex (max p TransportAccepted)"
  by (cases p) (simp_all add: max_def less_eq_phase_def)

subsection \<open>Lemmas: the operations write acceptable ledgers\<close>

lemma good_begin:
  assumes good: "good_ledger c l"
    and corr: "begin_correlation b = c (begin_binding b) (begin_filename b)"
    and same: "\<forall>e\<in>set (entries (rec l)). binding e = begin_binding b"
  shows "good_ledger c (fst (begin_delivery enc io l b))"
proof (cases "is_delivery_key (begin_filename b) \<and> begin_binding b \<noteq> []")
  case False
  with good show ?thesis by (auto simp: begin_delivery_def split: sum.split)
next
  case True
  have "valid_entry (profile l) c (rebegun b e) \<and> binding (rebegun b e) = binding e"
    if "e \<in> set (entries (rec l))" "filename e = begin_filename b" for e
    using good_ledger_entry [OF good that(1)] that True corr same
    by (auto simp: valid_entry_iff rebegun_def)
  then have "good_ledger c (update_entry (begin_filename b) (rebegun b) l)"
    by (rule good_ledger_update [OF good])
  moreover have "good_ledger c (with_entries (\<lambda>es. es @ [first_attempt b]) l)"
    by (rule good_ledger_snoc [OF good])
       (use True corr same in \<open>auto simp: valid_entry_iff first_attempt_def intro: proves_attempted\<close>)
  ultimately show ?thesis
    using good by (simp add: begin_delivery_def good_ledger_saved split: sum.split option.split)
qed

lemma good_evidence:
  assumes good: "good_ledger c l"
  shows "good_ledger c (fst (record_evidence enc io l f ev))"
proof -
  have "good_ledger c (update_entry f (\<lambda>e. e\<lparr>entry_phase := p, entry_attestation := Observed, negative := None\<rparr>) l)"
    if "graded (profile l) ev = Inr p" for p
    using that good_ledger_entry [OF good] evidence_phase_ge [of ev]
    by (intro good_ledger_update [OF good]) (auto simp: valid_entry_iff graded_Inr)
  with good show ?thesis
    by (simp add: record_evidence_def good_ledger_saved split: sum.split option.split)
qed

lemma good_turn:
  assumes good: "good_ledger c l"
  shows "good_ledger c (fst (accept_codex_turn enc io l f t))"
proof -
  have "good_ledger c (update_entry f (turn_accepted t) l)" if "profile l = Codex" "t \<noteq> []"
    using that good_ledger_entry [OF good]
    by (intro good_ledger_update [OF good]) (auto simp: valid_entry_iff turn_accepted_def simp del: proves.simps intro: proves_codex_turn)
  with good show ?thesis
    by (simp add: accept_codex_turn_def Let_def good_ledger_saved split: sum.split option.split)
qed

lemma good_refuse:
  assumes good: "good_ledger c l"
  shows "good_ledger c (fst (record_negative enc io l f r))"
proof -
  have "good_ledger c (update_entry f (refused r) l)"
    using good_ledger_entry [OF good]
    by (intro good_ledger_update [OF good]) (auto simp: valid_entry_iff refused_def)
  with good show ?thesis
    by (simp add: record_negative_def good_ledger_saved split: sum.split option.split)
qed

lemma good_retain:
  assumes "good_ledger c l"
  shows "good_ledger c (fst (retain_entries enc io l keep))"
  using good_ledger_filter [OF assms, of keep]
  by (simp add: retain_entries_def Let_def good_ledger_saved)

lemma begin_Inr:
  assumes "begin_delivery enc io l b = (l', Inr e)"
  shows "ledger_file l' = Some (enc (rec l'))"
    "ledger_entry l' (begin_filename b) = Some e" "negative e = None"
    "profile l' = profile l" "agent (rec l') = agent (rec l)"
proof -
  define l1 where "l1 = (case ledger_entry l (begin_filename b) of
      Some _ \<Rightarrow> update_entry (begin_filename b) (rebegun b) l
    | None \<Rightarrow> with_entries (\<lambda>es. es @ [first_attempt b]) l)"
  define e1 where "e1 = (case ledger_entry l (begin_filename b) of
      Some x \<Rightarrow> rebegun b x | None \<Rightarrow> first_attempt b)"
  have "saved enc io l1 e1 = (l', Inr e)"
    using assms by (auto simp: begin_delivery_def l1_def e1_def split: sum.splits if_splits option.splits)
  then have l': "l' = fst (saved enc io l1 e1)" and "snd (saved enc io l1 e1) = Inr e" by simp_all
  then have io: "io = Durable" and e: "e = e1" by (simp_all add: saved_Inr_iff)
  from io show "ledger_file l' = Some (enc (rec l'))" by (simp add: l' saved_file ledger_simps)
  have "ledger_entry l1 (begin_filename b) = Some e1"
    by (simp add: l1_def e1_def ledger_entry_update ledger_entry_snoc ledger_simps split: option.split)
  then show "ledger_entry l' (begin_filename b) = Some e"
    by (simp add: e l' ledger_entry_def ledger_simps)
  show "negative e = None" by (simp add: e e1_def ledger_simps split: option.split)
  show "profile l' = profile l" "agent (rec l') = agent (rec l)"
    by (simp_all add: l' l1_def update_entry_def ledger_simps split: option.split)
qed

subsection \<open>Lemmas: what the file holds\<close>

text \<open>Every operation edits the entries in memory and then at most persists the record.\<close>

inductive_set edits :: "(ledger_record \<Rightarrow> 'b) \<Rightarrow> 'b ledger \<Rightarrow> 'b ledger set"
  for enc l
where
  edits_memory: "with_entries g l \<in> edits enc l"
| edits_disk: "fst (persist enc io (with_entries g l)) \<in> edits enc l"

lemma edits_refl: "l \<in> edits enc l"
  using edits_memory [of id l enc] by (simp add: with_entries_def)

lemma edits_update: "update_entry f h l \<in> edits enc l"
  unfolding update_entry_def by (rule edits_memory)

lemma fst_saved: "fst (saved enc io l x) = fst (persist enc io l)"
  by (simp add: saved_def persist_def replace_file_def split: write_outcome.split)

lemma edits_saved:
  "fst (saved enc io (with_entries g l) x) \<in> edits enc l"
  "fst (saved enc io (update_entry f h l) x) \<in> edits enc l"
  unfolding update_entry_def fst_saved by (rule edits_disk)+

lemmas edits_intros = edits_refl edits_memory edits_update edits_saved

lemma ops_edit:
  "delivery_step enc s l \<in> edits enc l"
  "fst (rebind enc io l bnd) \<in> edits enc l"
  "fst (prune enc io l unread) \<in> edits enc l"
proof -
  show "delivery_step enc s l \<in> edits enc l"
    by (cases "(enc, s, l)" rule: delivery_step.cases)
       (simp_all add: step_defs Let_def edits_intros split: sum.split option.split)
  show "fst (rebind enc io l bnd) \<in> edits enc l" "fst (prune enc io l unread) \<in> edits enc l"
    by (simp_all add: rebind_def prune_def retain_entries_def Let_def edits_intros)
qed

text \<open>The file, when there is one, is the encoding of a ledger that opening accepts.\<close>

definition good_file :: "(ledger_record \<Rightarrow> 'b) \<Rightarrow> (string \<Rightarrow> string \<Rightarrow> string) \<Rightarrow> 'b ledger \<Rightarrow> bool" where
  "good_file enc c l = (\<forall>bytes. ledger_file l = Some bytes \<longrightarrow>
     (\<exists>r. bytes = enc r \<and> agent r = agent (rec l) \<and> good_ledger c (l\<lparr>rec := r\<rparr>)))"

lemma good_file_edits:
  assumes "good_file enc c l" "l' \<in> edits enc l" "good_ledger c l'"
  shows "good_file enc c l'"
proof -
  have same: "agent (rec l') = agent (rec l)" "profile l' = profile l" "quarantine l' = quarantine l"
    and disk: "ledger_file l' = ledger_file l \<or> ledger_file l' = Some (enc (rec l'))"
    using assms(2)
    by (cases; simp add: persist_def replace_file_def with_entries_def split: write_outcome.splits)+
  show ?thesis
    unfolding good_file_def
  proof (intro allI impI)
    fix bytes assume f: "ledger_file l' = Some bytes"
    show "\<exists>r. bytes = enc r \<and> agent r = agent (rec l') \<and> good_ledger c (l'\<lparr>rec := r\<rparr>)"
    proof (cases "ledger_file l' = ledger_file l")
      case True
      with f assms(1) obtain r where "bytes = enc r" "agent r = agent (rec l)" "good_ledger c (l\<lparr>rec := r\<rparr>)"
        by (auto simp: good_file_def)
      with same show ?thesis by (auto simp: good_ledger_def)
    next
      case False
      with disk f have "bytes = enc (rec l')" by simp
      with assms(3) show ?thesis by auto
    qed
  qed
qed

subsection \<open>Runs of a driver\<close>

text \<open>
  What a driver may do to its ledger. It computes the correlation of a delivery from the thread
  and the file, and it begins a delivery on one thread only after rebinding the ledger to it.
\<close>

inductive driven ::
  "(ledger_record \<Rightarrow> 'b) \<Rightarrow> (string \<Rightarrow> string \<Rightarrow> string) \<Rightarrow> 'b ledger \<Rightarrow> 'b ledger \<Rightarrow> bool"
  for enc c l\<^sub>0
where
  driven_start: "driven enc c l\<^sub>0 l\<^sub>0"
| driven_begin: "driven enc c l\<^sub>0 (fst (begin_delivery enc io l b))"
    if "driven enc c l\<^sub>0 l" "begin_correlation b = c (begin_binding b) (begin_filename b)"
      "\<forall>e\<in>set (entries (rec l)). binding e = begin_binding b"
| driven_evidence: "driven enc c l\<^sub>0 (fst (record_evidence enc io l f ev))" if "driven enc c l\<^sub>0 l"
| driven_turn: "driven enc c l\<^sub>0 (fst (accept_codex_turn enc io l f t))" if "driven enc c l\<^sub>0 l"
| driven_refuse: "driven enc c l\<^sub>0 (fst (record_negative enc io l f r))" if "driven enc c l\<^sub>0 l"
| driven_rebind: "driven enc c l\<^sub>0 (fst (rebind enc io l bnd))" if "driven enc c l\<^sub>0 l"
| driven_prune: "driven enc c l\<^sub>0 (fst (prune enc io l unread))" if "driven enc c l\<^sub>0 l"

lemma driven_good:
  assumes "driven enc c l\<^sub>0 l" "good_ledger c l\<^sub>0" "good_file enc c l\<^sub>0"
  shows "good_ledger c l \<and> good_file enc c l"
  using assms
proof (induction rule: driven.induct)
  case driven_start
  then show ?case by simp
next
  case (driven_begin l b io)
  then show ?case
    using ops_edit(1) [of enc "(io, Begin b)" l] good_begin [of c l b enc io] by (auto intro: good_file_edits)
next
  case (driven_evidence l io f ev)
  then show ?case
    using ops_edit(1) [of enc "(io, Evidence f ev)" l] good_evidence [of c l enc io f ev] by (auto intro: good_file_edits)
next
  case (driven_turn l io f t)
  then show ?case
    using ops_edit(1) [of enc "(io, Turn f t)" l] good_turn [of c l enc io f t] by (auto intro: good_file_edits)
next
  case (driven_refuse l io f r)
  then show ?case
    using ops_edit(1) [of enc "(io, Refuse f r)" l] good_refuse [of c l enc io f r] by (auto intro: good_file_edits)
next
  case (driven_rebind l io bnd)
  then show ?case
    using ops_edit(2) [of enc io l bnd] good_retain [of c l enc io] unfolding rebind_def by (auto intro: good_file_edits)
next
  case (driven_prune l io unread)
  then show ?case
    using ops_edit(3) [of enc io l unread] good_retain [of c l enc io] unfolding prune_def by (auto intro: good_file_edits)
qed

lemma good_fresh: "good_ledger c (fresh_ledger None h agt rid)" "good_file enc c (fresh_ledger None h agt rid)"
  by (simp_all add: good_ledger_def good_file_def fresh_ledger_def accept_def schema_matches_def)

lemma driven_identity:
  "driven enc c l\<^sub>0 l \<Longrightarrow> profile l = profile l\<^sub>0 \<and> agent (rec l) = agent (rec l\<^sub>0)"
proof (induction rule: driven.induct)
  case driven_start
  then show ?case by simp
qed (simp_all add: step_defs rebind_def prune_def retain_entries_def Let_def update_entry_def ledger_simps
      split: sum.split option.split)

subsection \<open>Properties\<close>

text \<open>
  C1. A delivery that was begun survives a crash: once \<open>begin\<close> has returned, whatever the driver
  opens from the file that is on disk is not quarantined, holds exactly the entry that \<open>begin\<close>
  returned, and refuses to send the message again.
\<close>

theorem begin_survives_crash:
  assumes codec: "\<And>r. dec (enc r) = Some r"
    and good: "good_ledger c l"
    and corr: "begin_correlation b = c (begin_binding b) (begin_filename b)"
    and same: "\<forall>e\<in>set (entries (rec l)). binding e = begin_binding b"
    and begun: "begin_delivery enc io l b = (l', Inr e)"
  shows "\<exists>bytes. ledger_file l' = Some bytes \<and>
    (let l2 = open_ledger dec enc io' c (ReadOk bytes) recovered (profile l) (agent (rec l)) rid
     in quarantine l2 = None \<and> ledger_entry l2 (begin_filename b) = Some e
        \<and> retry l2 (begin_filename b) \<noteq> Retry)"
proof -
  have l': "l' = fst (begin_delivery enc io l b)" using begun by simp
  have good': "good_ledger c l'" unfolding l' by (rule good_begin [OF good corr same])
  have disk: "ledger_file l' = Some (enc (rec l'))"
    and entry: "ledger_entry l' (begin_filename b) = Some e" "negative e = None"
    and same': "profile l' = profile l" "agent (rec l') = agent (rec l)"
    by (rule begin_Inr [OF begun])+
  let ?l2 = "open_ledger dec enc io' c (ReadOk (enc (rec l'))) recovered (profile l') (agent (rec l')) rid"
  have q: "quarantine ?l2 = None" and es: "entries (rec ?l2) = entries (rec l')"
    by (rule reopen_good [where dec = dec and enc = enc, OF good' codec [of "rec l'"] refl])+
  have e2: "ledger_entry ?l2 (begin_filename b) = Some e"
    using entry(1) es by (simp add: ledger_entry_def)
  then have "retry ?l2 (begin_filename b) \<noteq> Retry"
    using entry(2) by (simp add: retry_Retry_iff)
  with q e2 disk show ?thesis by (simp add: same' Let_def)
qed

lemma example_file: "ledger_file example_ledger = Some (rec example_ledger)"
  "begin_delivery id Durable (fresh_ledger None Codex ''agent/a'' ''r1'') example_begin
     = (example_ledger, Inr (first_attempt example_begin))"
proof -
  show "begin_delivery id Durable (fresh_ledger None Codex ''agent/a'' ''r1'') example_begin
     = (example_ledger, Inr (first_attempt example_begin))" (is "?b = _")
  proof (rule prod_eqI)
    show "fst ?b = fst (example_ledger, Inr (first_attempt example_begin))" by (simp add: example_ledger_def)
    show "snd ?b = snd (example_ledger, Inr (first_attempt example_begin))"
      by (simp add: begin_delivery_def example_begin_key ensure_writable_def fresh_ledger_def ledger_entry_def
          saved_Inr_iff)
  qed
  from begin_Inr(1) [OF this] show "ledger_file example_ledger = Some (rec example_ledger)" by simp
qed

lemma example_corr:
  "begin_correlation example_begin = example_correlate (begin_binding example_begin) (begin_filename example_begin)"
  by (simp add: example_begin_def)

lemma begin_survives_crash_witness:
  "\<exists>bytes. ledger_file example_ledger = Some bytes \<and>
    (let l2 = open_ledger Some id Durable example_correlate (ReadOk bytes) (Inr []) Codex ''agent/a'' ''r2''
     in quarantine l2 = None \<and> ledger_entry l2 (begin_filename example_begin) = Some (first_attempt example_begin)
        \<and> retry l2 (begin_filename example_begin) \<noteq> Retry)"
proof -
  have "\<forall>e\<in>set (entries (rec (fresh_ledger None Codex ''agent/a'' ''r1''))). binding e = begin_binding example_begin"
    by (simp add: fresh_ledger_def)
  from begin_survives_crash [where dec = Some and enc = id and io' = Durable and recovered = "Inr []" and rid = "''r2''",
      OF _ good_fresh(1) [of example_correlate Codex "''agent/a''" "''r1''"] example_corr this example_file(2)]
  show ?thesis by (simp add: fresh_ledger_def)
qed

text \<open>
  C3. A driver never quarantines itself: whatever sequence of deliveries, receipts, turns,
  refusals, rebindings and prunings a driver ran from an empty ledger, with any of its writes
  failing before or after the rename, opening the file that is then on disk succeeds.
\<close>

theorem driver_file_reopens:
  assumes codec: "\<And>r. dec (enc r) = Some r"
    and run: "driven enc c (fresh_ledger None h agt rid\<^sub>0) l"
    and disk: "ledger_file l = Some bytes"
  shows "quarantine (open_ledger dec enc io c (ReadOk bytes) recovered h agt rid) = None"
proof -
  from driven_good [OF run good_fresh] have "good_file enc c l" by simp
  with disk obtain r where r: "bytes = enc r" "agent r = agent (rec l)" "good_ledger c (l\<lparr>rec := r\<rparr>)"
    by (auto simp: good_file_def)
  have "quarantine (open_ledger dec enc io c (ReadOk (enc (rec (l\<lparr>rec := r\<rparr>)))) recovered
      (profile (l\<lparr>rec := r\<rparr>)) (agent (rec (l\<lparr>rec := r\<rparr>))) rid) = None"
    by (rule reopen_good [where dec = dec and enc = enc, OF r(3) codec [of "rec (l\<lparr>rec := r\<rparr>)"] refl])
  then show ?thesis
    using driven_identity [OF run] r by (simp add: fresh_ledger_def)
qed

lemma driver_file_reopens_witness:
  "quarantine (open_ledger Some id StageFails example_correlate (ReadOk (rec example_ledger)) (Inr []) Codex
     ''agent/a'' ''r2'') = None"
proof -
  have "driven id example_correlate (fresh_ledger None Codex ''agent/a'' ''r1'') example_ledger"
    unfolding example_ledger_def
    by (rule driven_begin [OF driven_start]) (simp_all add: example_corr, simp add: fresh_ledger_def)
  from driver_file_reopens [where dec = Some and enc = id, OF _ this example_file(1)] show ?thesis by simp
qed

lemma recover_single:
  assumes "recover dec_codex dec_opencode read h agt c = Inr es" "es \<noteq> []"
  obtains e where "es = [e]" "valid_entry h c e" "negative e = None"
  using assms
  by (auto simp: recover_def translate_codex_def translate_opencode_def codex_entry_def opencode_entry_def
      asserted_def valid_entry_iff is_delivery_key_def
      split: read_outcome.splits harness.splits option.splits if_splits sum.splits label.splits)

text \<open>
  A message an earlier release sent is not sent again: when no ledger exists and the recovery
  seam translates a legacy record, the opened ledger never authorises another transport of that
  file. When the write of the seeded ledger is durable, opening is not quarantined, and memory and
  disk hold exactly the recovered entries.
\<close>

lemma recovered_never_resent:
  assumes rec: "recover dec_codex dec_opencode read h agt c = Inr es" and e: "e \<in> set es"
    and l: "l = open_ledger dec enc io c NotFound (recover dec_codex dec_opencode read h agt c) h agt rid"
  shows "retry l (filename e) \<noteq> Retry
    \<and> (io = Durable \<longrightarrow> quarantine l = None \<and> entries (rec l) = es \<and> ledger_file l = Some (enc (rec l)))"
proof -
  from e have "es \<noteq> []" by auto
  with rec obtain x where es: "es = [x]" and "valid_entry h c x" and neg: "negative x = None"
    by (rule recover_single)
  then have acc: "accept h c es = Inr ()" unfolding accept_iff by simp
  from e es have x: "e = x" by simp
  have "quarantine l = None \<and> entries (rec l) = es \<and> ledger_file l = Some (enc (rec l))" if "io = Durable"
    using that acc
    by (simp add: l rec open_ledger_def seed_def es persist_def replace_file_def fresh_ledger_def with_entries_def)
  moreover have "retry l (filename e) \<noteq> Retry"
  proof (cases "io = Durable")
    case True
    with calculation show ?thesis by (simp add: retry_Retry_iff ledger_entry_def es x neg)
  next
    case False
    with acc have "quarantine l \<noteq> None"
      by (cases io) (simp_all add: l rec open_ledger_def seed_def es persist_def replace_file_def fresh_ledger_def
          with_entries_def)
    then show ?thesis by (simp add: retry_Retry_iff)
  qed
  ultimately show ?thesis by blast
qed

definition example_legacy :: codex_v1 where
  "example_legacy =
     \<lparr>c_schema = ''st2.codex-delivery-state.v1'', c_agent = ''agent/a'', c_runtime_incarnation = [],
      c_thread_id = ''thread'', c_filename = ''1234567890123-abc123.md'',
      c_client_id = example_correlate ''thread'' ''1234567890123-abc123.md'', c_phase = LabelAccepted\<rparr>"

text \<open>
  C37. The one exception to write-through: when Codex repeats the acceptance of a turn that the
  ledger already holds and that was refused since, the refusal is cleared in memory and left on
  disk. The running driver no longer offers the message for transport; after a restart it does.
\<close>

theorem repeated_turn_keeps_refusal_on_disk:
  assumes codec: "\<And>r. dec (enc r) = Some r"
    and good: "good_ledger c l" and disk: "ledger_file l = Some (enc (rec l))"
    and codex: "profile l = Codex" and entry: "ledger_entry l f = Some e"
    and bound: "accepted_turn_id e = Some t" and refusal: "negative e \<noteq> None"
    and l': "l' = fst (accept_codex_turn enc io l f t)"
  shows "retry l' f \<noteq> Retry \<and> ledger_file l' = Some (enc (rec l))
    \<and> retry (open_ledger dec enc io' c (ReadOk (enc (rec l))) recovered (profile l) (agent (rec l)) rid) f = Retry"
proof -
  have q: "quarantine l = None" using good by (simp add: good_ledger_def)
  have "e \<in> set (entries (rec l))" using entry by (auto simp: ledger_entry_def dest: find_SomeD)
  from good_ledger_entry [OF good this] have t: "t \<noteq> []" "TransportAccepted \<le> entry_phase e"
    using bound by (simp_all add: valid_entry_iff)
  have l'_eq: "l' = update_entry f (turn_accepted t) l"
    using q t codex entry bound
    by (simp add: l' accept_codex_turn_def ensure_writable_def turn_accepted_def max_def)
  have "retry l' f \<noteq> Retry"
    using entry by (simp add: l'_eq retry_Retry_iff ledger_entry_update ledger_simps)
  moreover have "ledger_file l' = Some (enc (rec l))"
    using disk by (simp add: l'_eq update_entry_def with_entries_def)
  moreover have "retry (open_ledger dec enc io' c (ReadOk (enc (rec l))) recovered (profile l) (agent (rec l)) rid) f = Retry"
    using reopen_good(1,2) [where dec = dec and enc = enc, OF good codec [of "rec l"] refl, of io' recovered rid] entry refusal
    by (simp add: retry_Retry_iff ledger_entry_def)
  ultimately show ?thesis by blast
qed

definition example_refused :: "ledger_record ledger" where
  "example_refused =
     (let e = (first_attempt example_begin)
            \<lparr>entry_phase := TransportAccepted, accepted_turn_id := Some ''turn'', negative := Some Rejected\<rparr>;
          r = (rec example_ledger)\<lparr>entries := [e]\<rparr>
      in \<lparr>ledger_file = Some r, profile = Codex, rec = r, quarantine = None\<rparr>)"

lemma example_refused_good: "good_ledger example_correlate example_refused"
  using example_begin_key
  by (simp add: good_ledger_def example_refused_def Let_def accept_iff valid_entry_iff example_ledger_eq
      schema_matches_def first_attempt_def example_corr)

lemma repeated_turn_keeps_refusal_on_disk_witness:
  "retry (fst (accept_codex_turn id Durable example_refused ''message/quartz'' ''turn'')) ''message/quartz'' \<noteq> Retry
   \<and> retry (open_ledger Some id Durable example_correlate (ReadOk (rec example_refused)) (Inr []) Codex
         (agent (rec example_refused)) ''r2'') ''message/quartz'' = Retry"
proof -
  have e: "ledger_entry example_refused ''message/quartz'' = Some ((first_attempt example_begin)
      \<lparr>entry_phase := TransportAccepted, accepted_turn_id := Some ''turn'', negative := Some Rejected\<rparr>)"
    by (simp add: ledger_entry_def example_refused_def Let_def first_attempt_def example_begin_def)
  show ?thesis
    using repeated_turn_keeps_refusal_on_disk [where dec = Some and enc = id and io' = Durable and
      recovered = "Inr []" and rid = "''r2''" and io = Durable, OF _ example_refused_good _ _ e _ _ refl]
    by (simp add: example_refused_def Let_def)
qed

end
