(* ===== verification/Json.thy ===== *)
theory Json
  imports Prelude
begin

section \<open>JSON values\<close>

text \<open>
  The values of \<open>serde_json::Value\<close> as the sources read them: claim fields, rule fields and
  preimages. Numbers keep the three representations the accessors tell apart; a float is its
  printed text.
\<close>

datatype json =
    JNull
  | JBool bool
  | JPosInt nat
  | JNegInt int
  | JFloat string
  | JString string
  | JArray "json list"
  | JObject "(string \<times> json) list"

fun as_str :: "json \<Rightarrow> string option" where
  "as_str (JString s) = Some s"
| "as_str _ = None"

fun as_u64 :: "json \<Rightarrow> nat option" where
  "as_u64 (JPosInt n) = Some n"
| "as_u64 _ = None"

fun as_bool :: "json \<Rightarrow> bool option" where
  "as_bool (JBool b) = Some b"
| "as_bool _ = None"

fun as_array :: "json \<Rightarrow> json list option" where
  "as_array (JArray xs) = Some xs"
| "as_array _ = None"

end
