(* ===== verification/Membership.thy ===== *)
theory Membership
  imports Json
begin

section \<open>Fleet membership\<close>

text \<open>
  Models \<open>crates/smallclaims/src/fleet/membership.rs\<close>: the fold of admitted \<open>fleet.*\<close> claims into
  member incarnations and writer windows. Sequences are \<open>u64\<close> values as naturals with the
  saturating additions of the source; ordered maps are maps, ordered sets are sets, and the
  iteration over claims is in the order of their ids, as the source sorts them.
\<close>

subsection \<open>Claims, incarnations and windows\<close>

record fleet_claim =
  claim_id :: string
  claim_kind :: string
  claim_subject :: string
  claim_fields :: "string \<rightharpoonup> json"
  claim_writer :: string
  claim_sequence :: nat
  claim_signers :: "string set"

definition MEMBER_ADMITTED :: string where "MEMBER_ADMITTED = ''fleet.member-admitted''"
definition MEMBER_ENDPOINTS :: string where "MEMBER_ENDPOINTS = ''fleet.member-endpoints''"
definition MEMBER_LEFT :: string where "MEMBER_LEFT = ''fleet.member-left''"
definition MEMBER_REMOVED :: string where "MEMBER_REMOVED = ''fleet.member-removed''"

definition claim_name :: "fleet_claim \<Rightarrow> string option" where
  "claim_name c = strip_prefix ''host/'' (claim_subject c)"

definition claim_text :: "fleet_claim \<Rightarrow> string \<Rightarrow> string option" where
  "claim_text c f = Option.bind (claim_fields c f) as_str"

definition claim_number :: "fleet_claim \<Rightarrow> string \<Rightarrow> nat option" where
  "claim_number c f = Option.bind (claim_fields c f) as_u64"

record incarnation =
  inc_name :: string
  member_key :: string
  via :: string
  mode :: string
  sponsor :: "string option"
  admitted_claim :: string
  start :: nat
  window_end :: "nat option"
  ended :: "string option"
  removed_by :: "string option"
  removal_reason :: "string option"
  endpoints :: "json list"
  endpoints_sequence :: "nat option"

definition holds :: "incarnation \<Rightarrow> nat \<Rightarrow> bool" where
  "holds i s = (start i \<le> s \<and> (case window_end i of None \<Rightarrow> True | Some e \<Rightarrow> s \<le> e))"

datatype window = Legacy | Keyed "string set" | Fenced

datatype member_state =
    Current incarnation
  | Conflicted "incarnation list"
  | Ended incarnation
  | LegacyRemoved nat
  | NotMember

record membership =
  anchor :: "string option"
  incarnations :: "string \<rightharpoonup> incarnation list"
  legacy_ends :: "string \<rightharpoonup> nat"
  valid :: "string set"

definition no_membership :: membership where
  "no_membership = \<lparr>anchor = None, incarnations = Map.empty, legacy_ends = Map.empty, valid = {}\<rparr>"

definition incarnations_of :: "membership \<Rightarrow> string \<Rightarrow> incarnation list" where
  "incarnations_of m n = (case incarnations m n of None \<Rightarrow> [] | Some all \<Rightarrow> all)"

subsection \<open>Building a membership from the claims that count\<close>

definition window_start :: "fleet_claim \<Rightarrow> nat" where
  "window_start c = saturating_add (case claim_number c ''writer_floor'' of None \<Rightarrow> 0 | Some n \<Rightarrow> n) 1"

definition fresh_incarnation :: "fleet_claim \<Rightarrow> string \<Rightarrow> string \<Rightarrow> incarnation" where
  "fresh_incarnation c n k =
     \<lparr>inc_name = n, member_key = k,
      via = (case claim_text c ''via'' of None \<Rightarrow> [] | Some v \<Rightarrow> v),
      mode = (case claim_text c ''mode'' of None \<Rightarrow> ''listening'' | Some v \<Rightarrow> v),
      sponsor = claim_text c ''sponsor'', admitted_claim = claim_id c, start = window_start c,
      window_end = None, ended = None, removed_by = None, removal_reason = None, endpoints = [],
      endpoints_sequence = None\<rparr>"

text \<open>The first loop of \<open>build\<close>: one admission.\<close>

definition admit :: "fleet_claim \<Rightarrow> membership \<Rightarrow> membership" where
  "admit c m =
     (if claim_kind c \<noteq> MEMBER_ADMITTED then m
      else case (claim_name c, claim_text c ''member_key'') of
        (Some n, Some k) \<Rightarrow>
          if \<exists>i\<in>set (incarnations_of m n). member_key i = k then m
          else m\<lparr>incarnations := (incarnations m)(n \<mapsto> incarnations_of m n @ [fresh_incarnation c n k])\<rparr>
      | _ \<Rightarrow> m)"

definition update_incarnation ::
  "string \<Rightarrow> string \<Rightarrow> (incarnation \<Rightarrow> incarnation) \<Rightarrow> membership \<Rightarrow> membership"
where
  "update_incarnation n k g m =
     (case incarnations m n of
        None \<Rightarrow> m
      | Some all \<Rightarrow> m\<lparr>incarnations := (incarnations m)(n \<mapsto> update_first (\<lambda>i. member_key i = k) g all)\<rparr>)"

definition end_incarnation :: "fleet_claim \<Rightarrow> nat \<Rightarrow> incarnation \<Rightarrow> incarnation" where
  "end_incarnation c high_water i =
     (let word = (if claim_kind c = MEMBER_LEFT then ''left'' else ''removed'');
          i1 = i\<lparr>window_end := Some (case window_end i of None \<Rightarrow> high_water | Some e \<Rightarrow> max e high_water)\<rparr>
      in if ended i = Some ''removed'' then i1
         else let i2 = i1\<lparr>ended := Some word\<rparr>
              in if word = ''removed''
                 then i2\<lparr>removed_by := claim_text c ''removed_by'', removal_reason := claim_text c ''reason''\<rparr>
                 else i2)"

definition set_endpoints :: "fleet_claim \<Rightarrow> incarnation \<Rightarrow> incarnation" where
  "set_endpoints c i =
     (if (case endpoints_sequence i of None \<Rightarrow> True | Some s \<Rightarrow> s < claim_sequence c)
      then let i1 = i\<lparr>endpoints_sequence := Some (claim_sequence c),
                      endpoints := (case Option.bind (claim_fields c ''endpoints'') as_array of
                                      None \<Rightarrow> [] | Some xs \<Rightarrow> xs)\<rparr>
           in (case claim_text c ''mode'' of None \<Rightarrow> i1 | Some v \<Rightarrow> i1\<lparr>mode := v\<rparr>)
      else i)"

text \<open>The second loop of \<open>build\<close>: one removal, leave or endpoints claim.\<close>

definition amend :: "fleet_claim \<Rightarrow> membership \<Rightarrow> membership" where
  "amend c m =
     (case claim_name c of
        None \<Rightarrow> m
      | Some n \<Rightarrow>
          if claim_kind c = MEMBER_REMOVED \<or> claim_kind c = MEMBER_LEFT then
            (case claim_number c ''high_water'' of
               None \<Rightarrow> m
             | Some h \<Rightarrow>
                 (case claim_text c ''member_key'' of
                    Some k \<Rightarrow> update_incarnation n k (end_incarnation c h) m
                  | None \<Rightarrow>
                      m\<lparr>legacy_ends := (legacy_ends m)
                          (n \<mapsto> max (case legacy_ends m n of None \<Rightarrow> 0 | Some e \<Rightarrow> e) h)\<rparr>))
          else if claim_kind c = MEMBER_ENDPOINTS then
            (case claim_text c ''member_key'' of
               None \<Rightarrow> m
             | Some k \<Rightarrow> update_incarnation n k (set_endpoints c) m)
          else m)"

definition build :: "string \<Rightarrow> fleet_claim list \<Rightarrow> string set \<Rightarrow> membership" where
  "build a claims v =
     (let counted = filter (\<lambda>c. claim_id c \<in> v) claims
      in fold amend counted
           (fold admit counted (no_membership\<lparr>anchor := Some a, valid := v\<rparr>)))"

subsection \<open>Reading a membership\<close>

definition counts :: "membership \<Rightarrow> string \<Rightarrow> bool" where
  "counts m i = (i \<in> valid m)"

definition keys_for :: "membership \<Rightarrow> string \<Rightarrow> nat \<Rightarrow> string set" where
  "keys_for m w s = set (map member_key (filter (\<lambda>i. holds i s) (incarnations_of m w)))"

definition is_keyed_writer :: "membership \<Rightarrow> string \<Rightarrow> bool" where
  "is_keyed_writer m w = (incarnations_of m w \<noteq> [])"

text \<open>The smallest of the values that are present.\<close>

definition least_end :: "nat option list \<Rightarrow> nat option" where
  "least_end xs = (case List.map_filter id xs of [] \<Rightarrow> None | y # ys \<Rightarrow> Some (fold min ys y))"

definition window :: "membership \<Rightarrow> string \<Rightarrow> nat \<Rightarrow> window" where
  "window m w s =
     (if keys_for m w s \<noteq> {} then Keyed (keys_for m w s)
      else if \<exists>i\<in>set (incarnations_of m w). start i \<le> 1 then Fenced
      else case least_end
          [legacy_ends m w,
           map_option (\<lambda>st. st - 1) (least_end (map (\<lambda>i. Some (start i)) (incarnations_of m w)))] of
        Some e \<Rightarrow> if e < s then Fenced else Legacy
      | None \<Rightarrow> Legacy)"

text \<open>\<open>Iterator::max_by_key\<close> returns the last of the largest.\<close>

fun latest :: "incarnation list \<Rightarrow> incarnation option" where
  "latest [] = None"
| "latest (i # is) = (case latest is of None \<Rightarrow> Some i | Some j \<Rightarrow> Some (if start i \<le> start j then j else i))"

definition state :: "membership \<Rightarrow> string \<Rightarrow> member_state" where
  "state m n =
     (let all = incarnations_of m n; current = filter (\<lambda>i. window_end i = None) all
      in case current of
           [i] \<Rightarrow> Current i
         | [] \<Rightarrow>
             (case latest all of
                Some i \<Rightarrow> Ended i
              | None \<Rightarrow> (case legacy_ends m n of Some h \<Rightarrow> LegacyRemoved h | None \<Rightarrow> NotMember))
         | _ \<Rightarrow> Conflicted current)"

subsection \<open>The claims that count\<close>

definition claim_counts :: "string \<Rightarrow> fleet_claim \<Rightarrow> membership \<Rightarrow> bool" where
  "claim_counts a c m =
     (if claim_kind c = MEMBER_ADMITTED \<and> claim_text c ''via'' = Some ''anchor'' then
        claim_text c ''member_key'' = Some a \<and> claim_name c = Some (claim_writer c)
        \<and> a \<in> claim_signers c \<and> window_start c \<le> claim_sequence c
        \<and> (case Option.bind (find (\<lambda>i. member_key i = a) (incarnations_of m (claim_writer c))) window_end of
             None \<Rightarrow> True | Some e \<Rightarrow> claim_sequence c \<le> e)
      else
        let ks = keys_for m (claim_writer c) (claim_sequence c)
        in claim_signers c \<inter> ks \<noteq> {} \<and>
           (if claim_kind c = MEMBER_ENDPOINTS \<or> claim_kind c = MEMBER_LEFT then
              (case claim_text c ''member_key'' of
                 None \<Rightarrow> False
               | Some k \<Rightarrow> claim_name c = Some (claim_writer c) \<and> k \<in> ks \<and> k \<in> claim_signers c)
            else if claim_kind c = MEMBER_ADMITTED then
              (case claim_name c of None \<Rightarrow> False | Some n \<Rightarrow> n \<noteq> claim_writer c)
            else True))"

definition valid_claims :: "string \<Rightarrow> fleet_claim list \<Rightarrow> membership \<Rightarrow> string set" where
  "valid_claims a claims m = set (map claim_id (filter (\<lambda>c. claim_counts a c m) claims))"

definition agreed :: "string set option \<Rightarrow> string set \<Rightarrow> string set" where
  "agreed previous current = (case previous of Some p \<Rightarrow> current \<inter> p | None \<Rightarrow> current)"

text \<open>The loop of \<open>fold\<close>, bounded by \<open>limit\<close>; its result is the set of claims that count.\<close>

fun settle :: "(string set \<Rightarrow> string set) \<Rightarrow> nat \<Rightarrow> string set option \<Rightarrow> string set \<Rightarrow> string set" where
  "settle f 0 previous current = agreed previous current"
| "settle f (Suc n) previous current =
     (let next = f current
      in if next = current then current
         else if previous = Some next then agreed previous current
         else settle f n (Some current) next)"

definition fleet_claims :: "fleet_claim list \<Rightarrow> fleet_claim list" where
  "fleet_claims claims = sort_key claim_id (filter (\<lambda>c. starts_with (claim_kind c) ''fleet.'') claims)"

definition revise :: "string \<Rightarrow> fleet_claim list \<Rightarrow> string set \<Rightarrow> string set" where
  "revise a claims v = valid_claims a claims (build a claims v)"

definition fold_membership :: "string option \<Rightarrow> fleet_claim list \<Rightarrow> membership" where
  "fold_membership anc claims =
     (let cs = fleet_claims claims
      in case anc of
           None \<Rightarrow> no_membership
         | Some a \<Rightarrow> build a cs (settle (revise a cs) (2 * length cs + 4) None {}))"

subsection \<open>Lemmas: one incarnation per name and key\<close>

definition admits :: "string \<Rightarrow> string \<Rightarrow> fleet_claim \<Rightarrow> bool" where
  "admits n k c =
     (claim_kind c = MEMBER_ADMITTED \<and> claim_name c = Some n \<and> claim_text c ''member_key'' = Some k)"

text \<open>The high water of a removal or leave of one member key.\<close>

definition high_water :: "string \<Rightarrow> string \<Rightarrow> fleet_claim \<Rightarrow> nat option" where
  "high_water n k c =
     (if (claim_kind c = MEMBER_REMOVED \<or> claim_kind c = MEMBER_LEFT)
        \<and> claim_name c = Some n \<and> claim_text c ''member_key'' = Some k
      then claim_number c ''high_water'' else None)"

text \<open>What one claim does to the incarnation of one name and key.\<close>

definition amend_one :: "string \<Rightarrow> string \<Rightarrow> fleet_claim \<Rightarrow> incarnation \<Rightarrow> incarnation" where
  "amend_one n k c i =
     (case high_water n k c of
        Some h \<Rightarrow> end_incarnation c h i
      | None \<Rightarrow>
          if claim_kind c = MEMBER_ENDPOINTS \<and> claim_name c = Some n \<and> claim_text c ''member_key'' = Some k
          then set_endpoints c i else i)"

definition incarnation_of :: "membership \<Rightarrow> string \<Rightarrow> string \<Rightarrow> incarnation option" where
  "incarnation_of m n k = find (\<lambda>i. member_key i = k) (incarnations_of m n)"

definition one_per_key :: "membership \<Rightarrow> bool" where
  "one_per_key m = (\<forall>n. distinct (map member_key (incarnations_of m n)))"

lemma kinds_distinct [simp]:
  "MEMBER_ADMITTED \<noteq> MEMBER_ENDPOINTS" "MEMBER_ADMITTED \<noteq> MEMBER_LEFT" "MEMBER_ADMITTED \<noteq> MEMBER_REMOVED"
  "MEMBER_ENDPOINTS \<noteq> MEMBER_LEFT" "MEMBER_ENDPOINTS \<noteq> MEMBER_REMOVED" "MEMBER_LEFT \<noteq> MEMBER_REMOVED"
  "MEMBER_ENDPOINTS \<noteq> MEMBER_ADMITTED" "MEMBER_LEFT \<noteq> MEMBER_ADMITTED" "MEMBER_REMOVED \<noteq> MEMBER_ADMITTED"
  "MEMBER_LEFT \<noteq> MEMBER_ENDPOINTS" "MEMBER_REMOVED \<noteq> MEMBER_ENDPOINTS" "MEMBER_REMOVED \<noteq> MEMBER_LEFT"
  by (simp_all add: MEMBER_ADMITTED_def MEMBER_ENDPOINTS_def MEMBER_LEFT_def MEMBER_REMOVED_def)

lemma keep_fields [simp]:
  "member_key (end_incarnation c h i) = member_key i" "member_key (set_endpoints c i) = member_key i"
  "start (end_incarnation c h i) = start i" "start (set_endpoints c i) = start i"
  "admitted_claim (end_incarnation c h i) = admitted_claim i" "admitted_claim (set_endpoints c i) = admitted_claim i"
  "window_end (set_endpoints c i) = window_end i"
  "window_end (end_incarnation c h i) = Some (case window_end i of None \<Rightarrow> h | Some e \<Rightarrow> max e h)"
  "member_key (fresh_incarnation c n k) = k" "start (fresh_incarnation c n k) = window_start c"
  "window_end (fresh_incarnation c n k) = None" "admitted_claim (fresh_incarnation c n k) = claim_id c"
  by (simp_all add: end_incarnation_def set_endpoints_def fresh_incarnation_def Let_def split: option.split)

lemma amend_one_keep [simp]:
  "member_key (amend_one n k c i) = member_key i" "start (amend_one n k c i) = start i"
  "admitted_claim (amend_one n k c i) = admitted_claim i"
  by (simp_all add: amend_one_def split: option.split)

lemma incarnations_of_update:
  assumes "\<And>i. member_key (g i) = member_key i"
  shows "incarnations_of (update_incarnation n k g m) n' =
     (if n' = n then update_first (\<lambda>i. member_key i = k) g (incarnations_of m n) else incarnations_of m n')"
    and "map member_key (incarnations_of (update_incarnation n k g m) n') = map member_key (incarnations_of m n')"
    and "incarnation_of (update_incarnation n k g m) n' k' =
     (if n' = n \<and> k' = k then map_option g (incarnation_of m n k) else incarnation_of m n' k')"
proof -
  show 1: "incarnations_of (update_incarnation n k g m) n' =
     (if n' = n then update_first (\<lambda>i. member_key i = k) g (incarnations_of m n) else incarnations_of m n')"
    by (auto simp: incarnations_of_def update_incarnation_def split: option.split)
  have "map member_key (update_first p g xs) = map member_key xs" for p xs
    by (induction xs) (auto simp: assms)
  then show "map member_key (incarnations_of (update_incarnation n k g m) n') = map member_key (incarnations_of m n')"
    by (simp add: 1)
  show "incarnation_of (update_incarnation n k g m) n' k' =
     (if n' = n \<and> k' = k then map_option g (incarnation_of m n k) else incarnation_of m n' k')"
    using assms by (simp add: incarnation_of_def 1 find_update_first find_update_first_other)
qed

lemma amend_incarnation_of: "incarnation_of (amend c m) n k = map_option (amend_one n k c) (incarnation_of m n k)"
proof -
  have legacy: "incarnation_of (m\<lparr>legacy_ends := x\<rparr>) n k = incarnation_of m n k" for x
    by (simp add: incarnation_of_def incarnations_of_def)
  show ?thesis
    by (cases "incarnation_of m n k")
       (auto simp: amend_def amend_one_def high_water_def incarnations_of_update legacy split: option.split)
qed

lemma amend_keys: "map member_key (incarnations_of (amend c m) n) = map member_key (incarnations_of m n)"
proof -
  have legacy: "incarnations_of (m\<lparr>legacy_ends := x\<rparr>) n = incarnations_of m n" for x
    by (simp add: incarnations_of_def)
  show ?thesis by (simp add: amend_def incarnations_of_update legacy split: option.split)
qed

lemma admit_incarnation_of:
  "incarnation_of (admit c m) n k =
     (case incarnation_of m n k of
        Some i \<Rightarrow> Some i
      | None \<Rightarrow> if admits n k c then Some (fresh_incarnation c n k) else None)"
  by (auto simp: admit_def incarnation_of_def incarnations_of_def admits_def find_None_iff
      split: option.splits)

lemma admit_keys: "one_per_key m \<Longrightarrow> one_per_key (admit c m)"
  by (auto simp: one_per_key_def admit_def incarnations_of_def split: option.splits)

lemma fold_admit_incarnation_of:
  "incarnation_of (fold admit cs m) n k =
     (case incarnation_of m n k of
        Some i \<Rightarrow> Some i
      | None \<Rightarrow> map_option (\<lambda>c. fresh_incarnation c n k) (find (admits n k) cs))"
  by (induction cs arbitrary: m) (auto simp: admit_incarnation_of split: option.splits)

lemma fold_amend_incarnation_of:
  "incarnation_of (fold amend cs m) n k = map_option (fold (amend_one n k) cs) (incarnation_of m n k)"
  by (induction cs arbitrary: m) (simp_all add: amend_incarnation_of option.map_comp comp_def option.map_id)

lemma fold_amend_keys: "map member_key (incarnations_of (fold amend cs m) n) = map member_key (incarnations_of m n)"
  by (induction cs arbitrary: m) (simp_all add: amend_keys)

lemma one_per_key_build: "one_per_key (build a cs v)"
proof -
  have "one_per_key m \<Longrightarrow> one_per_key (fold admit ds m)" for ds m
    by (induction ds arbitrary: m) (simp_all add: admit_keys)
  moreover have "one_per_key (no_membership\<lparr>anchor := Some a, valid := v\<rparr>)"
    by (simp add: one_per_key_def incarnations_of_def no_membership_def)
  ultimately have "one_per_key (fold admit ds (no_membership\<lparr>anchor := Some a, valid := v\<rparr>))" for ds
    by blast
  then show ?thesis unfolding build_def Let_def one_per_key_def by (simp add: fold_amend_keys)
qed

abbreviation counted :: "string set \<Rightarrow> fleet_claim list \<Rightarrow> fleet_claim list" where
  "counted v \<equiv> filter (\<lambda>c. claim_id c \<in> v)"

lemma build_incarnation_of:
  "incarnation_of (build a cs v) n k =
     map_option (\<lambda>c. fold (amend_one n k) (counted v cs) (fresh_incarnation c n k))
       (find (admits n k) (counted v cs))"
proof -
  have "incarnation_of (no_membership\<lparr>anchor := Some a, valid := v\<rparr>) n k = None"
    by (simp add: incarnation_of_def incarnations_of_def no_membership_def)
  then show ?thesis
    by (simp add: build_def Let_def fold_amend_incarnation_of fold_admit_incarnation_of option.map_comp comp_def)
qed

lemma valid_build [simp]: "valid (build a cs v) = v"
proof -
  have "valid (admit c m) = valid m" "valid (amend c m) = valid m" for c m
    by (auto simp: admit_def amend_def update_incarnation_def split: option.split)
  then have "valid (fold admit ds m) = valid m" "valid (fold amend ds m) = valid m" for ds m
    by (induction ds arbitrary: m) simp_all
  then show ?thesis by (simp add: build_def Let_def)
qed

lemma fold_amend_start: "start (fold (amend_one n k) cs i) = start i"
  "member_key (fold (amend_one n k) cs i) = member_key i"
  "admitted_claim (fold (amend_one n k) cs i) = admitted_claim i"
  by (induction cs arbitrary: i) simp_all

text \<open>A window reaches a sequence unless it was ended below it by every removal that names it.\<close>

lemma fold_amend_reaches:
  "(case window_end (fold (amend_one n k) cs i) of None \<Rightarrow> True | Some e \<Rightarrow> s \<le> e) \<longleftrightarrow>
     (window_end i = None \<and> (\<forall>c\<in>set cs. high_water n k c = None))
     \<or> (\<exists>e. window_end i = Some e \<and> s \<le> e) \<or> (\<exists>c\<in>set cs. \<exists>h. high_water n k c = Some h \<and> s \<le> h)"
proof (induction cs arbitrary: i)
  case Nil
  then show ?case by (auto split: option.split)
next
  case (Cons c cs)
  have "window_end (amend_one n k c i) =
      (case high_water n k c of None \<Rightarrow> window_end i
       | Some h \<Rightarrow> Some (case window_end i of None \<Rightarrow> h | Some e \<Rightarrow> max e h))"
    by (simp add: amend_one_def split: option.split)
  then show ?case
    by (cases "high_water n k c"; cases "window_end i") (auto simp: Cons le_max_iff_disj)
qed

lemma keys_for_iff:
  assumes "one_per_key m"
  shows "k \<in> keys_for m w s \<longleftrightarrow> (\<exists>i. incarnation_of m w k = Some i \<and> holds i s)"
proof -
  have "distinct (map member_key (incarnations_of m w))" using assms by (simp add: one_per_key_def)
  then show ?thesis
    unfolding keys_for_def incarnation_of_def
    by (auto simp: find_key_Some dest: find_SomeD)
qed

lemma keys_for_build_iff:
  "k \<in> keys_for (build a cs v) w s \<longleftrightarrow>
     (\<exists>c. find (admits w k) (counted v cs) = Some c \<and> window_start c \<le> s)
     \<and> ((\<forall>c\<in>set (counted v cs). high_water w k c = None)
        \<or> (\<exists>c\<in>set (counted v cs). \<exists>h. high_water w k c = Some h \<and> s \<le> h))"
  unfolding keys_for_iff [OF one_per_key_build] build_incarnation_of holds_def
  by (auto simp: fold_amend_reaches fold_amend_start)

subsection \<open>The chain of trust\<close>

text \<open>
  Who may say what, independently of the fold: the anchor's own admission signed with the anchor
  key, and what is signed with a key that a trusted claim admitted for the writer of the envelope.
\<close>

inductive trusted :: "string \<Rightarrow> fleet_claim set \<Rightarrow> fleet_claim \<Rightarrow> bool" for a C where
  trusted_anchor: "trusted a C c"
    if "c \<in> C" "claim_text c ''via'' = Some ''anchor''" "admits (claim_writer c) a c"
      "a \<in> claim_signers c" "window_start c \<le> claim_sequence c"
| trusted_member: "trusted a C c"
    if "c \<in> C" "trusted a C t" "admits (claim_writer c) k t" "window_start t \<le> claim_sequence c"
      "k \<in> claim_signers c" "claim_kind c \<noteq> MEMBER_ENDPOINTS" "claim_kind c \<noteq> MEMBER_LEFT"
      "claim_kind c = MEMBER_ADMITTED \<Longrightarrow> claim_text c ''via'' \<noteq> Some ''anchor''
         \<and> (\<exists>n. claim_name c = Some n \<and> n \<noteq> claim_writer c)"
| trusted_self: "trusted a C c"
    if "c \<in> C" "trusted a C t" "admits (claim_writer c) k t" "window_start t \<le> claim_sequence c"
      "k \<in> claim_signers c" "claim_kind c = MEMBER_ENDPOINTS \<or> claim_kind c = MEMBER_LEFT"
      "claim_text c ''member_key'' = Some k" "claim_name c = Some (claim_writer c)"

lemma trusted_in: "trusted a C c \<Longrightarrow> c \<in> C"
  by (induction rule: trusted.induct) simp_all

definition anchor_claim :: "fleet_claim \<Rightarrow> bool" where
  "anchor_claim c = (claim_kind c = MEMBER_ADMITTED \<and> claim_text c ''via'' = Some ''anchor'')"

lemma claim_counts_anchor:
  "anchor_claim c \<Longrightarrow> claim_counts a c m \<longleftrightarrow>
     admits (claim_writer c) a c \<and> a \<in> claim_signers c \<and> window_start c \<le> claim_sequence c
     \<and> (case Option.bind (incarnation_of m (claim_writer c) a) window_end of
          None \<Rightarrow> True | Some e \<Rightarrow> claim_sequence c \<le> e)"
  by (auto simp: claim_counts_def anchor_claim_def admits_def incarnation_of_def)

lemma claim_counts_member:
  "\<not> anchor_claim c \<Longrightarrow> claim_counts a c m \<longleftrightarrow>
     (\<exists>k\<in>claim_signers c. k \<in> keys_for m (claim_writer c) (claim_sequence c)
        \<and> (if claim_kind c = MEMBER_ENDPOINTS \<or> claim_kind c = MEMBER_LEFT
           then claim_text c ''member_key'' = Some k \<and> claim_name c = Some (claim_writer c)
           else claim_kind c = MEMBER_ADMITTED \<longrightarrow> (\<exists>n. claim_name c = Some n \<and> n \<noteq> claim_writer c)))"
  by (auto simp: claim_counts_def anchor_claim_def Let_def split: option.splits)

lemma revise_iff: "i \<in> revise a cs v \<longleftrightarrow> (\<exists>c\<in>set cs. claim_id c = i \<and> claim_counts a c (build a cs v))"
  by (auto simp: revise_def valid_claims_def)

lemma distinct_ids:
  "distinct (map claim_id cs) \<Longrightarrow> c \<in> set cs \<Longrightarrow> d \<in> set cs \<Longrightarrow> claim_id c = claim_id d \<Longrightarrow> c = d"
  by (simp add: distinct_map inj_on_def)

lemma revise_trusted:
  assumes ids: "distinct (map claim_id cs)" and v: "v \<subseteq> claim_id ` {c. trusted a (set cs) c}"
  shows "revise a cs v \<subseteq> claim_id ` {c. trusted a (set cs) c}"
proof
  fix i assume "i \<in> revise a cs v"
  then obtain c where c: "c \<in> set cs" "claim_id c = i" "claim_counts a c (build a cs v)"
    by (auto simp: revise_iff)
  have "trusted a (set cs) c"
  proof (cases "anchor_claim c")
    case True
    with c show ?thesis
      by (auto simp: claim_counts_anchor anchor_claim_def intro: trusted_anchor)
  next
    case False
    with c obtain k where k: "k \<in> claim_signers c" "k \<in> keys_for (build a cs v) (claim_writer c) (claim_sequence c)"
      and say: "if claim_kind c = MEMBER_ENDPOINTS \<or> claim_kind c = MEMBER_LEFT
           then claim_text c ''member_key'' = Some k \<and> claim_name c = Some (claim_writer c)
           else claim_kind c = MEMBER_ADMITTED \<longrightarrow> (\<exists>n. claim_name c = Some n \<and> n \<noteq> claim_writer c)"
      by (auto simp: claim_counts_member)
    from k(2) obtain t where t: "t \<in> set cs" "claim_id t \<in> v" "admits (claim_writer c) k t"
        "window_start t \<le> claim_sequence c"
      by (auto simp: keys_for_build_iff dest!: find_SomeD)
    with v ids have tr: "trusted a (set cs) t" by (auto dest: trusted_in distinct_ids)
    show ?thesis
    proof (cases "claim_kind c = MEMBER_ENDPOINTS \<or> claim_kind c = MEMBER_LEFT")
      case True
      with say show ?thesis by (intro trusted_self [OF c(1) tr t(3,4) k(1)]) auto
    next
      case other: False
      with say False show ?thesis
        by (intro trusted_member [OF c(1) tr t(3,4) k(1)]) (auto simp: anchor_claim_def)
    qed
  qed
  with c show "i \<in> claim_id ` {c. trusted a (set cs) c}" by blast
qed

lemma agreed_subset: "agreed p c \<subseteq> c"
  by (auto simp: agreed_def split: option.splits)

lemma settle_subset:
  assumes "\<And>v. v \<subseteq> U \<Longrightarrow> f v \<subseteq> U"
  shows "cur \<subseteq> U \<Longrightarrow> settle f n prev cur \<subseteq> U"
proof (induction n arbitrary: prev cur)
  case 0
  then show ?case using agreed_subset by auto
next
  case (Suc n)
  then show ?case using agreed_subset [of prev cur] assms [of cur] by (auto simp: Let_def)
qed

text \<open>A monotone operator on the subsets of a finite set is iterated to a fixed point.\<close>

lemma settle_fixed:
  assumes mono: "\<And>x y. x \<subseteq> y \<Longrightarrow> f x \<subseteq> f y" and U: "\<And>x. f x \<subseteq> U" "finite U"
  shows "cur \<subseteq> U \<Longrightarrow> cur \<subseteq> f cur \<Longrightarrow> (\<And>p. prev = Some p \<Longrightarrow> p \<subset> cur) \<Longrightarrow> card U - card cur < n \<Longrightarrow>
    f (settle f n prev cur) = settle f n prev cur"
proof (induction n arbitrary: prev cur)
  case 0
  then show ?case by simp
next
  case (Suc n)
  show ?case
  proof (cases "f cur = cur")
    case True
    then show ?thesis by simp
  next
    case False
    with Suc.prems have up: "cur \<subset> f cur" by blast
    then have not_prev: "prev \<noteq> Some (f cur)" using Suc.prems(3) by blast
    have "card cur < card (f cur)" "card (f cur) \<le> card U"
      by (rule psubset_card_mono [OF finite_subset [OF U] up], rule card_mono [OF U(2) U(1)])
    then have "card U - card (f cur) < n" using Suc.prems(4) by linarith
    then have "f (settle f n (Some cur) (f cur)) = settle f n (Some cur) (f cur)"
      using U up mono by (intro Suc.IH) auto
    with False not_prev show ?thesis by (simp add: Let_def)
  qed
qed

subsection \<open>Lemmas: fleets that nobody left\<close>

definition no_departure :: "fleet_claim list \<Rightarrow> bool" where
  "no_departure cs = (\<forall>c\<in>set cs. \<forall>n k. high_water n k c = None)"

definition one_admission :: "fleet_claim list \<Rightarrow> bool" where
  "one_admission cs = (\<forall>c\<in>set cs. \<forall>d\<in>set cs. \<forall>n k. admits n k c \<longrightarrow> admits n k d \<longrightarrow> c = d)"

lemma fold_amend_no_end:
  "\<forall>c\<in>set cs. high_water n k c = None \<Longrightarrow> window_end (fold (amend_one n k) cs i) = window_end i"
  by (induction cs arbitrary: i) (auto simp: amend_one_def)

lemma find_unique:
  assumes "x \<in> set xs" "p x" "\<And>y. y \<in> set xs \<Longrightarrow> p y \<Longrightarrow> y = x"
  shows "find p xs = Some x"
  using assms find_SomeD [of p xs] find_None_iff [of p xs] by (metis option.exhaust)

lemma keys_for_build_no_departure:
  assumes "no_departure cs" "one_admission cs"
  shows "k \<in> keys_for (build a cs v) w s \<longleftrightarrow>
    (\<exists>t\<in>set cs. claim_id t \<in> v \<and> admits w k t \<and> window_start t \<le> s)"
proof -
  have first: "find (admits w k) (counted v cs) = Some t \<longleftrightarrow> t \<in> set cs \<and> claim_id t \<in> v \<and> admits w k t" for t
  proof
    assume "t \<in> set cs \<and> claim_id t \<in> v \<and> admits w k t"
    then show "find (admits w k) (counted v cs) = Some t"
      using assms(2) by (intro find_unique) (auto simp: one_admission_def)
  qed (auto dest: find_SomeD)
  have "\<forall>c\<in>set (counted v cs). high_water w k c = None"
    using assms(1) by (simp add: no_departure_def)
  then show ?thesis unfolding keys_for_build_iff first by auto
qed

lemma claim_counts_no_departure:
  assumes "no_departure cs" "one_admission cs"
  shows "claim_counts a c (build a cs v) \<longleftrightarrow>
    (if anchor_claim c
     then admits (claim_writer c) a c \<and> a \<in> claim_signers c \<and> window_start c \<le> claim_sequence c
     else \<exists>k\<in>claim_signers c.
        (\<exists>t\<in>set cs. claim_id t \<in> v \<and> admits (claim_writer c) k t \<and> window_start t \<le> claim_sequence c)
        \<and> (if claim_kind c = MEMBER_ENDPOINTS \<or> claim_kind c = MEMBER_LEFT
           then claim_text c ''member_key'' = Some k \<and> claim_name c = Some (claim_writer c)
           else claim_kind c = MEMBER_ADMITTED \<longrightarrow> (\<exists>n. claim_name c = Some n \<and> n \<noteq> claim_writer c)))"
proof (cases "anchor_claim c")
  case True
  have "Option.bind (incarnation_of (build a cs v) (claim_writer c) a) window_end = None"
    using assms(1)
    by (cases "find (admits (claim_writer c) a) (counted v cs)")
       (simp_all add: build_incarnation_of fold_amend_no_end no_departure_def)
  with True show ?thesis by (simp add: claim_counts_anchor)
next
  case False
  then show ?thesis by (simp add: claim_counts_member keys_for_build_no_departure [OF assms])
qed

lemma revise_mono:
  assumes "no_departure cs" "one_admission cs" "x \<subseteq> y"
  shows "revise a cs x \<subseteq> revise a cs y"
proof
  fix i assume "i \<in> revise a cs x"
  then obtain c where c: "c \<in> set cs" "claim_id c = i" "claim_counts a c (build a cs x)"
    by (auto simp: revise_iff)
  have "claim_counts a c (build a cs y)"
  proof (cases "anchor_claim c")
    case True
    with c(3) show ?thesis by (simp add: claim_counts_no_departure [OF assms(1,2)])
  next
    case False
    with c(3) obtain k t where "k \<in> claim_signers c" "t \<in> set cs" "claim_id t \<in> x"
        "admits (claim_writer c) k t" "window_start t \<le> claim_sequence c"
        "if claim_kind c = MEMBER_ENDPOINTS \<or> claim_kind c = MEMBER_LEFT
         then claim_text c ''member_key'' = Some k \<and> claim_name c = Some (claim_writer c)
         else claim_kind c = MEMBER_ADMITTED \<longrightarrow> (\<exists>n. claim_name c = Some n \<and> n \<noteq> claim_writer c)"
      unfolding claim_counts_no_departure [OF assms(1,2)] by (simp only: if_False) blast
    moreover have "claim_id t \<in> y" using calculation(3) assms(3) by blast
    ultimately show ?thesis
      using False unfolding claim_counts_no_departure [OF assms(1,2)] by (simp only: if_False) blast
  qed
  with c show "i \<in> revise a cs y" by (auto simp: revise_iff)
qed

lemma trusted_closed:
  assumes nd: "no_departure cs" "one_admission cs" and fixed: "revise a cs v = v"
    and tr: "trusted a (set cs) c"
  shows "claim_id c \<in> v"
proof -
  have "claim_id c \<in> revise a cs v" if "c \<in> set cs" "claim_counts a c (build a cs v)" for c
    using that by (auto simp: revise_iff)
  with fixed have enter: "claim_id c \<in> v" if "c \<in> set cs" "claim_counts a c (build a cs v)" for c
    using that by metis
  from tr show ?thesis
  proof (induction rule: trusted.induct)
    case (trusted_anchor c)
    then show ?case
      by (intro enter) (auto simp: claim_counts_no_departure [OF nd] anchor_claim_def admits_def)
  next
    case (trusted_member c t k)
    then show ?case
      by (intro enter) (auto simp: claim_counts_no_departure [OF nd] anchor_claim_def dest: trusted_in)
  next
    case (trusted_self c t k)
    then show ?case
      by (intro enter) (auto simp: claim_counts_no_departure [OF nd] anchor_claim_def dest: trusted_in)
  qed
qed

lemma fold_min_less: "fold min ys y < (s :: nat) \<longleftrightarrow> y < s \<or> (\<exists>z\<in>set ys. z < s)"
  by (induction ys arbitrary: y) (auto simp: min_less_iff_disj)

lemma least_end_less:
  "(\<exists>e. least_end xs = Some e \<and> e < s) \<longleftrightarrow> (\<exists>x. Some x \<in> set xs \<and> x < s)"
proof -
  have "Some x \<in> set xs \<longleftrightarrow> x \<in> set (List.map_filter id xs)" for x
    by (induction xs) (auto simp: List.map_filter_simps split: option.splits)
  then show ?thesis
    by (cases "List.map_filter id xs") (auto simp: least_end_def fold_min_less)
qed

lemma least_start_less:
  assumes "\<forall>i\<in>set is. 1 < start i"
  shows "(\<exists>e. map_option (\<lambda>st. st - 1) (least_end (map (\<lambda>i. Some (start i)) is)) = Some e \<and> e < s)
     \<longleftrightarrow> (\<exists>i\<in>set is. start i \<le> s)"
proof -
  have pos: "1 \<le> st" if "least_end (map (\<lambda>i. Some (start i)) is) = Some st" for st
    using that assms least_end_less [of "map (\<lambda>i. Some (start i)) is" 1] by (auto simp: not_less_eq_eq)
  have "(\<exists>st. least_end (map (\<lambda>i. Some (start i)) is) = Some st \<and> st < Suc s) \<longleftrightarrow> (\<exists>i\<in>set is. start i < Suc s)"
    unfolding least_end_less by auto
  then show ?thesis using pos by (auto simp: less_Suc_eq_le)
qed

lemma window_Legacy_iff:
  "window m w s = Legacy \<longleftrightarrow>
     (\<forall>i\<in>set (incarnations_of m w). max 1 s < start i) \<and> (\<forall>e. legacy_ends m w = Some e \<longrightarrow> s \<le> e)"
proof (cases "\<forall>i\<in>set (incarnations_of m w). 1 < start i")
  case True
  let ?is = "incarnations_of m w"
  have two: "(\<exists>x. Some x \<in> set [A, B] \<and> x < s) \<longleftrightarrow> (\<exists>e. A = Some e \<and> e < s) \<or> (\<exists>e. B = Some e \<and> e < s)"
    for A B :: "nat option" by auto
  let ?keyed = "map_option (\<lambda>st. st - 1) (least_end (map (\<lambda>i. Some (start i)) ?is))"
  have "window m w s = Legacy \<longleftrightarrow> keys_for m w s = {} \<and> \<not> (\<exists>e. least_end [legacy_ends m w, ?keyed] = Some e \<and> e < s)"
    using True by (auto simp: window_def split: option.split)
  also have "\<dots> \<longleftrightarrow> keys_for m w s = {} \<and> \<not> (\<exists>e. legacy_ends m w = Some e \<and> e < s) \<and> \<not> (\<exists>i\<in>set ?is. start i \<le> s)"
    unfolding least_end_less least_start_less [OF True, symmetric] two by blast
  also have "\<dots> \<longleftrightarrow> (\<forall>i\<in>set ?is. max 1 s < start i) \<and> (\<forall>e. legacy_ends m w = Some e \<longrightarrow> s \<le> e)"
    using True by (auto simp: keys_for_def holds_def not_le not_less)
  finally show ?thesis .
next
  case False
  then show ?thesis by (auto simp: window_def not_less split: option.splits)
qed

lemma fold_membership_Some:
  "valid (fold_membership (Some a) claims) =
     settle (revise a (fleet_claims claims)) (2 * length (fleet_claims claims) + 4) None {}"
  by (simp add: fold_membership_def Let_def)

lemma distinct_fleet_claims: "distinct (map claim_id claims) \<Longrightarrow> distinct (map claim_id (fleet_claims claims))"
  by (auto simp: fleet_claims_def distinct_map inj_on_def)

subsection \<open>A fleet whose claims contradict each other\<close>

definition example_claim :: "string \<Rightarrow> string \<Rightarrow> string \<Rightarrow> (string \<times> json) list \<Rightarrow> string \<Rightarrow> fleet_claim" where
  "example_claim i k n fs w =
     \<lparr>claim_id = i, claim_kind = k, claim_subject = ''host/'' @ n, claim_fields = map_of fs,
      claim_writer = w, claim_sequence = 1, claim_signers = {CHR ''k'' # w}\<rparr>"

text \<open>The anchor \<open>r\<close> admits \<open>c\<close>, \<open>c\<close> admits \<open>d\<close>, and \<open>d\<close> removes \<open>c\<close> from before that admission.\<close>

definition example_fleet :: "fleet_claim list" where
  "example_fleet =
     [example_claim ''1'' MEMBER_ADMITTED ''r'' [(''via'', JString ''anchor''), (''member_key'', JString ''kr'')] ''r'',
      example_claim ''2'' MEMBER_ADMITTED ''d'' [(''member_key'', JString ''kd'')] ''c'',
      example_claim ''3'' MEMBER_REMOVED ''c'' [(''member_key'', JString ''kc''), (''high_water'', JPosInt 0)] ''d'',
      example_claim ''4'' MEMBER_ADMITTED ''c'' [(''member_key'', JString ''kc'')] ''r'']"

definition example_noise :: fleet_claim where
  "example_noise = example_claim ''5'' MEMBER_ENDPOINTS ''x'' [] ''x''"

lemma find_filter: "find p (filter q xs) = find (\<lambda>x. q x \<and> p x) xs"
  by (induction xs) auto

lemmas example_defs = example_fleet_def example_noise_def example_claim_def admits_def high_water_def claim_name_def
  claim_text_def claim_number_def window_start_def saturating_add_def strip_prefix_def


definition example_revise :: "string set \<Rightarrow> string set" where
  "example_revise v = {''1''} \<union> (if ''4'' \<in> v \<and> ''3'' \<notin> v then {''2''} else {})
     \<union> (if ''2'' \<in> v then {''3''} else {}) \<union> (if ''1'' \<in> v then {''4''} else {})"

lemma revise_example:
  assumes "cs = example_fleet \<or> cs = example_fleet @ [example_noise]"
  shows "revise ''kr'' cs v = example_revise v"
proof -
  define m where "m = build ''kr'' cs v"
  have k: "''kr'' \<in> keys_for m ''r'' (Suc 0) \<longleftrightarrow> ''1'' \<in> v"
    "''kc'' \<in> keys_for m ''c'' (Suc 0) \<longleftrightarrow> ''4'' \<in> v \<and> ''3'' \<notin> v"
    "''kd'' \<in> keys_for m ''d'' (Suc 0) \<longleftrightarrow> ''2'' \<in> v"
    "''kx'' \<in> keys_for m ''x'' (Suc 0) \<longleftrightarrow> False"
    unfolding m_def using assms by (elim disjE; simp add: keys_for_build_iff find_filter example_defs; fail)+
  have "\<forall>c\<in>set cs. high_water ''r'' ''kr'' c = None"
    using assms by (elim disjE; simp add: example_defs)
  then have e: "Option.bind (find (\<lambda>i. member_key i = ''kr'') (incarnations_of m ''r'')) window_end = None"
    using build_incarnation_of [of "''kr''" cs v "''r''" "''kr''"]
    by (cases "find (admits ''r'' ''kr'') (counted v cs)") (simp_all add: m_def incarnation_of_def fold_amend_no_end)
  have "revise ''kr'' cs v = set (map claim_id (filter (\<lambda>c. claim_counts ''kr'' c m) cs))"
    by (simp add: revise_def valid_claims_def m_def)
  also have "\<dots> = example_revise v"
    using assms by (elim disjE; simp add: claim_counts_def k e example_defs Let_def example_revise_def insert_commute)
  finally show ?thesis .
qed

lemma settle_cycle:
  assumes "f A = B" "f B = C" "f C = D" "f D = A" "distinct [A, B, C, D]"
  shows "prev \<noteq> Some B \<Longrightarrow> settle f (n + 4) prev A = settle f n (Some D) A"
    and "prev \<noteq> Some B \<Longrightarrow> settle f 2 prev A = C \<inter> B"
proof -
  have "B \<noteq> A" "C \<noteq> B" "D \<noteq> C" "A \<noteq> D" "C \<noteq> A" "D \<noteq> B" "A \<noteq> C" "B \<noteq> D" using assms(5) by auto
  with assms(1-4) show "prev \<noteq> Some B \<Longrightarrow> settle f (n + 4) prev A = settle f n (Some D) A"
    "prev \<noteq> Some B \<Longrightarrow> settle f 2 prev A = C \<inter> B"
    by (simp_all add: numeral_eq_Suc Let_def agreed_def)
qed

lemma settle_example:
  "settle example_revise 12 None {} = {''1'', ''2'', ''4''}" "settle example_revise 14 None {} = {''1'', ''4''}"
proof -
  define A where "A = {''1'', ''4''}"
  define B where "B = {''1'', ''2'', ''4''}"
  define C where "C = {''1'', ''2'', ''3'', ''4''}"
  define D where "D = {''1'', ''3'', ''4''}"
  define E where "E = {''1''}"
  note defs = A_def B_def C_def D_def E_def
  have f: "example_revise A = B" "example_revise B = C" "example_revise C = D" "example_revise D = A"
    and enter: "example_revise {} = E" "example_revise E = A"
    by (simp_all add: example_revise_def defs insert_commute)
  have "''2'' \<notin> A" "''3'' \<notin> A" "''2'' \<in> B" "''3'' \<notin> B" "''2'' \<in> C" "''3'' \<in> C" "''2'' \<notin> D" "''3'' \<in> D"
    "''4'' \<in> A" "''4'' \<in> B" "''4'' \<notin> E" "''1'' \<in> E"
    by (simp_all add: defs)
  then have d: "distinct [A, B, C, D]" and neq: "A \<noteq> E" "E \<noteq> B" "D \<noteq> B" "E \<noteq> {}" "A \<noteq> {}" by auto
  note cycle = settle_cycle [OF f d]
  have "settle example_revise 12 None {} = settle example_revise 10 (Some E) A"
    using enter neq by (simp add: numeral_eq_Suc Let_def)
  also have "\<dots> = settle example_revise 6 (Some D) A"
    using cycle(1) [of "Some E" 6] neq by simp
  also have "\<dots> = settle example_revise 2 (Some D) A"
    using cycle(1) [of "Some D" 2] neq by simp
  also have "\<dots> = C \<inter> B" using cycle(2) [of "Some D"] neq by simp
  finally show "settle example_revise 12 None {} = {''1'', ''2'', ''4''}" by (simp add: defs)
  have "settle example_revise 14 None {} = settle example_revise 12 (Some E) A"
    using enter neq by (simp add: numeral_eq_Suc Let_def)
  also have "\<dots> = settle example_revise 8 (Some D) A"
    using cycle(1) [of "Some E" 8] neq by simp
  also have "\<dots> = settle example_revise 4 (Some D) A"
    using cycle(1) [of "Some D" 4] neq by simp
  also have "\<dots> = settle example_revise 0 (Some D) A"
    using cycle(1) [of "Some D" 0] neq by simp
  finally show "settle example_revise 14 None {} = {''1'', ''4''}" by (simp add: defs agreed_def)
qed

lemma fleet_claims_example:
  "fleet_claims example_fleet = example_fleet"
  "fleet_claims (example_fleet @ [example_noise]) = example_fleet @ [example_noise]"
  by (simp_all add: fleet_claims_def example_fleet_def example_noise_def example_claim_def starts_with_def
      strip_prefix_def MEMBER_ADMITTED_def MEMBER_REMOVED_def MEMBER_ENDPOINTS_def sort_key_def)

lemma fold_membership_example:
  "fold_membership (Some ''kr'') example_fleet = build ''kr'' example_fleet {''1'', ''2'', ''4''}"
  "fold_membership (Some ''kr'') (example_fleet @ [example_noise])
     = build ''kr'' (example_fleet @ [example_noise]) {''1'', ''4''}"
proof -
  have "revise ''kr'' example_fleet = example_revise" "revise ''kr'' (example_fleet @ [example_noise]) = example_revise"
    using revise_example by auto
  then show "fold_membership (Some ''kr'') example_fleet = build ''kr'' example_fleet {''1'', ''2'', ''4''}"
    "fold_membership (Some ''kr'') (example_fleet @ [example_noise])
     = build ''kr'' (example_fleet @ [example_noise]) {''1'', ''4''}"
    using settle_example by (simp_all add: fold_membership_def Let_def fleet_claims_example)
       (simp_all add: example_fleet_def)
qed

subsection \<open>Properties\<close>

text \<open>
  C14. Replicas agree on the fleet: the membership folded from the same claims is the same whatever
  order the claims arrived in.
\<close>

theorem membership_order_independent:
  assumes "mset claims = mset claims'" "distinct (map claim_id claims)"
  shows "fold_membership anc claims = fold_membership anc claims'"
proof -
  have "fleet_claims claims = fleet_claims claims'"
    unfolding fleet_claims_def using assms
    by (intro sort_key_mset_eq) (auto simp: distinct_map inj_on_def)
  then show ?thesis by (simp add: fold_membership_def)
qed

lemma membership_order_independent_witness:
  "fold_membership (Some ''kr'') example_fleet = fold_membership (Some ''kr'') (rev example_fleet)"
  by (rule membership_order_independent) (simp_all add: example_fleet_def example_claim_def)

text \<open>
  C4. Nobody joins a fleet except through the anchor: a claim counts only if it is the anchor's own
  admission signed with the anchor key, or is signed with a key that a claim trusted in the same
  way admitted for that writer, at a sequence inside the admitted window; and a member's endpoints
  and leave are its own word.
\<close>

theorem membership_chain_of_trust:
  assumes "distinct (map claim_id claims)" "counts (fold_membership (Some a) claims) i"
  shows "\<exists>c. claim_id c = i \<and> trusted a (set (fleet_claims claims)) c"
proof -
  let ?cs = "fleet_claims claims"
  have "settle (revise a ?cs) n None {} \<subseteq> claim_id ` {c. trusted a (set ?cs) c}" for n
    by (rule settle_subset) (simp_all add: revise_trusted distinct_fleet_claims assms(1))
  with assms(2) show ?thesis
    unfolding counts_def fold_membership_Some by blast
qed

lemma membership_chain_of_trust_witness:
  "\<exists>c. claim_id c = ''2'' \<and> trusted ''kr'' (set (fleet_claims example_fleet)) c"
  by (rule membership_chain_of_trust)
     (simp_all add: fold_membership_example counts_def, simp add: example_fleet_def example_claim_def)

text \<open>
  C13. In a fleet that nobody was removed from and nobody left, and where a key is admitted for a
  name once, the fold ends at a fixed point within its bound and every trusted claim counts: the
  claims that count are exactly those with a chain of admissions from the anchor.
\<close>

theorem membership_complete:
  assumes ids: "distinct (map claim_id claims)"
    and nd: "no_departure (fleet_claims claims)" "one_admission (fleet_claims claims)"
  shows "counts (fold_membership (Some a) claims) i \<longleftrightarrow>
    (\<exists>c. claim_id c = i \<and> trusted a (set (fleet_claims claims)) c)"
proof -
  let ?cs = "fleet_claims claims" and ?U = "claim_id ` set (fleet_claims claims)"
  let ?v = "settle (revise a ?cs) (2 * length ?cs + 4) None {}"
  have "revise a ?cs ?v = ?v"
  proof (rule settle_fixed [where U = ?U])
    show "revise a ?cs x \<subseteq> ?U" for x by (auto simp: revise_iff)
    have "card ?U \<le> length ?cs" using card_image_le card_length le_trans by blast
    then show "card ?U - card {} < 2 * length ?cs + 4" by simp
  qed (simp_all add: revise_mono nd)
  then have "claim_id c \<in> ?v" if "trusted a (set ?cs) c" for c
    using trusted_closed [OF nd] that by blast
  moreover have "?v \<subseteq> claim_id ` {c. trusted a (set ?cs) c}"
    by (rule settle_subset) (simp_all add: revise_trusted distinct_fleet_claims ids)
  ultimately show ?thesis
    unfolding counts_def fold_membership_Some by blast
qed

definition example_members :: "fleet_claim list" where
  "example_members = filter (\<lambda>c. claim_id c \<noteq> ''3'') example_fleet"

lemma membership_complete_witness: "counts (fold_membership (Some ''kr'') example_members) ''2''"
proof -
  have cs: "set (fleet_claims example_members) = set example_members"
    by (simp add: example_members_def example_fleet_def fleet_claims_def example_claim_def starts_with_def
        strip_prefix_def MEMBER_ADMITTED_def MEMBER_REMOVED_def)
  let ?C = "set example_members"
  have c1: "trusted ''kr'' ?C (example_fleet ! 0)"
    by (rule trusted_anchor) (simp_all add: example_members_def example_defs)
  have c4: "trusted ''kr'' ?C (example_fleet ! 3)"
    by (rule trusted_member [OF _ c1, where k = "''kr''"]) (simp_all add: example_members_def example_defs)
  have c2: "trusted ''kr'' ?C (example_fleet ! 1)"
    by (rule trusted_member [OF _ c4, where k = "''kc''"]) (simp_all add: example_members_def example_defs)
  have "counts (fold_membership (Some ''kr'') example_members) ''2'' \<longleftrightarrow>
     (\<exists>c. claim_id c = ''2'' \<and> trusted ''kr'' (set (fleet_claims example_members)) c)"
    by (rule membership_complete)
       (simp_all add: no_departure_def one_admission_def cs, simp_all add: example_members_def example_defs)
  with c2 show ?thesis unfolding cs by (auto simp: example_fleet_def example_claim_def)
qed

text \<open>
  What a removal does to a key: the key signs for a writer at a sequence exactly when the
  first counted admission of that name and key starts at or below the sequence and either no
  counted removal or leave names the key or some such claim's high water is not below the sequence.
\<close>

lemma keys_for_windows:
  "k \<in> keys_for (build a cs v) w s \<longleftrightarrow>
     (\<exists>c. find (admits w k) (counted v cs) = Some c \<and> window_start c \<le> s)
     \<and> ((\<forall>c\<in>set (counted v cs). high_water w k c = None)
        \<or> (\<exists>c\<in>set (counted v cs). \<exists>h. high_water w k c = Some h \<and> s \<le> h))"
  by (rule keys_for_build_iff)

text \<open>
  The windows of a writer: an envelope needs one of the keys whose incarnations hold its
  sequence; it is admitted unsigned exactly when it lies before the start of every incarnation of
  the writer and not past the high water of a removal without a key; every other sequence is
  fenced.
\<close>

lemma writer_windows:
  "(window m w s = Keyed K \<longleftrightarrow> K = keys_for m w s \<and> K \<noteq> {})
   \<and> (window m w s = Legacy \<longleftrightarrow>
        (\<forall>i\<in>set (incarnations_of m w). max 1 s < start i) \<and> (\<forall>e. legacy_ends m w = Some e \<longrightarrow> s \<le> e))"
  using window_Legacy_iff by (auto simp: window_def split: option.splits if_splits)

text \<open>
  C36. A claim that does not count can change who is a member: the four claims of the example
  revise each other in a cycle of four sets, the fold stops where its bound, twice the number of
  claims plus four, happens to fall in the cycle, and one more claim that does not count moves that
  place. With four claims host \<open>d\<close> is a member and must sign; with the fifth it is an unsigned
  legacy writer.
\<close>

theorem uncounted_claim_changes_membership:
  "window (fold_membership (Some ''kr'') example_fleet) ''d'' 1 = Keyed {''kd''}
   \<and> window (fold_membership (Some ''kr'') (example_fleet @ [example_noise])) ''d'' 1 = Legacy
   \<and> \<not> counts (fold_membership (Some ''kr'') (example_fleet @ [example_noise])) ''5''"
proof -
  note build_simps = window_def keys_for_def build_def Let_def example_defs incarnations_of_def admit_def amend_def
    no_membership_def fresh_incarnation_def holds_def least_end_def List.map_filter_simps
  have "window (build ''kr'' example_fleet {''1'', ''2'', ''4''}) ''d'' 1 = Keyed {''kd''}"
    by (simp add: build_simps)
  moreover have "window (build ''kr'' (example_fleet @ [example_noise]) {''1'', ''4''}) ''d'' 1 = Legacy"
    by (simp add: build_simps)
  ultimately show ?thesis by (simp add: fold_membership_example counts_def)
qed

end
