(* ===== verification/Canonical.thy ===== *)
theory Canonical
  imports Prelude
begin

section \<open>The canonical claim order\<close>

text \<open>
  Models \<open>crates/smallclaims/src/store/canonical.rs\<close>: the key every shared fold orders claims by,
  its byte encoding for SQLite, and the \<open>claim_positions\<close> table with its triggers. The SQL of the
  schema is read as state transitions on three tables; a row of \<open>replica_records\<close> is a claim id,
  if it has one, and a position, and rows are addressed by their place in the list.
\<close>

subsection \<open>The sortable key\<close>

type_synonym claim_key = "nat \<times> string \<times> nat \<times> string \<times> nat \<times> string"

text \<open>\<open>to_be_bytes\<close> of an integer of \<open>w\<close> bytes.\<close>

primrec to_be_bytes :: "nat \<Rightarrow> nat \<Rightarrow> string" where
  "to_be_bytes 0 n = []"
| "to_be_bytes (Suc w) n = char_of (n div 256 ^ w) # to_be_bytes w (n mod 256 ^ w)"

abbreviation zero_byte :: char where "zero_byte \<equiv> CHR 0x00"
abbreviation last_byte :: char where "last_byte \<equiv> CHR 0xFF"

fun escaped :: "string \<Rightarrow> string" where
  "escaped [] = [zero_byte, zero_byte]"
| "escaped (c # cs) = (if c = zero_byte then [c, last_byte] else [c]) @ escaped cs"

definition sortable_key :: "claim_key \<Rightarrow> string" where
  "sortable_key key =
     (case key of (accepted, writer, sequence, batch, pos, claim) \<Rightarrow>
        to_be_bytes 16 accepted @ escaped writer @ to_be_bytes 8 sequence @ escaped batch
        @ to_be_bytes 8 pos @ escaped claim)"

definition key_in_range :: "claim_key \<Rightarrow> bool" where
  "key_in_range key =
     (case key of (accepted, _, sequence, _, pos, _) \<Rightarrow>
        accepted < 2 ^ 128 \<and> sequence < 2 ^ 64 \<and> pos < 2 ^ 64)"

subsection \<open>Stored positions\<close>

record claim_row =
  row_id :: string
  row_batch :: string
  store_index :: nat

type_synonym replica_record = "string option \<times> nat"

record position_store =
  claim_rows :: "claim_row list"
  records :: "replica_record list"
  stored :: "string \<rightharpoonup> nat"

definition least_of :: "nat list \<Rightarrow> nat option" where
  "least_of ps = (case ps of [] \<Rightarrow> None | p # ps \<Rightarrow> Some (fold min ps p))"

definition record_positions :: "replica_record list \<Rightarrow> string \<Rightarrow> nat list" where
  "record_positions rs i = map snd (filter (\<lambda>r. fst r = Some i) rs)"

text \<open>\<open>SELECT MIN(position) FROM replica_records WHERE claim_id=?\<close>\<close>

definition least_record :: "position_store \<Rightarrow> string \<Rightarrow> nat option" where
  "least_record st i = least_of (record_positions (records st) i)"

text \<open>The claims of the batch that arrived earlier.\<close>

definition arrival :: "position_store \<Rightarrow> claim_row \<Rightarrow> nat" where
  "arrival st c =
     length (filter (\<lambda>d. row_batch d = row_batch c \<and> store_index d < store_index c) (claim_rows st))"

text \<open>The position component of the order: stored, else the least record, else the arrival count.\<close>

definition claim_position :: "position_store \<Rightarrow> claim_row \<Rightarrow> nat" where
  "claim_position st c =
     (case stored st (row_id c) of
        Some p \<Rightarrow> p
      | None \<Rightarrow> (case least_record st (row_id c) of Some p \<Rightarrow> p | None \<Rightarrow> arrival st c))"

definition key_from_record :: "nat \<Rightarrow> claim_row \<Rightarrow> string \<Rightarrow> nat \<Rightarrow> nat \<Rightarrow> claim_key" where
  "key_from_record accepted c writer sequence pos =
     (accepted, writer, sequence, row_batch c, pos, row_id c)"

text \<open>\<open>ON CONFLICT DO UPDATE SET position=MIN(position, excluded.position)\<close>\<close>

definition join_position :: "string \<Rightarrow> nat \<Rightarrow> position_store \<Rightarrow> position_store" where
  "join_position i p st =
     st\<lparr>stored := (stored st)(i \<mapsto> (case stored st i of None \<Rightarrow> p | Some q \<Rightarrow> min q p))\<rparr>"

text \<open>\<open>INSERT OR IGNORE\<close>\<close>

definition keep_position :: "string \<Rightarrow> nat option \<Rightarrow> position_store \<Rightarrow> position_store" where
  "keep_position i p st =
     (case (stored st i, p) of
        (None, Some q) \<Rightarrow> st\<lparr>stored := (stored st)(i \<mapsto> q)\<rparr>
      | _ \<Rightarrow> st)"

definition record_position_tx :: "string \<Rightarrow> nat \<Rightarrow> position_store \<Rightarrow> position_store" where
  "record_position_tx i p st = join_position i p st"

definition record_local_position_tx :: "string \<Rightarrow> string \<Rightarrow> position_store \<Rightarrow> position_store" where
  "record_local_position_tx i batch st =
     join_position i (length (filter (\<lambda>c. row_batch c = batch) (claim_rows st))) st"

text \<open>Trigger \<open>claim_positions_record_insert_v1\<close>.\<close>

definition join_least_record :: "string option \<Rightarrow> position_store \<Rightarrow> position_store" where
  "join_least_record i st =
     (case i of
        None \<Rightarrow> st
      | Some i \<Rightarrow> (case least_record st i of None \<Rightarrow> st | Some p \<Rightarrow> join_position i p st))"

definition insert_record :: "replica_record \<Rightarrow> position_store \<Rightarrow> position_store" where
  "insert_record r st = join_least_record (fst r) (st\<lparr>records := records st @ [r]\<rparr>)"

text \<open>Trigger \<open>claim_positions_record_delete_v1\<close>, then the deletion.\<close>

definition keep_least_record :: "string option \<Rightarrow> position_store \<Rightarrow> position_store" where
  "keep_least_record i st = (case i of None \<Rightarrow> st | Some i \<Rightarrow> keep_position i (least_record st i) st)"

definition delete_record :: "nat \<Rightarrow> position_store \<Rightarrow> position_store" where
  "delete_record j st =
     (if j < length (records st)
      then (keep_least_record (fst (records st ! j)) st)\<lparr>records := remove_at j (records st)\<rparr>
      else st)"

text \<open>Triggers \<open>claim_positions_record_change_v1\<close> and \<open>claim_positions_record_changed_v1\<close> around an update.\<close>

definition change_record :: "nat \<Rightarrow> replica_record \<Rightarrow> position_store \<Rightarrow> position_store" where
  "change_record j r st =
     (if j < length (records st) then
        if records st ! j = r then st
        else join_least_record (fst r)
          ((keep_least_record (fst (records st ! j)) st)\<lparr>records := (records st)[j := r]\<rparr>)
      else st)"

text \<open>Trigger \<open>claim_positions_sibling_delete_v1\<close>, then the deletion of the claim row.\<close>

definition later_siblings :: "claim_row \<Rightarrow> position_store \<Rightarrow> claim_row list" where
  "later_siblings c st =
     filter (\<lambda>d. row_batch d = row_batch c \<and> store_index c < store_index d) (claim_rows st)"

definition keep_siblings :: "claim_row \<Rightarrow> position_store \<Rightarrow> position_store" where
  "keep_siblings c st =
     (if \<exists>d\<in>set (later_siblings c st). stored st (row_id d) = None
      then fold (\<lambda>d. keep_position (row_id d)
               (Some (case least_record st (row_id d) of Some p \<Rightarrow> p | None \<Rightarrow> arrival st d)))
             (later_siblings c st) st
      else st)"

definition delete_claim :: "claim_row \<Rightarrow> position_store \<Rightarrow> position_store" where
  "delete_claim c st =
     (if c \<in> set (claim_rows st)
      then (keep_siblings c st)\<lparr>claim_rows := filter (\<lambda>d. d \<noteq> c) (claim_rows st)\<rparr>
      else st)"

subsection \<open>Lemmas: the byte order\<close>

lemma append_less_fixed:
  fixes a b :: string
  shows "length a = length b \<Longrightarrow> a @ x < b @ y \<longleftrightarrow> a < b \<or> a = b \<and> x < y"
  by (induction a b rule: list_induct2) auto

lemma length_to_be_bytes [simp]: "length (to_be_bytes w n) = w"
  by (induction w arbitrary: n) simp_all

lemma char_of_less: "m < 256 \<Longrightarrow> n < 256 \<Longrightarrow> char_of m < (char_of n :: char) \<longleftrightarrow> m < (n :: nat)"
  by (simp add: less_char_def)

lemma char_of_eq: "m < 256 \<Longrightarrow> n < 256 \<Longrightarrow> char_of m = (char_of n :: char) \<longleftrightarrow> m = (n :: nat)"
  by (metis mod_less of_char_of)

lemma to_be_bytes_less:
  "m < 256 ^ w \<Longrightarrow> n < 256 ^ w \<Longrightarrow>
     (to_be_bytes w m < to_be_bytes w n \<longleftrightarrow> m < n) \<and> (to_be_bytes w m = to_be_bytes w n \<longleftrightarrow> m = n)"
proof (induction w arbitrary: m n)
  case 0
  then show ?case by simp
next
  case (Suc w)
  let ?q = "256 ^ w :: nat"
  have d: "m div ?q < 256" "n div ?q < 256"
    using Suc.prems by (simp_all add: less_mult_imp_div_less mult.commute)
  have IH: "(to_be_bytes w (m mod ?q) < to_be_bytes w (n mod ?q) \<longleftrightarrow> m mod ?q < n mod ?q)
      \<and> (to_be_bytes w (m mod ?q) = to_be_bytes w (n mod ?q) \<longleftrightarrow> m mod ?q = n mod ?q)"
    by (intro Suc.IH) simp_all
  have lt: "m < n \<longleftrightarrow> m div ?q < n div ?q \<or> m div ?q = n div ?q \<and> m mod ?q < n mod ?q"
  proof (cases "m div ?q" "n div ?q" rule: linorder_cases)
    case less
    then show ?thesis by (metis div_le_mono not_less)
  next
    case equal
    then show ?thesis by (metis div_mult_mod_eq nat_add_left_cancel_less less_irrefl)
  next
    case greater
    then show ?thesis by (metis div_le_mono not_less less_asym less_irrefl le_less)
  qed
  have eq: "m = n \<longleftrightarrow> m div ?q = n div ?q \<and> m mod ?q = n mod ?q"
    by (metis div_mult_mod_eq)
  show ?case
    using IH lt eq d by (simp add: char_of_less char_of_eq)
qed

lemma zero_byte_least: "c \<noteq> zero_byte \<Longrightarrow> zero_byte < c"
proof -
  assume "c \<noteq> zero_byte"
  then have "of_char c \<noteq> (of_char zero_byte :: nat)" by (simp only: of_char_eq_iff not_False_eq_True)
  then show ?thesis by (simp add: less_char_def)
qed

lemma escaped_less: "escaped s @ x < escaped t @ y \<longleftrightarrow> s < t \<or> s = t \<and> x < y"
proof (induction s arbitrary: t)
  case Nil
  have "zero_byte < last_byte" by (simp add: less_char_def)
  then show ?case by (cases t) (auto simp: zero_byte_least)
next
  case (Cons c cs)
  have nz: "zero_byte < last_byte" by (simp add: less_char_def)
  show ?case
  proof (cases t)
    case Nil
    then show ?thesis using nz zero_byte_least by (auto simp: less_le_not_le)
  next
    case t: (Cons d ds)
    show ?thesis
      using zero_byte_least [of c] zero_byte_least [of d] by (auto simp: t Cons.IH)
  qed
qed

lemma key_part_less:
  "m < 256 ^ w \<Longrightarrow> n < 256 ^ w \<Longrightarrow>
     to_be_bytes w m @ x < to_be_bytes w n @ y \<longleftrightarrow> m < n \<or> m = n \<and> x < y"
  using to_be_bytes_less [of m w n] by (simp add: append_less_fixed)

lemma key_last_less: "escaped s < escaped t \<longleftrightarrow> s < t"
  using escaped_less [of s "[]" t "[]"] by simp

lemma sortable_key_less:
  assumes "key_in_range k" "key_in_range k'"
  shows "sortable_key k < sortable_key k' \<longleftrightarrow> k < k'"
proof -
  obtain a w s b p i where k: "k = (a, w, s, b, p, i)" by (metis prod_cases6)
  obtain a' w' s' b' p' i' where k': "k' = (a', w', s', b', p', i')" by (metis prod_cases6)
  have "a < 256 ^ 16" "a' < 256 ^ 16" "s < 256 ^ 8" "s' < 256 ^ 8" "p < 256 ^ 8" "p' < 256 ^ 8"
    using assms by (simp_all add: key_in_range_def k k')
  then show ?thesis
    by (simp add: sortable_key_def k k' key_part_less escaped_less key_last_less less_prod_def' le_less)
qed

subsection \<open>Lemmas: positions\<close>

lemma least_of_eq: "least_of ps = (if ps = [] then None else Some (Min (set ps)))"
proof (cases ps)
  case (Cons q qs)
  have "fold min qs q = Min (insert q (set qs))"
    by (simp add: Min.set_eq_fold [symmetric])
  with Cons show ?thesis by (simp add: least_of_def)
qed (simp add: least_of_def)

lemma least_of_Nil [simp]: "least_of [] = None"
  by (simp add: least_of_def)

lemma keep_position_simps [simp]:
  "claim_rows (keep_position i p st) = claim_rows st" "records (keep_position i p st) = records st"
  by (simp_all add: keep_position_def split: option.split)

lemma stored_keep_position:
  "stored (keep_position i p st) j = (if j = i \<and> stored st i = None then p else stored st j)"
  by (auto simp: keep_position_def split: option.split)

lemma record_positions_remove_at:
  "j < length rs \<Longrightarrow> fst (rs ! j) \<noteq> Some i \<Longrightarrow> record_positions (remove_at j rs) i = record_positions rs i"
  by (simp add: record_positions_def list_edit)

lemma record_positions_nth: "j < length rs \<Longrightarrow> fst (rs ! j) = Some i \<Longrightarrow> record_positions rs i \<noteq> []"
  by (auto simp: record_positions_def filter_empty_conv)

lemma claim_position_delete_record: "claim_position (delete_record j st) c = claim_position st c"
proof (cases "j < length (records st)")
  case True
  define o' where "o' = fst (records st ! j)"
  have st': "delete_record j st = (keep_least_record o' st)\<lparr>records := remove_at j (records st)\<rparr>"
    using True by (simp add: delete_record_def o'_def)
  have arr: "arrival (delete_record j st) c = arrival st c"
    by (simp add: st' arrival_def keep_least_record_def split: option.split)
  show ?thesis
  proof (cases "o' = Some (row_id c)")
    case same: True
    have "record_positions (records st) (row_id c) \<noteq> []"
      using True same by (intro record_positions_nth) (simp_all add: o'_def)
    then show ?thesis
      by (simp add: claim_position_def st' keep_least_record_def same stored_keep_position least_record_def
          least_of_eq split: option.split)
  next
    case False
    then have "least_record (delete_record j st) (row_id c) = least_record st (row_id c)"
      using True by (simp add: least_record_def delete_record_def o'_def record_positions_remove_at)
    moreover have "stored (delete_record j st) (row_id c) = stored st (row_id c)"
      using False by (auto simp: st' keep_least_record_def stored_keep_position split: option.split)
    ultimately show ?thesis using arr by (simp add: claim_position_def split: option.split)
  qed
qed (simp add: delete_record_def)

lemma fold_keep_position:
  fixes g :: "claim_row \<Rightarrow> nat"
  shows "claim_rows (fold (\<lambda>d. keep_position (row_id d) (Some (g d))) ds st) = claim_rows st"
    and "records (fold (\<lambda>d. keep_position (row_id d) (Some (g d))) ds st) = records st"
    and "stored (fold (\<lambda>d. keep_position (row_id d) (Some (g d))) ds st) i =
      (case stored st i of Some p \<Rightarrow> Some p | None \<Rightarrow> map_option g (find (\<lambda>d. row_id d = i) ds))"
  by (induction ds arbitrary: st) (auto simp: stored_keep_position split: option.split)

definition distinct_claims :: "position_store \<Rightarrow> bool" where
  "distinct_claims st = distinct (map row_id (claim_rows st))"

lemma claim_position_delete_claim:
  assumes ids: "distinct_claims st" and d: "d \<in> set (claim_rows st)" "d \<noteq> c"
  shows "claim_position (delete_claim c st) d = claim_position st d"
proof (cases "c \<in> set (claim_rows st)")
  case True
  let ?st = "delete_claim c st"
  have rec: "least_record ?st i = least_record st i" for i
    by (simp add: delete_claim_def keep_siblings_def least_record_def fold_keep_position)
  show ?thesis
  proof (cases "d \<in> set (later_siblings c st)")
    case sibling: True
    have "find (\<lambda>e. row_id e = row_id d) (later_siblings c st) = Some d"
      using ids sibling
      by (subst find_key_Some) (auto simp: distinct_claims_def later_siblings_def distinct_map_filter)
    then show ?thesis
      using True sibling
      by (auto simp: claim_position_def delete_claim_def keep_siblings_def fold_keep_position split: option.split)
  next
    case False
    then have "find (\<lambda>e. row_id e = row_id d) (later_siblings c st) = None"
      using ids d(1) by (auto simp: find_None_iff later_siblings_def distinct_claims_def distinct_map inj_on_def)
    then have "stored ?st (row_id d) = stored st (row_id d)"
      by (simp add: delete_claim_def keep_siblings_def fold_keep_position split: option.split)
    moreover have "arrival ?st d = arrival st d"
    proof -
      have "filter (\<lambda>e. row_batch e = row_batch d \<and> store_index e < store_index d) (filter (\<lambda>e. e \<noteq> c) (claim_rows st))
          = filter (\<lambda>e. row_batch e = row_batch d \<and> store_index e < store_index d) (claim_rows st)"
        unfolding filter_filter using False d by (intro filter_cong) (auto simp: later_siblings_def)
      then show ?thesis using True by (simp add: arrival_def delete_claim_def)
    qed
    ultimately show ?thesis by (simp add: claim_position_def rec split: option.split)
  qed
qed (simp add: delete_claim_def)

subsection \<open>Runs of removals and admissions\<close>

datatype removal = RecordGone nat | ClaimGone claim_row

fun remove_step :: "removal \<Rightarrow> position_store \<Rightarrow> position_store" where
  "remove_step (RecordGone j) st = delete_record j st"
| "remove_step (ClaimGone c) st = delete_claim c st"

lemma claim_rows_remove:
  "claim_rows (delete_record j st) = claim_rows st"
  "claim_rows (delete_claim c st) = filter (\<lambda>d. d \<noteq> c) (claim_rows st)"
  by (simp_all add: delete_record_def delete_claim_def keep_least_record_def split: option.split)

lemma remove_step_claim_rows: "set (claim_rows (remove_step r st)) \<subseteq> set (claim_rows st)"
  by (cases r) (auto simp: claim_rows_remove)

lemma remove_step_distinct: "distinct_claims st \<Longrightarrow> distinct_claims (remove_step r st)"
  by (cases r) (simp_all add: distinct_claims_def claim_rows_remove distinct_map_filter)

lemma remove_step_position:
  assumes "distinct_claims st" "d \<in> set (claim_rows (remove_step r st))"
  shows "claim_position (remove_step r st) d = claim_position st d"
  using assms
  by (cases r) (auto simp: claim_rows_remove claim_position_delete_record claim_position_delete_claim)

lemma join_position_simps [simp]:
  "records (join_position i p st) = records st" "claim_rows (join_position i p st) = claim_rows st"
  by (simp_all add: join_position_def)

lemma record_positions_append: "record_positions (rs @ rs') i = record_positions rs i @ record_positions rs' i"
  by (simp add: record_positions_def)

lemma insert_record_simps:
  "records (insert_record r st) = records st @ [r]" "claim_rows (insert_record r st) = claim_rows st"
  by (simp_all add: insert_record_def join_least_record_def split: option.split)

fun opt_min :: "nat option \<Rightarrow> nat option \<Rightarrow> nat option" where
  "opt_min None y = y"
| "opt_min x None = x"
| "opt_min (Some a) (Some b) = Some (min a b)"

lemma opt_min_semilattice:
  "opt_min (opt_min x y) z = opt_min x (opt_min y z)" "opt_min x y = opt_min y x"
  "opt_min x (opt_min y z) = opt_min y (opt_min x z)" "opt_min x x = x" "opt_min x (opt_min x y) = opt_min x y"
  "opt_min x None = x"
  by (cases x; cases y; cases z; simp add: ac_simps)+

lemma least_of_append: "least_of (xs @ ys) = opt_min (least_of xs) (least_of ys)"
  by (simp add: least_of_eq Min_Un opt_min_semilattice)

lemma insert_record_stored:
  "stored (insert_record r st) i =
     (if fst r = Some i then opt_min (stored st i) (least_of (record_positions (records st @ [r]) i))
      else stored st i)"
proof (cases "fst r = Some i")
  case True
  then obtain p where "least_of (record_positions (records st @ [r]) i) = Some p"
    by (auto simp: least_of_eq record_positions_def)
  with True show ?thesis
    by (simp add: insert_record_def join_least_record_def least_record_def join_position_def split: option.split)
next
  case False
  then show ?thesis
    by (auto simp: insert_record_def join_least_record_def join_position_def split: option.split)
qed

lemma fold_insert_record_simps:
  "records (fold insert_record rs st) = records st @ rs" "claim_rows (fold insert_record rs st) = claim_rows st"
  by (induction rs arbitrary: st) (simp_all add: insert_record_simps)

lemma fold_insert_record_stored:
  "stored (fold insert_record rs st) i =
     (if record_positions rs i = [] then stored st i
      else opt_min (stored st i) (least_of (record_positions (records st @ rs) i)))"
proof (induction rs rule: rev_induct)
  case Nil
  then show ?case by (simp add: record_positions_def)
next
  case (snoc r rs)
  have "record_positions [r] i = [] \<longleftrightarrow> fst r \<noteq> Some i" by (simp add: record_positions_def)
  then show ?case
    using opt_min_semilattice
    by (auto simp: snoc insert_record_stored fold_insert_record_simps record_positions_append least_of_append)
qed

lemma record_positions_cong:
  assumes "set rs = set rs'"
  shows "least_of (record_positions (qs @ rs) i) = least_of (record_positions (qs @ rs') i)"
    "record_positions rs i = [] \<longleftrightarrow> record_positions rs' i = []"
  using assms by (auto simp: record_positions_def least_of_eq filter_empty_conv)

subsection \<open>Properties\<close>

text \<open>
  C26. SQLite compares the stored bytes exactly as the folds compare the keys: for keys whose
  numbers fit their width, the byte order of \<open>sortable_key\<close> is the tuple order of the key, and
  different keys have different bytes.
\<close>

theorem sortable_key_order:
  assumes "key_in_range k" "key_in_range k'"
  shows "(sortable_key k < sortable_key k' \<longleftrightarrow> k < k') \<and> (sortable_key k = sortable_key k' \<longleftrightarrow> k = k')"
  using sortable_key_less [OF assms] sortable_key_less [OF assms(2,1)]
  by (metis less_irrefl linorder_less_linear)

lemma sortable_key_order_witness:
  "sortable_key (7, ''a'', 1, [], 0, ''x'') < sortable_key (7, ''a'' @ [zero_byte], 0, [], 0, ''x'')"
  using sortable_key_order [of "(7, ''a'', 1, [], 0, ''x'')" "(7, ''a'' @ [zero_byte], 0, [], 0, ''x'')"]
  by (simp add: key_in_range_def)

text \<open>
  Removing history renumbers nobody: after any sequence of deletions of wire records and of
  claims, every claim that is still there has the position it had before, whether that position
  was stored, came from its records, or was its arrival count in the batch.
\<close>

lemma removals_keep_positions:
  assumes "distinct_claims st" "c \<in> set (claim_rows (fold remove_step rs st))"
  shows "claim_position (fold remove_step rs st) c = claim_position st c"
  using assms
proof (induction rs rule: rev_induct)
  case (snoc r rs)
  have "distinct_claims (fold remove_step rs st)"
    using snoc.prems(1) by (induction rs rule: rev_induct) (simp_all add: remove_step_distinct)
  moreover have "c \<in> set (claim_rows (fold remove_step rs st))"
    using snoc.prems(2) remove_step_claim_rows by fastforce
  ultimately show ?case using snoc remove_step_position by simp
qed simp

definition example_row :: "string \<Rightarrow> nat \<Rightarrow> claim_row" where
  "example_row i n = \<lparr>row_id = i, row_batch = ''b'', store_index = n\<rparr>"

definition example_positions :: position_store where
  "example_positions =
     \<lparr>claim_rows = [example_row ''a'' 0, example_row ''b'' 1, example_row ''c'' 2],
      records = [(Some ''b'', 5)], stored = Map.empty\<rparr>"

text \<open>
  A claim's position does not depend on the order its wire records arrive in: after the same
  records in any order every claim has the same stored position and the same place.
\<close>

lemma record_arrival_order:
  assumes "mset rs = mset rs'"
  shows "stored (fold insert_record rs st) = stored (fold insert_record rs' st)
    \<and> claim_position (fold insert_record rs st) c = claim_position (fold insert_record rs' st) c"
proof -
  have set: "set rs = set rs'" using assms by (rule mset_eq_setD)
  have eq: "stored (fold insert_record rs st) i = stored (fold insert_record rs' st) i" for i
    using record_positions_cong [OF set] by (simp add: fold_insert_record_stored)
  have "least_record (fold insert_record rs st) i = least_record (fold insert_record rs' st) i" for i
    using record_positions_cong(1) [OF set] by (simp add: least_record_def fold_insert_record_simps)
  then show ?thesis
    using eq by (simp add: claim_position_def arrival_def fold_insert_record_simps fun_eq_iff split: option.split)
qed

end
