(* ===== verification/Digest.thy ===== *)
theory Digest
  imports Prelude "HOL-Library.Word"
begin

unbundle bit_operations_syntax

section \<open>Multiset digests\<close>

text \<open>
  Models the accumulator of \<open>crates/smallclaims/src/store/projection_digest.rs\<close>: a 64-byte
  big-endian array to which member hashes are added and from which they are subtracted byte by
  byte with a carry. The locale below is what its users rely on; the interpretation shows that the
  byte loop is addition and subtraction of 512-bit words.
\<close>

type_synonym bytes = "8 word list"

subsection \<open>The byte loop\<close>

text \<open>One pass over the bytes from the last to the first; here the lists are reversed already.\<close>

fun add_carry :: "bool \<Rightarrow> nat \<Rightarrow> bytes \<Rightarrow> bytes \<Rightarrow> bytes" where
  "add_carry subtract carry (s # ss) (b # bs) =
     (let byte = (if subtract then NOT b else b); carry = carry + (unat s + unat byte)
      in word_of_nat carry # add_carry subtract (carry div 256) ss bs)"
| "add_carry subtract carry ss _ = ss"

definition add :: "bytes \<Rightarrow> bytes \<Rightarrow> bool \<Rightarrow> bytes" where
  "add accumulator hash subtract =
     rev (add_carry subtract (if subtract then 1 else 0) (rev accumulator) (rev hash))"

definition zero_digest :: bytes where
  "zero_digest = replicate 64 0"

subsection \<open>The interface: a group of digests\<close>

locale digest_group =
  fixes ok :: "'a \<Rightarrow> bool" and zero :: 'a and plus_hash :: "'a \<Rightarrow> 'a \<Rightarrow> bool \<Rightarrow> 'a"
    and val :: "'a \<Rightarrow> 'g::ab_group_add"
  assumes ok_zero: "ok zero"
    and ok_plus: "ok a \<Longrightarrow> ok h \<Longrightarrow> ok (plus_hash a h s)"
    and val_zero: "val zero = 0"
    and val_plus: "ok a \<Longrightarrow> ok h \<Longrightarrow> val (plus_hash a h s) = (if s then val a - val h else val a + val h)"
    and val_inj: "ok a \<Longrightarrow> ok b \<Longrightarrow> val a = val b \<Longrightarrow> a = b"
begin

lemma plus_commute:
  assumes "ok a" "ok h" "ok g"
  shows "plus_hash (plus_hash a h s) g t = plus_hash (plus_hash a g t) h s"
  using assms by (intro val_inj) (simp_all add: ok_plus val_plus)

lemma plus_cancel:
  assumes "ok a" "ok h"
  shows "plus_hash (plus_hash a h s) h (\<not> s) = a"
  using assms by (intro val_inj) (simp_all add: ok_plus val_plus)

lemma plus_zero: "ok a \<Longrightarrow> plus_hash a zero False = a"
  by (intro val_inj) (simp_all add: ok_plus ok_zero val_plus val_zero)

lemma ok_fold: "ok a \<Longrightarrow> (\<forall>h\<in>set hs. ok h) \<Longrightarrow> ok (fold (\<lambda>h a. plus_hash a h False) hs a)"
  by (induction hs arbitrary: a) (simp_all add: ok_plus)

lemma val_fold:
  "ok a \<Longrightarrow> (\<forall>h\<in>set hs. ok h) \<Longrightarrow>
     val (fold (\<lambda>h a. plus_hash a h False) hs a) = val a + sum_list (map val hs)"
  by (induction hs arbitrary: a) (simp_all add: ok_plus val_plus ac_simps)

lemma fold_order:
  assumes "ok a" "\<forall>h\<in>set hs. ok h" "mset hs = mset hs'"
  shows "fold (\<lambda>h a. plus_hash a h False) hs a = fold (\<lambda>h a. plus_hash a h False) hs' a"
proof -
  have "set hs' = set hs" using assms(3) by (metis mset_eq_setD)
  moreover have "sum_list (map val hs) = sum_list (map val hs')"
    using assms(3) by (metis mset_map sum_mset_sum_list)
  ultimately show ?thesis
    using assms by (intro val_inj) (simp_all add: ok_fold val_fold)
qed

end

subsection \<open>The byte loop is modular arithmetic\<close>

fun le_value :: "bytes \<Rightarrow> nat" where
  "le_value [] = 0"
| "le_value (b # bs) = unat b + 256 * le_value bs"

lemma unat_byte: "unat (b :: 8 word) < 256"
  using unsigned_less [of b, where ?'a = nat] by simp

lemma unat_byte_of_nat: "unat (word_of_nat n :: 8 word) = n mod 256"
  by (simp add: unsigned_of_nat take_bit_eq_mod)

lemma unat_not_byte: "unat (NOT b :: 8 word) = 255 - unat b"
proof -
  have "NOT b = - 1 - b" by (simp add: not_eq_complement)
  moreover have "unat (- 1 - b) = unat (- 1 :: 8 word) - unat b"
    by (rule unat_sub) simp
  ultimately show ?thesis by (simp add: unsigned_minus_1_eq_mask mask_eq_exp_minus_1)
qed

lemma le_value_less: "le_value bs < 256 ^ length bs"
proof (induction bs)
  case (Cons b bs)
  then show ?case using unat_byte [of b] by simp
qed simp

lemma le_value_not: "le_value (map (\<lambda>b. NOT b) bs) = 256 ^ length bs - 1 - le_value bs"
proof (induction bs)
  case (Cons b bs)
  have "le_value bs < 256 ^ length bs" by (rule le_value_less)
  with Cons unat_byte [of b] show ?case by (simp add: unat_not_byte)
qed simp

lemma length_add_carry [simp]: "length (add_carry sub c ss bs) = length ss"
  by (induction sub c ss bs rule: add_carry.induct) (simp_all add: Let_def)

text \<open>The carry is a \<open>u16\<close>: it never wraps, and it is at most one after the shift.\<close>

lemma carry_fits: "c \<le> 1 \<Longrightarrow> c + (unat s + unat b) < 2 ^ 16 \<and> (c + (unat s + unat b)) div 256 \<le> 1"
  for s b :: "8 word"
  using unat_byte [of s] unat_byte [of b] by simp

lemma mod_step: "t mod 256 + 256 * ((t div 256 + x) mod m) = (t + 256 * x) mod (256 * m)" for t x m :: nat
  by (simp add: mod_mult2_eq add.commute)

lemma le_value_add_carry:
  "length ss = length bs \<Longrightarrow>
     le_value (add_carry sub c ss bs) =
       (c + le_value ss + le_value (if sub then map (\<lambda>b. NOT b) bs else bs)) mod 256 ^ length ss"
proof (induction sub c ss bs rule: add_carry.induct)
  case (1 sub c s ss b bs)
  let ?byte = "if sub then NOT b else b" and ?bs = "if sub then map (\<lambda>b. NOT b) bs else bs"
  let ?t = "c + (unat s + unat ?byte)"
  have IH: "le_value (add_carry sub (?t div 256) ss bs) = (?t div 256 + le_value ss + le_value ?bs) mod 256 ^ length ss"
    using 1 by (simp add: Let_def)
  have "le_value (add_carry sub c (s # ss) (b # bs)) = ?t mod 256 + 256 * ((?t div 256 + le_value ss + le_value ?bs) mod 256 ^ length ss)"
    by (simp add: Let_def IH unat_byte_of_nat del: of_nat_add)
  also have "\<dots> = (?t + 256 * (le_value ss + le_value ?bs)) mod (256 * 256 ^ length ss)"
    unfolding add.assoc [of "?t div 256"] by (rule mod_step)
  also have "?t + 256 * (le_value ss + le_value ?bs)
      = c + le_value (s # ss) + le_value (if sub then map (\<lambda>b. NOT b) (b # bs) else b # bs)"
    by (cases sub) simp_all
  finally show ?case by (simp only: list.size(4) power_Suc add_0_right add_Suc_right)
qed simp_all

text \<open>The 512-bit word an array stands for, the first byte being the most significant.\<close>

definition digest_word :: "bytes \<Rightarrow> 512 word" where
  "digest_word bs = word_of_nat (le_value (rev bs))"

abbreviation is_digest :: "bytes \<Rightarrow> bool" where
  "is_digest bs \<equiv> length bs = 64"

lemma bytes_512: "(256 :: nat) ^ 64 = 2 ^ LENGTH(512)"
  by simp

lemma word_of_nat_mod_512: "(word_of_nat (n mod 256 ^ 64) :: 512 word) = word_of_nat n"
  by (simp only: word_of_nat_eq_iff take_bit_eq_mod mod_mod_trivial bytes_512)

lemma digest_word_add:
  assumes "is_digest a" "is_digest h"
  shows "digest_word (add a h s) = (if s then digest_word a - digest_word h else digest_word a + digest_word h)"
proof (cases s)
  case False
  then show ?thesis
    using assms by (simp add: digest_word_def add_def le_value_add_carry word_of_nat_mod_512 del: power_numeral)
next
  case True
  let ?a = "le_value (rev a)" and ?h = "le_value (rev h)" and ?m = "256 ^ 64 :: nat"
  have h: "?h < ?m" using le_value_less [of "rev h"] assms by simp
  have "digest_word (add a h s) = word_of_nat ((1 + ?a + (?m - 1 - ?h)) mod ?m)"
    using True assms
    by (simp add: digest_word_def add_def le_value_add_carry rev_map le_value_not del: power_numeral)
  also have "\<dots> = word_of_nat (?a + ?m - ?h)"
    unfolding word_of_nat_mod_512 using h by simp
  also have "\<dots> = word_of_nat ?a - word_of_nat ?h"
  proof -
    have "(word_of_nat ?m :: 512 word) = 0" using word_of_nat_mod_512 [of ?m] by (simp del: power_numeral)
    moreover have "(word_of_nat (?a + ?m - ?h) :: 512 word) = word_of_nat ?a + word_of_nat ?m - word_of_nat ?h"
      using h by (simp add: of_nat_diff del: power_numeral of_nat_power)
    ultimately show ?thesis by simp
  qed
  finally show ?thesis using True by (simp add: digest_word_def)
qed

lemma le_value_inj: "length xs = length ys \<Longrightarrow> le_value xs = le_value ys \<Longrightarrow> xs = ys"
proof (induction xs ys rule: list_induct2)
  case (Cons x xs y ys)
  have "le_value (x # xs) mod 256 = unat x" "le_value (y # ys) mod 256 = unat y"
    using unat_byte [of x] unat_byte [of y] by (simp_all only: le_value.simps mod_mult_self2 mod_less)
  with Cons.prems have u: "unat x = unat y" by metis
  then have "x = y" by (simp only: word_unat_eq_iff)
  moreover have "le_value xs = le_value ys"
    using Cons.prems u by (simp only: le_value.simps add_left_cancel mult_cancel1) simp
  ultimately show ?case using Cons.IH by metis
qed simp

lemma digest_word_inj:
  assumes "is_digest a" "is_digest b" "digest_word a = digest_word b"
  shows "a = b"
proof -
  have restore: "unat (word_of_nat n :: 512 word) = n" if "n < 256 ^ 64" for n
    using that by (simp only: unsigned_of_nat of_nat_id take_bit_nat_eq_self_iff bytes_512)
  have "le_value (rev a) < 256 ^ 64" "le_value (rev b) < 256 ^ 64"
    using le_value_less [of "rev a"] le_value_less [of "rev b"] assms(1,2) by (simp_all only: length_rev)
  then have "le_value (rev a) = le_value (rev b)"
    using assms(3) unfolding digest_word_def by (metis restore)
  then have "rev a = rev b" using assms by (intro le_value_inj) simp_all
  then show ?thesis by simp
qed

interpretation digests: digest_group is_digest zero_digest add digest_word
proof
  show "is_digest zero_digest" by (simp add: zero_digest_def)
  show "digest_word zero_digest = 0"
  proof -
    have "le_value (replicate n 0) = 0" for n by (induction n) simp_all
    then show ?thesis by (simp add: digest_word_def zero_digest_def)
  qed
qed (simp_all add: digest_word_add digest_word_inj, simp add: add_def)

subsection \<open>Properties\<close>

text \<open>
  The byte loop is exact modular arithmetic: adding a hash adds its 512-bit value and
  subtracting it subtracts that value, modulo \<open>2\<^sup>5\<^sup>1\<^sup>2\<close>.
\<close>

lemma add_is_modular:
  assumes "length a = 64" "length h = 64"
  shows "digest_word (add a h False) = digest_word a + digest_word h
    \<and> digest_word (add a h True) = digest_word a - digest_word h
    \<and> length (add a h s) = 64"
  using assms by (simp add: digest_word_add) (simp add: add_def)

end
