(* ===== verification/Retired.thy ===== *)
theory Retired
  imports Text_Codec
begin

section \<open>The retired-identity ledger\<close>

text \<open>
  Models \<open>crates/smallclaims/src/store/retired.rs\<close>: the sets of claim and envelope identities that
  only grow, the triggers that feed them from the checkpoint tables, and the paged import of the
  rows that predate the triggers. A trigger and the change it runs with are one operation on the
  tables; rows carry their \<open>rowid\<close>. The import cursor is the text stored in \<open>meta\<close>.
\<close>

subsection \<open>Identities\<close>

text \<open>A SQLite value: the 32 bytes of a SHA-256 digest, or the original text.\<close>

datatype identity = Blob "nat list" | Text string

fun unhex :: "string \<Rightarrow> nat list" where
  "unhex (a # b # s) = (16 * hex_value a + hex_value b) # unhex s"
| "unhex _ = []"

definition identity :: "string \<Rightarrow> identity" where
  "identity v = (if length v = 64 \<and> list_all is_hex v then Blob (unhex v) else Text v)"

subsection \<open>Tables\<close>

record claim_tombstone =
  tomb_rowid :: nat
  tomb_id :: string
  tomb_checkpoint :: string

record envelope_tombstone =
  etomb_rowid :: nat
  etomb_writer :: string
  etomb_sequence :: nat
  etomb_hash :: string
  etomb_checkpoint :: string

type_synonym envelope_identity = "string \<times> nat \<times> identity"

record retired_store =
  checkpoint_claims :: "claim_tombstone list"
  checkpoint_envelopes :: "envelope_tombstone list"
  retired_claim_ids :: "identity set"
  retired_envelopes :: "envelope_identity set"
  claim_withdrawals :: "(identity \<times> string) set"
  envelope_withdrawals :: "(envelope_identity \<times> string) set"
  meta_cursor :: "string option"

definition envelope_identity :: "envelope_tombstone \<Rightarrow> envelope_identity" where
  "envelope_identity e = (etomb_writer e, etomb_sequence e, identity (etomb_hash e))"

definition claim_retired :: "retired_store \<Rightarrow> string \<Rightarrow> bool" where
  "claim_retired st i = (identity i \<in> retired_claim_ids st)"

definition envelope_retired :: "retired_store \<Rightarrow> string \<Rightarrow> nat \<Rightarrow> string \<Rightarrow> bool" where
  "envelope_retired st w s h = ((w, s, identity h) \<in> retired_envelopes st)"

subsection \<open>Triggers\<close>

text \<open>\<open>retired_claim_recorded_v1\<close>\<close>

definition record_claim :: "claim_tombstone \<Rightarrow> retired_store \<Rightarrow> retired_store" where
  "record_claim t st =
     st\<lparr>checkpoint_claims := checkpoint_claims st @ [t],
        retired_claim_ids := insert (identity (tomb_id t)) (retired_claim_ids st)\<rparr>"

text \<open>\<open>retired_claim_rewritten_v1\<close>: the row keeps its rowid.\<close>

definition rewrite_claim :: "claim_tombstone \<Rightarrow> string \<Rightarrow> string \<Rightarrow> retired_store \<Rightarrow> retired_store" where
  "rewrite_claim t i checkpoint st =
     (if t \<in> set (checkpoint_claims st) then
        st\<lparr>checkpoint_claims :=
             map (\<lambda>u. if u = t then t\<lparr>tomb_id := i, tomb_checkpoint := checkpoint\<rparr> else u) (checkpoint_claims st),
           retired_claim_ids := {identity i, identity (tomb_id t)} \<union> retired_claim_ids st,
           claim_withdrawals := insert (identity (tomb_id t), tomb_checkpoint t) (claim_withdrawals st)\<rparr>
      else st)"

text \<open>\<open>retired_claim_withdrawn_v1\<close>\<close>

definition withdraw_claim :: "claim_tombstone \<Rightarrow> retired_store \<Rightarrow> retired_store" where
  "withdraw_claim t st =
     (if t \<in> set (checkpoint_claims st) then
        st\<lparr>checkpoint_claims := filter (\<lambda>u. u \<noteq> t) (checkpoint_claims st),
           retired_claim_ids := insert (identity (tomb_id t)) (retired_claim_ids st),
           claim_withdrawals := insert (identity (tomb_id t), tomb_checkpoint t) (claim_withdrawals st)\<rparr>
      else st)"

text \<open>\<open>retired_envelope_recorded_v1\<close>, \<open>retired_envelope_rewritten_v1\<close>, \<open>retired_envelope_withdrawn_v1\<close>\<close>

definition record_envelope :: "envelope_tombstone \<Rightarrow> retired_store \<Rightarrow> retired_store" where
  "record_envelope t st =
     st\<lparr>checkpoint_envelopes := checkpoint_envelopes st @ [t],
        retired_envelopes := insert (envelope_identity t) (retired_envelopes st)\<rparr>"

definition rewrite_envelope :: "envelope_tombstone \<Rightarrow> envelope_tombstone \<Rightarrow> retired_store \<Rightarrow> retired_store" where
  "rewrite_envelope t t' st =
     (if t \<in> set (checkpoint_envelopes st) \<and> etomb_rowid t' = etomb_rowid t then
        st\<lparr>checkpoint_envelopes := map (\<lambda>u. if u = t then t' else u) (checkpoint_envelopes st),
           retired_envelopes := {envelope_identity t', envelope_identity t} \<union> retired_envelopes st,
           envelope_withdrawals := insert (envelope_identity t, etomb_checkpoint t) (envelope_withdrawals st)\<rparr>
      else st)"

definition withdraw_envelope :: "envelope_tombstone \<Rightarrow> retired_store \<Rightarrow> retired_store" where
  "withdraw_envelope t st =
     (if t \<in> set (checkpoint_envelopes st) then
        st\<lparr>checkpoint_envelopes := filter (\<lambda>u. u \<noteq> t) (checkpoint_envelopes st),
           retired_envelopes := insert (envelope_identity t) (retired_envelopes st),
           envelope_withdrawals := insert (envelope_identity t, etomb_checkpoint t) (envelope_withdrawals st)\<rparr>
      else st)"

subsection \<open>The import of older rows\<close>

datatype import_cursor = Claims int | Envelopes int | Done

definition cursor_read :: "retired_store \<Rightarrow> import_cursor option" where
  "cursor_read st =
     (case meta_cursor st of
        None \<Rightarrow> Some (Claims 0)
      | Some v \<Rightarrow>
          if v = ''done'' then Some Done
          else case split_once (CHR '':'') v of
            None \<Rightarrow> None
          | Some (table, rowid) \<Rightarrow>
              if table = ''claims'' then map_option Claims (parse_i64 rowid)
              else if table = ''envelopes'' then map_option Envelopes (parse_i64 rowid)
              else None)"

fun cursor_text :: "import_cursor \<Rightarrow> string" where
  "cursor_text (Claims r) = ''claims:'' @ show_int r"
| "cursor_text (Envelopes r) = ''envelopes:'' @ show_int r"
| "cursor_text Done = ''done''"

definition cursor_write :: "import_cursor \<Rightarrow> retired_store \<Rightarrow> retired_store" where
  "cursor_write c st = st\<lparr>meta_cursor := Some (cursor_text c)\<rparr>"

definition IMPORT_PAGE :: nat where "IMPORT_PAGE = 4096"

text \<open>The rowids of one page after the cursor, in order.\<close>

definition page_rowids :: "int \<Rightarrow> nat list \<Rightarrow> nat list" where
  "page_rowids after rowids = take IMPORT_PAGE (sort (filter (\<lambda>r. after < int r) rowids))"

definition import_claims :: "int \<Rightarrow> nat \<Rightarrow> retired_store \<Rightarrow> retired_store" where
  "import_claims after through st =
     st\<lparr>retired_claim_ids := set (map (identity \<circ> tomb_id)
          (filter (\<lambda>t. after < int (tomb_rowid t) \<and> tomb_rowid t \<le> through) (checkpoint_claims st)))
        \<union> retired_claim_ids st\<rparr>"

definition import_envelopes :: "int \<Rightarrow> nat \<Rightarrow> retired_store \<Rightarrow> retired_store" where
  "import_envelopes after through st =
     st\<lparr>retired_envelopes := set (map envelope_identity
          (filter (\<lambda>t. after < int (etomb_rowid t) \<and> etomb_rowid t \<le> through) (checkpoint_envelopes st)))
        \<union> retired_envelopes st\<rparr>"

text \<open>One page: rows scanned, whether the import is done, and the tables; None for a malformed cursor.\<close>

definition import_page :: "retired_store \<Rightarrow> (nat \<times> bool \<times> retired_store) option" where
  "import_page st =
     (case cursor_read st of
        None \<Rightarrow> None
      | Some Done \<Rightarrow> Some (0, True, st)
      | Some (Claims after) \<Rightarrow>
          (let page = page_rowids after (map tomb_rowid (checkpoint_claims st))
           in if page = [] then Some (0, False, cursor_write (Envelopes 0) st)
              else Some (length page, False,
                cursor_write (Claims (int (last page))) (import_claims after (last page) st)))
      | Some (Envelopes after) \<Rightarrow>
          (let page = page_rowids after (map etomb_rowid (checkpoint_envelopes st))
           in if page = [] then Some (0, True, cursor_write Done st)
              else Some (length page, False,
                cursor_write (Envelopes (int (last page))) (import_envelopes after (last page) st))))"

text \<open>\<open>import_rest\<close>, in nanoseconds.\<close>

definition import_rest :: "nat \<Rightarrow> nat" where
  "import_rest held = min (max (held * 4) 100000000) 5000000000"

text \<open>\<open>import_retired_identities_paced\<close>: page after page until the import is done.\<close>

fun import_paced :: "nat \<Rightarrow> retired_store \<Rightarrow> retired_store option" where
  "import_paced 0 st = None"
| "import_paced (Suc n) st =
     (case import_page st of
        None \<Rightarrow> None
      | Some (_, done, st') \<Rightarrow> if done then Some st' else import_paced n st')"

subsection \<open>Lemmas: identities and cursors\<close>

lemma unhex_inj:
  "length a = length b \<Longrightarrow> even (length a) \<Longrightarrow> list_all is_hex a \<Longrightarrow> list_all is_hex b \<Longrightarrow> unhex a = unhex b \<Longrightarrow> a = b"
proof (induction a arbitrary: b rule: unhex.induct)
  case (1 x y s)
  then obtain u v t where b: "b = u # v # t"
    by (metis Suc_length_conv length_Cons)
  have v: "hex_value x < 16" "hex_value y < 16" "hex_value u < 16" "hex_value v < 16"
    using 1 b by (simp_all add: hex_value_less)
  have "16 * hex_value x + hex_value y = 16 * hex_value u + hex_value v" using 1 b by simp
  then have "(16 * hex_value x + hex_value y) div 16 = (16 * hex_value u + hex_value v) div 16"
    "(16 * hex_value x + hex_value y) mod 16 = (16 * hex_value u + hex_value v) mod 16" by simp_all
  then have "hex_value x = hex_value u" "hex_value y = hex_value v" using v by simp_all
  moreover have "is_hex x" "is_hex y" "is_hex u" "is_hex v" using 1 b by simp_all
  ultimately have "x = u" "y = v" by (metis hex_digit_value)+
  moreover have "s = t" using 1 b by simp
  ultimately show ?case by (simp add: b)
qed auto

lemma identity_eq_iff: "identity a = identity b \<longleftrightarrow> a = b"
  by (auto simp: identity_def split: if_splits intro: unhex_inj)

lemma cursor_read_write:
  assumes "\<And>r. c = Claims r \<or> c = Envelopes r \<Longrightarrow> - (2 ^ 63) \<le> r \<and> r < 2 ^ 63"
  shows "cursor_read (cursor_write c st) = Some c"
proof (cases c)
  case (Claims r)
  have "split_once (CHR '':'') (''claims'' @ CHR '':'' # show_int r) = Some (''claims'', show_int r)"
    by (rule split_once_append) simp
  then show ?thesis
    using Claims assms by (simp add: cursor_read_def cursor_write_def parse_i64_show)
next
  case (Envelopes r)
  have "split_once (CHR '':'') (''envelopes'' @ CHR '':'' # show_int r) = Some (''envelopes'', show_int r)"
    by (rule split_once_append) simp
  then show ?thesis
    using Envelopes assms by (simp add: cursor_read_def cursor_write_def parse_i64_show)
qed (simp add: cursor_read_def cursor_write_def)

lemma page_rowids_set:
  "set (page_rowids after rs) \<subseteq> {r \<in> set rs. after < int r}"
  by (auto simp: page_rowids_def dest: in_set_takeD)

lemma page_rowids_empty: "page_rowids after rs = [] \<longleftrightarrow> (\<forall>r\<in>set rs. int r \<le> after)"
proof -
  have "page_rowids after rs = [] \<longleftrightarrow> filter (\<lambda>r. after < int r) rs = []"
    by (simp add: page_rowids_def IMPORT_PAGE_def) (metis length_0_conv length_sort)
  then show ?thesis by (auto simp: filter_empty_conv not_less)
qed

lemma page_last: "page_rowids after rs \<noteq> [] \<Longrightarrow> last (page_rowids after rs) \<in> set rs \<and> after < int (last (page_rowids after rs))"
  using page_rowids_set last_in_set by blast

subsection \<open>Lemmas: the ledger only grows\<close>

datatype retired_op =
    RecordClaim claim_tombstone
  | RewriteClaim claim_tombstone string string
  | WithdrawClaim claim_tombstone
  | RecordEnvelope envelope_tombstone
  | RewriteEnvelope envelope_tombstone envelope_tombstone
  | WithdrawEnvelope envelope_tombstone
  | ImportPage

fun retired_step :: "retired_op \<Rightarrow> retired_store \<Rightarrow> retired_store" where
  "retired_step (RecordClaim t) st = record_claim t st"
| "retired_step (RewriteClaim t i checkpoint) st = rewrite_claim t i checkpoint st"
| "retired_step (WithdrawClaim t) st = withdraw_claim t st"
| "retired_step (RecordEnvelope t) st = record_envelope t st"
| "retired_step (RewriteEnvelope t t') st = rewrite_envelope t t' st"
| "retired_step (WithdrawEnvelope t) st = withdraw_envelope t st"
| "retired_step ImportPage st = (case import_page st of None \<Rightarrow> st | Some (_, _, st') \<Rightarrow> st')"

definition ledger_le :: "retired_store \<Rightarrow> retired_store \<Rightarrow> bool" where
  "ledger_le st st' =
     (retired_claim_ids st \<subseteq> retired_claim_ids st' \<and> retired_envelopes st \<subseteq> retired_envelopes st'
      \<and> claim_withdrawals st \<subseteq> claim_withdrawals st' \<and> envelope_withdrawals st \<subseteq> envelope_withdrawals st')"

lemmas claim_op_defs = record_claim_def rewrite_claim_def withdraw_claim_def
lemmas envelope_op_defs = record_envelope_def rewrite_envelope_def withdraw_envelope_def
lemmas import_defs = import_page_def import_claims_def import_envelopes_def cursor_write_def

lemma retired_step_le: "ledger_le st (retired_step op st)"
proof (cases op)
  case ImportPage
  then show ?thesis
    by (auto simp: ledger_le_def import_defs Let_def split: option.split import_cursor.split)
qed (auto simp: ledger_le_def claim_op_defs envelope_op_defs)

interpretation retired: monotone_machine retired_step "\<lambda>_. True" ledger_le
proof
  show "ledger_le s s" for s by (simp add: ledger_le_def)
  show "ledger_le s t \<Longrightarrow> ledger_le t u \<Longrightarrow> ledger_le s u" for s t u by (auto simp: ledger_le_def)
qed (simp_all add: retired_step_le)

subsection \<open>Lemmas: which claims are retired\<close>

definition row_fits :: "nat \<Rightarrow> bool" where
  "row_fits r = (1 \<le> r \<and> r < 2 ^ 63)"

fun op_fits :: "retired_op \<Rightarrow> bool" where
  "op_fits (RecordClaim t) = row_fits (tomb_rowid t)"
| "op_fits (RecordEnvelope t) = row_fits (etomb_rowid t)"
| "op_fits _ = True"

definition rows_fit :: "retired_store \<Rightarrow> bool" where
  "rows_fit st =
     ((\<forall>t\<in>set (checkpoint_claims st). row_fits (tomb_rowid t))
      \<and> (\<forall>t\<in>set (checkpoint_envelopes st). row_fits (etomb_rowid t)))"

text \<open>The claim rows the import has still to reach.\<close>

fun waits :: "import_cursor \<Rightarrow> claim_tombstone \<Rightarrow> bool" where
  "waits (Claims after) t = (after < int (tomb_rowid t))"
| "waits _ t = False"

definition held_ids :: "retired_store \<Rightarrow> string set" where
  "held_ids st = tomb_id ` set (checkpoint_claims st)"

text \<open>The ids the ledger holds or will reach.\<close>

definition known :: "import_cursor \<Rightarrow> retired_store \<Rightarrow> string set" where
  "known c st =
     {h. identity h \<in> retired_claim_ids st} \<union> tomb_id ` {t \<in> set (checkpoint_claims st). waits c t}"

text \<open>The ledger against the set of claim ids that were ever in the checkpoint table.\<close>

definition covers :: "string set \<Rightarrow> retired_store \<Rightarrow> bool" where
  "covers H st =
     (rows_fit st \<and> held_ids st \<subseteq> H \<and> retired_claim_ids st \<subseteq> identity ` H
      \<and> (\<exists>c. cursor_read st = Some c \<and> H \<subseteq> known c st))"

lemma cursor_read_cong: "meta_cursor st' = meta_cursor st \<Longrightarrow> cursor_read st' = cursor_read st"
  by (simp add: cursor_read_def)

lemma waits_update [simp]: "waits c (t\<lparr>tomb_id := i, tomb_checkpoint := cp\<rparr>) = waits c t"
  by (cases c) simp_all

text \<open>What a change of the checkpoint table may add, and that it loses nothing the ledger knows.\<close>

definition kept :: "import_cursor \<Rightarrow> retired_store \<Rightarrow> retired_store \<Rightarrow> bool" where
  "kept c st st' =
     (held_ids st' \<subseteq> held_ids st \<union> known c st'
      \<and> retired_claim_ids st' \<subseteq> retired_claim_ids st \<union> identity ` (held_ids st \<union> held_ids st')
      \<and> known c st \<subseteq> known c st')"

lemma kept_record: "kept c st (record_claim t st)"
  unfolding kept_def
proof (intro conjI)
  show "held_ids (record_claim t st) \<subseteq> held_ids st \<union> known c (record_claim t st)"
    by (auto simp: held_ids_def record_claim_def known_def)
qed (auto simp: held_ids_def record_claim_def known_def)

lemma kept_withdraw: "kept c st (withdraw_claim t st)"
  unfolding kept_def
proof (intro conjI)
  show "held_ids (withdraw_claim t st) \<subseteq> held_ids st \<union> known c (withdraw_claim t st)"
    by (auto simp: held_ids_def withdraw_claim_def)
qed (auto simp: held_ids_def withdraw_claim_def known_def)

lemma kept_rewrite: "kept c st (rewrite_claim t i cp st)"
  unfolding kept_def
proof (intro conjI)
  show "held_ids (rewrite_claim t i cp st) \<subseteq> held_ids st \<union> known c (rewrite_claim t i cp st)"
    by (auto simp: held_ids_def rewrite_claim_def known_def)
  show "retired_claim_ids (rewrite_claim t i cp st)
     \<subseteq> retired_claim_ids st \<union> identity ` (held_ids st \<union> held_ids (rewrite_claim t i cp st))"
    by (auto simp: held_ids_def rewrite_claim_def image_iff)
  show "known c st \<subseteq> known c (rewrite_claim t i cp st)"
    by (auto simp: rewrite_claim_def known_def image_iff)
qed

lemma kept_same:
  "checkpoint_claims st' = checkpoint_claims st \<Longrightarrow> retired_claim_ids st' = retired_claim_ids st \<Longrightarrow> kept c st st'"
  by (auto simp: kept_def held_ids_def known_def)

lemma kept_trigger: "op \<noteq> ImportPage \<Longrightarrow> kept c st (retired_step op st)"
proof (cases op)
  case (RecordEnvelope t)
  then show ?thesis by (intro kept_same) (simp_all add: envelope_op_defs)
next
  case (RewriteEnvelope t t')
  then show ?thesis by (intro kept_same) (simp_all add: envelope_op_defs)
next
  case (WithdrawEnvelope t)
  then show ?thesis by (intro kept_same) (simp_all add: envelope_op_defs)
qed (simp_all add: kept_record kept_rewrite kept_withdraw)

lemma rows_fit_step: "rows_fit st \<Longrightarrow> op_fits op \<Longrightarrow> rows_fit (retired_step op st)"
proof (cases op)
  case ImportPage
  then show "rows_fit st \<Longrightarrow> rows_fit (retired_step op st)"
    by (auto simp: rows_fit_def import_defs Let_def split: option.split import_cursor.split)
qed (auto simp: rows_fit_def claim_op_defs envelope_op_defs)

lemma trigger_keeps_cursor: "op \<noteq> ImportPage \<Longrightarrow> meta_cursor (retired_step op st) = meta_cursor st"
  by (cases op) (auto simp: claim_op_defs envelope_op_defs)

lemma covers_trigger:
  assumes "covers H st" "op_fits op" "op \<noteq> ImportPage"
  shows "covers (H \<union> held_ids (retired_step op st)) (retired_step op st)"
proof -
  let ?st = "retired_step op st"
  from assms(1) obtain c where c: "cursor_read st = Some c" "H \<subseteq> known c st"
    and held: "held_ids st \<subseteq> H" and ret: "retired_claim_ids st \<subseteq> identity ` H" and fit: "rows_fit st"
    by (auto simp: covers_def)
  have "cursor_read ?st = Some c"
    using c(1) trigger_keeps_cursor [OF assms(3)] by (metis cursor_read_cong)
  moreover have "H \<union> held_ids ?st \<subseteq> known c ?st"
    using c(2) held kept_trigger [OF assms(3), of c st] unfolding kept_def by blast
  moreover have "retired_claim_ids ?st \<subseteq> identity ` (H \<union> held_ids ?st)"
    using ret held kept_trigger [OF assms(3), of c st] unfolding kept_def by blast
  ultimately show ?thesis
    using rows_fit_step [OF fit assms(2)] by (auto simp: covers_def)
qed

lemma known_done: "known Done st = {h. identity h \<in> retired_claim_ids st}" "known (Envelopes r) st = known Done st"
  by (simp_all add: known_def)

lemma last_page_fits:
  assumes "\<forall>r\<in>set rs. row_fits r" "page_rowids after rs \<noteq> []"
  shows "- (2 ^ 63) \<le> int (last (page_rowids after rs)) \<and> int (last (page_rowids after rs)) < 2 ^ 63"
  using page_last [OF assms(2)] assms(1) by (auto simp: row_fits_def)

lemma cursor_envelopes_0: "cursor_read (cursor_write (Envelopes 0) st) = Some (Envelopes 0)"
  by (rule cursor_read_write) auto

lemma cursor_done: "cursor_read (cursor_write Done st) = Some Done"
  by (rule cursor_read_write) auto

text \<open>One page of the import, by the cursor it starts from.\<close>

lemma import_page_cases:
  assumes "rows_fit st" "cursor_read st = Some c"
  obtains (finished) "c = Done" "import_page st = Some (0, True, st)"
    | (claims_end) r where "c = Claims r" "\<forall>t\<in>set (checkpoint_claims st). int (tomb_rowid t) \<le> r"
        "import_page st = Some (0, False, cursor_write (Envelopes 0) st)"
        "cursor_read (cursor_write (Envelopes 0) st) = Some (Envelopes 0)"
    | (claims_page) r p st' where "c = Claims r" "r < int p" "p \<in> tomb_rowid ` set (checkpoint_claims st)"
        "st' = cursor_write (Claims (int p)) (import_claims r p st)" "cursor_read st' = Some (Claims (int p))"
        "\<exists>n. import_page st = Some (n, False, st')"
    | (envelopes_end) r where "c = Envelopes r" "\<forall>t\<in>set (checkpoint_envelopes st). int (etomb_rowid t) \<le> r"
        "import_page st = Some (0, True, cursor_write Done st)" "cursor_read (cursor_write Done st) = Some Done"
    | (envelopes_page) r p st' where "c = Envelopes r" "r < int p" "p \<in> etomb_rowid ` set (checkpoint_envelopes st)"
        "st' = cursor_write (Envelopes (int p)) (import_envelopes r p st)" "cursor_read st' = Some (Envelopes (int p))"
        "\<exists>n. import_page st = Some (n, False, st')"
proof (cases c)
  case (Claims r)
  let ?rs = "map tomb_rowid (checkpoint_claims st)"
  show ?thesis
  proof (cases "page_rowids r ?rs = []")
    case True
    show ?thesis
      by (rule claims_end [OF Claims])
         (use True assms Claims in \<open>simp_all add: import_page_def page_rowids_empty cursor_envelopes_0\<close>)
  next
    case False
    have "cursor_read (cursor_write (Claims (int (last (page_rowids r ?rs)))) x) = Some (Claims (int (last (page_rowids r ?rs))))" for x
      by (rule cursor_read_write) (use last_page_fits [OF _ False] assms(1) in \<open>auto simp: rows_fit_def\<close>)
    with False show ?thesis
      by (intro claims_page [OF Claims _ _ refl]) (use page_last [OF False] assms Claims in \<open>auto simp: import_page_def Let_def\<close>)
  qed
next
  case (Envelopes r)
  let ?rs = "map etomb_rowid (checkpoint_envelopes st)"
  show ?thesis
  proof (cases "page_rowids r ?rs = []")
    case True
    show ?thesis
      by (rule envelopes_end [OF Envelopes])
         (use True assms Envelopes in \<open>simp_all add: import_page_def page_rowids_empty cursor_done\<close>)
  next
    case False
    have "cursor_read (cursor_write (Envelopes (int (last (page_rowids r ?rs)))) x) = Some (Envelopes (int (last (page_rowids r ?rs))))" for x
      by (rule cursor_read_write) (use last_page_fits [OF _ False] assms(1) in \<open>auto simp: rows_fit_def\<close>)
    with False show ?thesis
      by (intro envelopes_page [OF Envelopes _ _ refl]) (use page_last [OF False] assms Envelopes in \<open>auto simp: import_page_def Let_def\<close>)
  qed
next
  case Done
  with assms show ?thesis by (intro finished) (simp_all add: import_page_def)
qed

lemma cursor_write_simps [simp]:
  "checkpoint_claims (cursor_write c st) = checkpoint_claims st" "retired_claim_ids (cursor_write c st) = retired_claim_ids st"
  "checkpoint_envelopes (cursor_write c st) = checkpoint_envelopes st" "retired_envelopes (cursor_write c st) = retired_envelopes st"
  by (simp_all add: cursor_write_def)

lemma import_simps [simp]:
  "checkpoint_claims (import_claims a p st) = checkpoint_claims st" "checkpoint_envelopes (import_claims a p st) = checkpoint_envelopes st"
  "retired_envelopes (import_claims a p st) = retired_envelopes st"
  "checkpoint_claims (import_envelopes a p st) = checkpoint_claims st" "checkpoint_envelopes (import_envelopes a p st) = checkpoint_envelopes st"
  "retired_claim_ids (import_envelopes a p st) = retired_claim_ids st"
  by (simp_all add: import_claims_def import_envelopes_def)

lemma known_import_claims: "known (Claims r) st \<subseteq> known (Claims (int p)) (cursor_write (Claims (int p)) (import_claims r p st))"
proof
  fix h assume "h \<in> known (Claims r) st"
  then consider "identity h \<in> retired_claim_ids st"
    | t where "t \<in> set (checkpoint_claims st)" "tomb_id t = h" "r < int (tomb_rowid t)"
    by (auto simp: known_def)
  then show "h \<in> known (Claims (int p)) (cursor_write (Claims (int p)) (import_claims r p st))"
  proof cases
    case 2
    show ?thesis
    proof (cases "tomb_rowid t \<le> p")
      case True
      with 2 have "identity h \<in> retired_claim_ids (import_claims r p st)" by (auto simp: import_claims_def)
      then show ?thesis by (simp add: known_def)
    next
      case False
      with 2 show ?thesis by (auto simp: known_def)
    qed
  qed (simp add: known_def import_claims_def)
qed

lemma covers_import:
  assumes "covers H st"
  shows "covers (H \<union> held_ids (retired_step ImportPage st)) (retired_step ImportPage st)"
proof -
  from assms obtain c where c: "cursor_read st = Some c" "H \<subseteq> known c st"
    and held: "held_ids st \<subseteq> H" and ret: "retired_claim_ids st \<subseteq> identity ` H" and fit: "rows_fit st"
    by (auto simp: covers_def)
  have goal: "covers (H \<union> held_ids st') st'"
    if "checkpoint_claims st' = checkpoint_claims st" "checkpoint_envelopes st' = checkpoint_envelopes st"
      "cursor_read st' = Some c'" "H \<subseteq> known c' st'" "retired_claim_ids st' \<subseteq> identity ` H" for st' c'
  proof -
    have "held_ids st' = held_ids st" using that(1) by (simp add: held_ids_def)
    moreover have "rows_fit st'" using that(1,2) fit by (simp add: rows_fit_def)
    moreover have "H \<union> held_ids st = H" using held by blast
    ultimately show ?thesis using that(3-5) held by (auto simp: covers_def)
  qed
  from fit c(1) show ?thesis
  proof (cases rule: import_page_cases)
    case finished
    then show ?thesis using c ret by (auto intro!: goal)
  next
    case (claims_end r)
    have "{t \<in> set (checkpoint_claims st). waits c t} = {}"
      using claims_end(1,2) by fastforce
    with c(2) have "H \<subseteq> known (Envelopes 0) st" by (simp add: known_def)
    with claims_end ret show ?thesis
      by (intro goal [of _ "Envelopes 0"]) (simp_all add: known_def)
  next
    case (claims_page r p st')
    have "retired_claim_ids st' \<subseteq> identity ` H"
      using ret held by (auto simp: claims_page(4) import_claims_def held_ids_def)
    with claims_page c(2) known_import_claims [of r st p] show ?thesis
      by (intro goal [of _ "Claims (int p)"]) auto
  next
    case (envelopes_end r)
    with c(2) ret show ?thesis by (intro goal [of _ Done]) (simp_all add: known_def)
  next
    case (envelopes_page r p st')
    with c(2) ret show ?thesis by (intro goal [of _ "Envelopes (int p)"]) (auto simp: known_def)
  qed
qed

definition ever_held :: "retired_op list \<Rightarrow> retired_store \<Rightarrow> string set" where
  "ever_held ops st = (\<Union>n\<le>length ops. held_ids (fold retired_step (take n ops) st))"

lemma ever_held_snoc:
  "ever_held (ops @ [op]) st = ever_held ops st \<union> held_ids (fold retired_step (ops @ [op]) st)"
proof -
  have "{..length (ops @ [op])} = insert (length (ops @ [op])) {..length ops}" by auto
  then show ?thesis by (auto simp: ever_held_def)
qed

lemma covers_run:
  assumes "covers (held_ids st) st" "\<forall>op\<in>set ops. op_fits op"
  shows "covers (ever_held ops st) (fold retired_step ops st)"
  using assms(2)
proof (induction ops rule: rev_induct)
  case Nil
  then show ?case using assms(1) by (simp add: ever_held_def)
next
  case (snoc op ops)
  then have "covers (ever_held ops st) (fold retired_step ops st)" "op_fits op" by simp_all
  then show ?case
    using covers_trigger covers_import by (cases "op = ImportPage") (simp_all add: ever_held_snoc)
qed

lemma covers_fresh:
  assumes "rows_fit st" "meta_cursor st = None" "retired_claim_ids st = {}"
  shows "covers (held_ids st) st"
proof -
  have "held_ids st \<subseteq> known (Claims 0) st"
    using assms(1) by (auto simp: held_ids_def known_def rows_fit_def row_fits_def)
  with assms show ?thesis by (auto simp: covers_def cursor_read_def)
qed

subsection \<open>Lemmas: the import ends\<close>

fun remaining :: "import_cursor \<Rightarrow> retired_store \<Rightarrow> nat" where
  "remaining (Claims r) st =
     length (filter (\<lambda>t. r < int (tomb_rowid t)) (checkpoint_claims st)) + length (checkpoint_envelopes st) + 2"
| "remaining (Envelopes r) st = length (filter (\<lambda>t. r < int (etomb_rowid t)) (checkpoint_envelopes st)) + 1"
| "remaining Done st = 0"

fun envelope_waits :: "import_cursor \<Rightarrow> envelope_tombstone \<Rightarrow> bool" where
  "envelope_waits (Claims _) t = (0 < etomb_rowid t)"
| "envelope_waits (Envelopes r) t = (r < int (etomb_rowid t))"
| "envelope_waits Done t = False"

definition reached :: "import_cursor \<Rightarrow> retired_store \<Rightarrow> bool" where
  "reached c st =
     ((\<forall>t\<in>set (checkpoint_claims st). identity (tomb_id t) \<in> retired_claim_ids st \<or> waits c t)
      \<and> (\<forall>t\<in>set (checkpoint_envelopes st). envelope_identity t \<in> retired_envelopes st \<or> envelope_waits c t))"

lemma filter_shrinks:
  assumes "x \<in> set xs" "Q x" "\<not> P x" "\<And>y. P y \<Longrightarrow> Q y"
  shows "length (filter P xs) < length (filter Q xs)"
proof -
  have "filter P xs = filter P (filter Q xs)" using assms(4) by (induction xs) auto
  then show ?thesis using length_filter_less [of x "filter Q xs" P] assms by simp
qed

definition advances :: "import_cursor \<Rightarrow> retired_store \<Rightarrow> bool" where
  "advances c st =
     (\<exists>n dn st' c'. import_page st = Some (n, dn, st') \<and> checkpoint_claims st' = checkpoint_claims st
        \<and> checkpoint_envelopes st' = checkpoint_envelopes st \<and> cursor_read st' = Some c' \<and> reached c' st'
        \<and> (if dn then c' = Done else remaining c' st' < remaining c st))"

lemma advancesI:
  "import_page st = Some (n, dn, st') \<Longrightarrow> checkpoint_claims st' = checkpoint_claims st \<Longrightarrow>
   checkpoint_envelopes st' = checkpoint_envelopes st \<Longrightarrow> cursor_read st' = Some c' \<Longrightarrow> reached c' st' \<Longrightarrow>
   (if dn then c' = Done else remaining c' st' < remaining c st) \<Longrightarrow> advances c st"
  unfolding advances_def by blast

lemma import_step:
  assumes "rows_fit st" "cursor_read st = Some c" "reached c st"
  shows "advances c st"
  using assms(1,2)
proof (cases rule: import_page_cases)
  case finished
  show ?thesis by (rule advancesI [OF finished(2) refl refl assms(2,3)]) (simp add: finished(1))
next
  case (claims_end r)
  have "reached (Envelopes 0) (cursor_write (Envelopes 0) st)"
    using assms(3) claims_end(1,2) by (fastforce simp: reached_def)
  then show ?thesis
    by (rule advancesI [OF claims_end(3) _ _ claims_end(4), rotated 2])
       (simp_all add: claims_end(1) less_Suc_eq_le trans_le_add2)
next
  case (claims_page r p st')
  then obtain t n where t: "t \<in> set (checkpoint_claims st)" "p = tomb_rowid t" and n: "import_page st = Some (n, False, st')"
    by auto
  have "length (filter (\<lambda>t. int p < int (tomb_rowid t)) (checkpoint_claims st))
      < length (filter (\<lambda>t. r < int (tomb_rowid t)) (checkpoint_claims st))"
    using t claims_page(2) by (intro filter_shrinks [OF t(1)]) auto
  moreover have "reached (Claims (int p)) st'"
    using assms(3) claims_page(1) by (auto simp: reached_def claims_page(4) import_claims_def not_less)
  ultimately show ?thesis
    by (intro advancesI [OF n _ _ claims_page(5)]) (simp_all add: claims_page(1,4))
next
  case (envelopes_end r)
  have "reached Done (cursor_write Done st)"
    using assms(3) envelopes_end(1,2) by (fastforce simp: reached_def)
  then show ?thesis
    by (rule advancesI [OF envelopes_end(3) _ _ envelopes_end(4), rotated 2]) simp_all
next
  case (envelopes_page r p st')
  then obtain t n where t: "t \<in> set (checkpoint_envelopes st)" "p = etomb_rowid t" and n: "import_page st = Some (n, False, st')"
    by auto
  have "length (filter (\<lambda>t. int p < int (etomb_rowid t)) (checkpoint_envelopes st))
      < length (filter (\<lambda>t. r < int (etomb_rowid t)) (checkpoint_envelopes st))"
    using t envelopes_page(2) by (intro filter_shrinks [OF t(1)]) auto
  moreover have "reached (Envelopes (int p)) st'"
    using assms(3) envelopes_page(1) by (auto simp: reached_def envelopes_page(4) import_envelopes_def not_less)
  ultimately show ?thesis
    by (intro advancesI [OF n _ _ envelopes_page(5)]) (simp_all add: envelopes_page(1,4))
qed

lemma import_paced_reaches:
  "rows_fit st \<Longrightarrow> cursor_read st = Some c \<Longrightarrow> reached c st \<Longrightarrow> remaining c st < n \<Longrightarrow>
   \<exists>st'. import_paced n st = Some st' \<and> cursor_read st' = Some Done \<and> reached Done st'
     \<and> checkpoint_claims st' = checkpoint_claims st \<and> checkpoint_envelopes st' = checkpoint_envelopes st"
proof (induction n arbitrary: st c)
  case (Suc n)
  from import_step [OF Suc.prems(1-3)] obtain k dn st' c' where
    page: "import_page st = Some (k, dn, st')" and rows: "checkpoint_claims st' = checkpoint_claims st"
      "checkpoint_envelopes st' = checkpoint_envelopes st"
    and cur: "cursor_read st' = Some c'" "reached c' st'" "if dn then c' = Done else remaining c' st' < remaining c st"
    unfolding advances_def by blast
  show ?case
  proof (cases dn)
    case True
    with page rows cur show ?thesis by simp
  next
    case False
    have "rows_fit st'" using Suc.prems(1) rows by (simp add: rows_fit_def)
    then obtain st'' where "import_paced n st' = Some st''" "cursor_read st'' = Some Done" "reached Done st''"
        "checkpoint_claims st'' = checkpoint_claims st'" "checkpoint_envelopes st'' = checkpoint_envelopes st'"
      using Suc.IH [of st' c'] cur False Suc.prems(4) by auto
    with False page rows show ?thesis by simp
  qed
qed simp

subsection \<open>Properties\<close>

text \<open>
  The ledger forgets nothing: whatever is recorded, rewritten, withdrawn or imported, an
  identity once retired stays retired and a withdrawal once labelled keeps its label.
\<close>

lemma ledger_only_grows:
  "retired_claim_ids st \<subseteq> retired_claim_ids (fold retired_step ops st)
   \<and> retired_envelopes st \<subseteq> retired_envelopes (fold retired_step ops st)
   \<and> claim_withdrawals st \<subseteq> claim_withdrawals (fold retired_step ops st)
   \<and> envelope_withdrawals st \<subseteq> envelope_withdrawals (fold retired_step ops st)"
  using retired.run_le [of st ops] by (simp add: ledger_le_def)

text \<open>
  The ledger is exact: once the import of older rows is done, a claim id is retired if and only
  if a row with that very id was in the checkpoint table at some moment, even where adoption has
  since withdrawn or rewritten the row, and however the import's pages interleave with changes.
\<close>

lemma retired_exactly_ever_held:
  assumes "rows_fit st" "meta_cursor st = None" "retired_claim_ids st = {}"
    and "\<forall>op\<in>set ops. op_fits op" "cursor_read (fold retired_step ops st) = Some Done"
  shows "claim_retired (fold retired_step ops st) i \<longleftrightarrow>
    (\<exists>n\<le>length ops. i \<in> held_ids (fold retired_step (take n ops) st))"
proof -
  have "covers (ever_held ops st) (fold retired_step ops st)"
    using assms by (intro covers_run covers_fresh) simp_all
  with assms(5) have "ever_held ops st \<subseteq> known Done (fold retired_step ops st)"
    "retired_claim_ids (fold retired_step ops st) \<subseteq> identity ` ever_held ops st"
    by (auto simp: covers_def)
  then have "claim_retired (fold retired_step ops st) i \<longleftrightarrow> i \<in> ever_held ops st"
    by (auto simp: claim_retired_def known_done identity_eq_iff)
  then show ?thesis by (auto simp: ever_held_def)
qed

definition example_tomb :: claim_tombstone where
  "example_tomb = \<lparr>tomb_rowid = 1, tomb_id = ''claim'', tomb_checkpoint = ''c1''\<rparr>"

definition example_tables :: retired_store where
  "example_tables =
     \<lparr>checkpoint_claims = [example_tomb], checkpoint_envelopes = [], retired_claim_ids = {}, retired_envelopes = {},
      claim_withdrawals = {}, envelope_withdrawals = {}, meta_cursor = None\<rparr>"

lemma example_tables_fit: "rows_fit example_tables"
  by (simp add: rows_fit_def row_fits_def example_tables_def example_tomb_def)

text \<open>
  C32. The import ends: started on any tables, its pages finish within one page per older row and
  three more, and then every claim and every envelope of the checkpoint tables is retired.
\<close>

theorem import_finishes:
  assumes "rows_fit st" "meta_cursor st = None"
  shows "\<exists>st'. import_paced (length (checkpoint_claims st) + length (checkpoint_envelopes st) + 3) st = Some st'
    \<and> cursor_read st' = Some Done
    \<and> (\<forall>t\<in>set (checkpoint_claims st). claim_retired st' (tomb_id t))
    \<and> (\<forall>t\<in>set (checkpoint_envelopes st). envelope_retired st' (etomb_writer t) (etomb_sequence t) (etomb_hash t))"
proof -
  have "cursor_read st = Some (Claims 0)" using assms(2) by (simp add: cursor_read_def)
  moreover have "reached (Claims 0) st"
    using assms(1) by (auto simp: reached_def rows_fit_def row_fits_def)
  moreover have "remaining (Claims 0) st < length (checkpoint_claims st) + length (checkpoint_envelopes st) + 3"
    using length_filter_le [of "\<lambda>t. 0 < tomb_rowid t" "checkpoint_claims st"] by (simp add: le_imp_less_Suc)
  ultimately obtain st' where st': "import_paced (length (checkpoint_claims st) + length (checkpoint_envelopes st) + 3) st = Some st'"
      "cursor_read st' = Some Done" "reached Done st'" "checkpoint_claims st' = checkpoint_claims st"
      "checkpoint_envelopes st' = checkpoint_envelopes st"
    using import_paced_reaches [OF assms(1)] by blast
  have "\<forall>t\<in>set (checkpoint_claims st). claim_retired st' (tomb_id t)"
    using st'(3,4) by (simp add: reached_def claim_retired_def)
  moreover have "\<forall>t\<in>set (checkpoint_envelopes st). envelope_retired st' (etomb_writer t) (etomb_sequence t) (etomb_hash t)"
    using st'(3,5) by (simp add: reached_def envelope_retired_def envelope_identity_def)
  ultimately show ?thesis using st'(1,2) by blast
qed

lemma import_finishes_witness:
  "\<exists>st'. import_paced (length (checkpoint_claims example_tables) + length (checkpoint_envelopes example_tables) + 3)
      example_tables = Some st' \<and> claim_retired st' ''claim''"
  using import_finishes [OF example_tables_fit] by (auto simp: example_tables_def example_tomb_def)

end
