(* ===== verification/Claim_Ranges.thy ===== *)
theory Claim_Ranges
  imports Digest Retired "HOL-Library.AList"
begin

section \<open>Range digests over the retained claims\<close>

text \<open>
  Models \<open>crates/smallclaims/src/store/claim_ranges.rs\<close> and its wire types in \<open>replication.rs\<close>: the
  count and digest of each range of claim ids, the triggers that queue changes, the background
  fold of the queue and of the claims that predate the triggers, and the comparison of two
  members' summaries. A member hash is SHA-512 of an id, the parameter \<open>hash\<close>, of which the code
  relies on its length only; \<open>hex\<close> is \<open>hex::encode\<close>. Rows of \<open>claims\<close> are pairs of store index and
  id; the queue is in the order of its keys. A failed transaction is \<^const>\<open>None\<close>.
\<close>

subsection \<open>Ranges\<close>

definition TOP_RANGES :: nat where "TOP_RANGES = 64"
definition LEAF_RANGES :: nat where "LEAF_RANGES = 4096"
definition LEAVES_PER_TOP :: nat where "LEAVES_PER_TOP = LEAF_RANGES div TOP_RANGES"
definition PAGE :: nat where "PAGE = 4096"

definition regular :: "string \<Rightarrow> bool" where
  "regular i = (length i = 64 \<and> list_all is_hex i)"

text \<open>\<open>u32::from_str_radix(digits, 16)\<close>\<close>

definition radix_16 :: "string \<Rightarrow> nat" where
  "radix_16 s = foldl (\<lambda>n c. 16 * n + hex_value c) 0 s"

definition leaf :: "string \<Rightarrow> nat" where
  "leaf i = (if regular i then radix_16 (take 3 i) else LEAF_RANGES)"

type_synonym range_key = "nat \<times> nat"

definition range_keys :: "string \<Rightarrow> range_key list" where
  "range_keys i = [(1, leaf i div LEAVES_PER_TOP), (2, leaf i)]"

type_synonym delta = "(range_key \<times> (int \<times> bytes)) list"
type_synonym digest_table = "range_key \<rightharpoonup> int \<times> bytes"

subsection \<open>Signed changes\<close>

definition bump :: "bytes \<Rightarrow> int \<Rightarrow> int \<times> bytes \<Rightarrow> int \<times> bytes" where
  "bump h sign e = (fst e + sign, add (snd e) h (sign < 0))"

definition delta_change :: "(string \<Rightarrow> bytes) \<Rightarrow> string \<times> int \<Rightarrow> delta \<Rightarrow> delta" where
  "delta_change hash c d =
     fold (\<lambda>k. AList.map_default k (bump (hash (fst c)) (snd c) (0, zero_digest)) (bump (hash (fst c)) (snd c)))
       (range_keys (fst c)) d"

definition stored_range :: "digest_table \<Rightarrow> range_key \<Rightarrow> int \<times> bytes" where
  "stored_range t k = (case t k of None \<Rightarrow> (0, zero_digest) | Some e \<Rightarrow> e)"

fun delta_apply :: "delta \<Rightarrow> digest_table \<Rightarrow> digest_table option" where
  "delta_apply [] t = Some t"
| "delta_apply ((k, (change, bs)) # d) t =
     (let (count, accumulator) = stored_range t k
      in if length accumulator \<noteq> 64 then None
         else if count + change < 0 then None
         else delta_apply d
           (if count + change = 0 then t(k := None)
            else t(k \<mapsto> (count + change, add accumulator bs False))))"

subsection \<open>The tables and their triggers\<close>

record range_store =
  claims :: "(nat \<times> string) list"
  next_index :: nat
  range_digests :: digest_table
  range_import :: "(nat \<times> nat) option"
  pending :: "(string \<times> int) list"
  installed :: bool

text \<open>\<open>claims.id\<close> is unique and the store index is never reused.\<close>

definition insert_claim :: "string \<Rightarrow> range_store \<Rightarrow> range_store" where
  "insert_claim i st =
     (if i \<in> snd ` set (claims st) then st
      else st\<lparr>claims := claims st @ [(next_index st, i)], next_index := next_index st + 1,
              pending := (if installed st then pending st @ [(i, 1)] else pending st)\<rparr>)"

definition waits_import :: "range_store \<Rightarrow> nat \<Rightarrow> bool" where
  "waits_import st n = (case range_import st of None \<Rightarrow> False | Some (cursor, bound) \<Rightarrow> cursor < n \<and> n \<le> bound)"

definition remove_claim :: "string \<Rightarrow> range_store \<Rightarrow> range_store" where
  "remove_claim i st =
     (case find (\<lambda>c. snd c = i) (claims st) of
        None \<Rightarrow> st
      | Some (n, _) \<Rightarrow>
          st\<lparr>claims := filter (\<lambda>c. snd c \<noteq> i) (claims st),
             pending := (if installed st \<and> \<not> waits_import st n then pending st @ [(i, -1)] else pending st)\<rparr>)"

definition install :: "range_store \<Rightarrow> range_store" where
  "install st =
     st\<lparr>range_import := (if \<not> installed st \<and> claims st \<noteq> [] then Some (0, Max (fst ` set (claims st))) else range_import st),
        installed := True\<rparr>"

subsection \<open>Folding\<close>

text \<open>One page: how many changes, whether nothing is left, and the tables.\<close>

definition fold_page :: "(string \<Rightarrow> bytes) \<Rightarrow> range_store \<Rightarrow> (nat \<times> bool \<times> range_store) option" where
  "fold_page hash st =
     (let page = take PAGE (pending st)
      in if page \<noteq> [] then
           (case delta_apply (fold (delta_change hash) page []) (range_digests st) of
              None \<Rightarrow> None
            | Some t \<Rightarrow> Some (length page, False, st\<lparr>range_digests := t, pending := drop PAGE (pending st)\<rparr>))
         else case range_import st of
           None \<Rightarrow> Some (0, True, st)
         | Some (cursor, bound) \<Rightarrow>
             (let old = take PAGE (sort_key fst (filter (\<lambda>c. cursor < fst c \<and> fst c \<le> bound) (claims st)))
              in case delta_apply (fold (delta_change hash) (map (\<lambda>c. (snd c, 1)) old) []) (range_digests st) of
                   None \<Rightarrow> None
                 | Some t \<Rightarrow>
                     Some (length old, False,
                       st\<lparr>range_digests := t,
                          range_import :=
                            (if old \<noteq> [] \<and> fst (last old) < bound then Some (fst (last old), bound) else None)\<rparr>)))"

text \<open>\<open>fold_claim_ranges_paced\<close>: page after page until nothing waits.\<close>

fun fold_paced :: "(string \<Rightarrow> bytes) \<Rightarrow> nat \<Rightarrow> range_store \<Rightarrow> range_store option" where
  "fold_paced hash 0 st = None"
| "fold_paced hash (Suc n) st =
     (case fold_page hash st of
        None \<Rightarrow> None
      | Some (_, finished, st') \<Rightarrow> if finished then Some st' else fold_paced hash n st')"

subsection \<open>Reading the ranges\<close>

record claim_range =
  cr_range :: nat
  cr_count :: int
  cr_digest :: bytes

definition read_ranges :: "range_store \<Rightarrow> nat \<Rightarrow> nat \<Rightarrow> nat \<Rightarrow> claim_range list" where
  "read_ranges st level lo hi =
     List.map_filter (\<lambda>r. map_option (\<lambda>(c, d). \<lparr>cr_range = r, cr_count = c, cr_digest = d\<rparr>)
        (range_digests st (level, r))) [lo..<hi]"

definition tops :: "range_store \<Rightarrow> claim_range list" where
  "tops st = read_ranges st 1 0 (TOP_RANGES + 1)"

definition leaves :: "range_store \<Rightarrow> nat \<Rightarrow> claim_range list" where
  "leaves st top' = read_ranges st 2 (top' * LEAVES_PER_TOP) ((top' + 1) * LEAVES_PER_TOP)"

definition whole :: "range_store \<Rightarrow> int \<times> bytes" where
  "whole st = fold (\<lambda>r (c, d). (c + cr_count r, add d (cr_digest r) False)) (tops st) (0, zero_digest)"

text \<open>\<open>format!("{:03x}", n)\<close> for a leaf number.\<close>

definition hex3 :: "nat \<Rightarrow> string" where
  "hex3 n = [hex_digit (n div 256), hex_digit (n div 16 mod 16), hex_digit (n mod 16)]"

definition ids_in_leaf :: "range_store \<Rightarrow> nat \<Rightarrow> string list" where
  "ids_in_leaf st l =
     (let ids =
        (if LEAF_RANGES \<le> l then sort (map snd (claims st))
         else let to = (if l + 1 = LEAF_RANGES then ''g'' else hex3 (l + 1))
              in sort (filter (\<lambda>i. hex3 l \<le> i \<and> i < to) (map snd (claims st))))
      in filter (\<lambda>i. leaf i = l) ids)"

definition complete :: "range_store \<Rightarrow> bool" where
  "complete st = (range_import st = None \<and> pending st = [])"

subsection \<open>Summaries and their comparison\<close>

record range_entry =
  re_range :: nat
  re_count :: int
  re_digest :: string

record range_summary =
  version :: nat
  retained :: "(int \<times> string) option"
  sum_tops :: "range_entry list option"
  sum_leaves :: "(nat \<times> range_entry list) list"
  sum_ids :: "(nat \<times> string list) list"

record range_query =
  q_tops :: bool
  leaves_of :: "nat list"
  ids_of :: "nat list"

record range_comparison =
  same :: bool
  pair :: string
  cmp_tops :: "nat list"
  cmp_leaves :: "nat list"
  missing :: "string list"

definition CLAIM_RANGE_VERSION :: nat where "CLAIM_RANGE_VERSION = 1"
definition CLAIM_RANGE_QUERY_TOPS :: nat where "CLAIM_RANGE_QUERY_TOPS = 4"
definition CLAIM_RANGE_QUERY_LEAVES :: nat where "CLAIM_RANGE_QUERY_LEAVES = 8"
definition CLAIM_RANGE_ANSWER_IDS :: nat where "CLAIM_RANGE_ANSWER_IDS = 4096"

definition range_entry_of :: "(bytes \<Rightarrow> string) \<Rightarrow> claim_range \<Rightarrow> range_entry" where
  "range_entry_of hex r = \<lparr>re_range = cr_range r, re_count = cr_count r, re_digest = hex (cr_digest r)\<rparr>"

text \<open>The loop over the asked leaves, with the number of ids listed so far.\<close>

fun answer_ids :: "range_store \<Rightarrow> nat \<Rightarrow> nat list \<Rightarrow> (nat \<times> string list) list" where
  "answer_ids st listed [] = []"
| "answer_ids st listed (l # ls) =
     (if CLAIM_RANGE_ANSWER_IDS \<le> listed then []
      else if l < LEAF_RANGES then (l, ids_in_leaf st l) # answer_ids st (listed + length (ids_in_leaf st l)) ls
      else answer_ids st listed ls)"

definition claim_range_summary_answering ::
  "(bytes \<Rightarrow> string) \<Rightarrow> range_store \<Rightarrow> range_query option \<Rightarrow> range_summary"
where
  "claim_range_summary_answering hex st query =
     (let summary = \<lparr>version = CLAIM_RANGE_VERSION, retained = None, sum_tops = None, sum_leaves = [], sum_ids = []\<rparr>
      in if \<not> complete st then summary
         else let (count, digest) = whole st; summary = summary\<lparr>retained := Some (count, hex digest)\<rparr>
              in case query of
                   None \<Rightarrow> summary
                 | Some q \<Rightarrow>
                     summary\<lparr>sum_tops := (if q_tops q then Some (map (range_entry_of hex) (tops st)) else None),
                       sum_leaves := map (\<lambda>t. (t, map (range_entry_of hex) (leaves st t)))
                         (filter (\<lambda>t. t \<le> TOP_RANGES) (take CLAIM_RANGE_QUERY_TOPS (leaves_of q))),
                       sum_ids := answer_ids st 0 (take CLAIM_RANGE_QUERY_LEAVES (ids_of q))\<rparr>)"

definition differing :: "(bytes \<Rightarrow> string) \<Rightarrow> claim_range list \<Rightarrow> range_entry list \<Rightarrow> nat list" where
  "differing hex local remote =
     (let held = map_of (rev (map (\<lambda>r. (cr_range r, (cr_count r, hex (cr_digest r)))) local))
      in map re_range (filter (\<lambda>e. held (re_range e) \<noteq> Some (re_count e, re_digest e)) remote))"

text \<open>The loop over the listed leaves, with the number of ids examined so far.\<close>

fun missing_ids :: "(string \<Rightarrow> bool) \<Rightarrow> range_store \<Rightarrow> nat \<Rightarrow> (nat \<times> string list) list \<Rightarrow> string list" where
  "missing_ids retired st examined [] = []"
| "missing_ids retired st examined ((l, ids) # groups) =
     (if LEAF_RANGES \<le> l \<or> CLAIM_RANGE_ANSWER_IDS \<le> examined then missing_ids retired st examined groups
      else filter (\<lambda>i. leaf i = l \<and> i \<notin> set (ids_in_leaf st l) \<and> \<not> retired i) ids
        @ missing_ids retired st (examined + length ids) groups)"

definition compare_claim_ranges ::
  "(bytes \<Rightarrow> string) \<Rightarrow> retired_store \<Rightarrow> range_store \<Rightarrow> range_summary \<Rightarrow> range_comparison option"
where
  "compare_claim_ranges hex ledger st remote =
     (case (if version remote = CLAIM_RANGE_VERSION then retained remote else None) of
        None \<Rightarrow> None
      | Some (their_count, their_digest) \<Rightarrow>
          if \<not> complete st then None
          else let (count, digest) = whole st; ours = hex digest;
                   comparison = \<lparr>same = False, pair = ours @ CHR ''/'' # their_digest, cmp_tops = [],
                                 cmp_leaves = [], missing = []\<rparr>
               in if count = their_count \<and> ours = their_digest then Some (comparison\<lparr>same := True\<rparr>)
                  else Some (comparison
                    \<lparr>cmp_tops := (case sum_tops remote of None \<Rightarrow> [] | Some ts \<Rightarrow> differing hex (tops st) ts),
                     cmp_leaves := concat (map (\<lambda>(t, es). if t \<le> TOP_RANGES then differing hex (leaves st t) es else [])
                        (take CLAIM_RANGE_QUERY_TOPS (sum_leaves remote))),
                     missing := missing_ids (claim_retired ledger) st 0
                        (take CLAIM_RANGE_QUERY_LEAVES (sum_ids remote))\<rparr>))"

subsection \<open>Lemmas: changes in memory\<close>

abbreviation in_range :: "range_key \<Rightarrow> string \<Rightarrow> bool" where
  "in_range k i \<equiv> k \<in> set (range_keys i)"

definition touching :: "range_key \<Rightarrow> (string \<times> int) list \<Rightarrow> (string \<times> int) list" where
  "touching k = filter (\<lambda>c. in_range k (fst c))"

definition signed_word :: "(string \<Rightarrow> bytes) \<Rightarrow> string \<times> int \<Rightarrow> 512 word" where
  "signed_word hash c = (if snd c < 0 then - digest_word (hash (fst c)) else digest_word (hash (fst c)))"

text \<open>What a range's entry must be after a list of changes, counted from nothing.\<close>

definition sums :: "(string \<Rightarrow> bytes) \<Rightarrow> (string \<times> int) list \<Rightarrow> int \<times> bytes \<Rightarrow> bool" where
  "sums hash cs e =
     (fst e = sum_list (map snd cs) \<and> is_digest (snd e)
      \<and> digest_word (snd e) = sum_list (map (signed_word hash) cs))"

definition delta_of :: "(string \<Rightarrow> bytes) \<Rightarrow> (string \<times> int) list \<Rightarrow> delta \<Rightarrow> bool" where
  "delta_of hash cs d =
     (distinct (map fst d)
      \<and> (\<forall>k. case map_of d k of None \<Rightarrow> touching k cs = [] | Some e \<Rightarrow> touching k cs \<noteq> [] \<and> sums hash (touching k cs) e))"

lemma sums_zero: "sums hash [] (0, zero_digest)"
  by (simp add: sums_def digests.ok_zero digests.val_zero)

lemma sums_bump:
  assumes "is_digest (hash (fst c))" "sums hash cs e"
  shows "sums hash (cs @ [c]) (bump (hash (fst c)) (snd c) e)"
  using assms by (simp add: sums_def bump_def digests.ok_plus digests.val_plus signed_word_def)

lemma delta_ofD:
  assumes "delta_of hash cs d"
  shows "case map_of d k of None \<Rightarrow> touching k cs = [] | Some e \<Rightarrow> touching k cs \<noteq> [] \<and> sums hash (touching k cs) e"
  using assms unfolding delta_of_def by blast

lemma delta_of_Nil: "delta_of hash [] []"
  by (simp add: delta_of_def touching_def)

lemma range_keys_two: "range_keys i = [k1, k2] \<Longrightarrow> k1 \<noteq> k2"
  by (auto simp: range_keys_def)

lemma delta_of_change:
  assumes len: "is_digest (hash (fst c))" and d: "delta_of hash cs d"
  shows "delta_of hash (cs @ [c]) (delta_change hash c d)"
proof -
  obtain k1 k2 where ks: "range_keys (fst c) = [k1, k2]" by (simp add: range_keys_def)
  then have ne: "k1 \<noteq> k2" by (rule range_keys_two)
  let ?b = "bump (hash (fst c)) (snd c)"
  have dist: "distinct (map fst (delta_change hash c d))"
    using d by (simp add: delta_change_def ks delta_of_def AList.distinct_map_default)
  have entry: "map_of (delta_change hash c d) k =
      (if in_range k (fst c) then Some (case map_of d k of None \<Rightarrow> ?b (0, zero_digest) | Some e \<Rightarrow> ?b e) else map_of d k)" for k
    using ne by (auto simp: delta_change_def ks AList.map_of_map_default split: option.split)
  have "case map_of (delta_change hash c d) k of None \<Rightarrow> touching k (cs @ [c]) = []
      | Some e \<Rightarrow> touching k (cs @ [c]) \<noteq> [] \<and> sums hash (touching k (cs @ [c])) e" for k
  proof (cases "in_range k (fst c)")
    case True
    have "sums hash (touching k cs) (case map_of d k of None \<Rightarrow> (0, zero_digest) | Some e \<Rightarrow> e)"
      using delta_ofD [OF d, of k] sums_zero [of hash] by (cases "map_of d k") simp_all
    from sums_bump [of hash, OF len this] True show ?thesis
      by (cases "map_of d k") (simp_all add: entry touching_def)
  next
    case False
    then have "touching k (cs @ [c]) = touching k cs" by (simp add: touching_def)
    with delta_ofD [OF d, of k] False show ?thesis by (simp only: entry if_False)
  qed
  with dist show ?thesis by (simp add: delta_of_def)
qed

lemma delta_of_fold:
  assumes "\<And>i. is_digest (hash i)" "delta_of hash cs d"
  shows "delta_of hash (cs @ cs') (fold (delta_change hash) cs' d)"
  using assms(2)
proof (induction cs' arbitrary: cs d)
  case (Cons c cs')
  from Cons.IH [OF delta_of_change [OF assms(1) Cons.prems, of c]] show ?case by simp
qed simp

lemma delta_apply_map:
  assumes "distinct (map fst d)"
    and "\<And>k n b. map_of d k = Some (n, b) \<Longrightarrow> is_digest (snd (stored_range t k)) \<and> 0 \<le> fst (stored_range t k) + n"
  shows "\<exists>t'. delta_apply d t = Some t' \<and> (\<forall>k. t' k =
      (case map_of d k of None \<Rightarrow> t k
       | Some (n, b) \<Rightarrow> if fst (stored_range t k) + n = 0 then None
                       else Some (fst (stored_range t k) + n, add (snd (stored_range t k)) b False)))"
  using assms
proof (induction d arbitrary: t)
  case Nil
  then show ?case by simp
next
  case (Cons p d)
  obtain k n b where p: "p = (k, (n, b))" by (metis prod_cases3)
  let ?e = "stored_range t k"
  define u where "u = (if fst ?e + n = 0 then t(k := None) else t(k \<mapsto> (fst ?e + n, add (snd ?e) b False)))"
  have ok: "is_digest (snd ?e)" "0 \<le> fst ?e + n" using Cons.prems(2) [of k n b] p by simp_all
  have other: "u k' = t k'" "stored_range u k' = stored_range t k'" if "k' \<noteq> k" for k'
    using that by (simp_all add: stored_range_def u_def)
  have fresh: "map_of d k = None" using Cons.prems(1) p by (simp add: map_of_eq_None_iff)
  have "is_digest (snd (stored_range u k')) \<and> 0 \<le> fst (stored_range u k') + n'"
    if "map_of d k' = Some (n', b')" for k' n' b'
  proof -
    have "k' \<noteq> k" using that fresh by auto
    with that Cons.prems(2) [of k' n' b'] show ?thesis using p other by simp
  qed
  with Cons.IH [of u] Cons.prems(1) obtain t' where t': "delta_apply d u = Some t'"
    "\<forall>k'. t' k' = (case map_of d k' of None \<Rightarrow> u k'
       | Some (n, b) \<Rightarrow> if fst (stored_range u k') + n = 0 then None
                       else Some (fst (stored_range u k') + n, add (snd (stored_range u k')) b False))"
    by auto
  have "delta_apply (p # d) t = Some t'" using ok t'(1) by (simp add: p split_beta Let_def u_def)
  moreover have "t' k' = (case map_of (p # d) k' of None \<Rightarrow> t k'
       | Some (n, b) \<Rightarrow> if fst (stored_range t k') + n = 0 then None
                       else Some (fst (stored_range t k') + n, add (snd (stored_range t k')) b False))" for k'
  proof (cases "k' = k")
    case True
    with spec [OF t'(2), of k'] fresh show ?thesis by (simp add: p u_def)
  next
    case False
    then show ?thesis unfolding spec [OF t'(2), of k'] other [OF False] by (simp add: p)
  qed
  ultimately show ?case by blast
qed

subsection \<open>Lemmas: the table against a set of ids\<close>

definition members :: "range_key \<Rightarrow> string set \<Rightarrow> string set" where
  "members k D = {i \<in> D. in_range k i}"

definition represents :: "(string \<Rightarrow> bytes) \<Rightarrow> digest_table \<Rightarrow> string set \<Rightarrow> bool" where
  "represents hash t D =
     (finite D \<and> (\<forall>k. (t k = None \<longleftrightarrow> members k D = {}) \<and> fst (stored_range t k) = int (card (members k D))
        \<and> is_digest (snd (stored_range t k))
        \<and> digest_word (snd (stored_range t k)) = (\<Sum>i\<in>members k D. digest_word (hash i))))"

text \<open>A queue of changes that adds only what is absent and takes only what is there.\<close>

fun replay_changes :: "(string \<times> int) list \<Rightarrow> string set \<Rightarrow> string set option" where
  "replay_changes [] D = Some D"
| "replay_changes ((i, s) # cs) D =
     (if s = 1 \<and> i \<notin> D then replay_changes cs (insert i D)
      else if s = -1 \<and> i \<in> D then replay_changes cs (D - {i})
      else None)"

lemma replay_append:
  "replay_changes (cs @ cs') D = (case replay_changes cs D of None \<Rightarrow> None | Some D' \<Rightarrow> replay_changes cs' D')"
  by (induction cs D rule: replay_changes.induct) auto

lemma members_insert: "members k (insert i D) = (if in_range k i then insert i (members k D) else members k D)"
  and members_remove: "members k (D - {i}) = members k D - {i}"
  and finite_members: "finite D \<Longrightarrow> finite (members k D)"
  and members_iff: "i \<in> members k D \<longleftrightarrow> i \<in> D \<and> in_range k i"
  by (auto simp: members_def)

lemma replay_sums:
  "replay_changes cs D = Some D' \<Longrightarrow> finite D \<Longrightarrow>
   finite D' \<and> int (card (members k D')) = int (card (members k D)) + sum_list (map snd (touching k cs))
   \<and> (\<Sum>i\<in>members k D'. digest_word (hash i))
       = (\<Sum>i\<in>members k D. digest_word (hash i)) + sum_list (map (signed_word hash) (touching k cs))"
proof (induction cs D rule: replay_changes.induct)
  case (1 D)
  then show ?case by (simp add: touching_def)
next
  case (2 i s cs D)
  note fin = finite_members [OF 2(4), of k]
  consider (added) "s = 1" "i \<notin> D" | (taken) "s = -1" "i \<in> D" using 2(3) by (auto split: if_splits)
  then show ?case
  proof cases
    case added
    have "i \<notin> members k D" using added by (simp add: members_iff)
    with 2(1) 2(3,4) added fin show ?thesis
      by (simp add: members_insert touching_def signed_word_def algebra_simps)
  next
    case taken
    show ?thesis
    proof (cases "in_range k i")
      case True
      then have i: "i \<in> members k D" using taken by (simp add: members_iff)
      then have "card (members k D) > 0" using fin by (auto simp: card_gt_0_iff)
      with 2(2) 2(3,4) taken fin i True show ?thesis
        by (simp add: members_remove touching_def signed_word_def sum_diff1 algebra_simps)
    next
      case False
      then have "members k D - {i} = members k D" by (auto simp: members_iff)
      with 2(2) 2(3,4) taken False show ?thesis by (simp add: members_remove touching_def)
    qed
  qed
qed

lemma represents_fold:
  assumes len: "\<And>i. is_digest (hash i)" and rep: "represents hash t D" and replay: "replay_changes cs D = Some D'"
  shows "\<exists>t'. delta_apply (fold (delta_change hash) cs []) t = Some t' \<and> represents hash t' D'"
proof -
  let ?d = "fold (delta_change hash) cs []"
  have fin: "finite D" using rep by (simp add: represents_def)
  have d: "delta_of hash cs ?d" using delta_of_fold [of hash, OF len delta_of_Nil, of cs] by simp
  note sum = replay_sums [OF replay fin]
  have before: "(t k = None \<longleftrightarrow> members k D = {}) \<and> fst (stored_range t k) = int (card (members k D))
      \<and> is_digest (snd (stored_range t k))
      \<and> digest_word (snd (stored_range t k)) = (\<Sum>i\<in>members k D. digest_word (hash i))" for k
    using rep unfolding represents_def by blast
  have entry: "sums hash (touching k cs) e" if "map_of ?d k = Some e" for k e
    using delta_ofD [OF d, of k] that by simp
  have count: "fst (stored_range t k) + n = int (card (members k D'))" if "map_of ?d k = Some (n, b)" for k n b
    using entry [OF that] before [of k] sum [of k hash] by (simp add: sums_def)
  obtain t' where t': "delta_apply ?d t = Some t'" and at: "\<And>k. t' k =
      (case map_of ?d k of None \<Rightarrow> t k
       | Some (n, b) \<Rightarrow> if fst (stored_range t k) + n = 0 then None
                       else Some (fst (stored_range t k) + n, add (snd (stored_range t k)) b False))"
    using delta_apply_map [of ?d t] d count before by (auto simp: delta_of_def)
  have "(t' k = None \<longleftrightarrow> members k D' = {}) \<and> fst (stored_range t' k) = int (card (members k D'))
        \<and> is_digest (snd (stored_range t' k))
        \<and> digest_word (snd (stored_range t' k)) = (\<Sum>i\<in>members k D'. digest_word (hash i))" for k
  proof (cases "map_of ?d k")
    case None
    then have "touching k cs = []" using delta_ofD [OF d, of k] by simp
    moreover have "stored_range t' k = stored_range t k" "t' k = t k" using at [of k] None by (simp_all add: stored_range_def)
    moreover have "finite (members k D)" "finite (members k D')" using fin sum [of k] by (simp_all add: finite_members)
    ultimately show ?thesis using before [of k] sum [of k hash] by (auto simp: card_eq_0_iff)
  next
    case (Some e)
    obtain n b where e: "e = (n, b)" by (cases e)
    have c: "fst (stored_range t k) + n = int (card (members k D'))" using count Some e by simp
    have w: "is_digest b" "digest_word b = sum_list (map (signed_word hash) (touching k cs))"
      using entry [OF Some] by (simp_all add: sums_def e)
    have fin': "finite (members k D')" using sum [of k] by (simp add: finite_members)
    show ?thesis
    proof (cases "members k D' = {}")
      case True
      with at [of k] Some e c show ?thesis
        by (simp add: stored_range_def digests.ok_zero digests.val_zero)
    next
      case False
      then have "fst (stored_range t k) + n \<noteq> 0" using c fin' by (simp add: card_eq_0_iff)
      with at [of k] Some e c False w before [of k] sum [of k hash] show ?thesis
        by (simp add: stored_range_def digests.ok_plus digests.val_plus)
    qed
  qed
  then have "represents hash t' D'" using sum by (simp add: represents_def)
  with t' show ?thesis by blast
qed

subsection \<open>Runs of the store\<close>

datatype range_op = Insert_Claim string | Remove_Claim string | Install | Fold_Page

fun range_step :: "(string \<Rightarrow> bytes) \<Rightarrow> range_op \<Rightarrow> range_store \<Rightarrow> range_store option" where
  "range_step hash (Insert_Claim i) st = Some (insert_claim i st)"
| "range_step hash (Remove_Claim i) st = Some (remove_claim i st)"
| "range_step hash Install st = Some (install st)"
| "range_step hash Fold_Page st = (if installed st then map_option (\<lambda>(_, _, st'). st') (fold_page hash st) else Some st)"

fun range_run :: "(string \<Rightarrow> bytes) \<Rightarrow> range_op list \<Rightarrow> range_store \<Rightarrow> range_store option" where
  "range_run hash [] st = Some st"
| "range_run hash (op # ops) st = (case range_step hash op st of None \<Rightarrow> None | Some st' \<Rightarrow> range_run hash ops st')"

text \<open>A store before its first claim; \<open>AUTOINCREMENT\<close> starts at one.\<close>

definition new_store :: range_store where
  "new_store = \<lparr>claims = [], next_index = 1, range_digests = Map.empty, range_import = None, pending = [], installed = False\<rparr>"

definition claim_ids :: "range_store \<Rightarrow> string list" where
  "claim_ids st = map snd (claims st)"

definition covered :: "range_store \<Rightarrow> string set" where
  "covered st = snd ` {c \<in> set (claims st). \<not> waits_import st (fst c)}"

definition well_indexed :: "range_store \<Rightarrow> bool" where
  "well_indexed st = (0 < next_index st \<and> distinct (map fst (claims st)) \<and> distinct (map snd (claims st))
     \<and> (\<forall>c\<in>set (claims st). 0 < fst c \<and> fst c < next_index st))"

text \<open>The table holds some set, and the queue takes that set to \<open>C\<close>.\<close>

definition accounts :: "(string \<Rightarrow> bytes) \<Rightarrow> digest_table \<Rightarrow> (string \<times> int) list \<Rightarrow> string set \<Rightarrow> bool" where
  "accounts hash t cs C = (\<exists>D. represents hash t D \<and> replay_changes cs D = Some C)"

definition range_invariant :: "(string \<Rightarrow> bytes) \<Rightarrow> range_store \<Rightarrow> bool" where
  "range_invariant hash st =
     (well_indexed st
      \<and> (case range_import st of None \<Rightarrow> True | Some (_, bound) \<Rightarrow> bound < next_index st)
      \<and> (if installed st
          then accounts hash (range_digests st) (pending st) (covered st)
          else range_digests st = Map.empty \<and> range_import st = None \<and> pending st = []))"

lemma represents_empty: "represents hash Map.empty {}"
  by (simp add: represents_def members_def stored_range_def digests.ok_zero digests.val_zero)

lemma accounts_append:
  assumes "accounts hash t cs C" "replay_changes cs' C = Some C'"
  shows "accounts hash t (cs @ cs') C'"
proof -
  obtain D where "represents hash t D" "replay_changes cs D = Some C" using assms(1) by (auto simp: accounts_def)
  with assms(2) show ?thesis unfolding accounts_def by (intro exI [of _ D]) (simp add: replay_append)
qed

lemma accounts_empty: "accounts hash Map.empty [] {}"
  using represents_empty [of hash] by (simp add: accounts_def)

lemma range_invariant_new: "range_invariant hash new_store"
  by (simp add: range_invariant_def well_indexed_def new_store_def)

lemma invariant_install: "range_invariant hash st \<Longrightarrow> range_invariant hash (install st)"
proof (cases "installed st")
  case True
  then have "install st = st" by (simp add: install_def)
  then show "range_invariant hash st \<Longrightarrow> ?thesis" by simp
next
  case False
  assume inv: "range_invariant hash st"
  then have w: "well_indexed st" and e: "range_digests st = Map.empty" "range_import st = None" "pending st = []"
    using False by (simp_all add: range_invariant_def)
  have "covered (install st) = {}"
  proof -
    have "waits_import (install st) (fst c)" if "c \<in> set (claims st)" for c
    proof -
      have "0 < fst c" using w that by (simp add: well_indexed_def)
      moreover have "fst c \<le> Max (fst ` set (claims st))" using that by simp
      moreover have "claims st \<noteq> []" using that by auto
      ultimately show ?thesis using False by (simp add: waits_import_def install_def)
    qed
    then show ?thesis by (auto simp: covered_def install_def)
  qed
  moreover have "Max (fst ` set (claims st)) < next_index st" if "claims st \<noteq> []"
    using w that by (simp add: well_indexed_def)
  ultimately show ?thesis using False w e accounts_empty [of hash]
    by (auto simp: range_invariant_def well_indexed_def install_def)
qed

lemma not_waits_next:
  assumes "range_invariant hash st"
  shows "\<not> waits_import st (next_index st)"
  using assms by (auto simp: range_invariant_def waits_import_def split: option.splits)

lemma invariant_insert: 
  assumes inv: "range_invariant hash st"
  shows "range_invariant hash (insert_claim i st)"
proof (cases "i \<in> snd ` set (claims st)")
  case True
  with inv show ?thesis by (simp add: insert_claim_def)
next
  case False
  let ?st = "insert_claim i st"
  have wi: "well_indexed st" using inv by (simp add: range_invariant_def)
  then have "next_index st \<notin> fst ` set (claims st)" by (auto simp: well_indexed_def)
  then have w: "well_indexed ?st" using wi False
    by (auto simp: well_indexed_def insert_claim_def less_SucI)
  have waits: "waits_import ?st = waits_import st" using False by (simp add: insert_claim_def waits_import_def fun_eq_iff)
  have "{c \<in> set (claims ?st). \<not> waits_import st (fst c)} =
      insert (next_index st, i) {c \<in> set (claims st). \<not> waits_import st (fst c)}"
    using not_waits_next [OF inv] False by (auto simp: insert_claim_def)
  then have "covered ?st = insert i (covered st)" by (simp add: covered_def waits)
  moreover have "i \<notin> covered st" using False by (auto simp: covered_def)
  ultimately have "accounts hash (range_digests st) (pending st @ [(i, 1)]) (covered ?st)"
    if "accounts hash (range_digests st) (pending st) (covered st)"
    by (intro accounts_append [OF that]) simp
  then show ?thesis using inv w False by (auto simp: range_invariant_def insert_claim_def split: option.splits)
qed

lemma invariant_remove:
  assumes inv: "range_invariant hash st"
  shows "range_invariant hash (remove_claim i st)"
proof (cases "find (\<lambda>c. snd c = i) (claims st)")
  case None
  with inv show ?thesis by (simp add: remove_claim_def)
next
  case (Some p)
  obtain n j where p: "p = (n, j)" by (cases p)
  then have at: "(n, i) \<in> set (claims st)" using find_SomeD [OF Some] by auto
  let ?st = "remove_claim i st"
  have wi: "well_indexed st" using inv by (simp add: range_invariant_def)
  have only: "m = n" if "(m, i) \<in> set (claims st)" for m
  proof -
    have "inj_on snd (set (claims st))" using wi by (simp add: well_indexed_def distinct_map)
    from inj_onD [OF this, of "(m, i)" "(n, i)"] at that show ?thesis by simp
  qed
  have waits: "waits_import ?st = waits_import st" using Some p by (simp add: remove_claim_def waits_import_def fun_eq_iff)
  have w: "well_indexed ?st" using wi Some p
    by (simp add: well_indexed_def remove_claim_def distinct_map_filter)
  have cov: "covered ?st = covered st - {i}"
  proof -
    have "claims ?st = filter (\<lambda>c. snd c \<noteq> i) (claims st)" using Some p by (simp add: remove_claim_def)
    then show ?thesis unfolding covered_def waits by auto
  qed
  have "i \<in> covered st \<longleftrightarrow> (\<exists>m. (m, i) \<in> set (claims st) \<and> \<not> waits_import st m)"
    by (force simp: covered_def)
  with at only have iff: "i \<in> covered st \<longleftrightarrow> \<not> waits_import st n" by blast
  then have "accounts hash (range_digests st) (pending st @ [(i, -1)]) (covered ?st)"
    if "accounts hash (range_digests st) (pending st) (covered st)" "\<not> waits_import st n"
    using that(2) by (intro accounts_append [OF that(1)]) (simp add: cov)
  moreover have "covered ?st = covered st" if "waits_import st n" using that iff cov by simp
  ultimately show ?thesis using inv w Some p
    by (auto simp: range_invariant_def remove_claim_def split: option.splits)
qed

subsection \<open>Lemmas: one page\<close>

lemma replay_additions:
  "distinct is \<Longrightarrow> set is \<inter> D = {} \<Longrightarrow> replay_changes (map (\<lambda>i. (i, 1)) is) D = Some (D \<union> set is)"
  by (induction "is" arbitrary: D) auto

lemma sorted_take_last:
  assumes "sorted (map fst xs)" "distinct (map fst xs)" "take n xs \<noteq> []" "c \<in> set xs"
  shows "c \<in> set (take n xs) \<longleftrightarrow> fst c \<le> fst (last (take n xs))"
proof
  obtain ys z where yz: "take n xs = ys @ [z]" using assms(3) by (metis rev_exhaust)
  have xs: "xs = ys @ z # drop n xs" by (metis append_Cons append_Nil append_assoc append_take_drop_id yz)
  have s: "sorted (map fst (ys @ z # drop n xs))" "distinct (map fst (ys @ z # drop n xs))"
    using assms(1,2) xs by simp_all
  { assume "c \<in> set (take n xs)"
    then show "fst c \<le> fst (last (take n xs))" using s(1) by (auto simp: yz sorted_append) }
  { assume le: "fst c \<le> fst (last (take n xs))"
    show "c \<in> set (take n xs)"
    proof (rule ccontr)
      assume "c \<notin> set (take n xs)"
      then have "c \<in> set (drop n xs)" using assms(4) by (metis Un_iff append_take_drop_id set_append)
      then have "fst z \<le> fst c" "fst c \<in> fst ` set (drop n xs)" "fst z \<notin> fst ` set (drop n xs)"
        using s by (auto simp: sorted_append)
      with le yz show False by (metis antisym last_snoc)
    qed }
qed

definition import_rows :: "range_store \<Rightarrow> (nat \<times> string) list" where
  "import_rows st = filter (\<lambda>c. waits_import st (fst c)) (claims st)"

lemma import_rows_some:
  "range_import st = Some (cursor, bound) \<Longrightarrow> import_rows st = filter (\<lambda>c. cursor < fst c \<and> fst c \<le> bound) (claims st)"
  by (simp add: import_rows_def waits_import_def)

lemma import_rows_after:
  assumes w: "well_indexed st" and imp: "range_import st = Some (cursor, bound)"
    and old: "old = take PAGE (sort_key fst (import_rows st))"
    and st': "st' = st\<lparr>range_digests := t, range_import :=
        (if old \<noteq> [] \<and> fst (last old) < bound then Some (fst (last old), bound) else None)\<rparr>"
  shows "set (import_rows st') = set (import_rows st) - set old"
proof -
  let ?rows = "sort_key fst (import_rows st)"
  have dist: "distinct (map fst ?rows)"
    using w by (simp add: well_indexed_def import_rows_def distinct_map inj_on_def)
  have upto: "c \<in> set old \<longleftrightarrow> fst c \<le> fst (last old)" if "old \<noteq> []" "c \<in> set (import_rows st)" for c
    using sorted_take_last [of ?rows PAGE c] dist that by (simp add: old)
  consider (none) "old = []" | (more) "old \<noteq> []" "fst (last old) < bound" | (all) "old \<noteq> []" "\<not> fst (last old) < bound"
    by blast
  then show ?thesis
  proof cases
    case none
    then have "import_rows st = []" using old by (simp add: PAGE_def) (metis length_0_conv length_sort)
    moreover have "import_rows st' = []" using none by (simp add: import_rows_def waits_import_def st')
    ultimately show ?thesis by simp
  next
    case more
    have last: "last old \<in> set (import_rows st)"
      using last_in_set [OF more(1)] set_take_subset [of PAGE ?rows] by (auto simp: old)
    then have "cursor < fst (last old)" by (simp add: import_rows_some [OF imp])
    then have "set (import_rows st') = {c \<in> set (import_rows st). fst (last old) < fst c}"
      using more by (auto simp: imp import_rows_def waits_import_def st')
    then show ?thesis using upto [OF more(1)] by auto
  next
    case all
    have "fst c \<le> fst (last old)" if "c \<in> set (import_rows st)" for c
      using that all(2) by (simp add: import_rows_some [OF imp])
    then have "set (import_rows st) - set old = {}" using upto [OF all(1)] by auto
    moreover have "import_rows st' = []" using all by (simp add: import_rows_def waits_import_def st')
    ultimately show ?thesis by simp
  qed
qed

lemma fold_page_queue:
  assumes len: "\<And>i. is_digest (hash i)" and acc: "accounts hash (range_digests st) (pending st) C"
  shows "\<exists>t. delta_apply (fold (delta_change hash) (take PAGE (pending st)) []) (range_digests st) = Some t
    \<and> accounts hash t (drop PAGE (pending st)) C"
proof -
  obtain D where D: "represents hash (range_digests st) D" "replay_changes (pending st) D = Some C"
    using acc by (auto simp: accounts_def)
  have "replay_changes (take PAGE (pending st) @ drop PAGE (pending st)) D = Some C" using D(2) by simp
  then obtain E where E: "replay_changes (take PAGE (pending st)) D = Some E"
      "replay_changes (drop PAGE (pending st)) E = Some C"
    unfolding replay_append by (auto split: option.splits)
  from represents_fold [of hash, OF len D(1) E(1)] E(2) show ?thesis by (auto simp: accounts_def)
qed

lemma covered_import:
  assumes "well_indexed st"
  shows "covered st = snd ` (set (claims st) - set (import_rows st))"
  by (auto simp: covered_def import_rows_def)

lemma fold_page_import:
  assumes len: "\<And>i. is_digest (hash i)" and w: "well_indexed st" and imp: "range_import st = Some (cursor, bound)"
    and acc: "accounts hash (range_digests st) [] (covered st)"
    and old: "old = take PAGE (sort_key fst (import_rows st))"
  shows "\<exists>t. delta_apply (fold (delta_change hash) (map (\<lambda>c. (snd c, 1)) old) []) (range_digests st) = Some t
    \<and> accounts hash t [] (covered (st\<lparr>range_digests := t, range_import :=
        (if old \<noteq> [] \<and> fst (last old) < bound then Some (fst (last old), bound) else None)\<rparr>))"
proof -
  have sub: "set old \<subseteq> set (import_rows st)" using set_take_subset [of PAGE "sort_key fst (import_rows st)"] by (auto simp: old)
  have rows: "set (import_rows st) \<subseteq> set (claims st)" by (auto simp: import_rows_def)
  have inj: "inj_on snd (set (claims st))" "distinct (claims st)" using w by (auto simp: well_indexed_def distinct_map)
  have dist: "distinct (map snd old)"
    using inj sub rows by (auto simp: distinct_map old import_rows_def distinct_take intro: inj_on_subset)
  have disj: "snd ` set old \<inter> covered st = {}"
    using inj(1) sub rows unfolding covered_import [OF w] by (auto dest!: inj_onD [OF inj(1)])
  obtain D where D: "represents hash (range_digests st) D" "D = covered st" using acc by (auto simp: accounts_def)
  have "replay_changes (map (\<lambda>i. (i, 1)) (map snd old)) D = Some (D \<union> set (map snd old))"
    using dist disj D by (intro replay_additions) auto
  then have "replay_changes (map (\<lambda>c. (snd c, 1)) old) D = Some (covered st \<union> snd ` set old)"
    using D by (simp add: comp_def)
  from represents_fold [of hash, OF len D(1) this] obtain t where t: 
    "delta_apply (fold (delta_change hash) (map (\<lambda>c. (snd c, 1)) old) []) (range_digests st) = Some t"
    "represents hash t (covered st \<union> snd ` set old)" by blast
  let ?st = "st\<lparr>range_digests := t, range_import :=
        (if old \<noteq> [] \<and> fst (last old) < bound then Some (fst (last old), bound) else None)\<rparr>"
  have w': "well_indexed ?st" using w by (simp add: well_indexed_def)
  have "set (claims st) - (set (import_rows st) - set old) = (set (claims st) - set (import_rows st)) \<union> set old"
    using sub rows by blast
  then have "covered ?st = covered st \<union> snd ` set old"
    unfolding covered_import [OF w'] covered_import [OF w] import_rows_after [OF w imp old refl] by (simp add: image_Un)
  with t show ?thesis by (auto simp: accounts_def)
qed

definition waiting :: "range_store \<Rightarrow> nat" where
  "waiting st = length (pending st) + card (set (import_rows st)) + (if range_import st = None then 0 else 1)"

lemma import_shrinks:
  assumes w: "well_indexed st" and imp: "range_import st = Some (cursor, bound)"
    and old: "old = take PAGE (sort_key fst (import_rows st))"
  shows "waiting (st\<lparr>range_digests := t, range_import :=
      (if old \<noteq> [] \<and> fst (last old) < bound then Some (fst (last old), bound) else None)\<rparr>) < waiting st"
    (is "waiting ?st < _")
proof -
  note left = import_rows_after [OF w imp old refl, of t]
  have sub: "set old \<subseteq> set (import_rows st)"
    using set_take_subset [of PAGE "sort_key fst (import_rows st)"] by (auto simp: old)
  show ?thesis
  proof (cases "old = []")
    case True
    then show ?thesis using imp left by (simp add: waiting_def)
  next
    case False
    then have "card (set old) > 0" by (simp add: card_gt_0_iff)
    moreover have "card (set old) \<le> card (set (import_rows st))" by (intro card_mono sub) simp
    ultimately have "card (set (import_rows ?st)) < card (set (import_rows st))"
      unfolding left using sub by (simp add: card_Diff_subset)
    then show ?thesis using imp by (auto simp: waiting_def)
  qed
qed

definition page_done :: "(string \<Rightarrow> bytes) \<Rightarrow> range_store \<Rightarrow> bool \<Rightarrow> range_store \<Rightarrow> bool" where
  "page_done hash st fin st' =
     (range_invariant hash st' \<and> installed st' \<and> claims st' = claims st
      \<and> (if fin then st' = st \<and> complete st else waiting st' < waiting st))"

lemma fold_page_step:
  assumes len: "\<And>i. is_digest (hash i)" and inv: "range_invariant hash st" and ins: "installed st"
  shows "\<exists>n fin st'. fold_page hash st = Some (n, fin, st') \<and> page_done hash st fin st'"
proof -
  have w: "well_indexed st" and acc: "accounts hash (range_digests st) (pending st) (covered st)"
    using inv ins by (simp_all add: range_invariant_def)
  consider (queue) "pending st \<noteq> []" | (idle) "pending st = []" "range_import st = None"
    | (import) cursor bound where "pending st = []" "range_import st = Some (cursor, bound)" by fastforce
  then show ?thesis
  proof cases
    case queue
    obtain t where t: "delta_apply (fold (delta_change hash) (take PAGE (pending st)) []) (range_digests st) = Some t"
      "accounts hash t (drop PAGE (pending st)) (covered st)"
      using fold_page_queue [of hash, OF len acc] by blast
    let ?st = "st\<lparr>range_digests := t, pending := drop PAGE (pending st)\<rparr>"
    have same: "covered ?st = covered st" "import_rows ?st = import_rows st"
      by (simp_all add: covered_def import_rows_def waits_import_def)
    have "range_invariant hash ?st" using inv ins t(2) same
      by (auto simp: range_invariant_def well_indexed_def split: option.splits)
    moreover have "waiting ?st < waiting st" using queue same by (simp add: waiting_def PAGE_def)
    ultimately have "page_done hash st False ?st" using ins by (simp add: page_done_def)
    moreover have "fold_page hash st = Some (length (take PAGE (pending st)), False, ?st)"
      using queue t(1) by (simp add: fold_page_def Let_def PAGE_def)
    ultimately show ?thesis by blast
  next
    case idle
    then have "fold_page hash st = Some (0, True, st)" by (simp add: fold_page_def)
    moreover have "page_done hash st True st" using inv ins idle by (simp add: page_done_def complete_def)
    ultimately show ?thesis by blast
  next
    case import
    define old where "old = take PAGE (sort_key fst (import_rows st))"
    note page = fold_page_import [of hash, OF len w import(2) acc [unfolded import(1)] old_def]
    obtain t where t: "delta_apply (fold (delta_change hash) (map (\<lambda>c. (snd c, 1)) old) []) (range_digests st) = Some t"
      "accounts hash t [] (covered (st\<lparr>range_digests := t, range_import :=
        (if old \<noteq> [] \<and> fst (last old) < bound then Some (fst (last old), bound) else None)\<rparr>))"
      using page by blast
    let ?st = "st\<lparr>range_digests := t, range_import :=
        (if old \<noteq> [] \<and> fst (last old) < bound then Some (fst (last old), bound) else None)\<rparr>"
    have "range_invariant hash ?st" using inv ins t(2) import
      by (simp add: range_invariant_def well_indexed_def)
    moreover have "waiting ?st < waiting st" by (rule import_shrinks [OF w import(2) old_def])
    ultimately have "page_done hash st False ?st" using ins by (simp add: page_done_def)
    moreover have "fold_page hash st = Some (length old, False, ?st)"
      using import t(1) by (simp add: fold_page_def Let_def old_def import_rows_some [OF import(2)])
    ultimately show ?thesis by blast
  qed
qed

lemma fold_paced_ends:
  assumes len: "\<And>i. is_digest (hash i)"
  shows "range_invariant hash st \<Longrightarrow> installed st \<Longrightarrow> waiting st < n \<Longrightarrow>
    \<exists>st'. fold_paced hash n st = Some st' \<and> complete st' \<and> claims st' = claims st \<and> range_invariant hash st' \<and> installed st'"
proof (induction n arbitrary: st)
  case (Suc n)
  obtain k fin st' where page: "fold_page hash st = Some (k, fin, st')" "page_done hash st fin st'"
    using fold_page_step [of hash, OF len Suc.prems(1,2)] by blast
  show ?case
  proof (cases fin)
    case True
    with page Suc.prems show ?thesis by (simp add: page_done_def)
  next
    case False
    then have "range_invariant hash st'" "installed st'" "waiting st' < n" "claims st' = claims st"
      using page(2) Suc.prems(3) by (simp_all add: page_done_def)
    with Suc.IH [of st'] page(1) False show ?thesis by simp
  qed
qed simp

lemma range_run_invariant:
  assumes len: "\<And>i. is_digest (hash i)"
  shows "range_invariant hash st \<Longrightarrow> \<exists>st'. range_run hash ops st = Some st' \<and> range_invariant hash st'"
proof (induction ops arbitrary: st)
  case (Cons op ops)
  have "\<exists>st'. range_step hash op st = Some st' \<and> range_invariant hash st'"
  proof (cases op)
    case Fold_Page
    with Cons.prems fold_page_step [of hash, OF len Cons.prems] show ?thesis
      by (cases "installed st") (auto simp: page_done_def)
  qed (simp_all add: Cons.prems invariant_insert invariant_remove invariant_install)
  with Cons.IH show ?case by (auto split: option.split)
qed simp

subsection \<open>Lemmas: what a complete table holds\<close>

text \<open>The reference: a range's entry recomputed from the ids alone.\<close>

definition recomputed :: "(string \<Rightarrow> bytes) \<Rightarrow> string list \<Rightarrow> digest_table" where
  "recomputed hash ids k =
     (let inside = filter (in_range k) ids
      in if inside = [] then None
         else Some (int (length inside), fold (\<lambda>h a. add a h False) (map hash inside) zero_digest))"

lemma represents_recomputed:
  assumes len: "\<And>i. is_digest (hash i)" and rep: "represents hash t (set ids)" and dist: "distinct ids"
  shows "t = recomputed hash ids"
proof
  fix k
  let ?in = "filter (in_range k) ids" and ?d = "\<lambda>ids. fold (\<lambda>h a. add a h False) (map hash ids) zero_digest"
  have set: "members k (set ids) = set ?in" by (auto simp: members_def)
  have d: "is_digest (?d ?in)" "digest_word (?d ?in) = (\<Sum>i\<in>set ?in. digest_word (hash i))"
    using dist len by (simp_all add: digests.ok_fold digests.val_fold digests.ok_zero digests.val_zero
        comp_def sum_list_distinct_conv_sum_set)
  have at: "(t k = None \<longleftrightarrow> set ?in = {}) \<and> fst (stored_range t k) = int (card (set ?in))
      \<and> is_digest (snd (stored_range t k)) \<and> digest_word (snd (stored_range t k)) = (\<Sum>i\<in>set ?in. digest_word (hash i))"
    using rep unfolding represents_def set [symmetric] by blast
  show "t k = recomputed hash ids k"
  proof (cases "t k")
    case None
    with at show ?thesis by (simp add: recomputed_def)
  next
    case (Some e)
    then have e: "fst e = int (length ?in)" "is_digest (snd e)" "digest_word (snd e) = digest_word (?d ?in)"
      using at d(2) distinct_card [of ?in] dist by (simp_all add: stored_range_def)
    have "snd e = ?d ?in" by (rule digests.val_inj [OF e(2) d(1) e(3)])
    moreover have "?in \<noteq> []" using at Some by (metis list.set(1) option.distinct(1))
    ultimately show ?thesis using Some e(1) unfolding recomputed_def Let_def by (simp add: prod_eq_iff)
  qed
qed

lemma complete_table:
  assumes len: "\<And>i. is_digest (hash i)" and inv: "range_invariant hash st" and "installed st" "complete st"
  shows "range_digests st = recomputed hash (claim_ids st)"
proof -
  have "covered st = set (claim_ids st)" using assms(4)
    by (auto simp: covered_def complete_def waits_import_def claim_ids_def)
  then have "represents hash (range_digests st) (set (claim_ids st))" "distinct (claim_ids st)"
    using inv assms(3,4) by (auto simp: range_invariant_def accounts_def complete_def well_indexed_def claim_ids_def)
  from represents_recomputed [of hash, OF len this] show ?thesis .
qed

lemma recomputed_set:
  assumes len: "\<And>i. is_digest (hash i)" and "distinct ids" "distinct ids'" "set ids = set ids'"
  shows "recomputed hash ids = recomputed hash ids'"
proof
  fix k
  have "mset (filter (in_range k) ids) = mset (filter (in_range k) ids')"
    using assms(2-4) by (metis mset_filter set_eq_iff_mset_eq_distinct)
  then have "length (filter (in_range k) ids) = length (filter (in_range k) ids')"
    "fold (\<lambda>h a. add a h False) (map hash (filter (in_range k) ids)) zero_digest
     = fold (\<lambda>h a. add a h False) (map hash (filter (in_range k) ids')) zero_digest"
    using len by (auto intro!: digests.fold_order digests.ok_zero dest: mset_eq_length simp: mset_map simp del: mset_filter)
  moreover have "filter (in_range k) ids = [] \<longleftrightarrow> filter (in_range k) ids' = []"
    using assms(4) by (simp add: filter_empty_conv)
  ultimately show "recomputed hash ids k = recomputed hash ids' k" by (simp only: recomputed_def Let_def)
qed

subsection \<open>Lemmas: the ids of a leaf\<close>

lemma hex3_less:
  assumes "is_hex a" "is_hex b" "is_hex c" "a' < 16" "b' < 16" "c' < 16"
    and "256 * hex_value a + 16 * hex_value b + hex_value c < 256 * a' + 16 * b' + c'"
  shows "a # b # c # rest < [hex_digit a', hex_digit b', hex_digit c']"
proof -
  have order: "x < hex_digit n" if "is_hex x" "n < 16" "hex_value x < n" for x n
    using that hex_value_order [of x "hex_digit n"] by simp
  have eq: "x = hex_digit n" if "is_hex x" "hex_value x = n" for x n using that hex_digit_value by auto
  have "hex_value a < 16" "hex_value b < 16" "hex_value c < 16" using assms(1-3) by (simp_all add: hex_value_less)
  then consider "hex_value a < a'" | "hex_value a = a'" "hex_value b < b'"
    | "hex_value a = a'" "hex_value b = b'" "hex_value c < c'" using assms(4-7) by linarith
  then show ?thesis using assms(1-6) by cases (auto simp: order dest: eq)
qed

lemma leaf_regular:
  assumes "leaf i = l" "l < LEAF_RANGES"
  obtains a b c rest where "i = a # b # c # rest" "is_hex a" "is_hex b" "is_hex c"
    "l = 256 * hex_value a + 16 * hex_value b + hex_value c"
proof -
  have r: "regular i" using assms by (auto simp: leaf_def split: if_splits)
  then have "length i = Suc (Suc (Suc 61))" by (simp add: regular_def)
  then obtain a b c rest where i: "i = a # b # c # rest" unfolding length_Suc_conv by blast
  moreover have "l = 256 * hex_value a + 16 * hex_value b + hex_value c"
    using assms(1) r by (simp add: leaf_def i radix_16_def numeral_3_eq_3)
  ultimately show thesis using that r by (simp add: regular_def)
qed

lemma leaf_bounds:
  assumes "leaf i = l" "l < LEAF_RANGES"
  shows "hex3 l \<le> i" "i < (if l + 1 = LEAF_RANGES then ''g'' else hex3 (l + 1))"
proof -
  obtain a b c rest where i: "i = a # b # c # rest" and h: "is_hex a" "is_hex b" "is_hex c"
    and l: "l = 256 * hex_value a + 16 * hex_value b + hex_value c" using leaf_regular [OF assms] by blast
  have v: "hex_value a < 16" "hex_value b < 16" "hex_value c < 16" using h by (simp_all add: hex_value_less)
  have l': "l = hex_value c + 16 * (hex_value b + 16 * hex_value a)" by (simp add: l)
  have q: "l div 16 = hex_value b + 16 * hex_value a" "l mod 16 = hex_value c"
    using v unfolding l' by (simp_all del: distrib_left_numeral)
  have "l div 256 = l div 16 div 16" by (simp flip: div_mult2_eq)
  then have "l div 256 = hex_value a" "l div 16 mod 16 = hex_value b" "l mod 16 = hex_value c"
    unfolding q using v by simp_all
  then have "hex3 l = [a, b, c]" using h by (simp add: hex3_def hex_digit_value)
  then show "hex3 l \<le> i" by (simp add: i)
  show "i < (if l + 1 = LEAF_RANGES then ''g'' else hex3 (l + 1))"
  proof (cases "l + 1 = LEAF_RANGES")
    case True
    have "a < CHR ''g''" using h(1) by (auto simp: is_hex_iff less_char_def)
    with True show ?thesis by (simp add: i)
  next
    case False
    let ?m = "l + 1"
    have "?m < 4096" using assms(2) False by (simp add: LEAF_RANGES_def)
    then have d: "?m div 256 < 16" "?m div 16 mod 16 < 16" "?m mod 16 < 16" by auto
    have "?m div 256 = ?m div 16 div 16" by (simp flip: div_mult2_eq)
    then have "256 * (?m div 256) + 16 * (?m div 16 mod 16) + ?m mod 16 = ?m"
      using mult_div_mod_eq [of 16 "?m"] mult_div_mod_eq [of 16 "?m div 16"] by linarith
    then have "256 * hex_value a + 16 * hex_value b + hex_value c < 256 * (?m div 256) + 16 * (?m div 16 mod 16) + ?m mod 16"
      using l by simp
    from hex3_less [OF h d this] False show ?thesis by (simp add: i hex3_def)
  qed
qed

lemma ids_in_leaf_set: "set (ids_in_leaf st l) = {i \<in> set (claim_ids st). leaf i = l}"
proof (cases "LEAF_RANGES \<le> l")
  case False
  then show ?thesis using leaf_bounds [OF _ not_le_imp_less [OF False]]
    by (auto simp: ids_in_leaf_def claim_ids_def Let_def)
qed (simp add: ids_in_leaf_def claim_ids_def)

lemma missing_one:
  "l < LEAF_RANGES \<Longrightarrow>
   set (missing_ids retired st 0 (answer_ids peer 0 [l])) =
     {i \<in> set (claim_ids peer). leaf i = l \<and> i \<notin> set (claim_ids st) \<and> \<not> retired i}"
  by (auto simp: ids_in_leaf_set CLAIM_RANGE_ANSWER_IDS_def)

lemma compare_no_summary: "retained remote = None \<Longrightarrow> compare_claim_ranges hex ledger st remote = None"
  unfolding compare_claim_ranges_def by simp

lemma same_table:
  "range_digests st = range_digests st' \<Longrightarrow> whole st = whole st'"
  by (simp add: whole_def tops_def read_ranges_def)

subsection \<open>Properties\<close>

text \<open>
  C33. The range digests are exact. Take any order of claim inserts, claim deletes, installs of the
  schema and background pages, from a new store. When the import and the queue are empty, every
  range's stored count and digest is the one recomputed from the ids of the claims table, and no
  other range has a row.
\<close>

theorem complete_ranges_exact:
  assumes "\<And>i. is_digest (hash i)" and "range_run hash ops new_store = Some st" and "installed st" and "complete st"
  shows "range_digests st = recomputed hash (claim_ids st)"
proof -
  have "range_invariant hash st"
    using range_run_invariant [of hash, OF assms(1) range_invariant_new, of ops] assms(2) by simp
  from complete_table [of hash, OF assms(1) this assms(3,4)] show ?thesis .
qed

theorem complete_ranges_exact_witness:
  "\<exists>st. range_run (\<lambda>_. zero_digest) [Install, Insert_Claim ''new'', Fold_Page] new_store = Some st
     \<and> claim_ids st = [''new''] \<and> range_digests st = recomputed (\<lambda>_. zero_digest) [''new'']"
proof -
  let ?hash = "\<lambda>_. zero_digest" and ?ops = "[Install, Insert_Claim ''new'', Fold_Page]"
  obtain st where st: "range_run ?hash ?ops new_store = Some st"
    using range_run_invariant [of ?hash new_store ?ops] range_invariant_new digests.ok_zero by blast
  then have "installed st" "complete st" "claim_ids st = [''new'']"
    by (auto simp: new_store_def install_def insert_claim_def fold_page_def PAGE_def complete_def claim_ids_def Let_def
        split: option.splits)
  with complete_ranges_exact [of ?hash ?ops st] st show ?thesis by (simp add: digests.ok_zero)
qed

text \<open>
  The background fold catches up. Whatever inserts, deletes, installs and pages came before, no
  transaction of the fold ever fails its checks (a count below zero, a digest of the wrong length),
  and the paced fold of an installed store ends: with more fuel than rows wait, it returns a store
  whose summary is complete and whose claims are untouched.
\<close>

lemma paced_fold_catches_up:
  assumes "\<And>i. is_digest (hash i)"
  shows "\<exists>st. range_run hash ops new_store = Some st
    \<and> (installed st \<longrightarrow> (\<forall>n>waiting st. \<exists>st'. fold_paced hash n st = Some st' \<and> complete st' \<and> claims st' = claims st))"
proof -
  obtain st where "range_run hash ops new_store = Some st" "range_invariant hash st"
    using range_run_invariant [of hash, OF assms range_invariant_new] by blast
  with fold_paced_ends [of hash, OF assms] show ?thesis by blast
qed

text \<open>
  Members that hold the same claims find no difference. When two stores with the same claim ids,
  however each came by them and in whatever order, are both complete, comparing one with the
  other's summary says they are the same.
\<close>

lemma same_claims_compare_same:
  assumes "\<And>i. is_digest (hash i)"
    and "range_run hash ops new_store = Some st" "range_run hash ops' new_store = Some peer"
    and "installed st" "installed peer" "complete st" "complete peer"
    and "set (claim_ids st) = set (claim_ids peer)"
  shows "map_option same (compare_claim_ranges hex ledger st (claim_range_summary_answering hex peer query)) = Some True"
proof -
  have inv: "range_invariant hash st" "range_invariant hash peer"
    using range_run_invariant [of hash, OF assms(1) range_invariant_new] assms(2,3) by (metis option.inject)+
  then have "distinct (claim_ids st)" "distinct (claim_ids peer)"
    by (simp_all add: range_invariant_def well_indexed_def claim_ids_def)
  then have "recomputed hash (claim_ids st) = recomputed hash (claim_ids peer)"
    by (intro recomputed_set assms(1,8))
  then have "range_digests st = range_digests peer"
    using complete_table [of hash, OF assms(1) inv(1) assms(4,6)] complete_table [of hash, OF assms(1) inv(2) assms(5,7)]
    by simp
  from same_table [OF this] assms(6,7) show ?thesis
    by (simp add: compare_claim_ranges_def claim_range_summary_answering_def CLAIM_RANGE_VERSION_def
        split_beta Let_def split: option.split)
qed

text \<open>
  A comparison names exactly what is missing. Ask a peer for the ids of one leaf and compare
  its answer: unless the whole sets already agree, the ids reported missing are exactly the peer's
  ids of that leaf that this store neither holds nor has retired.
\<close>

lemma missing_is_exact:
  assumes "l < LEAF_RANGES" and "ids_of query = [l]"
    and "compare_claim_ranges hex ledger st (claim_range_summary_answering hex peer (Some query)) = Some c"
    and "\<not> same c"
  shows "set (missing c) = {i \<in> set (claim_ids peer). leaf i = l \<and> i \<notin> set (claim_ids st) \<and> \<not> claim_retired ledger i}"
proof -
  let ?s = "claim_range_summary_answering hex peer (Some query)"
  have "retained ?s \<noteq> None" using assms(3) compare_no_summary [of ?s hex ledger st] by (intro notI) simp
  moreover have "retained ?s = None" if "\<not> complete peer"
    using that by (simp add: claim_range_summary_answering_def Let_def)
  ultimately have "complete peer" by (rule contrapos_np)
  then have "sum_ids ?s = answer_ids peer 0 [l]"
    using assms(2) by (simp add: claim_range_summary_answering_def split_beta Let_def CLAIM_RANGE_QUERY_LEAVES_def)
  moreover have "take CLAIM_RANGE_QUERY_LEAVES (answer_ids peer 0 [l]) = answer_ids peer 0 [l]"
    by (simp add: CLAIM_RANGE_QUERY_LEAVES_def)
  ultimately have "missing c = missing_ids (claim_retired ledger) st 0 (answer_ids peer 0 [l])"
    using assms(3,4) unfolding compare_claim_ranges_def
    by (auto simp: split_beta Let_def split: if_splits option.splits simp del: answer_ids.simps missing_ids.simps)
  then show ?thesis using missing_one [OF assms(1)] by simp
qed

definition example_peer :: range_store where
  "example_peer = \<lparr>claims = [(1, replicate 64 (CHR ''0''))], next_index = 2,
     range_digests = [(1, 0) \<mapsto> (1, zero_digest), (2, 0) \<mapsto> (1, zero_digest)],
     range_import = None, pending = [], installed = True\<rparr>"

lemma example_whole: "fst (whole example_peer) = 1" "whole (install new_store) = (0, zero_digest)"
proof -
  have "[0..<65] = 0 # [1..<65]" by (simp add: upt_conv_Cons)
  moreover have "List.map_filter (\<lambda>r. map_option (\<lambda>(c, d). \<lparr>cr_range = r, cr_count = c, cr_digest = d\<rparr>)
      (range_digests example_peer (1, r))) [1..<65] = []"
    by (auto simp: map_filter_def example_peer_def filter_empty_conv)
  ultimately have "tops example_peer = [\<lparr>cr_range = 0, cr_count = 1, cr_digest = zero_digest\<rparr>]"
    by (simp add: tops_def read_ranges_def TOP_RANGES_def map_filter_simps) (simp add: example_peer_def)
  then show "fst (whole example_peer) = 1" by (simp add: whole_def)
  have "tops (install new_store) = []"
    by (auto simp: tops_def read_ranges_def map_filter_def new_store_def install_def filter_empty_conv)
  then show "whole (install new_store) = (0, zero_digest)" by (simp add: whole_def)
qed

end
