(* ===== verification/Windows.thy ===== *)
theory Windows
  imports Prelude "HOL-Library.Multiset"
begin

section \<open>Rolling latency windows\<close>

text \<open>
  Models \<open>crates/smallclaims/src/windows.rs\<close> (log buckets, sparse histograms, the three rings of
  slots of a series, the store's own series) and \<open>windows/intervals.rs\<close> (closed minutes a client
  reports). A \<open>u64\<close> is a \<^typ>\<open>nat\<close>: a plain addition wraps at \<open>2^64\<close> as the release build does and
  \<open>saturating_add\<close> stops there. An \<open>Instant\<close> is the number of whole seconds since \<open>origin()\<close>.
\<close>

subsection \<open>Buckets\<close>

definition SUB :: nat where "SUB = 16"

definition add64 :: "nat \<Rightarrow> nat \<Rightarrow> nat" where
  "add64 a b = (a + b) mod 2 ^ 64"

fun bit_length :: "nat \<Rightarrow> nat" where
  "bit_length n = (if n = 0 then 0 else Suc (bit_length (n div 2)))"

declare bit_length.simps [simp del]

definition leading_zeros :: "nat \<Rightarrow> nat" where
  "leading_zeros n = 64 - bit_length n"

definition bucket :: "nat \<Rightarrow> nat" where
  "bucket us =
     (if us < SUB then us
      else let exponent = 63 - leading_zeros us; sub = us div 2 ^ (exponent - 4) - SUB
           in (SUB + (exponent - 4) * SUB + sub) mod 2 ^ 16)"

definition upper :: "nat \<Rightarrow> nat" where
  "upper b =
     (if b < SUB then b
      else let exponent = (b - SUB) div SUB + 4; sub = (b - SUB) mod SUB;
               bound = (SUB + sub + 1) * 2 ^ (exponent - 4)
           in min (bound - 1) u64_max)"

subsection \<open>Histograms\<close>

record histogram =
  h_count :: nat
  over :: nat
  max_us :: nat
  buckets :: "(nat \<times> nat) list"

definition histogram_default :: histogram where
  "histogram_default = \<lparr>h_count = 0, over = 0, max_us = 0, buckets = []\<rparr>"

text \<open>\<open>binary_search_by_key\<close> in a vector sorted by bucket, then the update or the insertion.\<close>

fun bump_bucket :: "nat \<Rightarrow> nat \<Rightarrow> (nat \<times> nat) list \<Rightarrow> (nat \<times> nat) list" where
  "bump_bucket b n [] = [(b, n)]"
| "bump_bucket b n ((c, m) # bs) =
     (if c = b then (c, saturating_add m n) # bs
      else if b < c then (b, n) # (c, m) # bs
      else (c, m) # bump_bucket b n bs)"

definition histogram_add :: "nat \<Rightarrow> bool \<Rightarrow> histogram \<Rightarrow> histogram" where
  "histogram_add us missed h =
     \<lparr>h_count = add64 (h_count h) 1, over = add64 (over h) (if missed then 1 else 0), max_us = max (max_us h) us,
      buckets = bump_bucket (bucket us) 1 (buckets h)\<rparr>"

definition merge :: "histogram \<Rightarrow> histogram \<Rightarrow> histogram" where
  "merge h other =
     \<lparr>h_count = add64 (h_count h) (h_count other), over = add64 (over h) (over other),
      max_us = max (max_us h) (max_us other),
      buckets = fold (\<lambda>(b, n). bump_bucket b n) (buckets other) (buckets h)\<rparr>"

text \<open>The loop of \<open>percentile\<close>, with the samples seen so far.\<close>

fun percentile_scan :: "nat \<Rightarrow> nat \<Rightarrow> nat \<Rightarrow> (nat \<times> nat) list \<Rightarrow> nat" where
  "percentile_scan rank mx seen [] = mx"
| "percentile_scan rank mx seen ((b, n) # bs) =
     (let seen = add64 seen n in if rank \<le> seen then min (upper b) mx else percentile_scan rank mx seen bs)"

definition div_ceil :: "nat \<Rightarrow> nat \<Rightarrow> nat" where
  "div_ceil a b = (a + b - 1) div b"

definition percentile :: "histogram \<Rightarrow> nat \<Rightarrow> nat" where
  "percentile h percent =
     percentile_scan (max (div_ceil (h_count h * percent mod 2 ^ 64) 100) 1) (max_us h) 0 (buckets h)"

subsection \<open>Rings and series\<close>

record slot =
  epoch :: nat
  slot_histogram :: histogram

definition slot_default :: slot where
  "slot_default = \<lparr>epoch = 0, slot_histogram = histogram_default\<rparr>"

type_synonym series = "slot list list"

definition TIERS :: "(string \<times> nat \<times> nat) list" where
  "TIERS = [(''1m'', 5, 12), (''5m'', 30, 10), (''1h'', 300, 12)]"

definition series_default :: series where
  "series_default = [[], [], []]"

text \<open>One tier of \<open>Series::record\<close>: the slot of the epoch, unless it holds something newer.\<close>

definition record_slot :: "nat \<Rightarrow> nat \<Rightarrow> bool \<Rightarrow> slot \<Rightarrow> slot" where
  "record_slot e us missed s =
     (if 0 < h_count (slot_histogram s) \<and> e < epoch s then s
      else let s = (if epoch s \<noteq> e \<or> h_count (slot_histogram s) = 0
                    then \<lparr>epoch = e, slot_histogram = histogram_default\<rparr> else s)
           in s\<lparr>slot_histogram := histogram_add us missed (slot_histogram s)\<rparr>)"

definition record_ring :: "nat \<Rightarrow> nat \<Rightarrow> nat \<Rightarrow> nat \<Rightarrow> bool \<Rightarrow> slot list \<Rightarrow> slot list" where
  "record_ring width slots since us missed ring =
     (let e = since div width; ring = (if ring = [] then replicate slots slot_default else ring); i = e mod slots
      in ring[i := record_slot e us missed (ring ! i)])"

definition series_record :: "nat \<Rightarrow> nat \<Rightarrow> bool \<Rightarrow> series \<Rightarrow> series" where
  "series_record since micros missed rings =
     map2 (\<lambda>ring (_, width, slots). record_ring width slots since (min micros u64_max) missed ring) rings TIERS"

definition ring_window :: "nat \<Rightarrow> nat \<Rightarrow> nat \<Rightarrow> slot list \<Rightarrow> histogram" where
  "ring_window width slots since ring =
     (let e = since div width
      in fold (\<lambda>s h. if 0 < h_count (slot_histogram s) \<and> e < epoch s + slots \<and> epoch s \<le> e
                     then merge h (slot_histogram s) else h) ring histogram_default)"

definition series_window :: "series \<Rightarrow> nat \<Rightarrow> nat \<Rightarrow> histogram" where
  "series_window rings tier since =
     (case TIERS ! tier of (_, width, slots) \<Rightarrow> ring_window width slots since (rings ! tier))"

definition absorb_slot :: "slot \<Rightarrow> slot \<Rightarrow> slot" where
  "absorb_slot mine theirs =
     (if h_count (slot_histogram theirs) = 0 then mine
      else if h_count (slot_histogram mine) = 0 \<or> epoch mine < epoch theirs then theirs
      else if epoch mine = epoch theirs
           then mine\<lparr>slot_histogram := merge (slot_histogram mine) (slot_histogram theirs)\<rparr>
      else mine)"

text \<open>\<open>zip\<close> over a mutable iterator: the slots past the shorter ring stay as they are.\<close>

fun absorb_ring :: "slot list \<Rightarrow> slot list \<Rightarrow> slot list" where
  "absorb_ring (m # ms) (t # ts) = absorb_slot m t # absorb_ring ms ts"
| "absorb_ring ms ts = ms"

definition series_absorb :: "series \<Rightarrow> series \<Rightarrow> series" where
  "series_absorb mine theirs = map2 (\<lambda>m t. if m = [] then t else absorb_ring m t) mine theirs"

definition series_is_empty :: "series \<Rightarrow> nat \<Rightarrow> bool" where
  "series_is_empty rings since =
     list_all (\<lambda>tier. h_count (series_window rings tier since) = 0) [0..<length TIERS]"

subsection \<open>The store's series\<close>

datatype store_work = Statement | ReadTransaction | WriteTransaction | WriterHold | SnapshotBuildWait
  | SnapshotInventory | SnapshotDigest

record store_series =
  target :: "nat option"
  work_series :: series

definition set_store_target :: "store_work \<Rightarrow> nat option \<Rightarrow> (store_work \<Rightarrow> store_series) \<Rightarrow> store_work \<Rightarrow> store_series" where
  "set_store_target kind t st = st(kind := (st kind)\<lparr>target := t\<rparr>)"

text \<open>Durations are in nanoseconds; a sample is recorded in whole microseconds.\<close>

definition record_store ::
  "store_work \<Rightarrow> nat \<Rightarrow> nat \<Rightarrow> (store_work \<Rightarrow> store_series) \<Rightarrow> bool \<times> (store_work \<Rightarrow> store_series)"
where
  "record_store kind since duration st =
     (let missed = (case target (st kind) of None \<Rightarrow> False | Some t \<Rightarrow> t < duration)
      in (missed, st(kind := (st kind)\<lparr>work_series := series_record since (duration div 1000) missed (work_series (st kind))\<rparr>)))"

subsection \<open>Minutes reported by a client\<close>

definition MINUTE_MS :: nat where "MINUTE_MS = 60000"
definition SLOTS :: nat where "SLOTS = 60"
definition MAX_SLOT_COUNT :: nat where "MAX_SLOT_COUNT = 1000000000"

definition histogram_upper_ms :: "nat \<Rightarrow> nat" where
  "histogram_upper_ms v = upper (bucket v)"

definition histogram_lower_ms :: "nat \<Rightarrow> nat" where
  "histogram_lower_ms bound = (let b = bucket bound in if b = 0 then 0 else upper (b - 1) + 1)"

record minute_summary =
  start_ms :: nat
  m_count :: nat
  m_over :: nat
  m_max :: nat
  m_buckets :: "(nat \<times> nat) list"

type_synonym intervals = "(nat \<times> histogram) list"

definition can_record :: "intervals \<Rightarrow> minute_summary \<Rightarrow> bool" where
  "can_record slots sample =
     (let e = start_ms sample div MINUTE_MS; i = e mod SLOTS
      in if length slots \<le> i then True
         else let (old, h) = slots ! i; count = (if old = e then h_count h else 0)
              in count + m_count sample \<le> u64_max \<and> count + m_count sample \<le> MAX_SLOT_COUNT)"

definition interval_record :: "nat \<Rightarrow> minute_summary \<Rightarrow> intervals \<Rightarrow> intervals" where
  "interval_record now sample slots =
     (if now < saturating_add (start_ms sample) MINUTE_MS \<or> start_ms sample < now - 3600000 then slots
      else let slots = (if slots = [] then replicate SLOTS (0, histogram_default) else slots);
               e = start_ms sample div MINUTE_MS; i = e mod SLOTS; (old, h) = slots ! i
           in if 0 < h_count h \<and> e < old then slots
              else let h = (if old \<noteq> e then histogram_default else h);
                       summary = \<lparr>h_count = m_count sample, over = m_over sample, max_us = m_max sample,
                                  buckets = map (\<lambda>(bound, n). (bucket bound, n)) (m_buckets sample)\<rparr>
                   in slots[i := (e, merge h summary)])"

definition minutes :: "nat \<Rightarrow> intervals \<Rightarrow> minute_summary list" where
  "minutes now slots =
     List.map_filter (\<lambda>(e, h).
        let start = e * MINUTE_MS
        in if 0 < h_count h \<and> now - 3600000 \<le> start \<and> start + MINUTE_MS \<le> now
           then Some \<lparr>start_ms = start, m_count = h_count h, m_over = over h, m_max = max_us h,
                      m_buckets = map (\<lambda>(b, n). (upper b, n)) (buckets h)\<rparr>
           else None) slots"

fun absorb_minutes :: "intervals \<Rightarrow> intervals \<Rightarrow> intervals" where
  "absorb_minutes ((e, h) # mine) ((their_e, theirs) # rest) =
     (if h_count theirs = 0 then (e, h)
      else if h_count h = 0 \<or> e < their_e then (their_e, theirs)
      else if e = their_e then (e, merge h theirs)
      else (e, h)) # absorb_minutes mine rest"
| "absorb_minutes mine rest = mine"

definition interval_absorb :: "intervals \<Rightarrow> intervals \<Rightarrow> intervals" where
  "interval_absorb mine theirs = (if mine = [] then theirs else absorb_minutes mine theirs)"

text \<open>What one width of \<open>snapshot\<close> sums: the total, the milliseconds covered, the boundary minutes left out.\<close>

definition interval_total :: "nat \<Rightarrow> nat \<Rightarrow> intervals \<Rightarrow> histogram \<times> nat \<times> nat" where
  "interval_total now width slots =
     fold (\<lambda>(e, h) (tot, covered, boundary).
        let start = e * MINUTE_MS; fin = start + MINUTE_MS
        in if h_count h = 0 \<or> now < fin \<or> fin \<le> now - width then (tot, covered, boundary)
           else if start < now - width then (tot, covered, boundary + 1)
           else (merge tot h, covered + MINUTE_MS, boundary)) slots (histogram_default, 0, 0)"

subsection \<open>Lemmas: buckets\<close>

lemma bit_length_0 [simp]: "bit_length 0 = 0"
  by (simp add: bit_length.simps)

lemma bit_length_pos: "0 < n \<Longrightarrow> bit_length n = Suc (bit_length (n div 2))"
  by (subst bit_length.simps) simp

lemma bit_length_range: "0 < n \<Longrightarrow> 2 ^ (bit_length n - 1) \<le> n \<and> n < 2 ^ bit_length n \<and> 0 < bit_length n"
proof (induction n rule: bit_length.induct)
  case (1 n)
  show ?case
  proof (cases "n div 2 = 0")
    case True
    then have "n = 1" using 1(2) by simp
    then show ?thesis by (simp add: bit_length_pos)
  next
    case False
    with 1 have ih: "2 ^ (bit_length (n div 2) - 1) \<le> n div 2" "n div 2 < 2 ^ bit_length (n div 2)" "0 < bit_length (n div 2)"
      by auto
    have "bit_length n = Suc (bit_length (n div 2))" using 1(2) by (rule bit_length_pos)
    moreover have "2 * 2 ^ (bit_length (n div 2) - 1) = (2::nat) ^ bit_length (n div 2)"
      using ih(3) by (metis power_minus_mult mult.commute)
    ultimately show ?thesis using ih by simp linarith
  qed
qed

lemma bit_length_mono: 
  assumes "a \<le> b"
  shows "bit_length a \<le> bit_length b"
proof (rule ccontr)
  assume less: "\<not> ?thesis"
  then have "0 < a" by (intro gr0I) simp
  then have "2 ^ (bit_length a - 1) \<le> a" "b < 2 ^ bit_length b"
    using bit_length_range [of a] bit_length_range [of b] assms by auto
  moreover have "(2::nat) ^ bit_length b \<le> 2 ^ (bit_length a - 1)" using less by (intro power_increasing) auto
  ultimately show False using assms by linarith
qed

lemma bit_length_unique:
  assumes "2 ^ e \<le> n" "n < 2 ^ Suc e"
  shows "bit_length n = Suc e"
proof -
  have "0 < n" using assms(1) by (intro gr0I) simp
  note r = bit_length_range [OF this]
  have "(2::nat) ^ (bit_length n - 1) < 2 ^ Suc e" "(2::nat) ^ e < 2 ^ bit_length n" using r assms by linarith+
  then have "bit_length n - 1 < Suc e" "e < bit_length n" by (simp_all only: power_strict_increasing_iff one_less_numeral_iff semiring_norm)
  then show ?thesis by simp
qed

text \<open>A value of at least sixteen has an exponent \<open>e\<close> and top five bits \<open>q\<close>.\<close>

definition parts :: "nat \<Rightarrow> nat \<Rightarrow> nat \<Rightarrow> bool" where
  "parts us e q = (4 \<le> e \<and> e \<le> 63 \<and> 16 \<le> q \<and> q < 32 \<and> q * 2 ^ (e - 4) \<le> us \<and> us < (q + 1) * 2 ^ (e - 4))"

lemma split_16: "4 \<le> e \<Longrightarrow> (2::nat) ^ e = 16 * 2 ^ (e - 4)"
  using power_add [of "2::nat" 4 "e - 4"] by simp

lemma parts_range:
  assumes "parts us e q"
  shows "2 ^ e \<le> us" "us < 2 ^ Suc e" "us < 2 ^ 64" "SUB \<le> us"
proof -
  have p: "4 \<le> e" "e \<le> 63" "16 \<le> q" "q + 1 \<le> 32" "q * 2 ^ (e - 4) \<le> us" "us < (q + 1) * 2 ^ (e - 4)"
    using assms by (simp_all add: parts_def)
  have "16 * 2 ^ (e - 4) \<le> q * 2 ^ (e - 4)" "(q + 1) * 2 ^ (e - 4) \<le> 32 * 2 ^ (e - 4)"
    using p(3,4) by (intro mult_le_mono1; simp)+
  with p(5,6) have "16 * 2 ^ (e - 4) \<le> us" "us < 32 * 2 ^ (e - 4)" by linarith+
  then show lo: "2 ^ e \<le> us" and hi: "us < 2 ^ Suc e" using split_16 [OF p(1)] by simp_all
  have "(2::nat) ^ Suc e \<le> 2 ^ 64" "(2::nat) ^ 4 \<le> 2 ^ e" using p(1,2) by (intro power_increasing; simp)+
  then show "us < 2 ^ 64" "SUB \<le> us" using lo hi by (simp_all add: SUB_def)
qed

lemma bucket_of_parts:
  assumes "parts us e q"
  shows "bucket us = (e - 4) * 16 + q"
proof -
  have p: "4 \<le> e" "e \<le> 63" "16 \<le> q" "q < 32" using assms by (simp_all add: parts_def)
  have "63 - leading_zeros us = e"
    using bit_length_unique [OF parts_range(1,2) [OF assms]] p by (simp add: leading_zeros_def)
  moreover have "us div 2 ^ (e - 4) = q"
    using assms by (intro div_nat_eqI) (simp_all add: parts_def mult.commute)
  moreover have "(e - 4) * 16 + q < 2 ^ 16" using p by simp
  ultimately show ?thesis using parts_range(4) [OF assms] p(3) by (simp add: bucket_def SUB_def Let_def)
qed

lemma parts_exist:
  assumes "SUB \<le> us" "us < 2 ^ 64"
  obtains e q where "parts us e q"
proof -
  let ?e = "bit_length us - 1" and ?q = "us div 2 ^ (bit_length us - 1 - 4)" and ?w = "2 ^ (bit_length us - 1 - 4) :: nat"
  have "0 < us" using assms(1) by (simp add: SUB_def)
  note r = bit_length_range [OF this]
  have lo: "2 ^ ?e \<le> us" and hi: "us < 2 ^ Suc ?e" using r by simp_all
  have "(2::nat) ^ ?e < 2 ^ 64" "(2::nat) ^ 4 < 2 ^ Suc ?e" using lo hi assms by (simp_all add: SUB_def)
  then have e: "?e < 64" "4 < Suc ?e" by (simp_all only: power_strict_increasing_iff one_less_numeral_iff semiring_norm)
  then have four: "4 \<le> ?e" by simp
  have w: "0 < ?w" by simp
  have "16 * ?w \<le> us" "us < 32 * ?w" using lo hi split_16 [OF four] by simp_all
  then have "16 \<le> ?q" "?q < 32"
    by (simp add: less_eq_div_iff_mult_less_eq) (rule less_mult_imp_div_less [OF \<open>us < 32 * ?w\<close>])
  moreover have "?q * ?w \<le> us" "us < (?q + 1) * ?w"
    using dividend_less_times_div [OF w, of us] by (simp_all add: mult.commute)
  ultimately have "parts us ?e ?q" using four e(1) by (simp add: parts_def)
  then show thesis by (rule that)
qed

lemma bucket_small: "us < SUB \<Longrightarrow> bucket us = us"
  by (simp add: bucket_def)

lemma bucket_mono:
  assumes "a \<le> b" "b < 2 ^ 64"
  shows "bucket a \<le> bucket b"
proof (cases "b < SUB")
  case True
  with assms(1) show ?thesis by (simp add: bucket_small)
next
  case False
  then obtain f r where b: "parts b f r" using parts_exist [of b] assms(2) by auto
  have r: "16 \<le> r" using b by (simp add: parts_def)
  show ?thesis
  proof (cases "a < SUB")
    case True
    then show ?thesis using bucket_of_parts [OF b] r by (simp add: bucket_small SUB_def)
  next
    case False
    then obtain e q where a: "parts a e q" using parts_exist [of a] assms by auto
    have ab: "2 ^ e \<le> a" "a < 2 ^ Suc e" "2 ^ f \<le> b" "b < 2 ^ Suc f" using parts_range a b by blast+
    have "bit_length a = Suc e" "bit_length b = Suc f" using bit_length_unique ab by blast+
    then have "e \<le> f" using bit_length_mono [OF assms(1)] by simp
    then consider "e = f" | "e < f" by linarith
    then show ?thesis
    proof cases
      case 1
      have "q * 2 ^ (e - 4) < (r + 1) * 2 ^ (e - 4)" using a b 1 assms(1) by (simp add: parts_def)
      then have "q \<le> r" by (simp only: mult_less_cancel2) simp
      with 1 show ?thesis using bucket_of_parts [OF a] bucket_of_parts [OF b] by simp
    next
      case 2
      have "4 \<le> e" "q < 32" using a by (simp_all add: parts_def)
      then show ?thesis using 2 r bucket_of_parts [OF a] bucket_of_parts [OF b] by simp
    qed
  qed
qed

lemma upper_parts:
  assumes p: "parts us e q"
  shows "upper (bucket us) = (q + 1) * 2 ^ (e - 4) - 1" "parts (upper (bucket us)) e q"
proof -
  have q: "16 \<le> q" "q < 32" "4 \<le> e" "e \<le> 63" using p by (simp_all add: parts_def)
  have "(q + 1) * 2 ^ (e - 4) \<le> 32 * 2 ^ (e - 4)" using q by (intro mult_le_mono1) simp
  also have "\<dots> = 2 ^ Suc e" using split_16 [OF q(3)] by simp
  also have "\<dots> \<le> 2 ^ 64" using q by (intro power_increasing) simp_all
  finally have bound: "(q + 1) * 2 ^ (e - 4) \<le> 2 ^ 64" .
  have "((e - 4) * 16 + q - 16) div 16 = e - 4" "((e - 4) * 16 + q - 16) mod 16 = q - 16" "\<not> (e - 4) * 16 + q < 16"
    using q by (auto simp: div_nat_eqI mod_nat_eqI)
  then show up: "upper (bucket us) = (q + 1) * 2 ^ (e - 4) - 1"
    using bound q(1) unfolding bucket_of_parts [OF p] upper_def by (simp add: SUB_def Let_def min_def) linarith
  have "q * w \<le> (q + 1) * w - 1 \<and> (q + 1) * w - 1 < (q + 1) * w" if "0 < w" for w :: nat
    using that by (cases w) simp_all
  then show "parts (upper (bucket us)) e q" unfolding up parts_def using q by simp
qed

lemma upper_bucket:
  assumes "us < 2 ^ 64"
  shows "us \<le> upper (bucket us)" "upper (bucket us) \<le> us + us div 16" "upper (bucket us) < 2 ^ 64"
    "bucket (upper (bucket us)) = bucket us" "bucket us < 976"
proof -
  have "us \<le> upper (bucket us) \<and> upper (bucket us) \<le> us + us div 16 \<and> upper (bucket us) < 2 ^ 64
      \<and> bucket (upper (bucket us)) = bucket us \<and> bucket us < 976"
  proof (cases "us < SUB")
    case True
    then show ?thesis using assms by (simp add: bucket_small upper_def SUB_def)
  next
    case False
    then obtain e q where p: "parts us e q" using parts_exist [of us] assms by auto
    note u = upper_parts [OF p]
    have e: "4 \<le> e" "e \<le> 63" "q < 32" and lo: "q * 2 ^ (e - 4) \<le> us" "us < (q + 1) * 2 ^ (e - 4)"
      using p by (simp_all add: parts_def)
    have "2 ^ (e - 4) \<le> us div 16"
      using parts_range(1) [OF p] split_16 [OF e(1)] by (simp add: less_eq_div_iff_mult_less_eq mult.commute)
    then have "upper (bucket us) \<le> us + us div 16" unfolding u(1) using lo by simp
    moreover have "us \<le> upper (bucket us)" unfolding u(1) using lo by linarith
    moreover have "upper (bucket us) < 2 ^ 64" using parts_range(3) [OF u(2)] .
    moreover have "bucket (upper (bucket us)) = bucket us" using bucket_of_parts [OF u(2)] bucket_of_parts [OF p] by simp
    moreover have "bucket us < 976" using bucket_of_parts [OF p] e by simp
    ultimately show ?thesis by blast
  qed
  then show "us \<le> upper (bucket us)" "upper (bucket us) \<le> us + us div 16" "upper (bucket us) < 2 ^ 64"
    "bucket (upper (bucket us)) = bucket us" "bucket us < 976" by simp_all
qed

subsection \<open>Lemmas: a histogram and the samples it counted\<close>

type_synonym sample = "nat \<times> bool"

definition in_bucket :: "nat \<Rightarrow> sample list \<Rightarrow> nat" where
  "in_bucket b xs = length (filter (\<lambda>x. bucket (fst x) = b) xs)"

definition rows :: "nat set \<Rightarrow> (nat \<Rightarrow> nat) \<Rightarrow> (nat \<times> nat) list" where
  "rows S f = map (\<lambda>b. (b, f b)) (sorted_list_of_set S)"

definition histogram_of :: "sample list \<Rightarrow> histogram" where
  "histogram_of xs =
     \<lparr>h_count = length xs mod 2 ^ 64, over = length (filter snd xs) mod 2 ^ 64, max_us = fold max (map fst xs) 0,
      buckets = rows ((\<lambda>x. bucket (fst x)) ` set xs) (\<lambda>b. min (in_bucket b xs) u64_max)\<rparr>"

lemma bump_sorted:
  "sorted l \<Longrightarrow> distinct l \<Longrightarrow>
   bump_bucket b n (map (\<lambda>c. (c, f c)) l) =
     (if b \<in> set l then map (\<lambda>c. (c, if c = b then saturating_add (f c) n else f c)) l
      else map (\<lambda>c. (c, if c = b then n else f c)) (insort b l))"
proof (induction l)
  case (Cons a l)
  then have ih: "bump_bucket b n (map (\<lambda>c. (c, f c)) l) =
     (if b \<in> set l then map (\<lambda>c. (c, if c = b then saturating_add (f c) n else f c)) l
      else map (\<lambda>c. (c, if c = b then n else f c)) (insort b l))" by simp
  consider "a = b" | "b < a" | "a < b" by linarith
  then show ?case
  proof cases
    case 2
    then have "b \<notin> set (a # l)" using Cons.prems by auto
    with 2 show ?thesis by (auto simp: map_eq_conv)
  qed (use ih Cons.prems in \<open>auto simp: map_eq_conv\<close>)
qed simp

lemma bump_rows:
  assumes "finite S" "b \<notin> S \<Longrightarrow> f b = 0" "n \<le> u64_max"
  shows "bump_bucket b n (rows S f) = rows (insert b S) (f(b := saturating_add (f b) n))"
proof (cases "b \<in> S")
  case True
  then show ?thesis using assms(1) unfolding rows_def
    by (subst bump_sorted) (simp_all add: insert_absorb)
next
  case False
  then have "f b = 0" "insort b (sorted_list_of_set S) = sorted_list_of_set (insert b S)"
    using assms by (simp_all add: sorted_list_of_set_insert)
  moreover have "saturating_add 0 n = n" using assms(3) by (simp add: saturating_add_def)
  ultimately show ?thesis using assms(1) False unfolding rows_def
    by (subst bump_sorted) simp_all
qed

lemma bump_fold:
  assumes "finite S" "\<And>b. b \<notin> S \<Longrightarrow> f b = 0" "\<And>b. g b \<le> u64_max" "distinct l"
  shows "fold (\<lambda>(b, n). bump_bucket b n) (map (\<lambda>c. (c, g c)) l) (rows S f) =
     rows (S \<union> set l) (\<lambda>c. if c \<in> set l then saturating_add (f c) (g c) else f c)"
  using assms
proof (induction l arbitrary: S f)
  case (Cons a l)
  let ?f = "f(a := saturating_add (f a) (g a))"
  have "fold (\<lambda>(b, n). bump_bucket b n) (map (\<lambda>c. (c, g c)) (a # l)) (rows S f) =
      fold (\<lambda>(b, n). bump_bucket b n) (map (\<lambda>c. (c, g c)) l) (rows (insert a S) ?f)"
    using Cons.prems bump_rows [of S a f "g a"] by simp
  also have "\<dots> = rows (insert a S \<union> set l) (\<lambda>c. if c \<in> set l then saturating_add (?f c) (g c) else ?f c)"
    using Cons.prems by (intro Cons.IH) auto
  also have "(\<lambda>c. if c \<in> set l then saturating_add (?f c) (g c) else ?f c)
      = (\<lambda>c. if c \<in> set (a # l) then saturating_add (f c) (g c) else f c)"
    using Cons.prems(4) by (auto simp: fun_eq_iff)
  finally show ?case by simp
qed simp

lemma fold_max: "fold max xs (m::nat) = max m (fold max xs 0)"
  by (induction xs arbitrary: m) (simp, metis fold_simps(2) max.assoc max.commute max_0L)

lemma in_bucket_0: "b \<notin> (\<lambda>x. bucket (fst x)) ` set xs \<Longrightarrow> in_bucket b xs = 0"
  by (auto simp: in_bucket_def filter_empty_conv)

lemma in_bucket_append: "in_bucket b (xs @ ys) = in_bucket b xs + in_bucket b ys"
  by (simp add: in_bucket_def)

lemma merge_histogram_of: "merge (histogram_of xs) (histogram_of ys) = histogram_of (xs @ ys)"
proof -
  let ?k = "\<lambda>x :: sample. bucket (fst x)"
  let ?c = "\<lambda>xs b. min (in_bucket b xs) u64_max"
  have "fold (\<lambda>(b, n). bump_bucket b n) (rows (?k ` set ys) (?c ys)) (rows (?k ` set xs) (?c xs)) =
     rows (?k ` set xs \<union> ?k ` set ys) (\<lambda>c. if c \<in> ?k ` set ys then saturating_add (?c xs c) (?c ys c) else ?c xs c)"
    using bump_fold [of "?k ` set xs" "?c xs" "?c ys" "sorted_list_of_set (?k ` set ys)"]
    unfolding rows_def [of "?k ` set ys"] by (simp add: in_bucket_0)
  also have "(\<lambda>c. if c \<in> ?k ` set ys then saturating_add (?c xs c) (?c ys c) else ?c xs c) = ?c (xs @ ys)"
    by (auto simp: fun_eq_iff in_bucket_append saturating_add_def in_bucket_0)
  finally show ?thesis
    using fold_max [of "map fst ys" "fold max (map fst xs) 0"]
    by (simp add: merge_def histogram_of_def add64_def mod_simps image_Un)
qed

lemma histogram_of_Nil: "histogram_of [] = histogram_default"
  by (simp add: histogram_of_def histogram_default_def rows_def)

lemma add_histogram_of: "histogram_add us missed (histogram_of xs) = histogram_of (xs @ [(us, missed)])"
proof -
  have "histogram_add us missed h = merge h (histogram_of [(us, missed)])" for h
    by (simp add: histogram_add_def merge_def histogram_of_def rows_def in_bucket_def)
  then show ?thesis by (simp add: merge_histogram_of)
qed

lemma histogram_of_mset:
  assumes "mset xs = mset ys"
  shows "histogram_of xs = histogram_of ys"
proof -
  have s: "set xs = set ys" "length xs = length ys" using assms by (auto dest: mset_eq_setD mset_eq_length)
  have f: "length (filter P xs) = length (filter P ys)" for P using assms by (metis mset_filter size_mset)
  have "fold max (map fst xs) = (fold max (map fst ys) :: nat \<Rightarrow> nat)"
    using assms by (intro fold_multiset_equiv) (auto simp: fun_eq_iff max.left_commute)
  then show ?thesis using s f by (simp add: histogram_of_def in_bucket_def)
qed

subsection \<open>Lemmas: percentiles\<close>

lemma sorted_count:
  assumes "sorted ys" "\<And>y z. y \<in> set ys \<Longrightarrow> z \<in> set ys \<Longrightarrow> y \<le> z \<Longrightarrow> Q z \<Longrightarrow> Q y" "k < length ys"
  shows "Q (ys ! k) \<longleftrightarrow> k < length (filter Q ys)"
  using assms
proof (induction ys arbitrary: k)
  case (Cons a l)
  show ?case
  proof (cases "Q a")
    case True
    have "Q (l ! j) \<longleftrightarrow> j < length (filter Q l)" if "j < length l" for j
      using Cons.prems(1) Cons.prems(2) that by (intro Cons.IH) auto
    with True Cons.prems(3) show ?thesis by (cases k) auto
  next
    case False
    have none: "\<not> Q z" if "z \<in> set (a # l)" for z
      using Cons.prems(2) [of a z] False that Cons.prems(1) by auto
    then have "filter Q (a # l) = []" by (simp only: filter_empty_conv) blast
    moreover have "\<not> Q ((a # l) ! k)" using none nth_mem [OF Cons.prems(3)] by blast
    ultimately show ?thesis by simp
  qed
qed simp

lemma percentile_scan_stops:
  assumes "seen < rank" "rank \<le> seen + sum_list (map f l)" "seen + sum_list (map f l) < 2 ^ 64"
  shows "\<exists>pre b post. l = pre @ b # post \<and> seen + sum_list (map f pre) < rank
    \<and> rank \<le> seen + sum_list (map f pre) + f b
    \<and> percentile_scan rank mx seen (map (\<lambda>b. (b, f b)) l) = min (upper b) mx"
  using assms
proof (induction l arbitrary: seen)
  case (Cons a l)
  have add: "add64 seen (f a) = seen + f a" using Cons.prems(3) by (simp add: add64_def)
  show ?case
  proof (cases "rank \<le> seen + f a")
    case True
    then show ?thesis using Cons.prems(1) add by (intro exI [of _ "[]"]) (simp add: Let_def)
  next
    case False
    then obtain pre b post where "l = pre @ b # post" "seen + f a + sum_list (map f pre) < rank"
        "rank \<le> seen + f a + sum_list (map f pre) + f b"
        "percentile_scan rank mx (seen + f a) (map (\<lambda>b. (b, f b)) l) = min (upper b) mx"
      using Cons.IH [of "seen + f a"] Cons.prems by auto
    then show ?thesis using False add
      by (intro exI [of _ "a # pre"] exI [of _ b] exI [of _ post]) (simp add: Let_def add.assoc)
  qed
qed simp

lemma sum_in_bucket:
  assumes "distinct l"
  shows "sum_list (map (\<lambda>b. in_bucket b xs) l) = length (filter (\<lambda>x. bucket (fst x) \<in> set l) xs)"
  using assms
proof (induction l)
  case (Cons a l)
  have "length (filter (\<lambda>x. bucket (fst x) \<in> set (a # l)) xs)
      = in_bucket a xs + length (filter (\<lambda>x. bucket (fst x) \<in> set l) xs)"
    using Cons.prems unfolding in_bucket_def by (induction xs) auto
  with Cons show ?case by simp
qed simp

text \<open>The sample of rank \<open>r\<close>, from one, in order of size.\<close>

definition ranked :: "sample list \<Rightarrow> nat \<Rightarrow> nat" where
  "ranked xs r = sort (map fst xs) ! (r - 1)"

definition rank_of :: "nat \<Rightarrow> nat \<Rightarrow> nat" where
  "rank_of n percent = max (div_ceil (n * percent) 100) 1"

lemma rank_range: "0 < n \<Longrightarrow> p \<le> 100 \<Longrightarrow> 1 \<le> rank_of n p \<and> rank_of n p \<le> n"
proof -
  assume n: "0 < n" and "p \<le> 100"
  then have "n * p \<le> n * 100" by simp
  then have "(n * p + 100 - 1) div 100 \<le> (n * 100 + 99) div 100" by (intro div_le_mono) simp
  also have "\<dots> = n" by simp
  finally show ?thesis using n by (simp add: rank_of_def div_ceil_def)
qed

lemma bucket_ranked:
  assumes small: "\<forall>x\<in>set xs. fst x < 2 ^ 64" and r: "1 \<le> r" "r \<le> length xs"
    and lt: "length (filter (\<lambda>x. bucket (fst x) < b) xs) < r" and le: "r \<le> length (filter (\<lambda>x. bucket (fst x) \<le> b) xs)"
  shows "bucket (ranked xs r) = b"
proof -
  let ?ys = "sort (map fst xs)"
  have count: "length (filter Q ?ys) = length (filter (\<lambda>x. Q (fst x)) xs)" for Q
  proof -
    have "mset (filter Q ?ys) = mset (filter Q (map fst xs))" by simp
    then have "length (filter Q ?ys) = length (filter Q (map fst xs))" by (rule mset_eq_length)
    then show ?thesis by (simp add: filter_map comp_def)
  qed
  have down: "bucket y \<le> bucket z" if "y \<in> set ?ys" "z \<in> set ?ys" "y \<le> z" for y z
    using that small by (intro bucket_mono) auto
  have k: "r - 1 < length ?ys" using r by simp
  have "bucket (?ys ! (r - 1)) \<le> b \<longleftrightarrow> r - 1 < length (filter (\<lambda>y. bucket y \<le> b) ?ys)"
    using down by (intro sorted_count k) (auto intro: le_trans)
  moreover have "bucket (?ys ! (r - 1)) < b \<longleftrightarrow> r - 1 < length (filter (\<lambda>y. bucket y < b) ?ys)"
    using down by (intro sorted_count k) (auto intro: le_less_trans)
  ultimately show ?thesis using lt le r unfolding ranked_def count by linarith
qed

lemma percentile_value:
  assumes small: "\<forall>x\<in>set xs. fst x < 2 ^ 64" and len: "length xs * 100 < 2 ^ 64" and ne: "xs \<noteq> []" and p: "p \<le> 100"
  shows "percentile (histogram_of xs) p
    = min (upper (bucket (ranked xs (rank_of (length xs) p)))) (fold max (map fst xs) 0)"
proof -
  let ?S = "(\<lambda>x. bucket (fst x)) ` set xs" and ?r = "rank_of (length xs) p"
  let ?l = "sorted_list_of_set ?S"
  have r: "1 \<le> ?r" "?r \<le> length xs" using rank_range [of "length xs" p] ne p by simp_all
  have "length xs * p < 2 ^ 64" using mult_le_mono2 [OF p, of "length xs"] len by (rule le_less_trans)
  then have np: "length xs mod 2 ^ 64 = length xs" "length xs * p mod 2 ^ 64 = length xs * p" using len by simp_all
  have "in_bucket b xs \<le> length xs" for b by (simp add: in_bucket_def)
  moreover have "length xs \<le> u64_max" using len by simp
  ultimately have "min (in_bucket b xs) u64_max = in_bucket b xs" for b using le_trans by (intro min_absorb1) blast
  then have pct: "percentile (histogram_of xs) p
      = percentile_scan ?r (fold max (map fst xs) 0) 0 (map (\<lambda>b. (b, in_bucket b xs)) ?l)"
    by (simp only: percentile_def histogram_of_def rank_of_def np rows_def histogram.simps)
  have sum: "sum_list (map (\<lambda>b. in_bucket b xs) ?l) = length xs"
    unfolding sum_in_bucket [OF distinct_sorted_list_of_set] by (simp add: filter_True)
  have "0 < ?r" "?r \<le> 0 + sum_list (map (\<lambda>b. in_bucket b xs) ?l)" "0 + sum_list (map (\<lambda>b. in_bucket b xs) ?l) < 2 ^ 64"
    using r sum len by simp_all
  note stops = percentile_scan_stops [OF this, of "fold max (map fst xs) 0", unfolded add_0]
  obtain pre b post where l: "?l = pre @ b # post" and b: "sum_list (map (\<lambda>b. in_bucket b xs) pre) < ?r"
      "?r \<le> sum_list (map (\<lambda>b. in_bucket b xs) pre) + in_bucket b xs"
      and res: "percentile_scan ?r (fold max (map fst xs) 0) 0 (map (\<lambda>b. (b, in_bucket b xs)) ?l)
        = min (upper b) (fold max (map fst xs) 0)"
    using stops by blast
  have srt: "sorted (pre @ b # post)" "distinct (pre @ b # post)" "set (pre @ b # post) = ?S"
    using l by (metis sorted_sorted_list_of_set, metis distinct_sorted_list_of_set, metis set_sorted_list_of_set finite_imageI finite_set)
  have mem: "bucket (fst x) \<in> set pre \<longleftrightarrow> bucket (fst x) < b" "bucket (fst x) \<in> set (pre @ [b]) \<longleftrightarrow> bucket (fst x) \<le> b"
    if "x \<in> set xs" for x
  proof -
    have "bucket (fst x) \<in> set pre \<union> {b} \<union> set post" using srt(3) that by auto
    moreover have "c < b" if "c \<in> set pre" for c using srt(1,2) that by (auto simp: sorted_append nat_less_le)
    moreover have "b < c" if "c \<in> set post" for c using srt(1,2) that by (auto simp: sorted_append nat_less_le)
    ultimately show "bucket (fst x) \<in> set pre \<longleftrightarrow> bucket (fst x) < b"
        "bucket (fst x) \<in> set (pre @ [b]) \<longleftrightarrow> bucket (fst x) \<le> b" by fastforce+
  qed
  have "sum_list (map (\<lambda>b. in_bucket b xs) pre) = length (filter (\<lambda>x. bucket (fst x) < b) xs)"
    using srt(2) mem(1) by (subst sum_in_bucket) (auto cong: filter_cong)
  moreover have "sum_list (map (\<lambda>b. in_bucket b xs) (pre @ [b])) = length (filter (\<lambda>x. bucket (fst x) \<le> b) xs)"
    using srt(2) mem(2) by (subst sum_in_bucket) (auto cong: filter_cong)
  ultimately have "bucket (ranked xs ?r) = b" using b r by (intro bucket_ranked small) simp_all
  then show ?thesis using pct res by simp
qed

subsection \<open>Lemmas: a ring and what was recorded\<close>

text \<open>Recorded samples with their epochs, in the order they were recorded.\<close>

type_synonym events = "(nat \<times> sample) list"

definition epochs :: "nat \<Rightarrow> nat \<Rightarrow> events \<Rightarrow> nat set" where
  "epochs N i evs = {e \<in> fst ` set evs. e mod N = i}"

definition samples_at :: "nat \<Rightarrow> events \<Rightarrow> sample list" where
  "samples_at e evs = map snd (filter (\<lambda>x. fst x = e) evs)"

definition slot_holds :: "nat \<Rightarrow> nat \<Rightarrow> events \<Rightarrow> slot \<Rightarrow> bool" where
  "slot_holds N i evs s =
     (if epochs N i evs = {} then slot_histogram s = histogram_default
      else epoch s = Max (epochs N i evs) \<and> slot_histogram s = histogram_of (samples_at (epoch s) evs))"

lemma samples_at_snoc: "samples_at e (evs @ [(f, x)]) = samples_at e evs @ (if f = e then [x] else [])"
  by (simp add: samples_at_def)

lemma epochs_snoc: "epochs N i (evs @ [(f, x)]) = (if f mod N = i then insert f (epochs N i evs) else epochs N i evs)"
  by (auto simp: epochs_def)

lemma finite_epochs: "finite (epochs N i evs)"
  by (simp add: epochs_def)

lemma samples_at_empty: "e \<notin> fst ` set evs \<Longrightarrow> samples_at e evs = []"
  by (auto simp: samples_at_def filter_empty_conv)

lemma count_pos:
  assumes "e \<in> fst ` set evs" "length evs < 2 ^ 64"
  shows "0 < h_count (histogram_of (samples_at e evs))"
proof -
  have "samples_at e evs \<noteq> []" using assms(1) by (auto simp: samples_at_def filter_empty_conv)
  moreover have "length (samples_at e evs) < 2 ^ 64"
    unfolding samples_at_def length_map by (rule le_less_trans [OF length_filter_le assms(2)])
  ultimately show ?thesis by (simp add: histogram_of_def)
qed

lemma slot_count:
  assumes "slot_holds N i evs s" "length evs < 2 ^ 64"
  shows "h_count (slot_histogram s) = 0 \<longleftrightarrow> epochs N i evs = {}"
proof (cases "epochs N i evs = {}")
  case False
  then have "epoch s \<in> epochs N i evs" using assms(1) Max_in [OF finite_epochs] by (simp add: slot_holds_def)
  then have "epoch s \<in> fst ` set evs" by (simp add: epochs_def)
  from count_pos [OF this assms(2)] show ?thesis using assms(1) False by (simp add: slot_holds_def)
qed (use assms(1) in \<open>simp add: slot_holds_def histogram_default_def\<close>)

lemma record_slot_holds:
  assumes s: "slot_holds N (e mod N) evs s" and len: "length evs < 2 ^ 64"
  shows "slot_holds N (e mod N) (evs @ [(e, us, m)]) (record_slot e us m s)"
proof -
  let ?E = "epochs N (e mod N) evs"
  note zero = slot_count [OF s len]
  have new: "slot_holds N (e mod N) (evs @ [(e, us, m)]) \<lparr>epoch = e, slot_histogram = histogram_add us m histogram_default\<rparr>"
    if "\<And>f. f \<in> ?E \<Longrightarrow> f < e"
  proof -
    have "e \<notin> fst ` set evs" using that [of e] by (auto simp: epochs_def)
    then have "samples_at e (evs @ [(e, us, m)]) = [(us, m)]" by (simp add: samples_at_snoc samples_at_empty)
    moreover have "Max (insert e ?E) = e" using that finite_epochs by (intro Max_eqI) (auto intro: less_imp_le)
    ultimately show ?thesis
      using add_histogram_of [of us m "[]"] by (simp add: slot_holds_def epochs_snoc histogram_of_Nil)
  qed
  show ?thesis
  proof (cases "?E = {}")
    case True
    with zero new show ?thesis by (simp add: record_slot_def)
  next
    case False
    then have ep: "epoch s = Max ?E" and h: "slot_histogram s = histogram_of (samples_at (epoch s) evs)"
      using s by (simp_all add: slot_holds_def)
    have le: "f \<le> epoch s" if "f \<in> ?E" for f using that ep finite_epochs by simp
    have inE: "epoch s \<in> ?E" unfolding ep by (rule Max_in [OF finite_epochs False])
    have mx: "Max (insert e ?E) = max e (epoch s)" using False finite_epochs ep by simp
    consider "e < epoch s" | "e = epoch s" | "epoch s < e" by linarith
    then show ?thesis
    proof cases
      case 1
      then have "record_slot e us m s = s" using zero False by (simp add: record_slot_def)
      with 1 mx h show ?thesis by (simp add: slot_holds_def epochs_snoc samples_at_snoc)
    next
      case 2
      then have "record_slot e us m s = s\<lparr>slot_histogram := histogram_add us m (slot_histogram s)\<rparr>"
        using zero False by (simp add: record_slot_def)
      moreover have "histogram_add us m (slot_histogram s) = histogram_of (samples_at e (evs @ [(e, us, m)]))"
        using h 2 by (simp add: add_histogram_of samples_at_snoc)
      ultimately show ?thesis using 2 mx by (simp add: slot_holds_def epochs_snoc)
    next
      case 3
      then have "record_slot e us m s = \<lparr>epoch = e, slot_histogram = histogram_add us m histogram_default\<rparr>"
        by (simp add: record_slot_def)
      with new le 3 show ?thesis by (metis le_less_trans)
    qed
  qed
qed

definition ring_holds :: "nat \<Rightarrow> events \<Rightarrow> slot list \<Rightarrow> bool" where
  "ring_holds N evs ring =
     (if evs = [] then ring = [] else length ring = N \<and> (\<forall>i<N. slot_holds N i evs (ring ! i)))"

lemma record_ring_holds:
  assumes "0 < N" "ring_holds N evs ring" "length evs < 2 ^ 64"
  shows "ring_holds N (evs @ [(since div w, us, m)]) (record_ring w N since us m ring)"
proof -
  let ?ring = "if ring = [] then replicate N slot_default else ring"
  have ring: "length ?ring = N" "\<forall>i<N. slot_holds N i evs (?ring ! i)"
    using assms(1,2) by (auto simp: ring_holds_def slot_holds_def epochs_def slot_default_def split: if_splits)
  have "slot_holds N i (evs @ [(since div w, us, m)]) (record_ring w N since us m ring ! i)" if "i < N" for i
  proof (cases "i = since div w mod N")
    case True
    have "slot_holds N i evs (?ring ! i)" using ring(2) that by blast
    from record_slot_holds [OF this [unfolded True] assms(3)] show ?thesis
      using True that ring(1) by (simp add: record_ring_def Let_def)
  next
    case False
    have at: "slot_holds N i evs (?ring ! i)" using ring(2) that by blast
    have "epochs N i (evs @ [(since div w, us, m)]) = epochs N i evs" using False by (simp add: epochs_snoc)
    moreover have "samples_at e (evs @ [(since div w, us, m)]) = samples_at e evs" if "e mod N = i" for e
      using False that by (auto simp: samples_at_snoc)
    moreover have "Max (epochs N i evs) mod N = i" if "epochs N i evs \<noteq> {}"
      using Max_in [OF finite_epochs that] by (simp add: epochs_def)
    moreover have "record_ring w N since us m ring ! i = ?ring ! i" using False by (simp add: record_ring_def Let_def)
    ultimately show ?thesis using at by (auto simp: slot_holds_def)
  qed
  then show ?thesis using ring(1) assms(1) by (simp add: ring_holds_def record_ring_def Let_def)
qed

lemma window_slot:
  assumes s: "slot_holds N i evs s" and len: "length evs < 2 ^ 64" and N: "0 < N"
    and past: "\<forall>x\<in>set evs. fst x \<le> now"
  shows "(if 0 < h_count (slot_histogram s) \<and> now < epoch s + N \<and> epoch s \<le> now then merge h (slot_histogram s) else h)
    = (if filter (\<lambda>x. fst x mod N = i \<and> now < fst x + N) evs = [] then h
       else merge h (histogram_of (map snd (filter (\<lambda>x. fst x mod N = i \<and> now < fst x + N) evs))))"
proof (cases "epochs N i evs = {}")
  case True
  then have "filter (\<lambda>x. fst x mod N = i \<and> now < fst x + N) evs = []" by (auto simp: epochs_def filter_empty_conv)
  with True slot_count [OF s len] show ?thesis by simp
next
  case False
  let ?M = "Max (epochs N i evs)"
  have M: "epoch s = ?M" "slot_histogram s = histogram_of (samples_at ?M evs)" using s False by (simp_all add: slot_holds_def)
  have inM: "?M \<in> fst ` set evs" "?M mod N = i" using Max_in [OF finite_epochs False] by (simp_all add: epochs_def)
  then have now: "?M \<le> now" using past by auto
  have pos: "0 < h_count (slot_histogram s)" using slot_count [OF s len] False by simp
  have same: "fst x mod N = i \<and> now < fst x + N \<longleftrightarrow> fst x = ?M \<and> now < ?M + N" if "x \<in> set evs" for x
  proof
    assume x: "fst x mod N = i \<and> now < fst x + N"
    then have "fst x \<in> epochs N i evs" using that by (auto simp: epochs_def)
    then have le: "fst x \<le> ?M" by (simp add: finite_epochs)
    have "(?M - fst x) mod N = 0" using x inM(2) le by (metis mod_eq_iff_dvd_symdiff_nat dvd_imp_mod_0 mod_eq_dvd_iff_nat)
    moreover have "?M - fst x < N" using conjunct2 [OF x] now le by linarith
    ultimately show "fst x = ?M \<and> now < ?M + N" using le x by simp
  qed (use inM in auto)
  have "filter (\<lambda>x. fst x mod N = i \<and> now < fst x + N) evs = (if now < ?M + N then filter (\<lambda>x. fst x = ?M) evs else [])"
    using same by (auto cong: filter_cong)
  moreover have "filter (\<lambda>x. fst x = ?M) evs \<noteq> []" using inM(1) by (force simp: filter_empty_conv)
  ultimately show ?thesis using M pos now by (simp add: samples_at_def)
qed

lemma fold_merge:
  "fold (\<lambda>i h. if f i = [] then h else merge h (histogram_of (map snd (f i)))) is (histogram_of ys)
    = histogram_of (ys @ concat (map (\<lambda>i. map snd (f i)) is))"
  by (induction "is" arbitrary: ys) (auto simp: merge_histogram_of)

lemma residues:
  "mset (concat (map (\<lambda>i. map g (filter (\<lambda>x. k x = i \<and> P x) xs)) [0..<n])) = mset (map g (filter (\<lambda>x. k x < (n::nat) \<and> P x) xs))"
proof (induction n)
  case (Suc n)
  have "mset (map g (filter (\<lambda>x. k x < Suc n \<and> P x) xs))
      = mset (map g (filter (\<lambda>x. k x < n \<and> P x) xs)) + mset (map g (filter (\<lambda>x. k x = n \<and> P x) xs))"
    by (induction xs) auto
  with Suc show ?case by simp
qed simp

lemma ring_window_exact:
  assumes "0 < N" "ring_holds N evs ring" "length evs < 2 ^ 64" "\<forall>x\<in>set evs. fst x \<le> now div w"
  shows "ring_window w N now ring = histogram_of (map snd (filter (\<lambda>x. now div w < fst x + N) evs))"
proof (cases "evs = []")
  case True
  then show ?thesis using assms(2) by (simp add: ring_holds_def ring_window_def histogram_of_Nil)
next
  case False
  let ?f = "\<lambda>i. filter (\<lambda>x. fst x mod N = i \<and> now div w < fst x + N) evs"
  let ?c = "\<lambda>s h. if 0 < h_count (slot_histogram s) \<and> now div w < epoch s + N \<and> epoch s \<le> now div w
      then merge h (slot_histogram s) else h"
  have len: "length ring = N" and holds: "\<And>i. i < N \<Longrightarrow> slot_holds N i evs (ring ! i)"
    using assms(2) False by (simp_all add: ring_holds_def)
  have nth: "ring = map (\<lambda>i. ring ! i) [0..<N]" using map_nth [of ring] len by simp
  have "fold ?c ring histogram_default = fold ?c (map (\<lambda>i. ring ! i) [0..<N]) histogram_default"
    by (rule arg_cong [OF nth, of "\<lambda>r. fold ?c r histogram_default"])
  also have "\<dots> = fold (\<lambda>i. ?c (ring ! i)) [0..<N] histogram_default" unfolding fold_map comp_def ..
  also have "\<dots> = fold (\<lambda>i h. if ?f i = [] then h else merge h (histogram_of (map snd (?f i)))) [0..<N] histogram_default"
    
  proof (intro fold_cong refl ext)
    fix i h assume "i \<in> set [0..<N]"
    then have "i < N" by simp
    from window_slot [OF holds [OF this] assms(3,1,4)]
    show "?c (ring ! i) h = (if ?f i = [] then h else merge h (histogram_of (map snd (?f i))))" .
  qed
  also have "\<dots> = histogram_of (concat (map (\<lambda>i. map snd (?f i)) [0..<N]))"
    using fold_merge [of ?f "[0..<N]" "[]"] by (simp add: histogram_of_Nil)
  also have "\<dots> = histogram_of (map snd (filter (\<lambda>x. now div w < fst x + N) evs))"
    using residues [of snd "\<lambda>x. fst x mod N" "\<lambda>x. now div w < fst x + N" evs N] assms(1)
    by (intro histogram_of_mset) simp
  finally show ?thesis by (simp add: ring_window_def Let_def)
qed

subsection \<open>Lemmas: the three rings\<close>

definition series_run :: "(nat \<times> nat \<times> bool) list \<Rightarrow> series" where
  "series_run evs = fold (\<lambda>(since, us, m). series_record since us m) evs series_default"

definition tier_events :: "nat \<Rightarrow> (nat \<times> nat \<times> bool) list \<Rightarrow> events" where
  "tier_events w evs = map (\<lambda>(since, us, m). (since div w, min us u64_max, m)) evs"

lemma series_run_holds:
  assumes "length evs < 2 ^ 64" "tier < 3"
  shows "length (series_run evs) = 3
    \<and> ring_holds (snd (snd (TIERS ! tier))) (tier_events (fst (snd (TIERS ! tier))) evs) (series_run evs ! tier)"
  using assms(1)
proof (induction evs rule: rev_induct)
  case Nil
  have "tier = 0 \<or> tier = 1 \<or> tier = 2" using assms(2) by auto
  then show ?case by (auto simp: series_run_def series_default_def ring_holds_def tier_events_def)
next
  case (snoc e evs)
  obtain since us m where e: "e = (since, us, m)" by (cases e) auto
  let ?w = "fst (snd (TIERS ! tier))" and ?N = "snd (snd (TIERS ! tier))"
  have tiers: "length TIERS = 3" by (simp add: TIERS_def)
  have "tier = 0 \<or> tier = 1 \<or> tier = 2" using assms(2) by auto
  then have N: "0 < ?N" by (auto simp: TIERS_def)
  have ih: "length (series_run evs) = 3" "ring_holds ?N (tier_events ?w evs) (series_run evs ! tier)"
    using snoc by simp_all
  have step: "series_run (evs @ [e]) = series_record since us m (series_run evs)" by (simp add: series_run_def e)
  have at: "series_run (evs @ [e]) ! tier = record_ring ?w ?N since (min us u64_max) m (series_run evs ! tier)"
    unfolding step series_record_def using ih(1) tiers assms(2) by (simp add: split_beta)
  have len: "length (tier_events ?w evs) < 2 ^ 64" using snoc.prems by (simp add: tier_events_def)
  have "ring_holds ?N (tier_events ?w (evs @ [e])) (series_run (evs @ [e]) ! tier)"
    unfolding at using record_ring_holds [OF N ih(2) len] by (simp add: tier_events_def e)
  moreover have "length (series_run (evs @ [e])) = 3" unfolding step series_record_def using ih(1) tiers by simp
  ultimately show ?case by blast
qed

subsection \<open>Lemmas: minutes\<close>

text \<open>
  Preflighted minutes stay within capacity. When every slot holds at most one billion and the
  preflight accepts a minute of at most one billion, recording it keeps every slot within one billion.
\<close>

lemma preflight_bounds_slots:
  assumes "\<forall>s\<in>set slots. h_count (snd s) \<le> MAX_SLOT_COUNT" and "slots = [] \<or> length slots = SLOTS"
    and "m_count sample \<le> MAX_SLOT_COUNT" and "can_record slots sample"
  shows "(\<forall>s\<in>set (interval_record now sample slots). h_count (snd s) \<le> MAX_SLOT_COUNT)
    \<and> (interval_record now sample slots = [] \<or> length (interval_record now sample slots) = SLOTS)"
proof -
  let ?e = "start_ms sample div MINUTE_MS" and ?i = "start_ms sample div MINUTE_MS mod SLOTS"
  let ?slots = "if slots = [] then replicate SLOTS (0, histogram_default) else slots"
  obtain old h where at: "?slots ! ?i = (old, h)" by (cases "?slots ! ?i")
  have len: "length ?slots = SLOTS" "?i < SLOTS" using assms(2) by (auto simp: SLOTS_def)
  have all: "\<forall>s\<in>set ?slots. h_count (snd s) \<le> MAX_SLOT_COUNT" using assms(1) by (simp add: histogram_default_def)
  have "(if old \<noteq> ?e then 0 else h_count h) + m_count sample \<le> MAX_SLOT_COUNT"
  proof (cases "slots = []")
    case True
    then show ?thesis using assms(3) at len by (simp add: histogram_default_def) (auto simp: histogram_default_def)
  next
    case False
    then show ?thesis using assms(3,4) at len assms(2) by (auto simp: can_record_def Let_def)
  qed
  then have new: "h_count (merge (if old \<noteq> ?e then histogram_default else h) x) \<le> MAX_SLOT_COUNT"
    if "h_count x = m_count sample" for x
    using that by (auto simp: merge_def add64_def histogram_default_def MAX_SLOT_COUNT_def split: if_splits)
  define H where "H = merge (if old \<noteq> ?e then histogram_default else h) \<lparr>h_count = m_count sample, over = m_over sample,
      max_us = m_max sample, buckets = map (\<lambda>(bound, n). (bucket bound, n)) (m_buckets sample)\<rparr>"
  have H: "h_count H \<le> MAX_SLOT_COUNT" unfolding H_def by (rule new) simp
  define ss where "ss = ?slots"
  have ss: "length ss = SLOTS" "\<forall>s\<in>set ss. h_count (snd s) \<le> MAX_SLOT_COUNT" using len(1) all by (simp_all add: ss_def)
  have "set (ss[?i := (?e, H)]) \<subseteq> insert (?e, H) (set ss)" by (rule set_update_subset_insert)
  then have upd: "\<forall>s\<in>set (ss[?i := (?e, H)]). h_count (snd s) \<le> MAX_SLOT_COUNT" using ss(2) H by auto
  have "interval_record now sample slots \<in> {slots, ss, ss[?i := (?e, H)]}"
    using at unfolding interval_record_def H_def ss_def Let_def by (simp only: prod.case) simp
  then show ?thesis using assms(1,2) ss upd by (elim insertE emptyE) simp_all
qed

subsection \<open>Properties\<close>

text \<open>
  Buckets keep a sample within a sixteenth. Every \<open>u64\<close> falls in one of 976 buckets; a bucket's
  upper bound is its own member and no member exceeds it, a value is at most its bucket's bound, and
  the bound exceeds the value by at most a sixteenth of it.
\<close>

lemma bucket_within_sixteenth:
  assumes "us < 2 ^ 64"
  shows "bucket us < 976 \<and> us \<le> upper (bucket us) \<and> upper (bucket us) \<le> us + us div 16
    \<and> bucket (upper (bucket us)) = bucket us \<and> (\<forall>v < 2 ^ 64. bucket v = bucket us \<longrightarrow> v \<le> upper (bucket us))"
  using upper_bucket [OF assms] upper_bucket(1) by metis

text \<open>
  A window counts exactly its samples. Whatever samples a series recorded, from whatever threads
  and in whatever order, the window of each of its three tiers read at a later second is the
  histogram of exactly the samples whose slots are not a whole ring old, with count, misses, maximum
  and bucket counts as if only those had been recorded.
\<close>

lemma window_counts_exactly:
  assumes "length evs < 2 ^ 64" and "tier < 3" and "\<forall>x\<in>set evs. fst x \<le> now" and "TIERS ! tier = (name, w, N)"
  shows "series_window (series_run evs) tier now =
    histogram_of (map (\<lambda>(_, us, m). (min us u64_max, m)) (filter (\<lambda>x. now div w < fst x div w + N) evs))"
proof -
  have N: "0 < N" using assms(2,4) by (auto simp: TIERS_def less_Suc_eq numeral_3_eq_3)
  have holds: "ring_holds N (tier_events w evs) (series_run evs ! tier)"
    using series_run_holds [OF assms(1,2)] assms(4) by simp
  have "ring_window w N now (series_run evs ! tier)
      = histogram_of (map snd (filter (\<lambda>x. now div w < fst x + N) (tier_events w evs)))"
    using assms(1,3) by (intro ring_window_exact [OF N holds]) (auto simp: tier_events_def intro!: div_le_mono)
  moreover have "map snd (filter (\<lambda>x. now div w < fst x + N) (tier_events w evs))
      = map (\<lambda>(_, us, m). (min us u64_max, m)) (filter (\<lambda>x. now div w < fst x div w + N) evs)"
    by (simp add: tier_events_def filter_map comp_def split_beta)
  ultimately show ?thesis by (simp add: series_window_def assms(4))
qed

text \<open>
  A percentile names a sample. For a window of samples, the reported percentile lies between the
  sample of that rank and a sixteenth above it, and never above the largest sample.
\<close>

lemma percentile_near_sample:
  assumes "\<forall>x\<in>set xs. fst x < 2 ^ 64" and "length xs * 100 < 2 ^ 64" and "xs \<noteq> []" and "p \<le> 100"
  shows "ranked xs (rank_of (length xs) p) \<le> percentile (histogram_of xs) p
    \<and> percentile (histogram_of xs) p \<le> ranked xs (rank_of (length xs) p) + ranked xs (rank_of (length xs) p) div 16
    \<and> percentile (histogram_of xs) p \<le> max_us (histogram_of xs)"
proof -
  let ?x = "ranked xs (rank_of (length xs) p)"
  have "1 \<le> rank_of (length xs) p" "rank_of (length xs) p \<le> length xs"
    using rank_range [of "length xs" p] assms(3,4) by simp_all
  then have "?x \<in> set (sort (map fst xs))" unfolding ranked_def by (intro nth_mem) simp
  then have x: "?x \<in> fst ` set xs" by simp
  then have "?x < 2 ^ 64" using assms(1) by auto
  moreover have "?x \<le> fold max (map fst xs) 0"
    using x Max.set_eq_fold [of 0 "map fst xs"] by (metis List.finite_set Max_ge image_set list.set_intros(2) max_0L fold_simps(2) set_map)
  ultimately show ?thesis using percentile_value [OF assms] upper_bucket [of ?x] by (simp add: histogram_of_def min_def)
qed

end
