(* ===== verification/Writer_Queue.thy ===== *)
theory Writer_Queue
  imports Prelude "HOL-Library.Multiset" "HOL-Library.Sublist"
begin

section \<open>The single writer: admission, loans, fences and group commit\<close>

text \<open>
  Models \<open>crates/smallclaims/src/sqlite/writer_queue.rs\<close> (the background queue and the admission that
  interleaves it with the foreground channel), the sending side and the group commit of
  \<open>crates/smallclaims/src/sqlite.rs\<close> (\<open>send\<close>, \<open>lend_writer\<close>, \<open>enqueue_background\<close>,
  \<open>run_write_batch\<close>) and the pending clocks of \<open>fifo.rs\<close>. A job is named by a number; the channel is
  the list of messages not yet received; a receive on an empty open channel is \<open>Blocked\<close>.
\<close>

subsection \<open>Jobs and the background queue\<close>

datatype writer_job = Batched nat | Lend nat | FenceLend nat nat | BackgroundReady

definition FOREGROUND_TURNS :: nat where "FOREGROUND_TURNS = 8"
definition WRITE_BATCH_LIMIT :: nat where "WRITE_BATCH_LIMIT = 256"

record background_queue =
  last_sequence :: nat
  bg_closed :: bool
  bg_jobs :: "(nat \<times> writer_job) list"

definition background_default :: background_queue where
  "background_default = \<lparr>last_sequence = 0, bg_closed = False, bg_jobs = []\<rparr>"

text \<open>\<open>push\<close>: whether a wake is needed. A closed queue and an exhausted counter panic.\<close>

definition push :: "writer_job \<Rightarrow> background_queue \<Rightarrow> (bool \<times> background_queue) option" where
  "push job q =
     (if bg_closed q \<or> last_sequence q = u64_max then None
      else Some (bg_jobs q = [],
        q\<lparr>last_sequence := last_sequence q + 1, bg_jobs := bg_jobs q @ [(last_sequence q + 1, job)]\<rparr>))"

definition watermark :: "background_queue \<Rightarrow> nat" where
  "watermark q = last_sequence q"

definition pop :: "nat \<Rightarrow> background_queue \<Rightarrow> (writer_job \<times> background_queue) option" where
  "pop through q =
     (case bg_jobs q of
        [] \<Rightarrow> None
      | (n, job) # js \<Rightarrow> if n \<le> through then Some (job, q\<lparr>bg_jobs := js\<rparr>) else None)"

definition has_pending :: "background_queue \<Rightarrow> bool" where
  "has_pending q = (bg_jobs q \<noteq> [])"

definition close_background :: "background_queue \<Rightarrow> background_queue" where
  "close_background q = q\<lparr>bg_closed := True, bg_jobs := []\<rparr>"

subsection \<open>The writer's state\<close>

record writer =
  channel :: "writer_job list"
  connected :: bool
  next_job :: "writer_job option"
  ready :: bool
  foreground_turns :: nat
  shared :: "background_queue option"
  admission_closed :: bool

text \<open>\<open>ready\<close> is \<open>background.is_some()\<close> of the admission: it has received the shared queue.\<close>

definition writer_new :: writer where
  "writer_new = \<lparr>channel = [], connected = True, next_job = None, ready = False, foreground_turns = 0,
     shared = None, admission_closed = False\<rparr>"

definition the_queue :: "writer \<Rightarrow> background_queue" where
  "the_queue w = (case shared w of None \<Rightarrow> background_default | Some q \<Rightarrow> q)"

definition send :: "writer_job \<Rightarrow> writer \<Rightarrow> writer" where
  "send job w = w\<lparr>channel := channel w @ [job]\<rparr>"

definition enqueue_background :: "nat \<Rightarrow> writer \<Rightarrow> writer option" where
  "enqueue_background job w =
     (let q = (if admission_closed w then close_background (the_queue w) else the_queue w)
      in case push (Lend job) q of
           None \<Rightarrow> None
         | Some (wake, q) \<Rightarrow>
             (let w = w\<lparr>shared := Some q\<rparr> in Some (if wake then send BackgroundReady w else w)))"

definition lend_foreground :: "nat \<Rightarrow> writer \<Rightarrow> writer" where
  "lend_foreground job w = send (Lend job) w"

definition write_fence :: "nat \<Rightarrow> writer \<Rightarrow> writer" where
  "write_fence job w =
     (let through = (case shared w of None \<Rightarrow> 0 | Some q \<Rightarrow> watermark q)
      in send (if through = 0 then Lend job else FenceLend through job) w)"

subsection \<open>Admission\<close>

datatype outcome = Dispatch writer_job | Loan writer_job | Blocked | Closed

text \<open>
  \<open>Loan\<close> is a job that came from the background queue. The part of \<open>next\<close> after a message that is
  not a notification:
\<close>

definition admit :: "writer_job \<Rightarrow> writer \<Rightarrow> outcome \<times> writer" where
  "admit job w =
     (if ready w then
        let through = (case job of FenceLend t _ \<Rightarrow> Some t
                       | _ \<Rightarrow> if FOREGROUND_TURNS \<le> foreground_turns w then Some u64_max else None)
        in case (case through of None \<Rightarrow> None | Some t \<Rightarrow> pop t (the_queue w)) of
             Some (loan, q) \<Rightarrow> (Loan loan, w\<lparr>next_job := Some job, foreground_turns := 0, shared := Some q\<rparr>)
           | None \<Rightarrow> (Dispatch job, w\<lparr>foreground_turns := (if has_pending (the_queue w) then foreground_turns w + 1 else 0)\<rparr>)
      else (Dispatch job, w))"

definition recv_empty :: "writer \<Rightarrow> outcome \<times> writer" where
  "recv_empty w = (if connected w then Blocked else Closed, w)"

text \<open>The loop takes a put-back job or the next message; each turn of it consumes one.\<close>

function admission_next :: "writer \<Rightarrow> outcome \<times> writer" where
  "admission_next w =
     (case next_job w of
        Some job \<Rightarrow>
          if job = BackgroundReady then admission_next (w\<lparr>next_job := None, ready := True\<rparr>)
          else admit job (w\<lparr>next_job := None\<rparr>)
      | None \<Rightarrow>
          (case channel w of
             job # rest \<Rightarrow>
               if job = BackgroundReady then admission_next (w\<lparr>channel := rest, ready := True\<rparr>)
               else admit job (w\<lparr>channel := rest\<rparr>)
           | [] \<Rightarrow>
               if \<not> ready w then recv_empty w
               else case pop u64_max (the_queue w) of
                 Some (job, q) \<Rightarrow> (Loan job, w\<lparr>foreground_turns := 0, shared := Some q\<rparr>)
               | None \<Rightarrow> recv_empty w))"
  by pat_completeness auto
termination
  by (relation "measure (\<lambda>w. length (channel w) + (if next_job w = None then 0 else 1))") auto

declare admission_next.simps [simp del]

definition put_back :: "writer_job option \<Rightarrow> writer \<Rightarrow> writer" where
  "put_back job w = w\<lparr>next_job := job\<rparr>"

text \<open>Dropping the admission, as when the writer thread ends.\<close>

definition admission_drop :: "writer \<Rightarrow> writer" where
  "admission_drop w = w\<lparr>admission_closed := True, shared := map_option close_background (shared w)\<rparr>"

subsection \<open>Group commit\<close>

text \<open>
  The jobs of a batch are run against the open transaction: \<open>run\<close> gives a job's effect and whether it
  succeeded (its savepoint is rolled back otherwise); \<open>savepoint_ok i\<close> says whether the savepoint
  statements of the \<open>i\<close>th job work, and \<open>in_window i\<close> whether the batch's time is not yet over after
  \<open>i\<close> answers. The result is the jobs answered, the transaction's rows, whether it failed, the job
  handed back and what is left of the channel.
\<close>

fun batch_loop ::
  "(nat \<Rightarrow> 'db \<Rightarrow> bool \<times> 'db) \<Rightarrow> (nat \<Rightarrow> bool) \<Rightarrow> (nat \<Rightarrow> bool) \<Rightarrow> nat list \<Rightarrow> 'db \<Rightarrow> bool \<Rightarrow> writer_job list
    \<Rightarrow> nat list \<times> 'db \<times> bool \<times> writer_job option \<times> writer_job list"
where
  "batch_loop run savepoint_ok in_window answers db failed [] = (answers, db, failed, None, [])"
| "batch_loop run savepoint_ok in_window answers db failed (job # rest) =
     (case job of
        Batched j \<Rightarrow>
          (let (db', failed') =
                 (if failed then (db, True)
                  else if \<not> savepoint_ok (length answers) then (db, True)
                  else case run j db of (ok, db') \<Rightarrow> (if ok then db' else db, False));
               answers' = answers @ [j]
           in if \<not> failed' \<and> length answers' < WRITE_BATCH_LIMIT \<and> in_window (length answers')
              then batch_loop run savepoint_ok in_window answers' db' failed' rest
              else (answers', db', failed', None, rest))
      | _ \<Rightarrow> (answers, db, failed, Some job, rest))"

text \<open>The whole batch: the committed rows, the answer every caller gets, and the writer after it.\<close>

definition run_write_batch ::
  "(nat \<Rightarrow> 'db \<Rightarrow> bool \<times> 'db) \<Rightarrow> bool \<Rightarrow> (nat \<Rightarrow> bool) \<Rightarrow> (nat \<Rightarrow> bool) \<Rightarrow> bool \<Rightarrow> bool \<Rightarrow> nat \<Rightarrow> 'db \<Rightarrow> writer
    \<Rightarrow> (nat \<times> bool) list \<times> 'db \<times> writer"
where
  "run_write_batch run begin_ok savepoint_ok in_window finalize_ok commit_ok first db w =
     (let (answers, db', failed, lend, rest) =
            batch_loop run savepoint_ok in_window [] db (\<not> begin_ok) (Batched first # channel w);
          committed = (\<not> failed \<and> finalize_ok \<and> commit_ok)
      in (map (\<lambda>j. (j, committed)) answers, if committed then db' else db, put_back lend (w\<lparr>channel := rest\<rparr>)))"

subsection \<open>Pending clocks\<close>

record clocks =
  enabled :: bool
  clocks_pending :: "nat list"

definition send_at :: "nat \<Rightarrow> bool \<Rightarrow> clocks \<Rightarrow> clocks" where
  "send_at enqueued sent q = (if enabled q \<and> sent then q\<lparr>clocks_pending := clocks_pending q @ [enqueued]\<rparr> else q)"

definition dequeued :: "clocks \<Rightarrow> clocks" where
  "dequeued q = (if enabled q then q\<lparr>clocks_pending := tl (clocks_pending q)\<rparr> else q)"

definition dequeued_at :: "nat \<Rightarrow> clocks \<Rightarrow> clocks" where
  "dequeued_at enqueued q = (if enabled q then q\<lparr>clocks_pending := remove1 enqueued (clocks_pending q)\<rparr> else q)"

definition receiver_drop :: "clocks \<Rightarrow> clocks" where
  "receiver_drop q = (if enabled q then q\<lparr>clocks_pending := []\<rparr> else q)"

subsection \<open>Runs of the writer\<close>

text \<open>
  Callers send, borrow, borrow in the background and fence in any order; \<open>Turn\<close> is one pass of the
  writer's loop, with what the batch it may run meets (whether it begins, its savepoints, its window).
  A panic is \<^const>\<open>None\<close>.
\<close>

datatype writer_op = Write nat | Borrow nat | Borrow_Background nat | Fence nat
  | Turn bool "nat \<Rightarrow> bool" "nat \<Rightarrow> bool"

definition turn :: "bool \<Rightarrow> (nat \<Rightarrow> bool) \<Rightarrow> (nat \<Rightarrow> bool) \<Rightarrow> writer \<Rightarrow> outcome \<times> writer" where
  "turn begin_ok savepoint_ok in_window w =
     (case admission_next w of
        (Dispatch (Batched j), w') \<Rightarrow>
          (Dispatch (Batched j),
           snd (snd (run_write_batch (\<lambda>_ _. (True, ())) begin_ok savepoint_ok in_window True True j () w')))
      | r \<Rightarrow> r)"

fun writer_step :: "writer_op \<Rightarrow> writer \<Rightarrow> (outcome list \<times> writer) option" where
  "writer_step (Write j) w = Some ([], send (Batched j) w)"
| "writer_step (Borrow j) w = Some ([], lend_foreground j w)"
| "writer_step (Borrow_Background j) w = map_option (\<lambda>w. ([], w)) (enqueue_background j w)"
| "writer_step (Fence j) w = Some ([], write_fence j w)"
| "writer_step (Turn b s i) w = (case turn b s i w of (r, w') \<Rightarrow> Some ([r], w'))"

fun writer_run :: "writer_op list \<Rightarrow> writer \<Rightarrow> (outcome list \<times> writer) option" where
  "writer_run [] w = Some ([], w)"
| "writer_run (op # ops) w =
     (case writer_step op w of
        None \<Rightarrow> None
      | Some (rs, w') \<Rightarrow> map_option (\<lambda>(rs', w''). (rs @ rs', w'')) (writer_run ops w'))"

subsection \<open>Lemmas: the invariant\<close>

definition msgs :: "writer \<Rightarrow> writer_job list" where
  "msgs w = (case next_job w of None \<Rightarrow> [] | Some j \<Rightarrow> [j]) @ channel w"

definition notified :: "bool \<Rightarrow> writer_job list \<Rightarrow> bool" where
  "notified rdy ms =
     (\<forall>pre t j post. ms = pre @ FenceLend t j # post \<longrightarrow> rdy \<or> BackgroundReady \<in> set pre)"

definition writer_invariant :: "writer \<Rightarrow> bool" where
  "writer_invariant w =
     (notified (ready w) (msgs w) \<and> (0 < last_sequence (the_queue w) \<longrightarrow> ready w \<or> BackgroundReady \<in> set (msgs w))
      \<and> sorted_wrt (\<lambda>a b. fst a < fst b) (bg_jobs (the_queue w))
      \<and> (\<forall>x\<in>set (bg_jobs (the_queue w)). 0 < fst x \<and> fst x \<le> last_sequence (the_queue w))
      \<and> last_sequence (the_queue w) \<le> u64_max)"

lemma notified_Nil: "notified rdy []"
  and notified_ready: "notified True ms"
  by (simp_all add: notified_def)

lemma notified_tl:
  assumes "notified rdy (j # ms)" "j \<noteq> BackgroundReady"
  shows "notified rdy ms"
  unfolding notified_def
proof (intro allI impI)
  fix pre t i post assume "ms = pre @ FenceLend t i # post"
  then have "j # ms = (j # pre) @ FenceLend t i # post" by simp
  with assms show "rdy \<or> BackgroundReady \<in> set pre" unfolding notified_def by (metis set_ConsD)
qed

lemma notified_snoc:
  assumes "notified rdy ms" "\<And>t i. j = FenceLend t i \<Longrightarrow> rdy \<or> BackgroundReady \<in> set ms"
  shows "notified rdy (ms @ [j])"
  unfolding notified_def
proof (intro allI impI)
  fix pre t i post assume eq: "ms @ [j] = pre @ FenceLend t i # post"
  show "rdy \<or> BackgroundReady \<in> set pre"
  proof (cases post rule: rev_cases)
    case Nil
    with eq assms(2) show ?thesis by simp
  next
    case (snoc p l)
    with eq have "ms = pre @ FenceLend t i # p" by (metis append_Cons append_assoc butlast_snoc)
    with assms(1) show ?thesis unfolding notified_def by blast
  qed
qed

lemma notified_suffix: "notified rdy (Batched j # ms) \<Longrightarrow> notified rdy ms"
  by (rule notified_tl [of rdy "Batched j"]) simp_all

lemma msgs_send: "msgs (send j w) = msgs w @ [j]"
  and the_queue_send: "the_queue (send j w) = the_queue w"
  by (simp_all add: msgs_def send_def the_queue_def)

lemma writer_invariant_new: "writer_invariant writer_new"
  by (simp add: writer_invariant_def writer_new_def the_queue_def background_default_def msgs_def notified_Nil)

lemma invariant_send:
  assumes "writer_invariant w" "\<And>t i. j = FenceLend t i \<Longrightarrow> ready w \<or> BackgroundReady \<in> set (msgs w)"
  shows "writer_invariant (send j w)"
proof -
  have "ready (send j w) = ready w" by (simp add: send_def)
  with assms notified_snoc [of "ready w" "msgs w" j] show ?thesis
    by (auto simp: writer_invariant_def msgs_send the_queue_send)
qed

lemma invariant_fence:
  assumes "writer_invariant w"
  shows "writer_invariant (write_fence j w)"
  unfolding write_fence_def Let_def
proof (rule invariant_send [OF assms])
  fix t i assume "(if (case shared w of None \<Rightarrow> 0 | Some q \<Rightarrow> watermark q) = 0 then Lend j
      else FenceLend (case shared w of None \<Rightarrow> 0 | Some q \<Rightarrow> watermark q) j) = FenceLend t i"
  then have "0 < last_sequence (the_queue w)"
    by (auto simp: the_queue_def watermark_def split: option.splits if_splits)
  with assms show "ready w \<or> BackgroundReady \<in> set (msgs w)" by (simp add: writer_invariant_def)
qed

lemma invariant_background:
  assumes inv: "writer_invariant w" and b: "enqueue_background j w = Some w'"
  shows "writer_invariant w'"
proof -
  let ?q = "the_queue w"
  have open_w: "\<not> admission_closed w" "last_sequence ?q \<noteq> u64_max"
    using b by (auto simp: enqueue_background_def push_def close_background_def Let_def split: if_splits option.splits)
  define q where "q = ?q\<lparr>last_sequence := last_sequence ?q + 1, bg_jobs := bg_jobs ?q @ [(last_sequence ?q + 1, Lend j)]\<rparr>"
  have w': "w' = (if bg_jobs ?q = [] then send BackgroundReady (w\<lparr>shared := Some q\<rparr>) else w\<lparr>shared := Some q\<rparr>)"
    using b open_w by (auto simp: enqueue_background_def push_def q_def Let_def split: if_splits)
  have q: "sorted_wrt (\<lambda>a b. fst a < fst b) (bg_jobs q)"
    "\<forall>x\<in>set (bg_jobs q). 0 < fst x \<and> fst x \<le> last_sequence q" "last_sequence q \<le> u64_max"
    using inv open_w by (auto simp: writer_invariant_def q_def sorted_wrt_append)
  have "ready w \<or> BackgroundReady \<in> set (msgs w)" if "bg_jobs ?q \<noteq> []"
  proof -
    have "\<forall>x\<in>set (bg_jobs ?q). 0 < fst x \<and> fst x \<le> last_sequence ?q" using inv by (simp add: writer_invariant_def)
    then have "0 < last_sequence ?q" using that by (cases "bg_jobs ?q") auto
    with inv show ?thesis by (simp add: writer_invariant_def)
  qed
  with inv q show ?thesis unfolding w'
    by (auto simp: writer_invariant_def msgs_def send_def the_queue_def intro!: notified_snoc [of _ "_ @ _", simplified])
qed

lemma pop_None:
  assumes "writer_invariant w" "pop t (the_queue w) = None"
  shows "\<forall>x\<in>set (bg_jobs (the_queue w)). t < fst x"
proof (cases "bg_jobs (the_queue w)")
  case (Cons a js)
  then have "t < fst a" using assms(2) by (cases a) (simp add: pop_def split: if_splits)
  moreover have "\<forall>x\<in>set js. fst a < fst x" using assms(1) Cons by (simp add: writer_invariant_def)
  ultimately show ?thesis using Cons by auto
qed simp

lemma pop_all:
  assumes "writer_invariant w"
  shows "pop u64_max (the_queue w) = None \<longleftrightarrow> \<not> has_pending (the_queue w)"
proof -
  have "fst x \<le> u64_max" if "x \<in> set (bg_jobs (the_queue w))" for x
    using assms that unfolding writer_invariant_def by (meson le_trans)
  with pop_None [OF assms, of u64_max] show ?thesis
    by (cases "bg_jobs (the_queue w)") (force simp: pop_def has_pending_def)+
qed

lemma invariant_pop:
  assumes inv: "writer_invariant w" and p: "pop t (the_queue w) = Some (l, q)"
  shows "writer_invariant (w\<lparr>foreground_turns := 0, shared := Some q\<rparr>)" "last_sequence q = last_sequence (the_queue w)"
proof -
  obtain x js where q: "bg_jobs (the_queue w) = x # js" "q = (the_queue w)\<lparr>bg_jobs := js\<rparr>"
    using p by (auto simp: pop_def split: list.splits if_splits)
  then show "last_sequence q = last_sequence (the_queue w)" by simp
  have same: "msgs (w\<lparr>foreground_turns := 0, shared := Some q\<rparr>) = msgs w" by (simp add: msgs_def)
  show "writer_invariant (w\<lparr>foreground_turns := 0, shared := Some q\<rparr>)"
    using inv q unfolding writer_invariant_def same by (simp add: the_queue_def)
qed

fun is_fence :: "writer_job \<Rightarrow> bool" where
  "is_fence (FenceLend _ _) = True"
| "is_fence _ = False"

text \<open>What one call of \<open>next\<close> guarantees, by what it returns.\<close>

fun next_ok :: "writer \<Rightarrow> outcome \<times> writer \<Rightarrow> bool" where
  "next_ok w (Dispatch j, w') =
     (j \<noteq> BackgroundReady
      \<and> (\<forall>t i. j = FenceLend t i \<longrightarrow> (\<forall>x\<in>set (bg_jobs (the_queue w')). t < fst x))
      \<and> shared w' = shared w
      \<and> (ready w' \<and> has_pending (the_queue w') \<longrightarrow> foreground_turns w' = foreground_turns w + 1
           \<and> (is_fence j \<or> foreground_turns w < FOREGROUND_TURNS)))"
| "next_ok w (Loan j, w') = (map snd (bg_jobs (the_queue w)) = j # map snd (bg_jobs (the_queue w')))"
| "next_ok w (_, w') = (shared w' = shared w \<and> \<not> has_pending (the_queue w'))"

lemma admit_ok:
  assumes inv: "writer_invariant w" and head: "next_job w = None" and job: "job \<noteq> BackgroundReady"
    and fence: "\<And>t i. job = FenceLend t i \<Longrightarrow> ready w"
  shows "writer_invariant (snd (admit job w)) \<and> ready (snd (admit job w)) = ready w \<and> next_ok w (admit job w)
    \<and> (fst (admit job w) = Dispatch job \<longrightarrow> msgs (snd (admit job w)) = msgs w \<and> next_job (snd (admit job w)) = None)"
proof (cases "ready w")
  case False
  then have "admit job w = (Dispatch job, w)" by (simp add: admit_def)
  with inv head job fence False show ?thesis by auto
next
  case True
  define through where "through = (case job of FenceLend t _ \<Rightarrow> Some t
      | _ \<Rightarrow> if FOREGROUND_TURNS \<le> foreground_turns w then Some u64_max else None)"
  show ?thesis
  proof (cases "case through of None \<Rightarrow> None | Some t \<Rightarrow> pop t (the_queue w)")
    case (Some lq)
    obtain l q where lq: "lq = (l, q)" by (cases lq)
    then obtain t where t: "through = Some t" "pop t (the_queue w) = Some (l, q)" using Some by (auto split: option.splits)
    have a: "admit job w = (Loan l, w\<lparr>next_job := Some job, foreground_turns := 0, shared := Some q\<rparr>)"
      using True Some unfolding admit_def through_def [symmetric] by (simp add: lq)
    have "writer_invariant (w\<lparr>foreground_turns := 0, shared := Some q\<rparr>)" by (rule invariant_pop(1) [OF inv t(2)])
    then have "writer_invariant (w\<lparr>next_job := Some job, foreground_turns := 0, shared := Some q\<rparr>)"
      using True job by (simp add: writer_invariant_def the_queue_def notified_ready)
    moreover have "map snd (bg_jobs (the_queue w)) = l # map snd (bg_jobs q)"
      using t(2) by (auto simp: pop_def split: list.splits if_splits)
    ultimately show ?thesis using a True by (simp add: the_queue_def)
  next
    case None
    let ?w = "w\<lparr>foreground_turns := (if has_pending (the_queue w) then foreground_turns w + 1 else 0)\<rparr>"
    have a: "admit job w = (Dispatch job, ?w)" using True None unfolding admit_def through_def [symmetric] by simp
    have same: "the_queue ?w = the_queue w" "msgs ?w = msgs w" by (simp_all add: the_queue_def msgs_def)
    have small: "is_fence job \<or> foreground_turns w < FOREGROUND_TURNS" if "has_pending (the_queue w)"
    proof (rule ccontr)
      assume "\<not> ?thesis"
      then have "through = Some u64_max" by (auto simp: through_def split: writer_job.splits)
      with None pop_all [OF inv] that show False by simp
    qed
    have drained: "\<forall>x\<in>set (bg_jobs (the_queue w)). t < fst x" if "job = FenceLend t i" for t i
      using None that by (intro pop_None [OF inv]) (simp add: through_def)
    have "writer_invariant ?w" using inv by (simp add: writer_invariant_def same)
    then show ?thesis using a True job small drained head by (auto simp: same)
  qed
qed

lemma next_ok_cong:
  "shared v = shared w \<Longrightarrow> foreground_turns v = foreground_turns w \<Longrightarrow> next_ok v r = next_ok w r"
  by (cases r; cases "fst r") (auto simp: the_queue_def)

lemma invariant_drop_head:
  assumes inv: "writer_invariant w" and m: "msgs w = j # ms" and w': "msgs w' = ms" "shared w' = shared w"
    "ready w' = (ready w \<or> j = BackgroundReady)"
  shows "writer_invariant w'"
proof -
  have q: "the_queue w' = the_queue w" using w'(2) by (simp add: the_queue_def)
  have "notified (ready w') ms"
    using inv m w'(3) notified_tl [of "ready w" j ms] by (cases "j = BackgroundReady") (auto simp: writer_invariant_def notified_ready)
  with inv show ?thesis unfolding writer_invariant_def q w'(1,3) by (auto simp: m)
qed

lemma head_fence:
  assumes "writer_invariant w" "msgs w = FenceLend t i # ms"
  shows "ready w"
proof -
  have "notified (ready w) (FenceLend t i # ms)" using assms by (simp add: writer_invariant_def)
  then have "ready w \<or> BackgroundReady \<in> set []" unfolding notified_def by blast
  then show ?thesis by simp
qed

text \<open>Everything one call of \<open>next\<close> keeps.\<close>

definition admitted :: "writer \<Rightarrow> outcome \<times> writer \<Rightarrow> bool" where
  "admitted w r =
     (writer_invariant (snd r) \<and> (ready w \<longrightarrow> ready (snd r)) \<and> next_ok w r
      \<and> (\<forall>j. fst r = Dispatch j \<longrightarrow> next_job (snd r) = None))"

lemma admission_idle:
  assumes inv: "writer_invariant w" and m: "msgs w = []"
  shows "admitted w (admission_next w)"
proof -
  have e: "next_job w = None" "channel w = []" using m by (auto simp: msgs_def split: option.splits)
  have idle: "\<not> has_pending (the_queue w)" if "\<not> ready w"
  proof -
    have "last_sequence (the_queue w) = 0" using inv that m by (auto simp: writer_invariant_def)
    with inv have "bg_jobs (the_queue w) = []" unfolding writer_invariant_def by (cases "bg_jobs (the_queue w)") auto
    then show ?thesis by (simp add: has_pending_def)
  qed
  show ?thesis
  proof (cases "ready w \<and> has_pending (the_queue w)")
    case True
    then obtain l q where p: "pop u64_max (the_queue w) = Some (l, q)" using pop_all [OF inv] by fastforce
    have "map snd (bg_jobs (the_queue w)) = l # map snd (bg_jobs q)"
      using p by (auto simp: pop_def split: list.splits if_splits)
    moreover have "admission_next w = (Loan l, w\<lparr>foreground_turns := 0, shared := Some q\<rparr>)"
      using e True p by (subst admission_next.simps) simp
    ultimately show ?thesis using True invariant_pop(1) [OF inv p] by (simp add: the_queue_def admitted_def)
  next
    case False
    have "admission_next w = recv_empty w"
      using e False idle pop_all [OF inv] by (subst admission_next.simps) (auto split: option.splits)
    moreover have "\<not> has_pending (the_queue w)" using False idle by blast
    ultimately show ?thesis using inv by (simp add: recv_empty_def admitted_def)
  qed
qed

text \<open>The writer with its first message taken.\<close>

definition taken :: "writer \<Rightarrow> writer" where
  "taken w = (case next_job w of Some _ \<Rightarrow> w\<lparr>next_job := None\<rparr> | None \<Rightarrow> w\<lparr>channel := tl (channel w)\<rparr>)"

lemma taken_fields:
  assumes "msgs w = j # ms"
  shows "msgs (taken w) = ms" "shared (taken w) = shared w" "foreground_turns (taken w) = foreground_turns w"
    "ready (taken w) = ready w" "next_job (taken w) = None"
  using assms by (auto simp: taken_def msgs_def split: option.splits)

lemma admission_step:
  assumes "msgs w = j # ms"
  shows "admission_next w = (if j = BackgroundReady then admission_next ((taken w)\<lparr>ready := True\<rparr>) else admit j (taken w))"
  using assms by (subst admission_next.simps) (auto simp: taken_def msgs_def split: option.splits list.splits)

lemma admission_ok: "writer_invariant w \<Longrightarrow> admitted w (admission_next w)"
proof (induction "length (msgs w)" arbitrary: w rule: less_induct)
  case less
  show ?case
  proof (cases "msgs w")
    case Nil
    with less.prems show ?thesis by (rule admission_idle)
  next
    case (Cons j ms)
    note t = taken_fields [OF Cons] and step = admission_step [OF Cons]
    show ?thesis
    proof (cases "j = BackgroundReady")
      case True
      let ?v = "(taken w)\<lparr>ready := True\<rparr>"
      have m: "msgs ?v = ms" using t(1) by (simp add: msgs_def)
      have "writer_invariant ?v" using t True m by (intro invariant_drop_head [OF less.prems Cons]) simp_all
      then have "admitted ?v (admission_next ?v)" using m Cons by (intro less.hyps) simp_all
      then show ?thesis using step True next_ok_cong [of ?v w] t by (simp add: admitted_def)
    next
      case False
      have inv: "writer_invariant (taken w)" using t False by (intro invariant_drop_head [OF less.prems Cons]) simp_all
      have "ready (taken w)" if "j = FenceLend t i" for t i using head_fence [OF less.prems] Cons that t(4) by simp
      from admit_ok [OF inv t(5) False this] show ?thesis
        using step False next_ok_cong [OF t(2,3)] t(4)
        by (cases "admit j (taken w)") (auto simp: admitted_def admit_def Let_def split: option.splits if_splits)
    qed
  qed
qed

subsection \<open>Lemmas: a batch\<close>

text \<open>A job in its savepoint: its effect stays only if it says it succeeded.\<close>

definition savepointed :: "(nat \<Rightarrow> 'db \<Rightarrow> bool \<times> 'db) \<Rightarrow> nat \<Rightarrow> 'db \<Rightarrow> 'db" where
  "savepointed run j db = (if fst (run j db) then snd (run j db) else db)"

lemma batch_loop_spec:
  assumes "batch_loop run sp iw answers db failed ms = (answers', db', failed', lend, rest)"
    and "length answers < WRITE_BATCH_LIMIT"
  shows "\<exists>js. answers' = answers @ js \<and> ms = map Batched js @ (case lend of None \<Rightarrow> [] | Some l \<Rightarrow> [l]) @ rest
    \<and> length answers' \<le> WRITE_BATCH_LIMIT \<and> (\<forall>j k. ms = Batched j # k \<longrightarrow> js \<noteq> []) \<and> (\<not> failed' \<longrightarrow> \<not> failed \<and> db' = fold (savepointed run) js db)"
  using assms
proof (induction ms arbitrary: answers db failed)
  case (Cons job ms)
  show ?case
  proof (cases "\<exists>j. job = Batched j")
    case False
    with Cons.prems have "answers' = answers" "db' = db" "failed' = failed" "lend = Some job" "rest = ms"
      by (cases job; auto)+
    with Cons.prems(2) False show ?thesis by (intro exI [of _ "[]"]) simp
  next
    case True
    then obtain j where j: "job = Batched j" by blast
    define r where "r = (if failed then (db, True) else if \<not> sp (length answers) then (db, True)
        else case run j db of (ok, d) \<Rightarrow> (if ok then d else db, False))"
    have r: "\<not> snd r \<Longrightarrow> \<not> failed \<and> fst r = savepointed run j db"
      by (auto simp: r_def savepointed_def split: prod.splits if_splits)
    let ?go = "\<not> snd r \<and> length (answers @ [j]) < WRITE_BATCH_LIMIT \<and> iw (length (answers @ [j]))"
    have step: "batch_loop run sp iw answers db failed (job # ms) =
        (if ?go then batch_loop run sp iw (answers @ [j]) (fst r) (snd r) ms else (answers @ [j], fst r, snd r, None, ms))"
      by (simp add: j r_def Let_def split_beta)
    show ?thesis
    proof (cases ?go)
      case True
      have "batch_loop run sp iw (answers @ [j]) (fst r) (snd r) ms = (answers', db', failed', lend, rest)"
        using Cons.prems(1) unfolding step if_P [OF True] .
      from Cons.IH [OF this] True obtain js where js: "answers' = (answers @ [j]) @ js"
        "ms = map Batched js @ (case lend of None \<Rightarrow> [] | Some l \<Rightarrow> [l]) @ rest" "length answers' \<le> WRITE_BATCH_LIMIT"
        "\<not> failed' \<longrightarrow> \<not> snd r \<and> db' = fold (savepointed run) js (fst r)" by blast
      then show ?thesis using r True by (intro exI [of _ "j # js"]) (simp add: j)
    next
      case False
      then have "answers' = answers @ [j]" "db' = fst r" "failed' = snd r" "lend = None" "rest = ms"
        using Cons.prems(1) unfolding step if_not_P [OF False] by simp_all
      with r Cons.prems(2) show ?thesis by (intro exI [of _ "[j]"]) (simp add: j)
    qed
  qed
qed simp

lemma batch_spec:
  assumes "next_job w = None" and "run_write_batch run b sp iw fin com first db w = (rs, db', w')"
  shows "\<exists>js c. rs = map (\<lambda>j. (j, c)) js \<and> map Batched js @ msgs w' = Batched first # channel w
    \<and> js \<noteq> [] \<and> length js \<le> WRITE_BATCH_LIMIT \<and> db' = (if c then fold (savepointed run) js db else db)
    \<and> (c \<longrightarrow> b \<and> fin \<and> com) \<and> ready w' = ready w \<and> shared w' = shared w \<and> foreground_turns w' = foreground_turns w"
proof -
  obtain answers d failed lend rest where loop:
    "batch_loop run sp iw [] db (\<not> b) (Batched first # channel w) = (answers, d, failed, lend, rest)"
    by (metis prod_cases5)
  from batch_loop_spec [OF this] have spec: "Batched first # channel w = map Batched answers @ (case lend of None \<Rightarrow> [] | Some l \<Rightarrow> [l]) @ rest"
    "length answers \<le> WRITE_BATCH_LIMIT" "answers \<noteq> []" "\<not> failed \<longrightarrow> b \<and> d = fold (savepointed run) answers db"
    by (auto simp: WRITE_BATCH_LIMIT_def)
  let ?c = "\<not> failed \<and> fin \<and> com"
  have res: "rs = map (\<lambda>j. (j, ?c)) answers" "db' = (if ?c then d else db)" "w' = put_back lend (w\<lparr>channel := rest\<rparr>)"
    using assms(2) unfolding run_write_batch_def loop by (simp_all add: Let_def)
  have "msgs w' = (case lend of None \<Rightarrow> [] | Some l \<Rightarrow> [l]) @ rest" by (simp add: res(3) put_back_def msgs_def)
  with spec res show ?thesis by (intro exI [of _ answers] exI [of _ ?c]) (auto simp: put_back_def)
qed

lemma notified_batched: "notified rdy (map Batched js @ ms) \<Longrightarrow> notified rdy ms"
  by (induction js) (auto dest: notified_suffix)

lemma invariant_batch:
  assumes inv: "writer_invariant w" and n: "next_job w = None"
    and r: "run_write_batch run b sp iw fin com j db w = (rs, db', w')"
  shows "writer_invariant w' \<and> ready w' = ready w \<and> shared w' = shared w \<and> foreground_turns w' = foreground_turns w"
proof -
  obtain js where js: "map Batched js @ msgs w' = Batched j # channel w" "js \<noteq> []" and
    same: "ready w' = ready w" "shared w' = shared w" "foreground_turns w' = foreground_turns w"
    using batch_spec [OF n r] by blast
  have ch: "msgs w = channel w" using n by (simp add: msgs_def)
  have q: "the_queue w' = the_queue w" using same(2) by (simp add: the_queue_def)
  have suffix: "\<exists>is. msgs w = map Batched is @ msgs w'"
    using js ch by (cases js) (auto intro: sym)
  then obtain "is" where m: "msgs w = map Batched is @ msgs w'" by blast
  have "notified (ready w) (msgs w')" using inv m notified_batched by (auto simp: writer_invariant_def)
  moreover have "BackgroundReady \<in> set (msgs w')" if "BackgroundReady \<in> set (msgs w)" using that m by auto
  ultimately show ?thesis using inv same q by (simp add: writer_invariant_def) blast
qed

subsection \<open>Lemmas: turns and runs\<close>

lemma turn_ok:
  assumes "writer_invariant w" "turn b sp iw w = (r, w')"
  shows "writer_invariant w' \<and> (ready w \<longrightarrow> ready w') \<and> next_ok w (r, w')"
proof -
  obtain r1 w1 where n: "admission_next w = (r1, w1)" by (cases "admission_next w")
  from admission_ok [OF assms(1)] have a: "writer_invariant w1" "ready w \<longrightarrow> ready w1" "next_ok w (r1, w1)"
    "\<And>j. r1 = Dispatch j \<Longrightarrow> next_job w1 = None" by (auto simp: n admitted_def)
  show ?thesis
  proof (cases "\<exists>j. r1 = Dispatch (Batched j)")
    case False
    then have "turn b sp iw w = (r1, w1)" by (auto simp: turn_def n split: outcome.split writer_job.split)
    with assms(2) a show ?thesis by simp
  next
    case True
    then obtain j where j: "r1 = Dispatch (Batched j)" by blast
    obtain rs db w2 where batch: "run_write_batch (\<lambda>_ _. (True, ())) b sp iw True True j () w1 = (rs, db, w2)"
      by (metis prod_cases3)
    then have r: "r = Dispatch (Batched j)" "w' = w2" using assms(2) by (simp_all add: turn_def n j)
    have s: "writer_invariant w2" "ready w2 = ready w1" "shared w2 = shared w1" "foreground_turns w2 = foreground_turns w1"
      using invariant_batch [OF a(1) _ batch] a(4) j by auto
    then show ?thesis using a j r by (auto simp: the_queue_def)
  qed
qed

lemma writer_run_invariant:
  "writer_invariant w \<Longrightarrow> writer_run ops w = Some (rs, w') \<Longrightarrow> writer_invariant w' \<and> (ready w \<longrightarrow> ready w')"
proof (induction ops arbitrary: w rs)
  case (Cons op ops)
  then obtain rs1 w1 rs2 where step: "writer_step op w = Some (rs1, w1)" "writer_run ops w1 = Some (rs2, w')"
    by (auto split: option.splits)
  have "writer_invariant w1 \<and> (ready w \<longrightarrow> ready w1)"
  proof (cases op)
    case (Borrow_Background j)
    then have e: "enqueue_background j w = Some w1" using step(1) by auto
    then have "ready w1 = ready w" by (auto simp: enqueue_background_def send_def Let_def split: option.splits if_splits)
    with invariant_background [OF Cons.prems(1) e] show ?thesis by simp
  next
    case (Turn b sp iw)
    with step(1) turn_ok [OF Cons.prems(1)] show ?thesis by (auto split: prod.splits)
  next
    case (Fence j)
    with step(1) invariant_fence [OF Cons.prems(1)] show ?thesis by (auto simp: write_fence_def send_def Let_def)
  qed (use step(1) invariant_send [OF Cons.prems(1)] in \<open>auto simp: lend_foreground_def, auto simp: send_def\<close>)
  with Cons.IH [OF _ step(2)] show ?case by blast
qed simp

definition foreground :: "outcome \<Rightarrow> bool" where
  "foreground r = (case r of Dispatch j \<Rightarrow> \<not> is_fence j | _ \<Rightarrow> False)"

definition is_loan :: "outcome \<Rightarrow> bool" where
  "is_loan r = (case r of Loan _ \<Rightarrow> True | _ \<Rightarrow> False)"

definition is_dispatch :: "outcome \<Rightarrow> bool" where
  "is_dispatch r = (case r of Dispatch _ \<Rightarrow> True | _ \<Rightarrow> False)"

lemma step_without_loan:
  assumes inv: "writer_invariant w" and rdy: "ready w" "has_pending (the_queue w)"
    and step: "writer_step op w = Some (rs, w')" and no: "\<not> list_ex is_loan rs"
  shows "has_pending (the_queue w') \<and> foreground_turns w' = foreground_turns w + length rs
    \<and> list_all is_dispatch rs \<and> (list_ex foreground rs \<longrightarrow> foreground_turns w < FOREGROUND_TURNS) \<and> length rs \<le> 1"
proof (cases op)
  case (Turn b sp iw)
  obtain r v where t: "turn b sp iw w = (r, v)" by (cases "turn b sp iw w")
  then have e: "rs = [r]" "w' = v" using step Turn by simp_all
  note ok = turn_ok [OF inv t]
  obtain j where j: "r = Dispatch j"
    using ok no rdy e by (cases r) (auto simp: is_loan_def the_queue_def)
  show ?thesis using ok rdy e j by (auto simp: foreground_def is_dispatch_def the_queue_def)
next
  case (Borrow_Background j)
  then show ?thesis using step rdy
    by (auto simp: enqueue_background_def push_def has_pending_def the_queue_def send_def close_background_def Let_def
        split: option.splits if_splits)
next
  case (Fence j)
  then show ?thesis using step rdy by (auto simp: write_fence_def send_def the_queue_def Let_def)
qed (use step rdy in \<open>auto simp: lend_foreground_def send_def the_queue_def\<close>)

lemma run_without_loan:
  "writer_invariant w \<Longrightarrow> ready w \<Longrightarrow> has_pending (the_queue w) \<Longrightarrow> writer_run ops w = Some (rs, w')
   \<Longrightarrow> \<not> list_ex is_loan rs
   \<Longrightarrow> list_all is_dispatch rs \<and> length (filter foreground rs) \<le> FOREGROUND_TURNS - foreground_turns w"
proof (induction ops arbitrary: w rs)
  case (Cons op ops)
  then obtain rs1 w1 rs2 where step: "writer_step op w = Some (rs1, w1)" "writer_run ops w1 = Some (rs2, w')" "rs = rs1 @ rs2"
    by (auto split: option.splits)
  have no: "\<not> list_ex is_loan rs1" "\<not> list_ex is_loan rs2" using Cons.prems(5) step(3) by simp_all
  note s = step_without_loan [OF Cons.prems(1-3) step(1) no(1)]
  have "writer_run [op] w = Some (rs1, w1)" using step(1) by simp
  from writer_run_invariant [OF Cons.prems(1) this] Cons.prems(2) have w1: "writer_invariant w1" "ready w1" by simp_all
  from Cons.IH [OF w1 _ step(2) no(2)] s
  have ih: "list_all is_dispatch rs2" "length (filter foreground rs2) \<le> FOREGROUND_TURNS - foreground_turns w1" by simp_all
  have "length (filter foreground rs1) + length (filter foreground rs2) \<le> FOREGROUND_TURNS - foreground_turns w"
  proof (cases "list_ex foreground rs1")
    case True
    then show ?thesis using s ih(2) length_filter_le [of foreground rs1] by linarith
  next
    case False
    then have "filter foreground rs1 = []" by (simp add: list_ex_iff filter_empty_conv)
    then show ?thesis using s ih(2) by simp
  qed
  then show ?case using s ih(1) step(3) by simp
qed simp

subsection \<open>Lemmas: what was queued before a fence\<close>

text \<open>How one turn moves messages and background loans, with their sequence numbers.\<close>

definition moves :: "writer \<Rightarrow> outcome \<times> writer \<Rightarrow> bool" where
  "moves w r \<longleftrightarrow> set (msgs (snd r)) \<subseteq> set (msgs w) \<and> last_sequence (the_queue (snd r)) = last_sequence (the_queue w)
     \<and> (case fst r of
          Loan l \<Rightarrow> \<exists>n. bg_jobs (the_queue w) = (n, l) # bg_jobs (the_queue (snd r))
        | Dispatch d \<Rightarrow> d \<in> set (msgs w) \<and> bg_jobs (the_queue (snd r)) = bg_jobs (the_queue w)
        | _ \<Rightarrow> bg_jobs (the_queue (snd r)) = bg_jobs (the_queue w))"

lemma pop_Some: "pop t q = Some (l, q') \<Longrightarrow> \<exists>n. bg_jobs q = (n, l) # bg_jobs q' \<and> last_sequence q' = last_sequence q"
  by (auto simp: pop_def split: list.splits if_splits)

lemma moves_admit:
  assumes "msgs w = j # ms" "msgs v = ms" "shared v = shared w" "next_job v = None"
  shows "moves w (admit j v)"
proof -
  have q: "the_queue v = the_queue w" using assms(3) by (simp add: the_queue_def)
  have m: "set (msgs (v\<lparr>next_job := Some j, foreground_turns := n, shared := x\<rparr>)) \<subseteq> set (msgs w)"
    "set (msgs (v\<lparr>foreground_turns := n\<rparr>)) \<subseteq> set (msgs w)" for n x
    using assms by (auto simp: msgs_def)
  show ?thesis
    using assms(1,2) m pop_Some [of _ "the_queue w"]
    by (fastforce simp: admit_def moves_def q [unfolded the_queue_def] the_queue_def Let_def split: option.splits)
qed

lemma moves_next: "moves w (admission_next w)"
proof (induction "length (msgs w)" arbitrary: w rule: less_induct)
  case less
  show ?case
  proof (cases "msgs w")
    case Nil
    then have e: "next_job w = None" "channel w = []" by (auto simp: msgs_def split: option.splits)
    show ?thesis
    proof (cases "ready w \<and> pop u64_max (the_queue w) \<noteq> None")
      case True
      then obtain l q where p: "pop u64_max (the_queue w) = Some (l, q)" by auto
      have n: "admission_next w = (Loan l, w\<lparr>foreground_turns := 0, shared := Some q\<rparr>)"
        using e True p by (subst admission_next.simps) simp
      show ?thesis unfolding n using pop_Some [OF p] e by (auto simp: moves_def msgs_def the_queue_def)
    next
      case False
      then have "admission_next w = recv_empty w"
        using e by (subst admission_next.simps) (auto split: option.splits)
      then show ?thesis by (simp add: moves_def recv_empty_def)
    qed
  next
    case (Cons j ms)
    note t = taken_fields [OF Cons]
    show ?thesis
    proof (cases "j = BackgroundReady")
      case True
      let ?v = "(taken w)\<lparr>ready := True\<rparr>"
      have v: "msgs ?v = ms" "the_queue ?v = the_queue w" using t(1,2) by (simp_all add: msgs_def the_queue_def)
      have "moves ?v (admission_next ?v)" using v Cons by (intro less) simp
      then show ?thesis unfolding admission_step [OF Cons] using True v Cons
        by (auto simp: moves_def split: outcome.splits)
    next
      case False
      then show ?thesis unfolding admission_step [OF Cons] using moves_admit [OF Cons t(1,2,5)] by simp
    qed
  qed
qed

lemma moves_turn:
  assumes inv: "writer_invariant w" and t: "turn b sp iw w = (r, w')"
  shows "moves w (r, w')"
proof -
  obtain r1 w1 where n: "admission_next w = (r1, w1)" by (cases "admission_next w")
  have m: "moves w (r1, w1)" using moves_next [of w] n by simp
  show ?thesis
  proof (cases "\<exists>j. r1 = Dispatch (Batched j)")
    case False
    then have "turn b sp iw w = (r1, w1)" by (auto simp: turn_def n split: outcome.split writer_job.split)
    with t m show ?thesis by simp
  next
    case True
    then obtain j where j: "r1 = Dispatch (Batched j)" by blast
    obtain rs db w2 where batch: "run_write_batch (\<lambda>_ _. (True, ())) b sp iw True True j () w1 = (rs, db, w2)"
      by (metis prod_cases3)
    have idle: "next_job w1 = None" using admission_ok [OF inv] n j by (simp add: admitted_def)
    from batch_spec [OF idle batch] obtain js where js: "map Batched js @ msgs w2 = Batched j # channel w1" "js \<noteq> []" "shared w2 = shared w1"
      by blast
    have "msgs w1 = map Batched (tl js) @ msgs w2" using js(1,2) idle by (cases js) (auto simp: msgs_def [of w1])
    then have "set (msgs w2) \<subseteq> set (msgs w1)" by simp
    moreover have "r = r1" "w' = w2" using t batch by (simp_all add: turn_def n j)
    ultimately show ?thesis using m j js(3) by (auto simp: moves_def the_queue_def)
  qed
qed

text \<open>A message that lends the writer as job \<open>j\<close>, and the loans among what was served.\<close>

definition lends :: "nat \<Rightarrow> writer_job \<Rightarrow> bool" where
  "lends j d = (case d of Lend i \<Rightarrow> i = j | FenceLend _ i \<Rightarrow> i = j | _ \<Rightarrow> False)"

definition loans :: "outcome list \<Rightarrow> writer_job list" where
  "loans rs = concat (map (\<lambda>r. case r of Loan l \<Rightarrow> [l] | _ \<Rightarrow> []) rs)"

lemma lends_simps [simp]:
  "lends j (Lend i) \<longleftrightarrow> i = j" "lends j (FenceLend t i) \<longleftrightarrow> i = j" "\<not> lends j (Batched i)" "\<not> lends j BackgroundReady"
  by (simp_all add: lends_def)

text \<open>
  Since a moment at which the loans \<open>q0\<close> were queued and \<open>n0\<close> was the last number given out: \<open>ls\<close> were
  served, in the order of the queue; what was queued later has a later number; and the only message
  that lends as \<open>j\<close> is \<open>d\<close>.
\<close>

definition since :: "nat \<Rightarrow> writer_job \<Rightarrow> (nat \<times> writer_job) list \<Rightarrow> nat \<Rightarrow> writer_job list \<Rightarrow> writer \<Rightarrow> bool" where
  "since j d q0 n0 ls w \<longleftrightarrow>
     (\<exists>gone later. q0 @ later = gone @ bg_jobs (the_queue w) \<and> map snd gone = ls \<and> (\<forall>x\<in>set later. n0 < fst x))
     \<and> n0 \<le> last_sequence (the_queue w) \<and> (\<forall>m\<in>set (msgs w). lends j m \<longrightarrow> m = d)"

lemma since_send:
  assumes "since j d q0 n0 ls w" "lends j m \<Longrightarrow> m = d"
  shows "since j d q0 n0 ls (send m w)"
  using assms by (auto simp: since_def msgs_send the_queue_send)

lemma since_send_other: "since j d q0 n0 ls w \<Longrightarrow> \<not> lends j m \<Longrightarrow> since j d q0 n0 ls (send m w)"
  by (rule since_send) simp_all

lemma since_background:
  assumes "since j d q0 n0 ls w" "enqueue_background i w = Some w'"
  shows "since j d q0 n0 ls w'"
proof -
  let ?q = "the_queue w"
  have open_w: "\<not> admission_closed w" "last_sequence ?q \<noteq> u64_max"
    using assms(2) by (auto simp: enqueue_background_def push_def close_background_def Let_def split: if_splits option.splits)
  define q where "q = ?q\<lparr>last_sequence := last_sequence ?q + 1, bg_jobs := bg_jobs ?q @ [(last_sequence ?q + 1, Lend i)]\<rparr>"
  have w': "w' = (if bg_jobs ?q = [] then send BackgroundReady (w\<lparr>shared := Some q\<rparr>) else w\<lparr>shared := Some q\<rparr>)"
    using assms(2) open_w by (auto simp: enqueue_background_def push_def q_def Let_def split: if_splits)
  obtain gone later where g: "q0 @ later = gone @ bg_jobs ?q" "map snd gone = ls" "\<forall>x\<in>set later. n0 < fst x"
    and n: "n0 \<le> last_sequence ?q" and m: "\<forall>m\<in>set (msgs w). lends j m \<longrightarrow> m = d"
    using assms(1) unfolding since_def by blast
  have "since j d q0 n0 ls (w\<lparr>shared := Some q\<rparr>)"
    unfolding since_def
  proof (intro conjI)
    have "q0 @ later @ [(last_sequence ?q + 1, Lend i)] = gone @ bg_jobs (the_queue (w\<lparr>shared := Some q\<rparr>))"
      using arg_cong [OF g(1), of "\<lambda>l. l @ [(last_sequence ?q + 1, Lend i)]"] by (simp add: the_queue_def q_def)
    moreover have "\<forall>x\<in>set (later @ [(last_sequence ?q + 1, Lend i)]). n0 < fst x" using g(3) n by auto
    ultimately show "\<exists>gone later. q0 @ later = gone @ bg_jobs (the_queue (w\<lparr>shared := Some q\<rparr>)) \<and> map snd gone = ls
        \<and> (\<forall>x\<in>set later. n0 < fst x)"
      using g(2) by blast
    show "\<forall>m\<in>set (msgs (w\<lparr>shared := Some q\<rparr>)). lends j m \<longrightarrow> m = d" using m by (simp add: msgs_def)
  qed (use n in \<open>simp add: the_queue_def q_def\<close>)
  then show ?thesis unfolding w' by (simp add: since_send_other)
qed

lemma since_turn:
  assumes "since j d q0 n0 ls w" "moves w (r, w')"
  shows "since j d q0 n0 (ls @ loans [r]) w'"
proof -
  obtain gone later where g: "q0 @ later = gone @ bg_jobs (the_queue w)" "map snd gone = ls" "\<forall>x\<in>set later. n0 < fst x"
    and n: "n0 \<le> last_sequence (the_queue w)" and m: "\<forall>m\<in>set (msgs w). lends j m \<longrightarrow> m = d"
    using assms(1) unfolding since_def by blast
  have "\<exists>gone'. q0 @ later = gone' @ bg_jobs (the_queue w') \<and> map snd gone' = ls @ loans [r]"
  proof (cases r)
    case (Loan l)
    then obtain k where "bg_jobs (the_queue w) = (k, l) # bg_jobs (the_queue w')" using assms(2) by (auto simp: moves_def)
    then show ?thesis using g by (intro exI [of _ "gone @ [(k, l)]"]) (simp add: Loan loans_def)
  qed (use g assms(2) in \<open>auto simp: moves_def loans_def\<close>)
  then show ?thesis using g(3) n m assms(2) unfolding since_def by (fastforce simp: moves_def)
qed

lemma since_run:
  "since j d q0 n0 ls w \<Longrightarrow> writer_invariant w \<Longrightarrow> writer_run ops w = Some (rs, w') \<Longrightarrow> {Fence j, Borrow j} \<inter> set ops = {}
   \<Longrightarrow> since j d q0 n0 (ls @ loans rs) w'"
proof (induction ops arbitrary: w rs ls)
  case (Cons op ops)
  then obtain rs1 w1 rs2 where step: "writer_step op w = Some (rs1, w1)" "writer_run ops w1 = Some (rs2, w')" "rs = rs1 @ rs2"
    by (auto split: option.splits)
  have "writer_run [op] w = Some (rs1, w1)" using step(1) by simp
  from writer_run_invariant [OF Cons.prems(2) this] have inv: "writer_invariant w1" by simp
  have "since j d q0 n0 (ls @ loans rs1) w1"
  proof (cases op)
    case (Turn b sp iw)
    then obtain r where "turn b sp iw w = (r, w1)" "rs1 = [r]" using step(1) by (auto split: prod.splits)
    then show ?thesis using since_turn [OF Cons.prems(1)] moves_turn [OF Cons.prems(2)] by blast
  next
    case (Borrow_Background i)
    then show ?thesis using step(1) since_background [OF Cons.prems(1)] by (auto simp: loans_def)
  next
    case (Fence i)
    then have "i \<noteq> j" using Cons.prems(4) by auto
    then show ?thesis using Fence step(1) by (auto simp: write_fence_def Let_def loans_def split: if_splits intro!: since_send_other [OF Cons.prems(1)])
  next
    case (Borrow i)
    then have "i \<noteq> j" using Cons.prems(4) by auto
    then show ?thesis using Borrow step(1) by (auto simp: lend_foreground_def loans_def intro!: since_send_other [OF Cons.prems(1)])
  next
    case (Write i)
    then show ?thesis using step(1) by (auto simp: loans_def intro!: since_send_other [OF Cons.prems(1)])
  qed
  from Cons.IH [OF this inv step(2)] Cons.prems(4) show ?case by (simp add: step(3) loans_def)
qed (simp add: loans_def)

lemma unsent:
  assumes "writer_run ops writer_new = Some (rs, w)" "{Fence j, Borrow j} \<inter> set ops = {}"
  shows "\<forall>m\<in>set (msgs w). \<not> lends j m"
proof -
  have "since j BackgroundReady [] 0 [] writer_new"
    by (simp add: since_def writer_new_def msgs_def the_queue_def background_default_def)
  from since_run [OF this writer_invariant_new assms] show ?thesis by (auto simp: since_def lends_def)
qed

lemma overtaken_none:
  fixes n :: nat
  assumes "q0 @ later = gone @ rest" "\<forall>x\<in>set q0. fst x \<le> n" "\<forall>x\<in>set rest. n < fst x"
  shows "prefix q0 gone"
proof -
  obtain us where "q0 = gone @ us \<and> us @ later = rest \<or> q0 @ us = gone \<and> later = us @ rest"
    using assms(1) unfolding append_eq_append_conv2 by blast
  moreover have "us = []" if "q0 = gone @ us" "us @ later = rest"
  proof (cases us)
    case (Cons x xs)
    then have "x \<in> set q0" "x \<in> set rest" using that by auto
    with assms(2,3) have "fst x \<le> n" "n < fst x" by blast+
    then have False by simp
    then show ?thesis ..
  qed
  ultimately show ?thesis by (auto simp: prefix_def)
qed

subsection \<open>Lemmas: pending clocks\<close>

lemma dequeued_at_removes:
  "enabled q \<Longrightarrow> mset (clocks_pending (dequeued_at c (send_at c True q))) = mset (clocks_pending q)"
  by (auto simp: dequeued_at_def send_at_def remove1_append)

subsection \<open>Lemmas: a queue of fences\<close>

lemma writer_run_append:
  "writer_run (ops @ ops') w =
     (case writer_run ops w of None \<Rightarrow> None
      | Some (rs, v) \<Rightarrow> map_option (\<lambda>(rs', v'). (rs @ rs', v')) (writer_run ops' v))"
proof (induction ops arbitrary: w)
  case (Cons op ops)
  then show ?case by (auto simp: option.map_comp comp_def split_beta split: option.split)
qed (simp add: option.map_id)

lemma fences_sent:
  "shared w = Some q \<Longrightarrow> last_sequence q = t \<Longrightarrow> 0 < t \<Longrightarrow>
   writer_run (map Fence js) w = Some ([], w\<lparr>channel := channel w @ map (FenceLend t) js\<rparr>)"
  by (induction js arbitrary: w) (simp_all add: write_fence_def watermark_def send_def)

lemma fences_served:
  "next_job w = None \<Longrightarrow> ready w \<Longrightarrow> channel w = map (FenceLend t) js @ rest \<Longrightarrow> bg_jobs (the_queue w) = (n, l) # ls
   \<Longrightarrow> t < n \<Longrightarrow> writer_run (map (\<lambda>_. Turn b sp iw) js) w =
     Some (map (\<lambda>j. Dispatch (FenceLend t j)) js,
       w\<lparr>channel := rest, foreground_turns := foreground_turns w + length js\<rparr>)"
proof (induction js arbitrary: w)
  case (Cons j js)
  let ?v = "w\<lparr>channel := map (FenceLend t) js @ rest, foreground_turns := foreground_turns w + 1\<rparr>"
  have "turn b sp iw w = (Dispatch (FenceLend t j), ?v)"
    using Cons.prems unfolding turn_def
    by (subst admission_next.simps) (simp add: admit_def pop_def has_pending_def the_queue_def)
  moreover have "writer_run (map (\<lambda>_. Turn b sp iw) js) ?v = Some (map (\<lambda>j. Dispatch (FenceLend t j)) js,
      ?v\<lparr>channel := rest, foreground_turns := foreground_turns ?v + length js\<rparr>)"
    using Cons.prems by (intro Cons.IH) (simp_all add: the_queue_def)
  ultimately show ?case by simp
qed simp

lemmas evaluate = admission_next.simps turn_def admit_def recv_empty_def enqueue_background_def push_def pop_def
  the_queue_def background_default_def has_pending_def send_def lend_foreground_def write_fence_def watermark_def
  writer_new_def FOREGROUND_TURNS_def is_loan_def is_dispatch_def foreground_def

abbreviation one_turn :: writer_op where
  "one_turn \<equiv> Turn True (\<lambda>_. True) (\<lambda>_. True)"

subsection \<open>Properties\<close>

text \<open>
  C18. A background loan is overtaken at most eight times. Take any state the writer can reach in which
  it knows of a pending background loan. In any further run of writes, loans, fences and turns of the
  writer, as long as no background loan is served every turn serves a foreground job, and at most
  eight of them are writes or loans (a fence is not counted: it drains only its own watermark).
\<close>

theorem background_not_starved:
  assumes "writer_run ops writer_new = Some (rs, w)" and "ready w" and "has_pending (the_queue w)"
    and "writer_run ops' w = Some (rs', w')" and "\<not> list_ex is_loan rs'"
  shows "list_all is_dispatch rs' \<and> length (filter foreground rs') \<le> FOREGROUND_TURNS"
proof -
  have "writer_invariant w" using writer_run_invariant [OF writer_invariant_new assms(1)] by blast
  from run_without_loan [OF this assms(2-5)] show ?thesis by linarith
qed

theorem background_not_starved_witness:
  "\<exists>rs w rs' w'. writer_run [Borrow_Background 0, Borrow_Background 1, one_turn] writer_new = Some (rs, w)
     \<and> writer_run [Borrow 7, Borrow 8, one_turn, one_turn] w = Some (rs', w')
     \<and> rs' = [Dispatch (Lend 7), Dispatch (Lend 8)] \<and> length (filter foreground rs') \<le> FOREGROUND_TURNS"
proof -
  obtain rs w where w: "writer_run [Borrow_Background 0, Borrow_Background 1, one_turn] writer_new = Some (rs, w)"
    by (simp add: evaluate)
  then have r: "ready w" "has_pending (the_queue w)" by (auto simp: evaluate)
  obtain rs' w' where w': "writer_run [Borrow 7, Borrow 8, one_turn, one_turn] w = Some (rs', w')"
    "rs' = [Dispatch (Lend 7), Dispatch (Lend 8)]" using w by (auto simp: evaluate)
  with background_not_starved [OF w r w'(1)] w show ?thesis by (simp add: is_loan_def)
qed

text \<open>
  C22. A fence waits for the background loans before it. Take any run of the writer in which one fence,
  or foreground loan, has the number \<open>j\<close>: the fence. Whenever the writer serves it, every background
  loan that was pending when the fence was sent has been served in the meantime, in the order of the
  queue and before any loan that came later, and none of them is still pending.
\<close>

theorem fence_drains_background:
  assumes "writer_run before writer_new = Some (rs0, w0)" and "writer_run (Fence j # after) w0 = Some (rs, w)"
    and "{Fence j, Borrow j} \<inter> set (before @ after) = {}"
    and "admission_next w = (Dispatch d, w')" and "lends j d"
  shows "prefix (map snd (bg_jobs (the_queue w0))) (loans rs)
    \<and> set (bg_jobs (the_queue w')) \<inter> set (bg_jobs (the_queue w0)) = {}"
proof -
  let ?q = "the_queue w0" and ?w1 = "write_fence j w0"
  let ?d = "if last_sequence ?q = 0 then Lend j else FenceLend (last_sequence ?q) j"
  have inv0: "writer_invariant w0" using writer_run_invariant [OF writer_invariant_new assms(1)] by blast
  have le: "\<forall>x\<in>set (bg_jobs ?q). 0 < fst x \<and> fst x \<le> last_sequence ?q" using inv0 by (simp add: writer_invariant_def)
  have sent: "?w1 = send ?d w0"
    by (simp add: write_fence_def the_queue_def watermark_def background_default_def split: option.split)
  have "since j ?d (bg_jobs ?q) (last_sequence ?q) [] ?w1"
    unfolding sent using unsent [OF assms(1)] assms(3) by (intro since_send) (auto simp: since_def)
  moreover have run: "writer_run after ?w1 = Some (rs, w)" using assms(2) by (auto split: option.splits)
  ultimately have "since j ?d (bg_jobs ?q) (last_sequence ?q) (loans rs) w"
    using since_run [of j ?d _ _ "[]" ?w1 after] invariant_fence [OF inv0] assms(3) by simp
  then obtain gone later where g: "bg_jobs ?q @ later = gone @ bg_jobs (the_queue w)" "map snd gone = loans rs"
    and only: "\<forall>m\<in>set (msgs w). lends j m \<longrightarrow> m = ?d" unfolding since_def by blast
  have mv: "d \<in> set (msgs w)" "bg_jobs (the_queue w') = bg_jobs (the_queue w)"
    using moves_next [of w] assms(4) by (auto simp: moves_def)
  have d: "d = ?d" using only mv(1) assms(5) by blast
  have inv: "writer_invariant w" using writer_run_invariant [OF invariant_fence [OF inv0] run] by blast
  have rest: "\<forall>x\<in>set (bg_jobs (the_queue w)). last_sequence ?q < fst x"
  proof (cases "last_sequence ?q = 0")
    case True
    then show ?thesis using inv by (simp add: writer_invariant_def)
  next
    case False
    then show ?thesis using admission_ok [OF inv] assms(4) d by (auto simp: admitted_def mv(2) [symmetric])
  qed
  have "prefix (bg_jobs ?q) gone" by (rule overtaken_none [OF g(1) _ rest]) (use le in blast)
  then have "prefix (map snd (bg_jobs ?q)) (loans rs)" unfolding g(2) [symmetric] by (rule map_mono_prefix)
  moreover have "set (bg_jobs (the_queue w)) \<inter> set (bg_jobs ?q) = {}" using rest le by fastforce
  ultimately show ?thesis unfolding mv(2) by blast
qed

theorem fence_drains_background_witness:
  "\<exists>rs0 w0 rs w w'. writer_run [Borrow_Background 0, Borrow_Background 1] writer_new = Some (rs0, w0)
     \<and> writer_run [Fence 5, Borrow_Background 2, one_turn, one_turn] w0 = Some (rs, w)
     \<and> admission_next w = (Dispatch (FenceLend 2 5), w') \<and> prefix [Lend 0, Lend 1] (loans rs)"
proof -
  obtain rs0 w0 where w0: "writer_run [Borrow_Background 0, Borrow_Background 1] writer_new = Some (rs0, w0)"
    by (simp add: evaluate)
  then have q: "map snd (bg_jobs (the_queue w0)) = [Lend 0, Lend 1]" by (auto simp: evaluate)
  obtain rs w where w: "writer_run [Fence 5, Borrow_Background 2, one_turn, one_turn] w0 = Some (rs, w)"
    using w0 by (auto simp: evaluate)
  obtain w' where w': "admission_next w = (Dispatch (FenceLend 2 5), w')" using w w0 by (auto simp: evaluate)
  have "prefix (map snd (bg_jobs (the_queue w0))) (loans rs)"
    using fence_drains_background [OF w0 w _ w'] by (simp add: lends_def)
  with w0 w w' q show ?thesis by metis
qed

text \<open>
  No wake-up is lost. Whenever the writer would block on its channel or end, no background loan is
  pending.
\<close>

lemma no_lost_wakeup:
  assumes "writer_run ops writer_new = Some (rs, w)" and "admission_next w = (r, w')" and "r = Blocked \<or> r = Closed"
  shows "\<not> has_pending (the_queue w)"
proof -
  have "writer_invariant w" using writer_run_invariant [OF writer_invariant_new assms(1)] by blast
  from admission_ok [OF this] assms(2,3) show ?thesis by (auto simp: admitted_def the_queue_def)
qed

text \<open>
  C19. A group commit is all or nothing and keeps the order. The batch takes the first job and the
  batched writes right behind it, at most 256, leaves every other message in its place, answers each
  job it took with the same verdict, and changes the rows only if that verdict is a commit: then they
  are the rows after the jobs in order, each keeping its effect only if it succeeded.
\<close>

theorem batch_all_or_nothing:
  assumes "next_job w = None" and "run_write_batch run b sp iw fin com first db w = (answers, db', w')"
  shows "\<exists>js verdict. answers = map (\<lambda>j. (j, verdict)) js \<and> map Batched js @ msgs w' = Batched first # channel w
    \<and> js \<noteq> [] \<and> length js \<le> WRITE_BATCH_LIMIT
    \<and> db' = (if verdict then fold (savepointed run) js db else db) \<and> (verdict \<longrightarrow> b \<and> fin \<and> com)"
  using batch_spec [OF assms] by blast

theorem batch_all_or_nothing_witness:
  "\<exists>w'. run_write_batch (\<lambda>j db. (j \<noteq> 2, j # db)) True (\<lambda>_. True) (\<lambda>_. True) True True 1 []
      (writer_new\<lparr>channel := [Batched 2, Batched 3, Lend 4]\<rparr>) = ([(1, True), (2, True), (3, True)], [3, 1], w')
    \<and> msgs w' = [Lend 4]"
proof -
  let ?run = "\<lambda>j db. (j \<noteq> 2, j # db)" and ?w = "writer_new\<lparr>channel := [Batched 2, Batched 3, Lend 4]\<rparr>"
  obtain w' where w': "run_write_batch ?run True (\<lambda>_. True) (\<lambda>_. True) True True 1 [] ?w
      = ([(1, True), (2, True), (3, True)], [3, 1], w')"
    by (simp add: run_write_batch_def writer_new_def WRITE_BATCH_LIMIT_def Let_def)
  have "next_job ?w = None" by (simp add: writer_new_def)
  from batch_all_or_nothing [OF this w'] have "msgs w' = [Lend 4]"
    by (elim exE conjE) (auto simp: writer_new_def)
  with w' show ?thesis by blast
qed

text \<open>
  C38. Fences are outside the limit. A comment on the limit calls it the maximum of foreground loan or
  batch turns while a background loan is pending, and a fence is a loan. Any number of fences sent
  before a background loan is queued are all served ahead of it while it stays pending.
\<close>

theorem fences_overtake_past_limit:
  "\<exists>w. writer_run ([Borrow_Background 0, one_turn] @ map Fence js @ [Borrow_Background 1] @ map (\<lambda>_. one_turn) js) writer_new
     = Some (Loan (Lend 0) # map (\<lambda>j. Dispatch (FenceLend 1 j)) js, w) \<and> has_pending (the_queue w)"
proof -
  define w where "w = writer_new\<lparr>ready := True, shared := Some \<lparr>last_sequence = 1, bg_closed = False, bg_jobs = []\<rparr>\<rparr>"
  have a: "writer_run [Borrow_Background 0, one_turn] writer_new = Some ([Loan (Lend 0)], w)"
    by (simp add: evaluate w_def)
  define w1 where "w1 = w\<lparr>channel := map (FenceLend 1) js\<rparr>"
  have b: "writer_run (map Fence js) w = Some ([], w1)"
    using fences_sent [of w _ 1 js] by (simp add: w_def w1_def writer_new_def)
  define w2 where "w2 = w1\<lparr>channel := map (FenceLend 1) js @ [BackgroundReady],
      shared := Some \<lparr>last_sequence = 2, bg_closed = False, bg_jobs = [(2, Lend 1)]\<rparr>\<rparr>"
  have c: "writer_run [Borrow_Background 1] w1 = Some ([], w2)"
    by (simp add: w2_def w1_def w_def writer_new_def enqueue_background_def push_def the_queue_def send_def)
  have d: "\<exists>w3. writer_run (map (\<lambda>_. one_turn) js) w2 = Some (map (\<lambda>j. Dispatch (FenceLend 1 j)) js, w3)
      \<and> has_pending (the_queue w3)"
    using fences_served [of w2 1 js "[BackgroundReady]" 2 "Lend 1" "[]"]
    by (simp add: w2_def w1_def w_def writer_new_def the_queue_def has_pending_def)
  obtain w3 where w3: "writer_run (map (\<lambda>_. one_turn) js) w2 = Some (map (\<lambda>j. Dispatch (FenceLend 1 j)) js, w3)"
    "has_pending (the_queue w3)" using d by blast
  have "writer_run ([Borrow_Background 0, one_turn] @ map Fence js @ [Borrow_Background 1] @ map (\<lambda>_. one_turn) js) writer_new
      = Some ([Loan (Lend 0)] @ [] @ [] @ map (\<lambda>j. Dispatch (FenceLend 1 j)) js, w3)"
    by (simp only: writer_run_append a b c w3(1) option.case prod.case option.map)
  then show ?thesis using w3(2) by (intro exI [of _ w3]) simp
qed

end
