(* ===== verification/Principal.thy ===== *)
theory Principal
  imports Text_Codec Json
begin

section \<open>Principals, key grants and the verdict on a signature\<close>

text \<open>
  Models \<open>crates/smallclaims/src/principal.rs\<close>: which family a subject belongs to, which grants a
  family accepts, the bytes a signature covers, and \<open>judge\<close>, which decides a claim's verdict from
  facts the store looks up. Signature checks, base64, SHA-256 over CBOR and JSON printing are
  third-party code: they are the fields of \<open>crypto\<close>. A reason is a constructor with what its
  message quotes.
\<close>

subsection \<open>JSON objects\<close>

fun json_get :: "string \<Rightarrow> json \<Rightarrow> json option" where
  "json_get k (JObject fs) = map_of fs k"
| "json_get k _ = None"

fun json_set :: "string \<Rightarrow> json \<Rightarrow> json \<Rightarrow> json" where
  "json_set k v (JObject fs) =
     JObject (if k \<in> fst ` set fs then map (\<lambda>f. if fst f = k then (k, v) else f) fs else fs @ [(k, v)])"
| "json_set k v j = j"

fun canonical_json_value :: "json \<Rightarrow> json" where
  "canonical_json_value (JArray vs) = JArray (map canonical_json_value vs)"
| "canonical_json_value (JObject fs) =
     JObject (sort_key fst (map (\<lambda>f. (fst f, canonical_json_value (snd f))) fs))"
| "canonical_json_value v = v"

subsection \<open>Families and roles\<close>

definition KEY_GRANTED :: string where "KEY_GRANTED = ''principal.key-granted''"
definition KEY_REVOKED :: string where "KEY_REVOKED = ''principal.key-revoked''"

datatype role = Root | Device | AgentRole | PluginRole

datatype family = NodeFamily | PersonFamily | AgentFamily | PluginFamily

definition family_of :: "string \<Rightarrow> family option" where
  "family_of subject =
     (case split_once (CHR ''/'') subject of
        None \<Rightarrow> None
      | Some (prefix, rest) \<Rightarrow>
          if rest = [] then None
          else if prefix = ''host'' then Some NodeFamily
          else if prefix = ''person'' then Some PersonFamily
          else if prefix = ''agent'' then Some AgentFamily
          else if prefix = ''plugin'' then Some PluginFamily
          else None)"

fun accepts :: "family \<Rightarrow> role \<Rightarrow> family \<Rightarrow> bool \<Rightarrow> bool" where
  "accepts PersonFamily Root by same = (by = NodeFamily)"
| "accepts PersonFamily Device by same = (by = PersonFamily \<and> same)"
| "accepts AgentFamily AgentRole by same = (by = NodeFamily)"
| "accepts PluginFamily PluginRole by same = (by = NodeFamily)"
| "accepts _ _ by same = False"

fun signs_with :: "family \<Rightarrow> role \<Rightarrow> bool" where
  "signs_with PersonFamily Device = True"
| "signs_with AgentFamily AgentRole = True"
| "signs_with PluginFamily PluginRole = True"
| "signs_with _ _ = False"

subsection \<open>Grants and signatures\<close>

record key_grant =
  grant_key :: string
  grant_role :: role
  issuer :: string
  issuer_key :: string
  label :: "string option"

definition role_from :: "string \<Rightarrow> role option" where
  "role_from s =
     (if s = ''root'' then Some Root else if s = ''device'' then Some Device
      else if s = ''agent'' then Some AgentRole else if s = ''plugin'' then Some PluginRole else None)"

text \<open>
  \<open>serde_json::from_value\<close>: the fields by name, or in their order in an array; a role as its name, or as an
  object that maps the name to null; a missing or null label is none, a label of another type is an error.
\<close>

fun role_value :: "json \<Rightarrow> role option" where
  "role_value (JString s) = role_from s"
| "role_value (JObject [(s, JNull)]) = role_from s"
| "role_value _ = None"

definition grant_field :: "nat \<Rightarrow> string \<Rightarrow> json \<Rightarrow> json option" where
  "grant_field i k fs =
     (case fs of
        JArray xs \<Rightarrow> if i < length xs \<and> length xs \<le> 5 then Some (xs ! i) else None
      | _ \<Rightarrow> json_get k fs)"

definition key_grant_from_fields :: "json \<Rightarrow> key_grant option" where
  "key_grant_from_fields fs =
     (case (Option.bind (grant_field 0 ''key'' fs) as_str,
            Option.bind (grant_field 1 ''role'' fs) role_value,
            Option.bind (grant_field 2 ''issuer'' fs) as_str,
            Option.bind (grant_field 3 ''issuer_key'' fs) as_str) of
        (Some k, Some r, Some i, Some ik) \<Rightarrow>
          (case grant_field 4 ''label'' fs of
             None \<Rightarrow> Some \<lparr>grant_key = k, grant_role = r, issuer = i, issuer_key = ik, label = None\<rparr>
           | Some JNull \<Rightarrow> Some \<lparr>grant_key = k, grant_role = r, issuer = i, issuer_key = ik, label = None\<rparr>
           | Some (JString l) \<Rightarrow> Some \<lparr>grant_key = k, grant_role = r, issuer = i, issuer_key = ik, label = Some l\<rparr>
           | _ \<Rightarrow> None)
      | _ \<Rightarrow> None)"

record claim_signature =
  signer :: string
  on_behalf :: "string option"
  sig_key :: string
  chain :: "string list"
  nonce :: string
  signed_at_unix_ms :: nat
  signature :: string
  sig_format :: "string option"
  signed_fields :: "string list"

definition message_body_entry :: "json \<Rightarrow> json option" where
  "message_body_entry attachments =
     Option.bind (as_array attachments) (find (\<lambda>e.
        Option.bind (json_get ''media_type'' e) as_str = Some ''text/plain''
        \<and> (case Option.bind (json_get ''sha256'' e) as_str of
             None \<Rightarrow> False | Some h \<Rightarrow> length h = 64 \<and> list_all is_hex h)
        \<and> (case Option.bind (json_get ''origin'' e) as_str of
             None \<Rightarrow> False | Some og \<Rightarrow> starts_with og ''host/'')
        \<and> (case Option.bind (json_get ''size'' e) as_u64 of
             None \<Rightarrow> False | Some n \<Rightarrow> 1 \<le> n \<and> n \<le> 256 * 1024)))"

subsection \<open>What a signature covers\<close>

abbreviation newline :: char where "newline \<equiv> CHR 0x0A"

text \<open>\<open>format!\<close> with line breaks, and \<open>join\<close>.\<close>

fun join_with :: "char \<Rightarrow> string list \<Rightarrow> string" where
  "join_with c [] = []"
| "join_with c [x] = x"
| "join_with c (x # xs) = x @ c # join_with c xs"

definition text_or_empty :: "string option \<Rightarrow> string" where
  "text_or_empty t = (case t of None \<Rightarrow> [] | Some s \<Rightarrow> s)"

definition CLAIM_SIGNATURE_DOMAIN :: string where "CLAIM_SIGNATURE_DOMAIN = ''smallclaims-claim-v1''"
definition FIELDS_DOMAIN :: string where "FIELDS_DOMAIN = ''smallclaims-claim-fields-v1''"
definition FIELDS_FORMAT :: string where "FIELDS_FORMAT = ''fields-v1''"

definition signing_bytes ::
  "string \<Rightarrow> string \<Rightarrow> string option \<Rightarrow> string \<Rightarrow> string list \<Rightarrow> string \<Rightarrow> nat \<Rightarrow> string"
where
  "signing_bytes content sg behalf k ch n at =
     join_with newline [CLAIM_SIGNATURE_DOMAIN, content, sg, text_or_empty behalf, k, join_with (CHR '','') ch, n, decimal at]"

definition fields_signing_bytes ::
  "(json \<Rightarrow> string) \<Rightarrow> string \<Rightarrow> string \<Rightarrow> string option \<Rightarrow> json \<Rightarrow> string list \<Rightarrow> string \<Rightarrow> string option \<Rightarrow> string
    \<Rightarrow> string list \<Rightarrow> string \<Rightarrow> nat \<Rightarrow> string"
where
  "fields_signing_bytes to_json subject kind actor fs names sg behalf k ch n at =
     join_with newline [FIELDS_DOMAIN, subject, kind, text_or_empty actor] @ [newline]
     @ concat (map (\<lambda>name. name @ CHR ''='' # to_json (canonical_json_value (case json_get name fs of None \<Rightarrow> JNull | Some v \<Rightarrow> v))
                  @ [newline]) (remdups (sort names)))
     @ join_with newline [sg, text_or_empty behalf, k, join_with (CHR '','') ch, n, decimal at]"

record crypto =
  b64_decode :: "string \<Rightarrow> string option"
  ed25519 :: "string \<Rightarrow> string \<Rightarrow> string \<Rightarrow> bool"
  ecdsa_p256 :: "string \<Rightarrow> string \<Rightarrow> string \<Rightarrow> bool"
  content_hash :: "string \<Rightarrow> string \<Rightarrow> string option \<Rightarrow> json \<Rightarrow> string"
  json_text :: "json \<Rightarrow> string"

definition verify_signature :: "crypto \<Rightarrow> string \<Rightarrow> string \<Rightarrow> string \<Rightarrow> bool" where
  "verify_signature cr public message sg =
     (case (b64_decode cr public, b64_decode cr sg) of
        (Some p, Some s) \<Rightarrow> length p = 32 \<and> ed25519 cr p message s
      | _ \<Rightarrow> False)"

definition verify_key_signature :: "crypto \<Rightarrow> string \<Rightarrow> string \<Rightarrow> string \<Rightarrow> bool" where
  "verify_key_signature cr k message sg =
     (case strip_prefix ''p256:'' k of
        None \<Rightarrow> verify_signature cr k message sg
      | Some point \<Rightarrow>
          (case (b64_decode cr point, b64_decode cr sg) of
             (Some p, Some s) \<Rightarrow> length p = 65 \<and> ecdsa_p256 cr p message s
           | _ \<Rightarrow> False))"

record judged =
  judged_id :: string
  subject :: string
  kind :: string
  actor :: "string option"
  content :: string
  judged_fields :: json

definition content_digest :: "crypto \<Rightarrow> string \<Rightarrow> string \<Rightarrow> string option \<Rightarrow> json \<Rightarrow> string" where
  "content_digest cr sub k a body = content_hash cr sub k a (canonical_json_value body)"

definition verifies :: "crypto \<Rightarrow> claim_signature \<Rightarrow> judged \<Rightarrow> bool" where
  "verifies cr s c =
     (case sig_format s of
        None \<Rightarrow> verify_key_signature cr (sig_key s)
          (signing_bytes (content c) (signer s) (on_behalf s) (sig_key s) (chain s) (nonce s) (signed_at_unix_ms s))
          (signature s)
      | Some f \<Rightarrow>
          f = FIELDS_FORMAT \<and> signed_fields s \<noteq> []
          \<and> verify_key_signature cr (sig_key s)
              (fields_signing_bytes (json_text cr) (subject c) (kind c) (actor c) (judged_fields c) (signed_fields s) (signer s)
                 (on_behalf s) (sig_key s) (chain s) (nonce s) (signed_at_unix_ms s)) (signature s))"

subsection \<open>Verdicts\<close>

datatype reason =
    NotTheClaim | NonceUsed | OwnBehalf | NotPrincipal string | CannotHoldKeys string
  | CannotGrant family role string | NotItsIssuer | MalformedGrant | NodeNeedsNoChain | NoSuchRoot string
  | NamesNoDelegation | NotArrived string | WrongDelegation string | DoesNotSign role | CannotIssue string
  | KeyRevoked string | DelegationUnsigned string | DelegationInvalid string reason | GoesPastNode | ReachesNoNode
  | NotHere string | TooDeep

datatype verdict = Verified | Unsigned | Held reason | Invalid reason

record delegation =
  delegation_subject :: string
  grant :: key_grant
  delegation_verdict :: verdict

record facts =
  delegation_of :: "string \<Rightarrow> delegation option"
  is_root :: "string \<Rightarrow> string \<Rightarrow> bool"
  revoked_before :: "string \<Rightarrow> string \<Rightarrow> bool"
  nonce_used_before :: "string \<Rightarrow> string \<Rightarrow> bool"

text \<open>The loop of \<open>judge_chain\<close>; the flag is \<open>index == 0\<close>.\<close>

fun judge_steps :: "facts \<Rightarrow> string \<Rightarrow> family \<Rightarrow> bool \<Rightarrow> string \<Rightarrow> string \<Rightarrow> string list \<Rightarrow> verdict" where
  "judge_steps f knd fam first who k [] = Invalid ReachesNoNode"
| "judge_steps f knd fam first who k (i # ids) =
     (case delegation_of f i of
        None \<Rightarrow> Held (NotArrived i)
      | Some d \<Rightarrow>
          if delegation_subject d \<noteq> who \<or> grant_key (grant d) \<noteq> k then Invalid (WrongDelegation i)
          else if first \<and> knd \<noteq> KEY_GRANTED \<and> \<not> signs_with fam (grant_role (grant d))
            then Invalid (DoesNotSign (grant_role (grant d)))
          else if \<not> first \<and> grant_role (grant d) \<noteq> Root then Invalid (CannotIssue i)
          else if revoked_before f who k then Invalid (KeyRevoked who)
          else case delegation_verdict d of
            Held r \<Rightarrow> Held r
          | Unsigned \<Rightarrow> Invalid (DelegationUnsigned i)
          | Invalid r \<Rightarrow> Invalid (DelegationInvalid i r)
          | Verified \<Rightarrow>
              if family_of (issuer (grant d)) = Some NodeFamily
              then (if ids = [] then Verified else Invalid GoesPastNode)
              else judge_steps f knd fam False (issuer (grant d)) (issuer_key (grant d)) ids)"

definition judge_chain :: "facts \<Rightarrow> judged \<Rightarrow> claim_signature \<Rightarrow> family \<Rightarrow> verdict" where
  "judge_chain f c s fam =
     (if chain s = [] then Invalid NamesNoDelegation
      else judge_steps f (kind c) fam True (signer s) (sig_key s) (chain s))"

text \<open>The check of a grant claim: a refusal, or none.\<close>

definition judge_grant :: "judged \<Rightarrow> claim_signature \<Rightarrow> family \<Rightarrow> reason option" where
  "judge_grant c s fam =
     (if kind c \<noteq> KEY_GRANTED then None
      else case key_grant_from_fields (judged_fields c) of
        None \<Rightarrow> Some MalformedGrant
      | Some g \<Rightarrow>
          if issuer g = signer s \<and> issuer_key g = sig_key s
          then (case family_of (subject c) of
                  None \<Rightarrow> Some (CannotHoldKeys (subject c))
                | Some sf \<Rightarrow>
                    if accepts sf (grant_role g) fam (subject c = issuer g) then None
                    else Some (CannotGrant fam (grant_role g) (subject c)))
          else Some NotItsIssuer)"

definition judge :: "crypto \<Rightarrow> judged \<Rightarrow> claim_signature option \<Rightarrow> facts \<Rightarrow> verdict" where
  "judge cr c so f =
     (case so of
        None \<Rightarrow> Unsigned
      | Some s \<Rightarrow>
          if \<not> verifies cr s c then Invalid NotTheClaim
          else if nonce_used_before f (sig_key s) (nonce s) then Invalid NonceUsed
          else if on_behalf s = Some (signer s) then Invalid OwnBehalf
          else case family_of (signer s) of
            None \<Rightarrow> Invalid (NotPrincipal (signer s))
          | Some fam \<Rightarrow>
              (case judge_grant c s fam of
                 Some r \<Rightarrow> Invalid r
               | None \<Rightarrow>
                   if fam = NodeFamily then
                     (if chain s \<noteq> [] then Invalid NodeNeedsNoChain
                      else if is_root f (signer s) (sig_key s) then Verified
                      else Held (NoSuchRoot (signer s)))
                   else judge_chain f c s fam))"

subsection \<open>Lemmas: what a verified signature needs\<close>

text \<open>
  A key of a principal climbs to a node along delegations: each grants the key below, stands, is
  itself verified, and all above the first give a root key. The role is the first delegation's.
\<close>

inductive climbs :: "facts \<Rightarrow> string \<Rightarrow> string \<Rightarrow> role \<Rightarrow> string list \<Rightarrow> bool" for f where
  node: "\<lbrakk>delegation_of f i = Some d; delegation_subject d = who; grant_key (grant d) = k; \<not> revoked_before f who k;
    delegation_verdict d = Verified; grant_role (grant d) = r; family_of (issuer (grant d)) = Some NodeFamily\<rbrakk>
    \<Longrightarrow> climbs f who k r [i]"
| up: "\<lbrakk>delegation_of f i = Some d; delegation_subject d = who; grant_key (grant d) = k; \<not> revoked_before f who k;
    delegation_verdict d = Verified; grant_role (grant d) = r; family_of (issuer (grant d)) \<noteq> Some NodeFamily;
    climbs f (issuer (grant d)) (issuer_key (grant d)) Root ids\<rbrakk>
    \<Longrightarrow> climbs f who k r (i # ids)"

inductive_cases climbs_NilE: "climbs f who k r []"
inductive_cases climbs_ConsE: "climbs f who k r (i # ids)"

lemma judge_steps_Verified:
  "judge_steps f knd fam first who k ids = Verified \<longleftrightarrow>
     (\<exists>r. climbs f who k r ids \<and> (if first then knd = KEY_GRANTED \<or> signs_with fam r else r = Root))"
proof (induction f knd fam first who k ids rule: judge_steps.induct)
  case (1 f knd fam first who k)
  then show ?case by (auto elim: climbs_NilE)
next
  case (2 f knd fam first who k i ids)
  show ?case
  proof (cases "delegation_of f i")
    case None
    then show ?thesis by (auto elim: climbs_ConsE)
  next
    case (Some d)
    let ?good = "delegation_subject d = who \<and> grant_key (grant d) = k \<and> \<not> revoked_before f who k \<and> delegation_verdict d = Verified"
    let ?role = "if first then knd = KEY_GRANTED \<or> signs_with fam (grant_role (grant d)) else grant_role (grant d) = Root"
    have step: "judge_steps f knd fam first who k (i # ids) = Verified \<longleftrightarrow> ?good \<and> ?role \<and>
        (if family_of (issuer (grant d)) = Some NodeFamily then ids = []
         else judge_steps f knd fam False (issuer (grant d)) (issuer_key (grant d)) ids = Verified)"
      using Some by (auto split: verdict.split)
    show ?thesis
    proof (cases "family_of (issuer (grant d)) = Some NodeFamily")
      case True
      then show ?thesis unfolding step using Some by (auto elim!: climbs_ConsE intro: climbs.node)
    next
      case False
      have ih: "judge_steps f knd fam False (issuer (grant d)) (issuer_key (grant d)) ids = Verified \<longleftrightarrow>
          climbs f (issuer (grant d)) (issuer_key (grant d)) Root ids" if ?good ?role
        using 2 [OF Some] that False by (auto split: if_splits)
      have "climbs f who k r (i # ids) \<longleftrightarrow> ?good \<and> grant_role (grant d) = r
          \<and> climbs f (issuer (grant d)) (issuer_key (grant d)) Root ids" for r
        using Some False by (auto elim!: climbs_ConsE intro: climbs.up)
      then show ?thesis unfolding step using False ih by auto
    qed
  qed
qed

lemma judge_Verified:
  "judge cr c so f = Verified \<longleftrightarrow>
     (\<exists>s fam. so = Some s \<and> verifies cr s c \<and> \<not> nonce_used_before f (sig_key s) (nonce s) \<and> on_behalf s \<noteq> Some (signer s)
        \<and> family_of (signer s) = Some fam \<and> judge_grant c s fam = None
        \<and> (if fam = NodeFamily then chain s = [] \<and> is_root f (signer s) (sig_key s)
           else \<exists>r. climbs f (signer s) (sig_key s) r (chain s) \<and> (kind c = KEY_GRANTED \<or> signs_with fam r)))"
proof (cases so)
  case (Some s)
  have chain: "judge_chain f c s fam = Verified \<longleftrightarrow>
      (\<exists>r. climbs f (signer s) (sig_key s) r (chain s) \<and> (kind c = KEY_GRANTED \<or> signs_with fam r))" for fam
    by (auto simp: judge_chain_def judge_steps_Verified elim: climbs_NilE)
  show ?thesis using Some by (auto simp: judge_def chain split: option.splits)
qed (simp add: judge_def)

lemma judge_grant_accepts:
  assumes "judge_grant c s fam = None" "kind c = KEY_GRANTED"
  shows "\<exists>g sf. key_grant_from_fields (judged_fields c) = Some g \<and> issuer g = signer s \<and> issuer_key g = sig_key s
    \<and> family_of (subject c) = Some sf \<and> accepts sf (grant_role g) fam (subject c = issuer g)"
  using assms by (auto simp: judge_grant_def split: option.splits if_splits)

end
