(* ===== verification/Claim_Verdicts.thy ===== *)
theory Claim_Verdicts
  imports Principal
begin

section \<open>Verdicts over the claims of a store\<close>

text \<open>
  Models the judging of \<open>crates/smallclaims/src/store/principals.rs\<close>: the facts a store answers for
  the claim being judged, the bounded recursion into the delegations and revocations it relies on,
  and the choice among a claim's signature candidates. Rows are listed in canonical order and a
  claim's candidates in the order of their text. Left out are the cache of verdicts within a pass,
  the paging of more than 32 candidates and faults of the database.
\<close>

subsection \<open>Rows and facts\<close>

record verdict_row =
  row_claim_id :: string
  row_subject :: string
  row_kind :: string
  row_actor :: "string option"
  row_body :: json

record verdict_store =
  canonical_rows :: "verdict_row list"
  signature_candidates :: "string \<Rightarrow> claim_signature list"
  trust_roots :: "(string \<times> string) set"

definition MAX_CHAIN_DEPTH :: nat where "MAX_CHAIN_DEPTH = 8"

definition claim_row_of :: "verdict_store \<Rightarrow> string \<Rightarrow> verdict_row option" where
  "claim_row_of st i = find (\<lambda>r. row_claim_id r = i) (canonical_rows st)"

definition signature_fields :: "verdict_row \<Rightarrow> json" where
  "signature_fields r =
     (let fs = (case json_get ''fields'' (row_body r) of None \<Rightarrow> JNull | Some v \<Rightarrow> v)
      in if row_kind r = ''message.sent'' then
           (case Option.bind (json_get ''attachments'' fs) message_body_entry of
              None \<Rightarrow> fs
            | Some e \<Rightarrow>
                json_set ''body_bytes'' (case json_get ''size'' e of None \<Rightarrow> JNull | Some v \<Rightarrow> v)
                  (json_set ''body_sha256'' (case json_get ''sha256'' e of None \<Rightarrow> JNull | Some v \<Rightarrow> v) fs))
         else fs)"

definition judged_of :: "crypto \<Rightarrow> verdict_row \<Rightarrow> judged" where
  "judged_of cr r =
     \<lparr>judged_id = row_claim_id r, subject = row_subject r, kind = row_kind r, actor = row_actor r,
      content = content_digest cr (row_subject r) (row_kind r) (row_actor r) (row_body r),
      judged_fields = signature_fields r\<rparr>"

definition signature_matches :: "crypto \<Rightarrow> verdict_row \<Rightarrow> claim_signature \<Rightarrow> bool" where
  "signature_matches cr r s = verifies cr s (judged_of cr r)"

text \<open>The rows before a claim in canonical order.\<close>

definition rows_before :: "verdict_store \<Rightarrow> string \<Rightarrow> verdict_row list" where
  "rows_before st i = takeWhile (\<lambda>r. row_claim_id r \<noteq> i) (canonical_rows st)"

definition verdict_rank :: "verdict \<Rightarrow> nat" where
  "verdict_rank v = (case v of Verified \<Rightarrow> 0 | Held _ \<Rightarrow> 1 | Invalid _ \<Rightarrow> 2 | Unsigned \<Rightarrow> 3)"

text \<open>
  What is asked of other claims goes through \<open>deeper\<close>: their verdict and winning signature one level
  down, or nothing at the deepest level.
\<close>

type_synonym deeper = "(string \<Rightarrow> verdict \<times> claim_signature option) option"

definition verdict_of :: "deeper \<Rightarrow> string \<Rightarrow> verdict" where
  "verdict_of deeper i = (case deeper of None \<Rightarrow> Invalid TooDeep | Some j \<Rightarrow> fst (j i))"

definition store_delegation :: "verdict_store \<Rightarrow> deeper \<Rightarrow> string \<Rightarrow> delegation option" where
  "store_delegation st deeper i =
     (case claim_row_of st i of
        None \<Rightarrow> None
      | Some r \<Rightarrow>
          if row_kind r \<noteq> KEY_GRANTED then None
          else case Option.bind (json_get ''fields'' (row_body r)) key_grant_from_fields of
            None \<Rightarrow> None
          | Some g \<Rightarrow> Some \<lparr>delegation_subject = row_subject r, grant = g, delegation_verdict = verdict_of deeper i\<rparr>)"

definition revokes :: "verdict_store \<Rightarrow> string \<Rightarrow> string \<Rightarrow> verdict_row \<Rightarrow> bool" where
  "revokes st who k r =
     (row_subject r = who \<and> row_kind r = KEY_REVOKED
      \<and> Option.bind (Option.bind (json_get ''fields'' (row_body r)) (json_get ''key'')) as_str = Some k
      \<and> signature_candidates st (row_claim_id r) \<noteq> [])"

definition store_revoked_before :: "verdict_store \<Rightarrow> deeper \<Rightarrow> string \<Rightarrow> string \<Rightarrow> string \<Rightarrow> bool" where
  "store_revoked_before st deeper i who k =
     (case deeper of
        None \<Rightarrow> False
      | Some j \<Rightarrow> list_ex (\<lambda>r. revokes st who k r
          \<and> (case j (row_claim_id r) of
               (Verified, Some s) \<Rightarrow> signer s = who \<or> family_of (signer s) = Some NodeFamily
             | _ \<Rightarrow> False)) (rows_before st i))"

definition store_nonce_used :: "crypto \<Rightarrow> verdict_store \<Rightarrow> string \<Rightarrow> string \<Rightarrow> string \<Rightarrow> bool" where
  "store_nonce_used cr st i k n =
     list_ex (\<lambda>r. list_ex (\<lambda>s. signature_matches cr r s \<and> sig_key s = k \<and> nonce s = n)
       (signature_candidates st (row_claim_id r))) (rows_before st i)"

definition store_facts :: "crypto \<Rightarrow> verdict_store \<Rightarrow> deeper \<Rightarrow> string \<Rightarrow> facts" where
  "store_facts cr st deeper i =
     \<lparr>delegation_of = store_delegation st deeper, is_root = (\<lambda>sub k. (sub, k) \<in> trust_roots st),
      revoked_before = store_revoked_before st deeper i, nonce_used_before = store_nonce_used cr st i\<rparr>"

subsection \<open>Judging\<close>

definition judge_candidate ::
  "crypto \<Rightarrow> judged \<Rightarrow> facts \<Rightarrow> claim_signature \<Rightarrow> (verdict \<times> claim_signature) option \<Rightarrow> (verdict \<times> claim_signature) option"
where
  "judge_candidate cr c f s best =
     (let v = judge cr c (Some s) f
      in case best of
           None \<Rightarrow> Some (v, s)
         | Some (p, _) \<Rightarrow> if verdict_rank v < verdict_rank p then Some (v, s) else best)"

definition judge_candidates :: "crypto \<Rightarrow> verdict_store \<Rightarrow> deeper \<Rightarrow> verdict_row \<Rightarrow> verdict \<times> claim_signature option" where
  "judge_candidates cr st deeper r =
     (case fold (judge_candidate cr (judged_of cr r) (store_facts cr st deeper (row_claim_id r)))
             (signature_candidates st (row_claim_id r)) None of
        None \<Rightarrow> (Unsigned, None)
      | Some (v, s) \<Rightarrow> (v, Some s))"

definition judge_at :: "crypto \<Rightarrow> verdict_store \<Rightarrow> deeper \<Rightarrow> string \<Rightarrow> verdict \<times> claim_signature option" where
  "judge_at cr st deeper i =
     (case claim_row_of st i of None \<Rightarrow> (Held (NotHere i), None) | Some r \<Rightarrow> judge_candidates cr st deeper r)"

text \<open>\<open>judge_claim\<close> with the levels left below it; the code starts at the depth limit.\<close>

primrec judge_levels :: "crypto \<Rightarrow> verdict_store \<Rightarrow> nat \<Rightarrow> string \<Rightarrow> verdict \<times> claim_signature option" where
  "judge_levels cr st 0 = judge_at cr st None"
| "judge_levels cr st (Suc n) = judge_at cr st (Some (judge_levels cr st n))"

definition judge_claim :: "crypto \<Rightarrow> verdict_store \<Rightarrow> string \<Rightarrow> verdict \<times> claim_signature option" where
  "judge_claim cr st i = judge_levels cr st MAX_CHAIN_DEPTH i"

subsection \<open>Lemmas: the winning signature\<close>

lemma verdict_rank_0: "verdict_rank v = 0 \<longleftrightarrow> v = Verified"
  by (simp add: verdict_rank_def split: verdict.split)

lemma candidate_fold:
  assumes "fold (judge_candidate cr c f) ss best = Some (v, s)"
  shows "best = Some (v, s) \<or> s \<in> set ss \<and> v = judge cr c (Some s) f"
  using assms
proof (induction ss arbitrary: best)
  case (Cons a ss)
  then have "judge_candidate cr c f a best = Some (v, s) \<or> s \<in> set ss \<and> v = judge cr c (Some s) f" by simp
  then show ?case by (auto simp: judge_candidate_def Let_def split: option.splits if_splits)
qed simp

lemma judge_at_Verified:
  assumes "judge_at cr st deeper i = (Verified, so)"
  obtains r s where "so = Some s" "claim_row_of st i = Some r" "s \<in> set (signature_candidates st i)" "row_claim_id r = i"
    "judge cr (judged_of cr r) (Some s) (store_facts cr st deeper i) = Verified"
proof -
  obtain r where r: "claim_row_of st i = Some r" and j: "judge_candidates cr st deeper r = (Verified, so)"
    using assms by (auto simp: judge_at_def split: option.splits)
  have i: "row_claim_id r = i" using r find_SomeD by (fastforce simp: claim_row_of_def)
  obtain s where s: "so = Some s"
    "fold (judge_candidate cr (judged_of cr r) (store_facts cr st deeper i)) (signature_candidates st i) None = Some (Verified, s)"
    using j i by (auto simp: judge_candidates_def split: option.splits)
  from candidate_fold [OF s(2)] show thesis using that [OF s(1) r] i by auto
qed

lemma levels_at: "\<exists>deeper. judge_levels cr st n = judge_at cr st deeper \<and> (deeper = None \<or> (\<exists>m. n = Suc m \<and> deeper = Some (judge_levels cr st m)))"
  by (cases n) auto

subsection \<open>Lemmas: grants that were verified\<close>

lemma grant_fields:
  assumes "row_kind r = KEY_GRANTED"
  shows "key_grant_from_fields (signature_fields r) = Option.bind (json_get ''fields'' (row_body r)) key_grant_from_fields"
proof -
  have "row_kind r \<noteq> ''message.sent''" using assms by (simp add: KEY_GRANTED_def)
  moreover have "key_grant_from_fields JNull = None" by (simp add: key_grant_from_fields_def grant_field_def)
  ultimately show ?thesis by (cases "json_get ''fields'' (row_body r)") (simp_all add: signature_fields_def)
qed

text \<open>A grant in the store, carried by a signature of its issuer that its subject's family accepts.\<close>

definition valid_grant :: "crypto \<Rightarrow> verdict_store \<Rightarrow> verdict_row \<Rightarrow> key_grant \<Rightarrow> claim_signature \<Rightarrow> bool" where
  "valid_grant cr st r g s =
     (r \<in> set (canonical_rows st) \<and> row_kind r = KEY_GRANTED
      \<and> Option.bind (json_get ''fields'' (row_body r)) key_grant_from_fields = Some g
      \<and> s \<in> set (signature_candidates st (row_claim_id r)) \<and> signature_matches cr r s
      \<and> issuer g = signer s \<and> issuer_key g = sig_key s
      \<and> (\<exists>sf fam. family_of (row_subject r) = Some sf \<and> family_of (issuer g) = Some fam
           \<and> accepts sf (grant_role g) fam (row_subject r = issuer g)))"

lemma verified_delegation:
  assumes d: "store_delegation st deeper i = Some d" and v: "delegation_verdict d = Verified"
  obtains r s j where "deeper = Some j" "j i = (Verified, s)" "claim_row_of st i = Some r" "row_subject r = delegation_subject d"
    "row_kind r = KEY_GRANTED" "Option.bind (json_get ''fields'' (row_body r)) key_grant_from_fields = Some (grant d)"
  using assms by (auto simp: store_delegation_def verdict_of_def split: option.splits if_splits) (metis prod.collapse)

lemma verified_grant:
  assumes d: "store_delegation st (Some (judge_levels cr st m)) i = Some d" and v: "delegation_verdict d = Verified"
  shows "\<exists>r s. judge_levels cr st m i = (Verified, Some s) \<and> valid_grant cr st r (grant d) s \<and> row_subject r = delegation_subject d"
proof -
  obtain r so where r: "judge_levels cr st m i = (Verified, so)" "claim_row_of st i = Some r"
    "row_subject r = delegation_subject d" "row_kind r = KEY_GRANTED"
    "Option.bind (json_get ''fields'' (row_body r)) key_grant_from_fields = Some (grant d)"
    using verified_delegation [OF d v] by (metis option.inject)
  obtain deeper where "judge_levels cr st m = judge_at cr st deeper" using levels_at by blast
  with r(1) obtain r' s where s: "so = Some s" "claim_row_of st i = Some r'" "s \<in> set (signature_candidates st i)"
    "row_claim_id r' = i" "judge cr (judged_of cr r') (Some s) (store_facts cr st deeper i) = Verified"
    using judge_at_Verified by metis
  have "r' = r" using s(2) r(2) by simp
  with s(5) obtain fam where j: "verifies cr s (judged_of cr r)" "family_of (signer s) = Some fam"
    "judge_grant (judged_of cr r) s fam = None" unfolding judge_Verified by auto
  have "kind (judged_of cr r) = KEY_GRANTED" using r(4) by (simp add: judged_of_def)
  from judge_grant_accepts [OF j(3) this] have "valid_grant cr st r (grant d) s"
    using r s j \<open>r' = r\<close> find_SomeD [of _ "canonical_rows st" r]
    by (auto simp: valid_grant_def judged_of_def grant_fields signature_matches_def claim_row_of_def)
  with r s(1) show ?thesis by blast
qed

lemma climbs_levels:
  assumes "climbs (store_facts cr st deeper i) who k r ids"
  obtains j where "deeper = Some j"
  using assms by cases (auto simp: store_facts_def elim: verified_delegation)

lemma verified_levels:
  assumes "judge_levels cr st n i = (Verified, Some s)"
  obtains r deeper where "claim_row_of st i = Some r" "row_claim_id r = i" "s \<in> set (signature_candidates st i)"
    "judge cr (judged_of cr r) (Some s) (store_facts cr st deeper i) = Verified"
    "deeper = None \<or> (\<exists>m. n = Suc m \<and> deeper = Some (judge_levels cr st m))"
proof -
  obtain deeper where d: "judge_levels cr st n = judge_at cr st deeper"
    "deeper = None \<or> (\<exists>m. n = Suc m \<and> deeper = Some (judge_levels cr st m))" using levels_at by blast
  from assms have "judge_at cr st deeper i = (Verified, Some s)" using d(1) by simp
  from judge_at_Verified [OF this] that d(2) show thesis by (metis option.inject)
qed

subsection \<open>Lemmas: speaking for a principal\<close>

text \<open>
  A key speaks for a principal when it is a trust root of that node, or when a grant in the store gives
  it, signed with a key that speaks for the issuer.
\<close>

inductive speaks :: "crypto \<Rightarrow> verdict_store \<Rightarrow> string \<Rightarrow> string \<Rightarrow> bool" for cr st where
  root: "(who, k) \<in> trust_roots st \<Longrightarrow> family_of who = Some NodeFamily \<Longrightarrow> speaks cr st who k"
| granted: "valid_grant cr st r g s \<Longrightarrow> speaks cr st (issuer g) (issuer_key g) \<Longrightarrow> speaks cr st (row_subject r) (grant_key g)"

lemma verified_speaks_levels:
  "judge_levels cr st n i = (Verified, Some s) \<Longrightarrow> speaks cr st (signer s) (sig_key s)"
proof (induction n arbitrary: i s rule: less_induct)
  case (less n)
  obtain r deeper where j: "judge cr (judged_of cr r) (Some s) (store_facts cr st deeper i) = Verified"
    and deep: "deeper = None \<or> (\<exists>m. n = Suc m \<and> deeper = Some (judge_levels cr st m))"
    using verified_levels [OF less.prems] by metis
  obtain fam where fam: "family_of (signer s) = Some fam" and
    path: "if fam = NodeFamily then chain s = [] \<and> is_root (store_facts cr st deeper i) (signer s) (sig_key s)
      else \<exists>ro. climbs (store_facts cr st deeper i) (signer s) (sig_key s) ro (chain s)
        \<and> (kind (judged_of cr r) = KEY_GRANTED \<or> signs_with fam ro)"
    using j unfolding judge_Verified by (simp only: option.inject) blast
  show ?case
  proof (cases "fam = NodeFamily")
    case True
    then show ?thesis using path fam by (auto simp: store_facts_def intro: speaks.root)
  next
    case False
    then obtain ro where c: "climbs (store_facts cr st deeper i) (signer s) (sig_key s) ro (chain s)" using path by auto
    then obtain m where m: "n = Suc m" "deeper = Some (judge_levels cr st m)" using deep climbs_levels by fastforce
    from c obtain d h where d: "store_delegation st deeper h = Some d" "delegation_subject d = signer s"
      "grant_key (grant d) = sig_key s" "delegation_verdict d = Verified"
      by cases (auto simp: store_facts_def)
    from verified_grant [OF d(1) [unfolded m(2)] d(4)] obtain r' s' where
      s': "judge_levels cr st m h = (Verified, Some s')" "valid_grant cr st r' (grant d) s'" "row_subject r' = delegation_subject d" by blast
    have "speaks cr st (signer s') (sig_key s')" using less.IH [OF _ s'(1)] m(1) by simp
    then have "speaks cr st (issuer (grant d)) (issuer_key (grant d))" using s'(2) by (simp add: valid_grant_def)
    from speaks.granted [OF s'(2) this] show ?thesis using d s'(3) by simp
  qed
qed

text \<open>The delegations of a chain were judged, so their roles fit their families.\<close>

lemma climbs_length:
  assumes c: "climbs (store_facts cr st (Some (judge_levels cr st m)) i) who k r ids"
    and fam: "family_of who = Some fam" and signing: "signs_with fam r \<or> r = Root"
  shows "length ids = (if r = Device then 2 else 1)"
  using c
proof cases
  case (node h d)
  then obtain rr ss where "valid_grant cr st rr (grant d) ss" "row_subject rr = who"
    using verified_grant [of st cr m h d] by (auto simp: store_facts_def)
  then have "accepts fam r NodeFamily (who = issuer (grant d))" using node fam by (auto simp: valid_grant_def)
  then have "r \<noteq> Device" by (cases fam; cases r) auto
  with node show ?thesis by simp
next
  case (up h d ids')
  then obtain rr ss where "valid_grant cr st rr (grant d) ss" "row_subject rr = who"
    using verified_grant [of st cr m h d] by (auto simp: store_facts_def)
  then obtain fam' where acc: "accepts fam r fam' (who = issuer (grant d))" "family_of (issuer (grant d)) = Some fam'" "fam' \<noteq> NodeFamily"
    using up fam by (auto simp: valid_grant_def)
  then have dev: "r = Device" "fam = PersonFamily" "who = issuer (grant d)" by (cases fam; cases r; auto)+
  have "length ids' = 1"
    using up(9)
  proof cases
    case (node h2 d2)
    then show ?thesis by simp
  next
    case (up h2 d2 ids2)
    then obtain r2 s2 where "valid_grant cr st r2 (grant d2) s2" "row_subject r2 = who"
      using verified_grant [of st cr m h2 d2] dev by (auto simp: store_facts_def)
    then show ?thesis using up dev fam by (auto simp: valid_grant_def)
  qed
  with up dev show ?thesis by simp
qed

lemma judge_claim_at: "judge_claim cr st = judge_at cr st (Some (judge_levels cr st 7))"
proof -
  have m: "MAX_CHAIN_DEPTH = Suc 7" by (simp add: MAX_CHAIN_DEPTH_def)
  have "judge_levels cr st MAX_CHAIN_DEPTH = judge_at cr st (Some (judge_levels cr st 7))"
    unfolding m judge_levels.simps ..
  then show ?thesis by (simp add: judge_claim_def fun_eq_iff)
qed

lemma verified_row:
  assumes "judge_claim cr st i = (Verified, Some s)"
  shows "\<exists>r. claim_row_of st i = Some r \<and> row_claim_id r = i \<and> s \<in> set (signature_candidates st i) \<and> signature_matches cr r s
    \<and> \<not> store_nonce_used cr st i (sig_key s) (nonce s)"
proof -
  have "judge_at cr st (Some (judge_levels cr st 7)) i = (Verified, Some s)" using assms by (simp add: judge_claim_at)
  then obtain r where "claim_row_of st i = Some r" "s \<in> set (signature_candidates st i)" "row_claim_id r = i"
    "judge cr (judged_of cr r) (Some s) (store_facts cr st (Some (judge_levels cr st 7)) i) = Verified"
    by (metis judge_at_Verified option.inject)
  then show ?thesis unfolding judge_Verified by (auto simp: store_facts_def signature_matches_def)
qed

lemma find_before:
  "find (\<lambda>x. f x = i) xs = Some r \<Longrightarrow> find (\<lambda>x. f x = j) xs = Some q \<Longrightarrow> i \<noteq> j \<Longrightarrow>
   q \<in> set (takeWhile (\<lambda>x. f x \<noteq> i) xs) \<or> r \<in> set (takeWhile (\<lambda>x. f x \<noteq> j) xs)"
  by (induction xs) (auto split: if_splits)

lemma before_total:
  assumes "claim_row_of st i = Some r" "claim_row_of st j = Some q" "i \<noteq> j"
  shows "q \<in> set (rows_before st i) \<or> r \<in> set (rows_before st j)"
  using assms unfolding claim_row_of_def rows_before_def by (rule find_before)

text \<open>A store with one member node and two claims that carry the same signature by its key.\<close>

definition example_crypto :: crypto where
  "example_crypto = \<lparr>b64_decode = (\<lambda>_. Some (replicate 32 (CHR ''k''))), ed25519 = (\<lambda>_ _ _. True),
     ecdsa_p256 = (\<lambda>_ _ _. True), content_hash = (\<lambda>_ _ _ _. []), json_text = (\<lambda>_. [])\<rparr>"

definition example_sig :: claim_signature where
  "example_sig = \<lparr>signer = ''host/a'', on_behalf = None, sig_key = ''k'', chain = [], nonce = ''n'', signed_at_unix_ms = 0,
     signature = ''s'', sig_format = None, signed_fields = []\<rparr>"

definition example_row :: "string \<Rightarrow> verdict_row" where
  "example_row i = \<lparr>row_claim_id = i, row_subject = ''doc/a'', row_kind = ''doc.set'', row_actor = None, row_body = JNull\<rparr>"

definition example_store :: "claim_signature \<Rightarrow> (string \<times> string) set \<Rightarrow> verdict_store" where
  "example_store s roots = \<lparr>canonical_rows = [example_row ''c'', example_row ''d''],
     signature_candidates = (\<lambda>_. [s]), trust_roots = roots\<rparr>"

abbreviation example_verdicts :: verdict_store where
  "example_verdicts \<equiv> example_store example_sig {(''host/a'', ''k'')}"

lemma example_store_verified:
  assumes "family_of (signer s) = Some NodeFamily" "(signer s, sig_key s) \<in> roots" "strip_prefix ''p256:'' (sig_key s) = None"
    "chain s = []" "on_behalf s = None" "sig_format s = None"
  shows "judge_claim example_crypto (example_store s roots) ''c'' = (Verified, Some s)"
proof -
  have v: "judge example_crypto c (Some s) (store_facts example_crypto (example_store s roots) d ''c'') = Verified"
    if "kind c = ''doc.set''" for c d
    using that assms by (simp add: judge_def verifies_def verify_key_signature_def verify_signature_def
        example_crypto_def example_store_def example_row_def store_facts_def store_nonce_used_def rows_before_def
        judge_grant_def KEY_GRANTED_def)
  obtain r where r: "claim_row_of (example_store s roots) ''c'' = Some r" "row_claim_id r = ''c''" "row_kind r = ''doc.set''"
    by (simp add: claim_row_of_def example_store_def example_row_def)
  have "signature_candidates (example_store s roots) ''c'' = [s]" by (simp add: example_store_def)
  then show ?thesis using r v [of "judged_of example_crypto r"]
    by (simp add: judge_claim_at judge_at_def judge_candidates_def judge_candidate_def judged_of_def)
qed

lemma example_verified: "judge_claim example_crypto example_verdicts ''c'' = (Verified, Some example_sig)"
  by (rule example_store_verified) (simp_all add: example_sig_def family_of_def split_once_def strip_prefix_def)

subsection \<open>Properties\<close>

text \<open>
  A verified signature was made by a key that speaks for its signer. When the store judges a claim
  verified, the winning signature is one of the claim's candidates and matches its content, and its
  key is a trust root of the signing node, or was given to the signer by a grant in the store whose
  own signature matches and whose issuing key speaks, in turn, for an issuer the family accepts.
\<close>

lemma verified_speaks:
  assumes "judge_claim cr st i = (Verified, Some s)"
  shows "speaks cr st (signer s) (sig_key s)
    \<and> (\<exists>r. claim_row_of st i = Some r \<and> s \<in> set (signature_candidates st i) \<and> signature_matches cr r s)"
proof -
  have l: "judge_levels cr st MAX_CHAIN_DEPTH i = (Verified, Some s)" using assms by (simp add: judge_claim_def)
  then show ?thesis using verified_speaks_levels verified_row [OF assms] by blast
qed

text \<open>
  Chains have the length their family needs. For a verified claim that is not itself a grant, the
  chain is empty when a node signed, one grant when an agent or a plugin did, and a device grant under
  a root grant when a person did: no delegated key can pass its right on any further.
\<close>

lemma verified_chain_length:
  assumes "judge_claim cr st i = (Verified, Some s)" and "claim_row_of st i = Some r" and "row_kind r \<noteq> KEY_GRANTED"
    and "family_of (signer s) = Some fam"
  shows "length (chain s) = (case fam of NodeFamily \<Rightarrow> 0 | PersonFamily \<Rightarrow> 2 | AgentFamily \<Rightarrow> 1 | PluginFamily \<Rightarrow> 1)"
proof -
  have "judge_at cr st (Some (judge_levels cr st 7)) i = (Verified, Some s)" using assms(1) by (simp add: judge_claim_at)
  from judge_at_Verified [OF this] have "judge cr (judged_of cr r) (Some s) (store_facts cr st (Some (judge_levels cr st 7)) i) = Verified"
    using assms(2) by (metis option.inject)
  then have path: "if fam = NodeFamily then chain s = []
      else \<exists>ro. climbs (store_facts cr st (Some (judge_levels cr st 7)) i) (signer s) (sig_key s) ro (chain s) \<and> signs_with fam ro"
    using assms(3,4) unfolding judge_Verified by (auto simp: judged_of_def split: if_splits)
  show ?thesis
  proof (cases "fam = NodeFamily")
    case False
    then obtain ro where ro: "climbs (store_facts cr st (Some (judge_levels cr st 7)) i) (signer s) (sig_key s) ro (chain s)"
      "signs_with fam ro" using path by auto
    from climbs_length [OF ro(1) assms(4)] ro(2) show ?thesis by (cases fam; cases ro) auto
  qed (use path in simp)
qed

text \<open>
  C27. A signature counts once. Two different claims are never both verified with the same key and
  nonce: the later of them in canonical order is refused.
\<close>

theorem verified_nonce_once:
  assumes "judge_claim cr st i = (Verified, Some s)" and "judge_claim cr st j = (Verified, Some t)"
    and "sig_key s = sig_key t" and "nonce s = nonce t"
  shows "i = j"
proof (rule ccontr)
  assume ne: "i \<noteq> j"
  obtain r q where r: "claim_row_of st i = Some r" "row_claim_id r = i" "s \<in> set (signature_candidates st i)" "signature_matches cr r s"
      "\<not> store_nonce_used cr st i (sig_key s) (nonce s)"
    and q: "claim_row_of st j = Some q" "row_claim_id q = j" "t \<in> set (signature_candidates st j)" "signature_matches cr q t"
      "\<not> store_nonce_used cr st j (sig_key t) (nonce t)"
    using verified_row [OF assms(1)] verified_row [OF assms(2)] by blast
  from before_total [OF r(1) q(1) ne] show False
    using r q assms(3,4) by (auto simp: store_nonce_used_def list_ex_iff)
qed

theorem verified_nonce_once_witness: "judge_claim example_crypto example_verdicts ''d'' \<noteq> (Verified, Some example_sig)"
  using verified_nonce_once [OF example_verified _ refl refl, of "''d''"] by auto

end
