(* ===== verification/Trust_Roots.thy ===== *)
theory Trust_Roots
  imports Membership Claim_Verdicts
begin

section \<open>Trust roots: the member keys of the fleet\<close>

text \<open>
  Models \<open>member_roots\<close> and \<open>Store::trust_roots\<close> of \<open>crates/smallclaims/src/store/principals.rs\<close>: the node
  keys a verdict may end at are the member keys of the folded membership and the node's own key, with
  the cache of the fold that the fleet generation guards.
\<close>

subsection \<open>Definitions\<close>

definition member_roots :: "membership \<Rightarrow> (string \<times> string) set" where
  "member_roots m = (\<Union>all\<in>ran (incarnations m). (\<lambda>i. (''host/'' @ inc_name i, member_key i)) ` set all)"

type_synonym roots_cache = "(int \<times> (string \<times> string) set) option"

text \<open>The roots and the cache left behind; the fold runs only when the generation moved.\<close>

definition trust_roots_tx ::
  "roots_cache \<Rightarrow> int \<Rightarrow> membership \<Rightarrow> string \<Rightarrow> string option \<Rightarrow> (string \<times> string) set \<times> roots_cache"
where
  "trust_roots_tx cache generation m origin own =
     (let cached = (case cache of
             None \<Rightarrow> None | Some (folded_at, roots) \<Rightarrow> if folded_at = generation then Some roots else None);
          (roots, cache') = (case cached of
             Some roots \<Rightarrow> (roots, cache)
           | None \<Rightarrow> (member_roots m, Some (generation, member_roots m)))
      in (case own of None \<Rightarrow> roots | Some k \<Rightarrow> insert (''host/'' @ origin, k) roots, cache'))"

text \<open>What the triggers on the generation promise: a cached set is the fold of the claims of its generation.\<close>

definition coherent :: "(int \<Rightarrow> membership) \<Rightarrow> roots_cache \<Rightarrow> bool" where
  "coherent at cache = (case cache of None \<Rightarrow> True | Some (g, roots) \<Rightarrow> roots = member_roots (at g))"

subsection \<open>Lemmas: the cache\<close>

lemma trust_roots_tx_coherent:
  assumes "coherent at cache" "m = at generation"
  shows "coherent at (snd (trust_roots_tx cache generation m origin own))"
    and "fst (trust_roots_tx cache generation m origin own)
      = member_roots m \<union> (case own of None \<Rightarrow> {} | Some k \<Rightarrow> {(''host/'' @ origin, k)})"
  using assms by (auto simp: coherent_def trust_roots_tx_def Let_def split: option.splits)

subsection \<open>Lemmas: roots come from admissions\<close>

definition well_named :: "membership \<Rightarrow> bool" where
  "well_named m = (\<forall>n. \<forall>i\<in>set (incarnations_of m n). inc_name i = n)"

lemma inc_name_keep [simp]:
  "inc_name (end_incarnation c h i) = inc_name i" "inc_name (set_endpoints c i) = inc_name i"
  "inc_name (fresh_incarnation c n k) = n"
  by (simp_all add: end_incarnation_def set_endpoints_def fresh_incarnation_def Let_def split: option.split)

lemma well_named_update:
  assumes "well_named m" "\<And>i. inc_name (g i) = inc_name i"
  shows "well_named (update_incarnation n k g m)"
proof -
  have "i \<in> set (update_first P g xs) \<Longrightarrow> \<exists>j\<in>set xs. inc_name i = inc_name j" for i P xs
    by (induction xs) (auto simp: assms(2) split: if_splits)
  then show ?thesis using assms(1)
    by (fastforce simp: well_named_def update_incarnation_def incarnations_of_def split: option.splits)
qed

lemma well_named_build: "well_named (build a cs v)"
proof -
  have ad: "well_named m \<Longrightarrow> well_named (Membership.admit c m)" for c m
    by (auto simp: well_named_def Membership.admit_def incarnations_of_def split: option.splits)
  have le: "well_named (m\<lparr>legacy_ends := l\<rparr>) = well_named m" for l m
    by (simp add: well_named_def incarnations_of_def)
  have am: "well_named m \<Longrightarrow> well_named (amend c m)" for c m
    by (auto simp: amend_def well_named_update le split: option.split)
  have "well_named m \<Longrightarrow> well_named (fold Membership.admit ds m)" "well_named m \<Longrightarrow> well_named (fold amend ds m)" for ds m
    by (induction ds arbitrary: m) (simp_all add: ad am)
  moreover have "well_named (no_membership\<lparr>anchor := Some a, valid := v\<rparr>)"
    by (simp add: well_named_def incarnations_of_def no_membership_def)
  ultimately show ?thesis by (simp add: build_def Let_def)
qed

lemma member_root_admitted:
  assumes "(w, k) \<in> member_roots (build a cs v)"
  obtains n c where "w = ''host/'' @ n" "c \<in> set cs" "claim_id c \<in> v" "admits n k c"
proof -
  obtain n all i where i: "incarnations (build a cs v) n = Some all" "i \<in> set all" "w = ''host/'' @ inc_name i" "k = member_key i"
    using assms by (auto simp: member_roots_def ran_def)
  then have im: "i \<in> set (incarnations_of (build a cs v) n)" by (simp add: incarnations_of_def)
  then have n: "inc_name i = n" using well_named_build by (auto simp: well_named_def)
  have "incarnation_of (build a cs v) n k \<noteq> None"
    using im i(4) by (auto simp: incarnation_of_def find_None_iff)
  then obtain c where "find (admits n k) (counted v cs) = Some c" by (auto simp: build_incarnation_of)
  then have "c \<in> set (counted v cs)" "admits n k c" using find_SomeD by fastforce+
  then show thesis using that [of n c] i n by auto
qed

lemma admitted_member_root:
  assumes "c \<in> set cs" "claim_id c \<in> v" "admits n k c"
  shows "(''host/'' @ n, k) \<in> member_roots (build a cs v)"
proof -
  have "find (admits n k) (counted v cs) \<noteq> None" using assms by (auto simp: find_None_iff)
  then obtain i where "incarnation_of (build a cs v) n k = Some i" by (auto simp: build_incarnation_of)
  then have i: "i \<in> set (incarnations_of (build a cs v) n)" "member_key i = k"
    using find_SomeD [of _ "incarnations_of (build a cs v) n" i] by (auto simp: incarnation_of_def)
  then obtain all where "incarnations (build a cs v) n = Some all" "i \<in> set all"
    by (cases "incarnations (build a cs v) n") (auto simp: incarnations_of_def)
  moreover have "inc_name i = n" using i well_named_build by (auto simp: well_named_def)
  ultimately show ?thesis using i(2) unfolding member_roots_def by (intro UN_I [of all]) (auto intro: ranI)
qed

lemma fold_roots_trusted:
  assumes ids: "distinct (map claim_id claims)" and r: "(w, k) \<in> member_roots (fold_membership (Some a) claims)"
  obtains n c where "w = ''host/'' @ n" "trusted a (set (fleet_claims claims)) c" "admits n k c"
proof -
  let ?cs = "fleet_claims claims"
  let ?v = "settle (revise a ?cs) (2 * length ?cs + 4) None {}"
  have v: "?v \<subseteq> claim_id ` {c. trusted a (set ?cs) c}"
    by (rule settle_subset) (simp_all add: revise_trusted distinct_fleet_claims ids)
  have "(w, k) \<in> member_roots (build a ?cs ?v)" using r by (simp add: fold_membership_def Let_def)
  then obtain n c where c: "w = ''host/'' @ n" "c \<in> set ?cs" "claim_id c \<in> ?v" "admits n k c"
    by (rule member_root_admitted)
  obtain c' where c': "claim_id c' = claim_id c" "trusted a (set ?cs) c'" using v c(3) by (metis (mono_tags, lifting) imageE mem_Collect_eq subsetD)
  have "c' = c" using trusted_in [OF c'(2)] c(2) c'(1) distinct_fleet_claims [OF ids] by (auto simp: distinct_map inj_on_def)
  then show thesis using that c c' by blast
qed

text \<open>
  A key is vouched for when a claim trusted from the anchor admitted it for a node, when it is the node's
  own, or when a valid grant gives it, signed with a key that is vouched for as its issuer's.
\<close>

inductive vouched ::
  "crypto \<Rightarrow> verdict_store \<Rightarrow> string \<Rightarrow> fleet_claim set \<Rightarrow> string \<Rightarrow> string option \<Rightarrow> string \<Rightarrow> string \<Rightarrow> bool"
  for cr st a C origin own
where
  member: "trusted a C c \<Longrightarrow> admits n k c \<Longrightarrow> vouched cr st a C origin own (''host/'' @ n) k"
| itself: "own = Some k \<Longrightarrow> vouched cr st a C origin own (''host/'' @ origin) k"
| granted: "valid_grant cr st r g s \<Longrightarrow> vouched cr st a C origin own (issuer g) (issuer_key g) \<Longrightarrow>
    vouched cr st a C origin own (row_subject r) (grant_key g)"

lemma speaks_vouched:
  assumes "speaks cr st who k" and ids: "distinct (map claim_id claims)"
    and roots: "trust_roots st = member_roots (fold_membership (Some a) claims)
      \<union> (case own of None \<Rightarrow> {} | Some k \<Rightarrow> {(''host/'' @ origin, k)})"
  shows "vouched cr st a (set (fleet_claims claims)) origin own who k"
  using assms(1)
proof induction
  case (root who k)
  then consider "(who, k) \<in> member_roots (fold_membership (Some a) claims)" | "own = Some k" "who = ''host/'' @ origin"
    unfolding roots by (auto split: option.splits)
  then show ?case
  proof cases
    case 1
    then show ?thesis using fold_roots_trusted [OF ids] vouched.member by metis
  next
    case 2
    show ?thesis unfolding 2(2) using 2(1) by (rule vouched.itself)
  qed
next
  case (granted r g s)
  then show ?case using vouched.granted by blast
qed

lemma fold_no_anchor: "member_roots (fold_membership None claims) = {}"
  by (simp add: fold_membership_def member_roots_def no_membership_def ran_def)

end
