(* ===== verification/Join_Code.thy ===== *)
theory Join_Code
  imports Text_Codec Canonical
begin

section \<open>Join codes\<close>

text \<open>
  Models \<open>crates/smallclaims/src/fleet/code.rs\<close>: the record a join code carries, its printing and its
  parsing. A text is its UTF-8 bytes. Base32, base64 and SHA-256 are third-party code and are arguments;
  the checks of \<open>String::from_utf8\<close> and \<open>char::is_whitespace\<close> are written out on bytes.
\<close>

subsection \<open>Integers\<close>

definition from_be_bytes :: "string \<Rightarrow> nat" where
  "from_be_bytes bs = foldl (\<lambda>n c. 256 * n + code c) 0 bs"

subsection \<open>The code and its parts\<close>

datatype code_endpoint = Tailscale string | Fabric string string | Loopback string

record join_code =
  fleet_id :: string
  invite :: string
  token :: string
  fingerprint_of :: string
  expires_at :: nat
  pinned_name :: "string option"
  migrate :: bool
  code_endpoints :: "code_endpoint list"

datatype code_error =
    FieldTooLong | NameTooLong | TooManyEndpoints | NotAJoinCode | Damaged | NotCopiedWhole | NeedsNewer nat | UnknownEndpoint nat

definition PREFIX :: string where "PREFIX = ''stj1-''"
definition VERSION :: nat where "VERSION = 1"
definition FLAG_MIGRATE :: nat where "FLAG_MIGRATE = 1"

definition fingerprint :: "(string \<Rightarrow> string option) \<Rightarrow> (string \<Rightarrow> string) \<Rightarrow> string \<Rightarrow> string" where
  "fingerprint b64_decode sha256 member_key =
     take 16 (sha256 (case b64_decode member_key of None \<Rightarrow> member_key | Some bytes \<Rightarrow> bytes))"

definition invite_id :: "join_code \<Rightarrow> string" where
  "invite_id c = concat (map (\<lambda>b. [hex_digit (code b div 16), hex_digit (code b mod 16)]) (invite c))"

subsection \<open>Encoding\<close>

definition put_text :: "string \<Rightarrow> string \<Rightarrow> code_error + string" where
  "put_text rec t = (if length t < 2 ^ 16 then Inr (rec @ to_be_bytes 2 (length t) @ t) else Inl FieldTooLong)"

definition put_endpoint :: "string \<Rightarrow> code_endpoint \<Rightarrow> code_error + string" where
  "put_endpoint rec e =
     (case e of
        Tailscale address \<Rightarrow> put_text (rec @ [char_of (1 :: nat)]) address
      | Fabric node protocol \<Rightarrow> and_then (put_text (rec @ [char_of (2 :: nat)]) node) (\<lambda>r. put_text r protocol)
      | Loopback address \<Rightarrow> put_text (rec @ [char_of (3 :: nat)]) address)"

fun put_endpoints :: "string \<Rightarrow> code_endpoint list \<Rightarrow> code_error + string" where
  "put_endpoints rec [] = Inr rec"
| "put_endpoints rec (e # es) = and_then (put_endpoint rec e) (\<lambda>r. put_endpoints r es)"

definition put_name :: "string \<Rightarrow> string option \<Rightarrow> code_error + string" where
  "put_name rec n =
     (case n of
        None \<Rightarrow> Inr (rec @ [char_of (0 :: nat)])
      | Some s \<Rightarrow> if length s < 2 ^ 8 then Inr (rec @ char_of (length s) # s) else Inl NameTooLong)"

definition put_head :: "join_code \<Rightarrow> string" where
  "put_head c =
     [char_of VERSION, char_of (if migrate c then FLAG_MIGRATE else 0)] @ fleet_id c @ invite c @ token c @ fingerprint_of c
     @ to_be_bytes 8 (expires_at c)"

definition put_record :: "join_code \<Rightarrow> code_error + string" where
  "put_record c =
     and_then (put_name (put_head c) (pinned_name c)) (\<lambda>rec.
       if length (code_endpoints c) < 2 ^ 8
       then put_endpoints (rec @ [char_of (length (code_endpoints c))]) (code_endpoints c)
       else Inl TooManyEndpoints)"

definition encode :: "(string \<Rightarrow> string) \<Rightarrow> (string \<Rightarrow> string) \<Rightarrow> join_code \<Rightarrow> code_error + string" where
  "encode sha256 base32 c =
     and_then (put_record c) (\<lambda>rec.
       Inr (PREFIX @ map to_ascii_lowercase (base32 (rec @ take 4 (sha256 rec)))))"

subsection \<open>Decoding\<close>

type_synonym 'a reader = "string \<Rightarrow> code_error + 'a \<times> string"

definition take_bytes :: "nat \<Rightarrow> string reader" where
  "take_bytes n bs = (if n \<le> length bs then Inr (take n bs, drop n bs) else Inl Damaged)"

definition read_byte :: "char reader" where
  "read_byte bs = and_then (take_bytes 1 bs) (\<lambda>(x, rest). Inr (x ! 0, rest))"

definition read_utf8 :: "nat \<Rightarrow> string reader" where
  "read_utf8 n bs = and_then (take_bytes n bs) (\<lambda>(x, rest). if is_utf8 x then Inr (x, rest) else Inl Damaged)"

definition read_text :: "string reader" where
  "read_text bs = and_then (take_bytes 2 bs) (\<lambda>(n, rest). read_utf8 (from_be_bytes n) rest)"

definition read_endpoint :: "code_endpoint reader" where
  "read_endpoint bs =
     and_then (read_byte bs) (\<lambda>(k, rest).
       if code k = 1 then and_then (read_text rest) (\<lambda>(t, rest). Inr (Tailscale t, rest))
       else if code k = 2 then
         and_then (read_text rest) (\<lambda>(node, rest).
           and_then (read_text rest) (\<lambda>(protocol, rest). Inr (Fabric node protocol, rest)))
       else if code k = 3 then and_then (read_text rest) (\<lambda>(t, rest). Inr (Loopback t, rest))
       else Inl (UnknownEndpoint (code k)))"

primrec read_endpoints :: "nat \<Rightarrow> code_endpoint list reader" where
  "read_endpoints 0 bs = Inr ([], bs)"
| "read_endpoints (Suc n) bs =
     and_then (read_endpoint bs) (\<lambda>(e, rest). and_then (read_endpoints n rest) (\<lambda>(es, rest). Inr (e # es, rest)))"

definition read_name :: "string option reader" where
  "read_name bs =
     and_then (read_byte bs) (\<lambda>(n, rest).
       if code n = 0 then Inr (None, rest)
       else and_then (read_utf8 (code n) rest) (\<lambda>(s, rest). Inr (Some s, rest)))"

definition read_record :: "string \<Rightarrow> code_error + join_code" where
  "read_record bs =
     and_then (read_byte bs) (\<lambda>(version, bs).
     if code version \<noteq> VERSION then Inl (NeedsNewer (code version)) else
     and_then (read_byte bs) (\<lambda>(flags, bs).
     and_then (take_bytes 16 bs) (\<lambda>(fleet, bs).
     and_then (take_bytes 16 bs) (\<lambda>(inv, bs).
     and_then (take_bytes 16 bs) (\<lambda>(tok, bs).
     and_then (take_bytes 16 bs) (\<lambda>(finger, bs).
     and_then (take_bytes 8 bs) (\<lambda>(expires, bs).
     and_then (read_name bs) (\<lambda>(n, bs).
     and_then (read_byte bs) (\<lambda>(count, bs).
     and_then (read_endpoints (code count) bs) (\<lambda>(es, bs).
     if bs \<noteq> [] then Inl Damaged
     else Inr \<lparr>fleet_id = fleet, invite = inv, token = tok, fingerprint_of = finger, expires_at = from_be_bytes expires,
               pinned_name = n, migrate = (code flags mod 2 = FLAG_MIGRATE), code_endpoints = es\<rparr>))))))))))"

definition char_boundary :: "string \<Rightarrow> nat \<Rightarrow> bool" where
  "char_boundary t n = (n = length t \<or> n < length t \<and> \<not> continuation (t ! n))"

definition decode :: "(string \<Rightarrow> string) \<Rightarrow> (string \<Rightarrow> string option) \<Rightarrow> string \<Rightarrow> code_error + join_code" where
  "decode sha256 base32_decode t =
     (let compact = strip_whitespace t
      in if \<not> (char_boundary compact (length PREFIX)
              \<and> map to_ascii_lowercase (take (length PREFIX) compact) = map to_ascii_lowercase PREFIX)
         then Inl NotAJoinCode
         else case base32_decode (map to_ascii_uppercase (drop (length PREFIX) compact)) of
           None \<Rightarrow> Inl Damaged
         | Some bytes \<Rightarrow>
             if length bytes \<le> 4 then Inl Damaged
             else let rec = take (length bytes - 4) bytes
                  in if take 4 (sha256 rec) \<noteq> drop (length bytes - 4) bytes then Inl NotCopiedWhole
                     else read_record rec)"

subsection \<open>Lemmas: integers\<close>

lemma from_be_bytes_to_be_bytes:
  assumes "n < 256 ^ w"
  shows "from_be_bytes (to_be_bytes w n) = n"
proof -
  have "n < 256 ^ w \<Longrightarrow> foldl (\<lambda>n c. 256 * n + code c) a (to_be_bytes w n) = a * 256 ^ w + n" for a
  proof (induction w arbitrary: a n)
    case (Suc w)
    then have "n div 256 ^ w < 256" by (simp add: less_mult_imp_div_less mult.commute)
    moreover have "n mod 256 ^ w < 256 ^ w" by simp
    ultimately show ?case using Suc.IH [of "n mod 256 ^ w"] div_mult_mod_eq [of n "256 ^ w"] by (simp add: algebra_simps)
  qed simp
  with assms show ?thesis by (simp add: from_be_bytes_def)
qed

lemma from_be_bytes_less: "from_be_bytes bs < 256 ^ length bs"
proof -
  have "foldl (\<lambda>n c. 256 * n + code c) a bs < (a + 1) * 256 ^ length bs" for a
  proof (induction bs arbitrary: a)
    case (Cons c bs)
    have "x < 256 \<Longrightarrow> 256 * a + x + 1 \<le> (a + 1) * 256" for x :: nat by simp
    from this [OF code_less, of c] have "256 * a + code c + 1 \<le> (a + 1) * 256" .
    then have "(256 * a + code c + 1) * 256 ^ length bs \<le> (a + 1) * 256 * 256 ^ length bs" by (rule mult_le_mono1)
    from less_le_trans [OF Cons [of "256 * a + code c"] this] show ?case by (simp add: algebra_simps)
  qed simp
  from this [of 0] show ?thesis by (simp add: from_be_bytes_def)
qed

subsection \<open>Lemmas: what is written is read back\<close>

definition valid_text :: "string \<Rightarrow> bool" where
  "valid_text t = (length t < 2 ^ 16 \<and> is_utf8 t)"

fun endpoint_texts :: "code_endpoint \<Rightarrow> string list" where
  "endpoint_texts (Tailscale t) = [t]"
| "endpoint_texts (Fabric n p) = [n, p]"
| "endpoint_texts (Loopback t) = [t]"

definition text_bytes :: "string \<Rightarrow> string" where
  "text_bytes t = to_be_bytes 2 (length t) @ t"

fun endpoint_kind :: "code_endpoint \<Rightarrow> nat" where
  "endpoint_kind (Tailscale t) = 1"
| "endpoint_kind (Fabric n p) = 2"
| "endpoint_kind (Loopback t) = 3"

definition endpoint_bytes :: "code_endpoint \<Rightarrow> string" where
  "endpoint_bytes e = char_of (endpoint_kind e) # concat (map text_bytes (endpoint_texts e))"

definition name_bytes :: "string option \<Rightarrow> string" where
  "name_bytes n = (case n of None \<Rightarrow> [char_of (0 :: nat)] | Some s \<Rightarrow> char_of (length s) # s)"

text \<open>What the types of the source guarantee of a code, and the limits that encoding checks.\<close>

definition typed :: "join_code \<Rightarrow> bool" where
  "typed c =
     (length (fleet_id c) = 16 \<and> length (invite c) = 16 \<and> length (token c) = 16 \<and> length (fingerprint_of c) = 16
      \<and> expires_at c < 2 ^ 64 \<and> (\<forall>s\<in>set_option (pinned_name c). is_utf8 s)
      \<and> (\<forall>e\<in>set (code_endpoints c). \<forall>t\<in>set (endpoint_texts e). is_utf8 t))"

definition fits :: "join_code \<Rightarrow> bool" where
  "fits c =
     ((\<forall>s\<in>set_option (pinned_name c). length s < 2 ^ 8) \<and> length (code_endpoints c) < 2 ^ 8
      \<and> (\<forall>e\<in>set (code_endpoints c). \<forall>t\<in>set (endpoint_texts e). length t < 2 ^ 16))"

text \<open>An empty pinned name is written as no name.\<close>

definition read_back :: "join_code \<Rightarrow> join_code" where
  "read_back c = c\<lparr>pinned_name := if pinned_name c = Some [] then None else pinned_name c\<rparr>"

definition record_bytes :: "join_code \<Rightarrow> string" where
  "record_bytes c = put_head c @ name_bytes (pinned_name c) @ char_of (length (code_endpoints c))
     # concat (map endpoint_bytes (code_endpoints c))"

lemma put_text_Inr: "put_text rec t = Inr r \<longleftrightarrow> length t < 2 ^ 16 \<and> r = rec @ text_bytes t"
  by (auto simp: put_text_def text_bytes_def)

lemma put_endpoint_Inr:
  "put_endpoint rec e = Inr r \<longleftrightarrow> (\<forall>t\<in>set (endpoint_texts e). length t < 2 ^ 16) \<and> r = rec @ endpoint_bytes e"
  by (cases e) (auto simp: put_endpoint_def and_then_Inr put_text_Inr endpoint_bytes_def)

lemma put_endpoints_Inr:
  "put_endpoints rec es = Inr r \<longleftrightarrow>
     (\<forall>e\<in>set es. \<forall>t\<in>set (endpoint_texts e). length t < 2 ^ 16) \<and> r = rec @ concat (map endpoint_bytes es)"
  by (induction es arbitrary: rec) (auto simp: and_then_Inr put_endpoint_Inr)

lemma put_record_Inr: "put_record c = Inr r \<longleftrightarrow> fits c \<and> r = record_bytes c"
  by (auto simp: put_record_def and_then_Inr put_name_def put_endpoints_Inr fits_def record_bytes_def name_bytes_def
      split: option.splits)

lemma take_bytes_append [simp]: "length x = n \<Longrightarrow> take_bytes n (x @ rest) = Inr (x, rest)"
  by (simp add: take_bytes_def)

lemma read_byte_Cons [simp]: "read_byte (c # rest) = Inr (c, rest)"
  by (simp add: read_byte_def take_bytes_def)

lemma read_text_bytes: "valid_text t \<Longrightarrow> read_text (text_bytes t @ rest) = Inr (t, rest)"
  by (simp add: read_text_def text_bytes_def read_utf8_def valid_text_def from_be_bytes_to_be_bytes)

lemma read_endpoint_bytes:
  "\<forall>t\<in>set (endpoint_texts e). valid_text t \<Longrightarrow> read_endpoint (endpoint_bytes e @ rest) = Inr (e, rest)"
  by (cases e) (simp_all add: read_endpoint_def endpoint_bytes_def read_text_bytes)

lemma read_endpoints_bytes:
  "\<forall>e\<in>set es. \<forall>t\<in>set (endpoint_texts e). valid_text t \<Longrightarrow>
   read_endpoints (length es) (concat (map endpoint_bytes es) @ rest) = Inr (es, rest)"
  by (induction es) (simp_all add: read_endpoint_bytes)

lemma read_name_bytes:
  "\<forall>s\<in>set_option n. length s < 2 ^ 8 \<and> is_utf8 s \<Longrightarrow>
   read_name (name_bytes n @ rest) = Inr (if n = Some [] then None else n, rest)"
  by (cases n) (simp_all add: read_name_def name_bytes_def read_utf8_def)

lemma read_record_bytes:
  assumes "typed c" "fits c"
  shows "read_record (record_bytes c) = Inr (read_back c)"
proof -
  have n: "\<forall>s\<in>set_option (pinned_name c). length s < 2 ^ 8 \<and> is_utf8 s"
    and es: "\<forall>e\<in>set (code_endpoints c). \<forall>t\<in>set (endpoint_texts e). valid_text t"
    using assms by (auto simp: typed_def fits_def valid_text_def)
  have len: "length (code_endpoints c) < 256" "expires_at c < 256 ^ 8" using assms by (simp_all add: typed_def fits_def)
  show ?thesis
    using assms(1) read_endpoints_bytes [OF es, of "[]"] len
    by (simp add: read_record_def record_bytes_def put_head_def VERSION_def FLAG_MIGRATE_def read_name_bytes [OF n]
        from_be_bytes_to_be_bytes typed_def read_back_def)
qed

subsection \<open>Lemmas: pasted text\<close>

text \<open>Base32 as its documentation has it: it decodes what it encodes, in the upper-case alphabet.\<close>

definition base32_law :: "(string \<Rightarrow> string) \<Rightarrow> (string \<Rightarrow> string option) \<Rightarrow> bool" where
  "base32_law base32 base32_decode \<longleftrightarrow>
     (\<forall>bs. base32_decode (base32 bs) = Some bs) \<and> (\<forall>bs. \<forall>c\<in>set (base32 bs). is_upper c \<or> CHR ''2'' \<le> c \<and> c \<le> CHR ''7'')"

lemma base32_upper:
  assumes "base32_law base32 base32_decode"
  shows "map to_ascii_uppercase (base32 bs) = base32 bs" "ascii (base32 bs)"
proof -
  have c: "is_upper c \<or> 50 \<le> code c \<and> code c \<le> 55" if "c \<in> set (base32 bs)" for c
    using assms that by (auto simp: base32_law_def less_eq_char_def)
  then show "ascii (base32 bs)" by (fastforce simp: ascii_def list_all_iff upper_iff)
  have "to_ascii_uppercase x = x" if "x \<in> set (base32 bs)" for x
    using c [OF that] by (auto simp: to_ascii_uppercase_def lower_iff upper_iff)
  then show "map to_ascii_uppercase (base32 bs) = base32 bs" by (simp add: map_idI)
qed

text \<open>A text that is another up to letter case and ASCII whitespace.\<close>

definition pasted :: "string \<Rightarrow> string \<Rightarrow> bool" where
  "pasted t out = (map to_ascii_uppercase (filter (\<lambda>c. \<not> space1 c) t) = map to_ascii_uppercase out)"

lemma pasted_compact:
  assumes "pasted t out" "ascii out"
  shows "ascii (strip_whitespace t)" "map to_ascii_uppercase (strip_whitespace t) = map to_ascii_uppercase out"
proof -
  have f: "ascii (filter (\<lambda>c. \<not> space1 c) t)"
    using assms ascii_uppercase [of out] ascii_uppercase [of "filter (\<lambda>c. \<not> space1 c) t"] unfolding pasted_def by simp
  have "space1 c \<Longrightarrow> code c < 128" for c by (auto simp: space1_def)
  with f have "ascii t" by (auto simp: ascii_def list_all_iff)
  then have "strip_whitespace t = filter (\<lambda>c. \<not> space1 c) t" by (rule strip_ascii)
  with f assms(1) show "ascii (strip_whitespace t)" "map to_ascii_uppercase (strip_whitespace t) = map to_ascii_uppercase out"
    by (simp_all add: pasted_def)
qed

lemma ascii_boundary: "ascii t \<Longrightarrow> n \<le> length t \<Longrightarrow> char_boundary t n"
  by (cases "n < length t") (auto simp: char_boundary_def ascii_def continuation_def list_all_length)

lemma decode_pasted:
  assumes law: "base32_law base32 base32_decode" and t: "pasted t (PREFIX @ map to_ascii_lowercase (base32 bytes))"
    and sum: "4 < length bytes" "take 4 (sha256 (take (length bytes - 4) bytes)) = drop (length bytes - 4) bytes"
  shows "decode sha256 base32_decode t = read_record (take (length bytes - 4) bytes)"
proof -
  let ?text = "PREFIX @ map to_ascii_lowercase (base32 bytes)"
  let ?c = "strip_whitespace t"
  have a: "ascii ?text"
    using base32_upper(2) [OF law] by (simp add: ascii_append ascii_lowercase) (simp add: ascii_def PREFIX_def)
  note c = pasted_compact [OF t a]
  have "length ?c = length ?text" using arg_cong [OF c(2), of length] by simp
  then have b: "char_boundary ?c (length PREFIX)" by (intro ascii_boundary c(1)) simp
  have "map to_ascii_uppercase (take (length PREFIX) ?c) = map to_ascii_uppercase PREFIX"
    using arg_cong [OF c(2), of "take (length PREFIX)"] by (simp add: take_map)
  then have p: "map to_ascii_lowercase (take (length PREFIX) ?c) = map to_ascii_lowercase PREFIX" by (rule same_case)
  have "map to_ascii_uppercase (drop (length PREFIX) ?c) = map to_ascii_uppercase (base32 bytes)"
    using arg_cong [OF c(2), of "drop (length PREFIX)"] by (simp add: drop_map upper_of_lower comp_def)
  then have "base32_decode (map to_ascii_uppercase (drop (length PREFIX) ?c)) = Some bytes"
    using law base32_upper(1) [OF law] by (simp add: base32_law_def)
  with b p sum show ?thesis by (simp add: decode_def Let_def)
qed

lemma encode_Inr:
  "encode sha256 base32 c = Inr out \<longleftrightarrow>
     fits c \<and> out = PREFIX @ map to_ascii_lowercase (base32 (record_bytes c @ take 4 (sha256 (record_bytes c))))"
  by (auto simp: encode_def and_then_Inr put_record_Inr)

subsection \<open>Lemmas: what is read is well typed\<close>

lemma take_bytes_Inr: "take_bytes n bs = Inr (x, rest) \<Longrightarrow> length x = n"
  by (auto simp: take_bytes_def split: if_splits)

lemma read_utf8_Inr: "read_utf8 n bs = Inr (x, rest) \<Longrightarrow> length x = n \<and> is_utf8 x"
  by (auto simp: read_utf8_def and_then_Inr dest: take_bytes_Inr split: if_splits)

lemma read_text_Inr:
  assumes "read_text bs = Inr (t, rest)"
  shows "valid_text t"
proof -
  obtain n r where n: "take_bytes 2 bs = Inr (n, r)" "read_utf8 (from_be_bytes n) r = Inr (t, rest)"
    using assms by (auto simp: read_text_def and_then_Inr)
  have "from_be_bytes n < 256 ^ 2" using from_be_bytes_less [of n] take_bytes_Inr [OF n(1)] by simp
  with read_utf8_Inr [OF n(2)] show ?thesis by (simp add: valid_text_def)
qed

lemma read_endpoint_Inr: "read_endpoint bs = Inr (e, rest) \<Longrightarrow> \<forall>t\<in>set (endpoint_texts e). valid_text t"
  by (auto simp: read_endpoint_def and_then_Inr dest!: read_text_Inr split: if_splits)

lemma read_endpoints_Inr:
  "read_endpoints n bs = Inr (es, rest) \<Longrightarrow> length es = n \<and> (\<forall>e\<in>set es. \<forall>t\<in>set (endpoint_texts e). valid_text t)"
  by (induction n arbitrary: bs es) (fastforce simp: and_then_Inr dest: read_endpoint_Inr)+

lemma read_name_Inr: "read_name bs = Inr (n, rest) \<Longrightarrow> \<forall>s\<in>set_option n. s \<noteq> [] \<and> length s < 2 ^ 8 \<and> is_utf8 s"
  using code_less by (fastforce simp: read_name_def and_then_Inr dest!: read_utf8_Inr split: if_splits)

lemma read_record_Inr:
  assumes "read_record bs = Inr c"
  shows "typed c \<and> fits c \<and> read_back c = c"
proof -
  obtain n es expires count b1 b2 r1 r2 where
    n: "read_name b1 = Inr (n, r1)" "pinned_name c = n"
    and es: "read_endpoints (code count) b2 = Inr (es, r2)" "code_endpoints c = es"
    and x: "length expires = 8" "expires_at c = from_be_bytes expires"
    and len: "length (fleet_id c) = 16" "length (invite c) = 16" "length (token c) = 16" "length (fingerprint_of c) = 16"
    using assms by (auto simp: read_record_def and_then_Inr dest!: take_bytes_Inr split: if_splits)
  have "expires_at c < 256 ^ 8" using from_be_bytes_less [of expires] x by simp
  moreover have "length es < 256" using read_endpoints_Inr [OF es(1)] code_less by simp
  ultimately show ?thesis
    using read_name_Inr [OF n(1)] read_endpoints_Inr [OF es(1)] n(2) es(2) len
    by (auto simp: typed_def fits_def read_back_def valid_text_def)
qed

lemma decode_Inr: "decode sha256 base32_decode t = Inr c \<Longrightarrow> \<exists>bs. read_record bs = Inr c"
  by (auto simp: decode_def Let_def split: if_splits option.splits)

text \<open>A base32 alphabet of sixteen letters, two to a byte, and a checksum of zeros.\<close>

definition example_base32 :: "string \<Rightarrow> string" where
  "example_base32 bs = concat (map (\<lambda>b. [char_of (65 + code b div 16), char_of (65 + code b mod 16)]) bs)"

fun example_base32_decode :: "string \<Rightarrow> string option" where
  "example_base32_decode (a # b # r) = map_option ((#) (char_of ((code a - 65) * 16 + (code b - 65)))) (example_base32_decode r)"
| "example_base32_decode [] = Some []"
| "example_base32_decode [a] = None"

lemma example_base32_law: "base32_law example_base32 example_base32_decode"
proof -
  have lt: "code b div 16 < 16" "code b mod 16 < 16" for b
    using code_less [of b] less_mult_imp_div_less [of "code b" 16 16] by simp_all
  have m: "(65 + code b div 16) mod 256 = 65 + code b div 16" for b using lt [of b] by (intro mod_less) simp
  have "example_base32_decode (example_base32 bs) = Some bs" for bs
    by (induction bs) (simp_all add: example_base32_def lt m)
  moreover have "x < 16 \<Longrightarrow> is_upper (char_of (65 + x))" for x :: nat by (simp add: upper_iff)
  then have "is_upper c" if "c \<in> set (example_base32 bs)" for c bs
    using that lt by (auto simp: example_base32_def)
  ultimately show ?thesis by (simp add: base32_law_def)
qed


definition example_code :: join_code where
  "example_code = \<lparr>fleet_id = replicate 16 (CHR ''f''), invite = replicate 16 (CHR ''i''), token = replicate 16 (CHR ''t''),
     fingerprint_of = replicate 16 (CHR ''p''), expires_at = 1790000000, pinned_name = Some ''laptop'', migrate = False,
     code_endpoints = [Tailscale ''100.101.102.103:31313'', Fabric ''a'' ''st3/fleet'', Loopback ''127.0.0.1:31313'']\<rparr>"

definition example_sha256 :: "string \<Rightarrow> string" where
  "example_sha256 bs = replicate 32 (CHR 0x00)"

lemma example_code_encodes: "\<exists>out. encode example_sha256 example_base32 example_code = Inr out"
  by (simp add: encode_Inr fits_def example_code_def)

lemma example_code_typed: "typed example_code" "read_back example_code = example_code"
  by (simp_all add: typed_def read_back_def example_code_def)

lemma pasted_spaces: "pasted out out \<Longrightarrow> pasted (CHR '' '' # out @ [CHR 0x0A]) out"
  by (simp add: pasted_def space1_def)

lemma encoded_round_trip:
  assumes "base32_law base32 base32_decode" "\<And>bs. length (sha256 bs) = 32" "typed c" "encode sha256 base32 c = Inr out" "pasted t out"
  shows "decode sha256 base32_decode t = Inr (read_back c)"
proof -
  let ?r = "record_bytes c"
  let ?b = "?r @ take 4 (sha256 ?r)"
  have f: "fits c" and out: "out = PREFIX @ map to_ascii_lowercase (base32 ?b)" using assms(4) by (simp_all add: encode_Inr)
  have len: "length ?b = length ?r + 4" "0 < length ?r" using assms(2) by (simp_all add: record_bytes_def put_head_def)
  have "decode sha256 base32_decode t = read_record (take (length ?b - 4) ?b)"
    by (rule decode_pasted [OF assms(1) assms(5) [unfolded out]]) (use len in simp_all)
  also have "take (length ?b - 4) ?b = ?r" using len(1) by simp
  finally show ?thesis using read_record_bytes [OF assms(3) f] by simp
qed

lemma encoded_pasted:
  assumes "base32_law base32 base32_decode" "encode sha256 base32 c = Inr out"
  shows "pasted out out"
proof -
  obtain bs where out: "out = PREFIX @ map to_ascii_lowercase (base32 bs)" using assms(2) by (auto simp: encode_Inr)
  have "\<not> space1 (to_ascii_lowercase x)" if "x \<in> set (base32 bs)" for x
  proof -
    have "is_upper x \<or> 50 \<le> code x \<and> code x \<le> 55" using assms(1) that by (auto simp: base32_law_def less_eq_char_def)
    then show ?thesis by (auto simp: space1_def code_lowercase upper_iff)
  qed
  then have "filter (\<lambda>x. \<not> space1 x) out = out" by (auto simp: out PREFIX_def space1_def filter_id_conv)
  then show ?thesis by (simp add: pasted_def)
qed

subsection \<open>Properties\<close>

text \<open>
  C28. A join code survives copying. Whatever code is printed, any text that differs from the print only
  in letter case and ASCII whitespace is parsed to that code again, every field included; only an
  empty pinned name comes back as none.
\<close>

theorem join_code_round_trip:
  assumes "base32_law base32 base32_decode" "\<And>bs. length (sha256 bs) = 32"
    and "typed c" "encode sha256 base32 c = Inr out" "pasted t out"
  shows "decode sha256 base32_decode t = Inr (c\<lparr>pinned_name := if pinned_name c = Some [] then None else pinned_name c\<rparr>)"
  using encoded_round_trip [OF assms] by (simp add: read_back_def)

theorem join_code_round_trip_witness:
  "\<exists>out. encode example_sha256 example_base32 example_code = Inr out
     \<and> decode example_sha256 example_base32_decode (CHR '' '' # out @ [CHR 0x0A]) = Inr example_code"
proof -
  obtain out where out: "encode example_sha256 example_base32 example_code = Inr out" using example_code_encodes by blast
  have "decode example_sha256 example_base32_decode (CHR '' '' # out @ [CHR 0x0A]) = Inr (read_back example_code)"
    unfolding read_back_def
    by (rule join_code_round_trip [OF example_base32_law _ example_code_typed(1) out])
      (simp_all add: example_sha256_def pasted_spaces encoded_pasted [OF example_base32_law out])
  with out show ?thesis by (auto simp: example_code_typed(2))
qed

text \<open>
  Whatever text is parsed, a code that comes out is well typed: its identifiers have 16 bytes, its
  expiry is a 64-bit number and its texts are UTF-8. It is within every limit of the format, so it can be
  printed again, and its print parses to the same code.
\<close>

lemma decoded_code_prints:
  assumes "base32_law base32 base32_decode" "\<And>bs. length (sha256 bs) = 32"
    and "decode sha256 base32_decode t = Inr c"
  shows "typed c \<and> (\<exists>out. encode sha256 base32 c = Inr out \<and> decode sha256 base32_decode out = Inr c)"
proof -
  have c: "typed c" "fits c" "read_back c = c" using decode_Inr [OF assms(3)] read_record_Inr by blast+
  then obtain out where out: "encode sha256 base32 c = Inr out" by (auto simp: encode_Inr)
  with encoded_round_trip [OF assms(1,2) c(1) out encoded_pasted [OF assms(1) out]] c show ?thesis by auto
qed

end
