(* ===== verification/Task_Plan.thy ===== *)
theory Task_Plan
  imports Prelude
begin

section \<open>The plan that reconciles declared tasks with live sessions\<close>

text \<open>
  Models the planning half of \<open>crates/fractal-drivers/src/reconcile.rs\<close>: what is to be launched, torn
  down, adopted, held and reaped, from the declared agents and the observed sessions. Of an
  \<open>AgentSpec\<close> and a \<open>Task\<close> (\<open>crates/agent-spec/src/spec.rs\<close>) the records keep the fields a plan
  reads. A \<open>BTreeMap\<close> of strings is a map, and a \<open>HashMap\<close> collected from a list keeps the last
  entry of a key. The \<open>unreachable!\<close> on a task with both a command and arguments is an error value.
\<close>

subsection \<open>Declarations\<close>

datatype task_kind = Pty | Exec
datatype task_lifecycle = Service | AdoptOnly
datatype desired_state = Running | Suspended string | Retired "string option"

type_synonym string_map = "string \<rightharpoonup> string"

record agent_task =
  task_kind :: task_kind
  derived :: bool
  task_name :: string
  explicit_id :: "string option"
  command :: "string option"
  argv :: "string list option"
  cwd :: "string option"
  tags :: string_map
  env :: string_map
  task_keep :: bool
  lifecycle :: task_lifecycle

record agent_spec =
  identity :: string
  spec_name :: "string option"
  description :: "string option"
  host :: "string option"
  workspace :: "string option"
  supervisor :: "string option"
  desired_state :: desired_state
  spec_keep :: bool
  tasks :: "agent_task list"

definition is_running :: "desired_state \<Rightarrow> bool" where
  "is_running d = (case d of Running \<Rightarrow> True | _ \<Rightarrow> False)"

definition is_suspended :: "desired_state \<Rightarrow> bool" where
  "is_suspended d = (case d of Suspended _ \<Rightarrow> True | _ \<Rightarrow> False)"

definition is_retired :: "desired_state \<Rightarrow> bool" where
  "is_retired d = (case d of Retired _ \<Rightarrow> True | _ \<Rightarrow> False)"

definition resolved_host :: "string \<Rightarrow> agent_spec \<Rightarrow> string" where
  "resolved_host this s = (case host s of None \<Rightarrow> this | Some h \<Rightarrow> h)"

definition bus_id :: "string \<Rightarrow> agent_spec \<Rightarrow> string" where
  "bus_id this s = resolved_host this s @ ''.'' @ identity s"

definition is_runnable :: "agent_spec \<Rightarrow> bool" where
  "is_runnable s = list_ex (\<lambda>t. \<not> derived t \<and> (command t \<noteq> None \<or> argv t \<noteq> None)) (tasks s)"

subsection \<open>Sessions and plans\<close>

record observed_presentation =
  observed_name :: "string option"
  observed_tags :: string_map

record session =
  session_id :: string
  alive :: bool
  exit_code :: "int option"
  observed :: "observed_presentation option"

record presentation =
  presented_id :: string
  display_name :: "string option option"
  presented_tags :: "(string \<times> string option) list"

datatype task_launch = Shell string | Argv "string list"

record task_target =
  target_kind :: task_kind
  pty_id :: string
  target_bus :: string
  target_name :: string
  target_derived :: bool
  launch_as :: task_launch
  target_cwd :: "string option"
  target_workspace :: "string option"
  target_tags :: string_map
  target_env :: string_map
  target_keep :: bool
  presentation_of :: "presentation option"

record launch =
  launch_spec :: agent_spec
  launch_tasks :: "task_target list"
  live_derived :: "string list"

record reconcile_plan =
  launches :: "launch list"
  teardown :: "(agent_spec \<times> string list) list"
  settle_retirement :: "agent_spec list"
  adopt :: "agent_spec list"
  other_host :: "agent_spec list"
  unrunnable :: "agent_spec list"
  gc :: "string list"
  held :: "string list"
  presentations :: "presentation list"
  live :: "string list"

definition no_plan :: reconcile_plan where
  "no_plan = \<lparr>launches = [], teardown = [], settle_retirement = [], adopt = [], other_host = [], unrunnable = [],
     gc = [], held = [], presentations = [], live = []\<rparr>"

datatype plan_error = Conflict string string string | Unreachable | NotResolved | Ambiguous

subsection \<open>Identity, environment and presentation of a task\<close>

definition task_conflict :: "string \<Rightarrow> agent_task \<Rightarrow> string option" where
  "task_conflict bus t = (case env t ''ST_AGENT'' of Some d \<Rightarrow> if d \<noteq> bus then Some d else None | None \<Rightarrow> None)"

fun first_conflict :: "string \<Rightarrow> agent_task list \<Rightarrow> plan_error option" where
  "first_conflict bus [] = None"
| "first_conflict bus (t # ts) =
     (case task_conflict bus t of Some d \<Rightarrow> Some (Conflict bus (task_name t) d) | None \<Rightarrow> first_conflict bus ts)"

fun validate_task_identities :: "string \<Rightarrow> agent_spec list \<Rightarrow> plan_error + unit" where
  "validate_task_identities this [] = Inr ()"
| "validate_task_identities this (s # ss) =
     (if \<not> is_running (desired_state s) \<or> resolved_host this s \<noteq> this then validate_task_identities this ss
      else case first_conflict (bus_id this s) (tasks s) of
        Some e \<Rightarrow> Inl e
      | None \<Rightarrow> validate_task_identities this ss)"

definition runner_task_env :: "agent_spec \<Rightarrow> agent_task \<Rightarrow> string \<Rightarrow> string_map" where
  "runner_task_env s t bus = ((env t)(''ST_AGENT'' \<mapsto> bus))(''ST_SUPERVISOR'' := supervisor s)"

definition pty_presentation :: "agent_spec \<Rightarrow> agent_task \<Rightarrow> string \<Rightarrow> string \<Rightarrow> presentation option" where
  "pty_presentation s t i bus =
     (if task_kind t \<noteq> Pty then None
      else Some \<lparr>presented_id = i,
        display_name = (if task_name t = ''agent'' then Some (if spec_name s = Some i then None else spec_name s) else None),
        presented_tags = [(''agent.presentation.schema'', Some ''1''), (''agent.actor.path'', Some bus),
          (''agent.presentation.description'', description s),
          (''role'', if task_name t = ''agent'' \<and> i = bus then Some ''agent'' else None)]\<rparr>)"

definition presentation_matches :: "presentation \<Rightarrow> observed_presentation \<Rightarrow> bool" where
  "presentation_matches want got =
     ((case display_name want of None \<Rightarrow> True | Some n \<Rightarrow> n = observed_name got)
      \<and> list_all (\<lambda>(k, v). observed_tags got k = v) (presented_tags want))"

definition resolve_task_id :: "string \<Rightarrow> agent_task \<Rightarrow> string" where
  "resolve_task_id bus t = (case explicit_id t of Some i \<Rightarrow> i | None \<Rightarrow> bus @ ''.'' @ task_name t)"

definition launch_of :: "agent_task \<Rightarrow> plan_error + task_launch option" where
  "launch_of t =
     (case (command t, argv t) of
        (Some c, None) \<Rightarrow> Inr (Some (Shell c))
      | (None, Some a) \<Rightarrow> Inr (Some (Argv a))
      | (None, None) \<Rightarrow> Inr None
      | (Some _, Some _) \<Rightarrow> Inl Unreachable)"

definition target_of :: "string \<Rightarrow> agent_spec \<Rightarrow> agent_task \<Rightarrow> task_launch \<Rightarrow> task_target" where
  "target_of this s t l =
     (let bus = bus_id this s; i = resolve_task_id bus t
      in \<lparr>target_kind = task_kind t, pty_id = i, target_bus = bus, target_name = task_name t, target_derived = derived t,
          launch_as = l, target_cwd = cwd t, target_workspace = workspace s, target_tags = tags t,
          target_env = runner_task_env s t bus, target_keep = (task_keep t \<or> spec_keep s),
          presentation_of = pty_presentation s t i bus\<rparr>)"

subsection \<open>The state of a session\<close>

datatype session_status = Alive | Dead | Absent

definition sessions_by_id :: "session list \<Rightarrow> string \<rightharpoonup> session" where
  "sessions_by_id ss = map_of (rev (map (\<lambda>s. (session_id s, s)) ss))"

definition session_state :: "session list \<Rightarrow> string \<Rightarrow> session_status" where
  "session_state ss i = (case sessions_by_id ss i of None \<Rightarrow> Absent | Some s \<Rightarrow> if alive s then Alive else Dead)"

subsection \<open>Planning one spec\<close>

text \<open>A spec that should not run: live tasks are stopped and dead ones reaped.\<close>

fun stop_task :: "session list \<Rightarrow> string \<Rightarrow> agent_spec \<Rightarrow> agent_task \<Rightarrow> string list \<times> string list \<Rightarrow> string list \<times> string list" where
  "stop_task ss bus s t (down, dead) =
     (let i = resolve_task_id bus t
      in case session_state ss i of
           Alive \<Rightarrow> (down @ [i], dead)
         | Dead \<Rightarrow> if is_suspended (desired_state s) \<and> (task_keep t \<or> spec_keep s) then (down, dead) else (down, dead @ [i])
         | Absent \<Rightarrow> (down, dead))"

definition plan_stopped :: "session list \<Rightarrow> string \<Rightarrow> agent_spec \<Rightarrow> reconcile_plan \<Rightarrow> reconcile_plan" where
  "plan_stopped ss bus s p =
     (let (down, dead) = fold (stop_task ss bus s) (tasks s) ([], gc p);
          p1 = (if is_retired (desired_state s) then p\<lparr>settle_retirement := settle_retirement p @ [s]\<rparr> else p)\<lparr>gc := dead\<rparr>
      in if down = [] then p1 else p1\<lparr>teardown := teardown p1 @ [(s, down)]\<rparr>)"

fun targets_of :: "string \<Rightarrow> agent_spec \<Rightarrow> agent_task list \<Rightarrow> plan_error + (task_target \<times> task_lifecycle) list" where
  "targets_of this s [] = Inr []"
| "targets_of this s (t # ts) =
     and_then (launch_of t) (\<lambda>l. and_then (targets_of this s ts) (\<lambda>rest.
       Inr (case l of None \<Rightarrow> rest | Some x \<Rightarrow> (target_of this s t x, lifecycle t) # rest)))"

definition agent_eligible :: "session list \<Rightarrow> (task_target \<times> task_lifecycle) list \<Rightarrow> bool" where
  "agent_eligible ss targets =
     (case find (\<lambda>(t, _). target_name t = ''agent'' \<and> \<not> target_derived t) targets of
        None \<Rightarrow> False
      | Some (t, l) \<Rightarrow>
          (case session_state ss (pty_id t) of
             Alive \<Rightarrow> True | Dead \<Rightarrow> \<not> target_keep t \<and> l = Service | Absent \<Rightarrow> l = Service))"

record spec_pass =
  pass_plan :: reconcile_plan
  to_launch :: "task_target list"
  pass_derived :: "string list"
  ineligible_derived :: "string list"
  derived_cleanup :: bool

definition present_alive :: "session list \<Rightarrow> task_target \<Rightarrow> reconcile_plan \<Rightarrow> reconcile_plan" where
  "present_alive ss t p =
     (case presentation_of t of
        None \<Rightarrow> p
      | Some w \<Rightarrow>
          if (case Option.bind (sessions_by_id ss (pty_id t)) observed of None \<Rightarrow> False | Some g \<Rightarrow> presentation_matches w g)
          then p else p\<lparr>presentations := presentations p @ [w]\<rparr>)"

definition plan_target :: "session list \<Rightarrow> bool \<Rightarrow> task_target \<times> task_lifecycle \<Rightarrow> spec_pass \<Rightarrow> spec_pass" where
  "plan_target ss eligible = (\<lambda>(t, l) x.
     (let i = pty_id t; p = pass_plan x
      in if target_derived t \<and> \<not> eligible then
           (case session_state ss i of
              Alive \<Rightarrow> x\<lparr>ineligible_derived := ineligible_derived x @ [i], derived_cleanup := True\<rparr>
            | Dead \<Rightarrow> if \<not> target_keep t then x\<lparr>pass_plan := p\<lparr>gc := gc p @ [i]\<rparr>, derived_cleanup := True\<rparr> else x
            | Absent \<Rightarrow> x)
         else case session_state ss i of
           Alive \<Rightarrow> x\<lparr>pass_plan := present_alive ss t (p\<lparr>live := live p @ [i]\<rparr>),
                      pass_derived := (if target_derived t then pass_derived x @ [i] else pass_derived x)\<rparr>
         | Dead \<Rightarrow>
             if l = AdoptOnly then x\<lparr>pass_plan := p\<lparr>held := held p @ [i]\<rparr>\<rparr>
             else if target_keep t then x
             else x\<lparr>pass_plan := p\<lparr>gc := gc p @ [i]\<rparr>, to_launch := to_launch x @ [t]\<rparr>
         | Absent \<Rightarrow>
             if l = AdoptOnly then x\<lparr>pass_plan := p\<lparr>held := held p @ [i]\<rparr>\<rparr>
             else x\<lparr>to_launch := to_launch x @ [t]\<rparr>))"

definition finish_pass :: "agent_spec \<Rightarrow> nat \<Rightarrow> spec_pass \<Rightarrow> reconcile_plan" where
  "finish_pass s held_before x =
     (let p = (if ineligible_derived x \<noteq> [] then (pass_plan x)\<lparr>teardown := teardown (pass_plan x) @ [(s, ineligible_derived x)]\<rparr>
               else pass_plan x)
      in if to_launch x = [] \<and> length (held p) = held_before \<and> \<not> derived_cleanup x then p\<lparr>adopt := adopt p @ [s]\<rparr>
         else if to_launch x \<noteq> []
           then p\<lparr>launches := launches p @ [\<lparr>launch_spec = s, launch_tasks = to_launch x, live_derived = pass_derived x\<rparr>]\<rparr>
         else p)"

definition plan_running :: "string \<Rightarrow> session list \<Rightarrow> agent_spec \<Rightarrow> reconcile_plan \<Rightarrow> plan_error + reconcile_plan" where
  "plan_running this ss s p =
     and_then (targets_of this s (tasks s)) (\<lambda>targets.
       Inr (finish_pass s (length (held p)) (fold (plan_target ss (agent_eligible ss targets)) targets
              \<lparr>pass_plan = p, to_launch = [], pass_derived = [], ineligible_derived = [], derived_cleanup = False\<rparr>)))"

definition plan_spec :: "string \<Rightarrow> session list \<Rightarrow> agent_spec \<Rightarrow> reconcile_plan \<Rightarrow> plan_error + reconcile_plan" where
  "plan_spec this ss s p =
     (if resolved_host this s \<noteq> this then Inr (p\<lparr>other_host := other_host p @ [s]\<rparr>)
      else if \<not> is_running (desired_state s) then Inr (plan_stopped ss (bus_id this s) s p)
      else if \<not> is_runnable s then Inr (p\<lparr>unrunnable := unrunnable p @ [s]\<rparr>)
      else plan_running this ss s p)"

definition reconcile :: "string \<Rightarrow> agent_spec list \<Rightarrow> session list \<Rightarrow> plan_error + reconcile_plan" where
  "reconcile this specs ss =
     and_then (validate_task_identities this specs) (\<lambda>_. try_fold (plan_spec this ss) specs no_plan)"

subsection \<open>Planning one selected task\<close>

definition selected_by :: "string \<Rightarrow> string \<Rightarrow> agent_spec \<Rightarrow> agent_task \<Rightarrow> bool" where
  "selected_by this sel s t =
     (sel = resolve_task_id (bus_id this s) t \<or> sel = bus_id this s @ ''.'' @ task_name t)"

definition resolve_task :: "string \<Rightarrow> agent_spec list \<Rightarrow> string \<Rightarrow> plan_error + agent_spec \<times> agent_task \<times> string" where
  "resolve_task this specs sel =
     (case concat (map (\<lambda>s. if resolved_host this s \<noteq> this then []
             else map (\<lambda>t. (s, t, resolve_task_id (bus_id this s) t)) (filter (selected_by this sel s) (tasks s))) specs) of
        [x] \<Rightarrow> Inr x
      | [] \<Rightarrow> Inl NotResolved
      | _ \<Rightarrow> Inl Ambiguous)"

definition plan_selected_stopped :: "agent_spec \<Rightarrow> agent_task \<Rightarrow> string \<Rightarrow> session option \<Rightarrow> reconcile_plan \<Rightarrow> reconcile_plan" where
  "plan_selected_stopped s t i actual p =
     (case actual of
        None \<Rightarrow> p
      | Some x \<Rightarrow>
          if alive x then p\<lparr>teardown := teardown p @ [(s, [i])]\<rparr>
          else if is_retired (desired_state s) \<or> \<not> (task_keep t \<or> spec_keep s) then p\<lparr>gc := gc p @ [i]\<rparr>
          else p)"

definition plan_selected_target ::
  "agent_spec \<Rightarrow> task_lifecycle \<Rightarrow> task_target \<Rightarrow> session option \<Rightarrow> reconcile_plan \<Rightarrow> reconcile_plan"
where
  "plan_selected_target s l t actual p =
     (let i = pty_id t; start = \<lparr>launch_spec = s, launch_tasks = [t], live_derived = []\<rparr>
      in if (case actual of Some x \<Rightarrow> alive x | None \<Rightarrow> False) then
           (case presentation_of t of
              None \<Rightarrow> p
            | Some w \<Rightarrow>
                if (case Option.bind actual observed of None \<Rightarrow> False | Some g \<Rightarrow> presentation_matches w g) then p
                else p\<lparr>presentations := presentations p @ [w]\<rparr>)
             \<lparr>live := live p @ [i], adopt := adopt p @ [s]\<rparr>
         else if l = AdoptOnly then p\<lparr>held := held p @ [i]\<rparr>
         else case actual of
           Some _ \<Rightarrow>
             if target_keep t then p\<lparr>adopt := adopt p @ [s]\<rparr>
             else p\<lparr>gc := gc p @ [i], launches := launches p @ [start]\<rparr>
         | None \<Rightarrow> p\<lparr>launches := launches p @ [start]\<rparr>)"

definition reconcile_selected :: "string \<Rightarrow> agent_spec list \<Rightarrow> session list \<Rightarrow> string \<Rightarrow> plan_error + reconcile_plan" where
  "reconcile_selected this specs ss sel =
     and_then (validate_task_identities this specs) (\<lambda>_.
     and_then (resolve_task this specs sel) (\<lambda>(s, t, i).
     let p = (if is_retired (desired_state s) then no_plan\<lparr>settle_retirement := [s]\<rparr> else no_plan);
         actual = find (\<lambda>x. session_id x = i) ss
     in if \<not> is_running (desired_state s) then Inr (plan_selected_stopped s t i actual p)
        else if derived t \<and> \<not> (case actual of Some x \<Rightarrow> alive x | None \<Rightarrow> False) then Inr (p\<lparr>held := held p @ [i]\<rparr>)
        else and_then (launch_of t) (\<lambda>l. Inr (case l of
               None \<Rightarrow> p\<lparr>unrunnable := unrunnable p @ [s]\<rparr>
             | Some x \<Rightarrow> plan_selected_target s (lifecycle t) (target_of this s t x) actual p))))"

subsection \<open>What a plan does, by task\<close>

definition started :: "reconcile_plan \<Rightarrow> string list" where
  "started p = map pty_id (concat (map launch_tasks (launches p)))"

definition stopped :: "reconcile_plan \<Rightarrow> string list" where
  "stopped p = concat (map snd (teardown p))"

datatype fate = Keep_Live | Stop | Reap | Hold | Replace | Start | Leave

text \<open>The fate of a task that can be launched, of a spec that should run.\<close>

definition target_fate :: "(string \<Rightarrow> session_status) \<Rightarrow> bool \<Rightarrow> task_target \<times> task_lifecycle \<Rightarrow> fate" where
  "target_fate st eligible = (\<lambda>(t, l).
     if target_derived t \<and> \<not> eligible then
       (case st (pty_id t) of Alive \<Rightarrow> Stop | Dead \<Rightarrow> if target_keep t then Leave else Reap | Absent \<Rightarrow> Leave)
     else case st (pty_id t) of
       Alive \<Rightarrow> Keep_Live
     | Dead \<Rightarrow> if l = AdoptOnly then Hold else if target_keep t then Leave else Replace
     | Absent \<Rightarrow> if l = AdoptOnly then Hold else Start)"

definition stop_fate :: "(string \<Rightarrow> session_status) \<Rightarrow> string \<Rightarrow> agent_spec \<Rightarrow> agent_task \<Rightarrow> fate" where
  "stop_fate st bus s t =
     (case st (resolve_task_id bus t) of
        Alive \<Rightarrow> Stop
      | Dead \<Rightarrow> if is_suspended (desired_state s) \<and> (task_keep t \<or> spec_keep s) then Leave else Reap
      | Absent \<Rightarrow> Leave)"

abbreviation fated :: "fate set \<Rightarrow> ('a \<Rightarrow> fate) \<Rightarrow> ('a \<Rightarrow> string) \<Rightarrow> 'a list \<Rightarrow> string list" where
  "fated F f g xs \<equiv> map g (filter (\<lambda>x. f x \<in> F) xs)"

lemma present_alive_simps [simp]:
  "launches (present_alive ss t p) = launches p" "teardown (present_alive ss t p) = teardown p"
  "gc (present_alive ss t p) = gc p" "held (present_alive ss t p) = held p" "live (present_alive ss t p) = live p"
  "adopt (present_alive ss t p) = adopt p" "other_host (present_alive ss t p) = other_host p"
  "unrunnable (present_alive ss t p) = unrunnable p" "settle_retirement (present_alive ss t p) = settle_retirement p"
  by (simp_all add: present_alive_def split: option.split)

lemma plan_target_step:
  fixes ss e x z
  defines "y \<equiv> plan_target ss e z x" and "f \<equiv> target_fate (session_state ss) e z"
  shows "launches (pass_plan y) = launches (pass_plan x)" "teardown (pass_plan y) = teardown (pass_plan x)"
    "gc (pass_plan y) = gc (pass_plan x) @ (if f \<in> {Reap, Replace} then [pty_id (fst z)] else [])"
    "held (pass_plan y) = held (pass_plan x) @ (if f = Hold then [pty_id (fst z)] else [])"
    "live (pass_plan y) = live (pass_plan x) @ (if f = Keep_Live then [pty_id (fst z)] else [])"
    "to_launch y = to_launch x @ (if f \<in> {Start, Replace} then [fst z] else [])"
    "ineligible_derived y = ineligible_derived x @ (if f = Stop then [pty_id (fst z)] else [])"
    "derived_cleanup y \<longleftrightarrow> derived_cleanup x \<or> f \<in> {Stop, Reap}"
  unfolding y_def f_def
  by (cases z; cases "session_state ss (pty_id (fst z))"; simp add: plan_target_def target_fate_def Let_def)+

text \<open>The lists of a plan that name whole specs.\<close>

definition spec_lists :: "reconcile_plan \<Rightarrow> agent_spec list \<times> agent_spec list \<times> agent_spec list \<times> agent_spec list" where
  "spec_lists p = (adopt p, other_host p, unrunnable p, settle_retirement p)"

lemma plan_target_specs: "spec_lists (pass_plan (plan_target ss e z x)) = spec_lists (pass_plan x)"
  by (cases z; cases "session_state ss (pty_id (fst z))"; simp add: plan_target_def spec_lists_def Let_def)

lemma fold_plan_target_specs: "spec_lists (pass_plan (fold (plan_target ss e) ts x)) = spec_lists (pass_plan x)"
  by (induction ts arbitrary: x) (simp_all add: plan_target_specs)

lemma fold_plan_target:
  fixes ss e ts x
  defines "y \<equiv> fold (plan_target ss e) ts x" and "f \<equiv> target_fate (session_state ss) e" and "g \<equiv> \<lambda>x. pty_id (fst x)"
  shows "launches (pass_plan y) = launches (pass_plan x)" "teardown (pass_plan y) = teardown (pass_plan x)"
    "gc (pass_plan y) = gc (pass_plan x) @ fated {Reap, Replace} f g ts"
    "held (pass_plan y) = held (pass_plan x) @ fated {Hold} f g ts"
    "live (pass_plan y) = live (pass_plan x) @ fated {Keep_Live} f g ts"
    "map pty_id (to_launch y) = map pty_id (to_launch x) @ fated {Start, Replace} f g ts"
    "ineligible_derived y = ineligible_derived x @ fated {Stop} f g ts"
    "derived_cleanup y \<longleftrightarrow> derived_cleanup x \<or> fated {Stop, Reap} f g ts \<noteq> []"
  unfolding y_def f_def g_def
  by (induction ts arbitrary: x) (simp_all add: plan_target_step)

lemma stop_task_step:
  "stop_task ss bus s t (down, dead) =
     (down @ (if stop_fate (session_state ss) bus s t = Stop then [resolve_task_id bus t] else []),
      dead @ (if stop_fate (session_state ss) bus s t = Reap then [resolve_task_id bus t] else []))"
  by (cases "session_state ss (resolve_task_id bus t)") (simp_all add: stop_fate_def Let_def)

lemma fold_stop_task:
  "fold (stop_task ss bus s) ts (down, dead) =
     (down @ fated {Stop} (stop_fate (session_state ss) bus s) (resolve_task_id bus) ts,
      dead @ fated {Reap} (stop_fate (session_state ss) bus s) (resolve_task_id bus) ts)"
  by (induction ts arbitrary: down dead) (simp_all add: stop_task_step del: stop_task.simps)

text \<open>The fate of a declared task, whatever its spec.\<close>

definition launchable :: "string \<Rightarrow> agent_spec \<Rightarrow> agent_task \<Rightarrow> (task_target \<times> task_lifecycle) option" where
  "launchable this s t = (case launch_of t of Inr (Some l) \<Rightarrow> Some (target_of this s t l, lifecycle t) | _ \<Rightarrow> None)"

definition eligible :: "(string \<Rightarrow> session_status) \<Rightarrow> (task_target \<times> task_lifecycle) list \<Rightarrow> bool" where
  "eligible st targets =
     (case find (\<lambda>(t, _). target_name t = ''agent'' \<and> \<not> target_derived t) targets of
        None \<Rightarrow> False
      | Some x \<Rightarrow> target_fate st True x \<in> {Keep_Live, Start, Replace})"

definition targets :: "string \<Rightarrow> agent_spec \<Rightarrow> (task_target \<times> task_lifecycle) list" where
  "targets this s = List.map_filter (launchable this s) (tasks s)"

definition task_fate :: "string \<Rightarrow> (string \<Rightarrow> session_status) \<Rightarrow> agent_spec \<Rightarrow> agent_task \<Rightarrow> fate" where
  "task_fate this st s t =
     (if resolved_host this s \<noteq> this then Leave
      else if \<not> is_running (desired_state s) then stop_fate st (bus_id this s) s t
      else case launchable this s t of
        None \<Rightarrow> Leave
      | Some x \<Rightarrow> if is_runnable s then target_fate st (eligible st (targets this s)) x else Leave)"

abbreviation id_of :: "string \<Rightarrow> agent_spec \<Rightarrow> agent_task \<Rightarrow> string" where
  "id_of this s \<equiv> resolve_task_id (bus_id this s)"

definition spec_ids :: "string \<Rightarrow> (string \<Rightarrow> session_status) \<Rightarrow> fate set \<Rightarrow> agent_spec \<Rightarrow> string list" where
  "spec_ids this st F s = fated F (task_fate this st s) (id_of this s) (tasks s)"

lemma agent_eligible_iff: "agent_eligible ss ts = eligible (session_state ss) ts"
proof (cases "find (\<lambda>(t, _). target_name t = ''agent'' \<and> \<not> target_derived t) ts")
  case (Some x)
  obtain t l where x: "x = (t, l)" by (cases x)
  have "target_name t = ''agent'' \<and> \<not> target_derived t" using Some x by (auto simp: find_Some_iff)
  then show ?thesis using Some x
    by (cases "session_state ss (pty_id t)"; cases l) (simp_all add: agent_eligible_def eligible_def target_fate_def)
qed (simp add: agent_eligible_def eligible_def)

lemma targets_of_Inr:
  "targets_of this s ts = Inr xs \<Longrightarrow> xs = List.map_filter (launchable this s) ts \<and> (\<forall>t\<in>set ts. \<exists>l. launch_of t = Inr l)"
  by (induction ts arbitrary: xs)
    (auto simp: and_then_Inr launchable_def List.map_filter_simps split: option.splits)

lemma launchable_id: "launchable this s t = Some x \<Longrightarrow> pty_id (fst x) = id_of this s t"
  by (auto simp: launchable_def target_of_def Let_def split: sum.splits option.splits)

lemma fated_Nil: "fated F f g xs = [] \<longleftrightarrow> (\<forall>x\<in>set xs. f x \<notin> F)"
  by (simp add: filter_empty_conv)

lemma fated_map_filter:
  assumes "Leave \<notin> F"
  shows "fated F f (\<lambda>x. pty_id (fst x)) (List.map_filter (launchable this s) ts)
    = fated F (\<lambda>t. case launchable this s t of None \<Rightarrow> Leave | Some x \<Rightarrow> f x) (id_of this s) ts"
  using assms by (induction ts) (auto simp: List.map_filter_simps launchable_id split: option.split)

lemma plan_running_pass:
  assumes "plan_running this ss s p = Inr q" "resolved_host this s = this" "is_running (desired_state s)" "is_runnable s"
  obtains x where "q = finish_pass s (length (held p)) x"
    "launches (pass_plan x) = launches p" "teardown (pass_plan x) = teardown p" "spec_lists (pass_plan x) = spec_lists p"
    "gc (pass_plan x) = gc p @ spec_ids this (session_state ss) {Reap, Replace} s"
    "held (pass_plan x) = held p @ spec_ids this (session_state ss) {Hold} s"
    "live (pass_plan x) = live p @ spec_ids this (session_state ss) {Keep_Live} s"
    "map pty_id (to_launch x) = spec_ids this (session_state ss) {Start, Replace} s"
    "ineligible_derived x = spec_ids this (session_state ss) {Stop} s"
    "derived_cleanup x \<longleftrightarrow> spec_ids this (session_state ss) {Stop, Reap} s \<noteq> []"
proof -
  let ?st = "session_state ss"
  let ?f = "target_fate ?st (eligible ?st (targets this s))"
  let ?x0 = "\<lparr>pass_plan = p, to_launch = [], pass_derived = [], ineligible_derived = [], derived_cleanup = False\<rparr>"
  define x where "x = fold (plan_target ss (eligible ?st (targets this s))) (targets this s) ?x0"
  have q: "q = finish_pass s (length (held p)) x"
    using assms(1) targets_of_Inr [of this s "tasks s"]
    by (auto simp: plan_running_def and_then_Inr targets_def x_def agent_eligible_iff)
  have ids: "spec_ids this ?st F s = fated F ?f (\<lambda>x. pty_id (fst x)) (targets this s)" if "Leave \<notin> F" for F
    unfolding targets_def fated_map_filter [OF that] using assms(2-4)
    by (simp add: spec_ids_def task_fate_def targets_def cong: option.case_cong)
  note x = fold_plan_target [of ss "eligible ?st (targets this s)" "targets this s" ?x0, folded x_def]
  show thesis
  proof (rule that [OF q])
    show "spec_lists (pass_plan x) = spec_lists p" unfolding x_def fold_plan_target_specs by simp
  qed (use x in \<open>simp_all add: ids\<close>)
qed

lemma plan_running_ids:
  assumes "plan_running this ss s p = Inr q" "resolved_host this s = this" "is_running (desired_state s)" "is_runnable s"
  shows "started q = started p @ spec_ids this (session_state ss) {Start, Replace} s"
    "stopped q = stopped p @ spec_ids this (session_state ss) {Stop} s"
    "gc q = gc p @ spec_ids this (session_state ss) {Reap, Replace} s"
    "held q = held p @ spec_ids this (session_state ss) {Hold} s"
    "live q = live p @ spec_ids this (session_state ss) {Keep_Live} s"
  by (rule plan_running_pass [OF assms]; auto simp: finish_pass_def started_def stopped_def Let_def)+

lemma stop_fate_range: "stop_fate st bus s t \<in> {Stop, Reap, Leave}"
  by (simp add: stop_fate_def split: session_status.split)

lemma plan_stopped_ids:
  fixes this ss s p
  assumes "resolved_host this s = this" "\<not> is_running (desired_state s)"
  defines "q \<equiv> plan_stopped ss (bus_id this s) s p"
  shows "started q = started p @ spec_ids this (session_state ss) {Start, Replace} s"
    "stopped q = stopped p @ spec_ids this (session_state ss) {Stop} s"
    "gc q = gc p @ spec_ids this (session_state ss) {Reap, Replace} s"
    "held q = held p @ spec_ids this (session_state ss) {Hold} s"
    "live q = live p @ spec_ids this (session_state ss) {Keep_Live} s"
proof -
  have f: "task_fate this (session_state ss) s = stop_fate (session_state ss) (bus_id this s) s"
    using assms by (simp add: task_fate_def fun_eq_iff)
  have no: "stop_fate (session_state ss) (bus_id this s) s t \<noteq> x" if "x \<notin> {Stop, Reap, Leave}" for x t
    using stop_fate_range [of "session_state ss" "bus_id this s" s t] that by auto
  show "started q = started p @ spec_ids this (session_state ss) {Start, Replace} s"
    "stopped q = stopped p @ spec_ids this (session_state ss) {Stop} s"
    "gc q = gc p @ spec_ids this (session_state ss) {Reap, Replace} s"
    "held q = held p @ spec_ids this (session_state ss) {Hold} s"
    "live q = live p @ spec_ids this (session_state ss) {Keep_Live} s"
    by (simp_all add: q_def plan_stopped_def fold_stop_task Let_def spec_ids_def f no started_def stopped_def)
qed

lemma plan_spec_ids:
  assumes "plan_spec this ss s p = Inr q"
  shows "started q = started p @ spec_ids this (session_state ss) {Start, Replace} s \<and>
    stopped q = stopped p @ spec_ids this (session_state ss) {Stop} s \<and>
    gc q = gc p @ spec_ids this (session_state ss) {Reap, Replace} s \<and>
    held q = held p @ spec_ids this (session_state ss) {Hold} s \<and>
    live q = live p @ spec_ids this (session_state ss) {Keep_Live} s"
proof (cases "resolved_host this s = this")
  case local: True
  show ?thesis
  proof (cases "is_running (desired_state s)")
    case run: True
    show ?thesis
    proof (cases "is_runnable s")
      case True
      then show ?thesis using assms local run plan_running_ids by (simp add: plan_spec_def)
    next
      case False
      then have "task_fate this st s t = Leave" for st t
        using local run by (simp add: task_fate_def split: option.split)
      with False show ?thesis using assms local run by (auto simp: plan_spec_def spec_ids_def started_def stopped_def)
    qed
  next
    case False
    then show ?thesis using assms local plan_stopped_ids [OF local False] by (auto simp: plan_spec_def)
  qed
next
  case False
  then have "task_fate this st s t = Leave" for st t by (simp add: task_fate_def)
  with False show ?thesis using assms by (auto simp: plan_spec_def spec_ids_def started_def stopped_def)
qed

lemma plan_specs_ids:
  "try_fold (plan_spec this ss) specs p = Inr q \<Longrightarrow>
    started q = started p @ concat (map (spec_ids this (session_state ss) {Start, Replace}) specs) \<and>
    stopped q = stopped p @ concat (map (spec_ids this (session_state ss) {Stop}) specs) \<and>
    gc q = gc p @ concat (map (spec_ids this (session_state ss) {Reap, Replace}) specs) \<and>
    held q = held p @ concat (map (spec_ids this (session_state ss) {Hold}) specs) \<and>
    live q = live p @ concat (map (spec_ids this (session_state ss) {Keep_Live}) specs)"
proof (induction specs arbitrary: p)
  case (Cons s specs)
  from Cons.prems obtain r where r: "plan_spec this ss s p = Inr r" "try_fold (plan_spec this ss) specs r = Inr q"
    by (auto simp: and_then_Inr)
  show ?case using plan_spec_ids [OF r(1)] Cons.IH [OF r(2)] by simp
qed simp

lemma reconcile_ids:
  assumes "reconcile this specs ss = Inr p"
  shows "started p = concat (map (spec_ids this (session_state ss) {Start, Replace}) specs)"
    "stopped p = concat (map (spec_ids this (session_state ss) {Stop}) specs)"
    "gc p = concat (map (spec_ids this (session_state ss) {Reap, Replace}) specs)"
    "held p = concat (map (spec_ids this (session_state ss) {Hold}) specs)"
    "live p = concat (map (spec_ids this (session_state ss) {Keep_Live}) specs)"
proof -
  have "try_fold (plan_spec this ss) specs no_plan = Inr p" using assms by (auto simp: reconcile_def and_then_Inr)
  from plan_specs_ids [OF this] show "started p = concat (map (spec_ids this (session_state ss) {Start, Replace}) specs)"
    "stopped p = concat (map (spec_ids this (session_state ss) {Stop}) specs)"
    "gc p = concat (map (spec_ids this (session_state ss) {Reap, Replace}) specs)"
    "held p = concat (map (spec_ids this (session_state ss) {Hold}) specs)"
    "live p = concat (map (spec_ids this (session_state ss) {Keep_Live}) specs)"
    by (simp_all add: no_plan_def started_def stopped_def)
qed

subsection \<open>What the declarations ask for\<close>

text \<open>
  The same decisions read off the declarations alone: which tasks are managed here at all, which of
  them should run now, and from that what has to happen to a session.
\<close>

definition kept_task :: "agent_spec \<Rightarrow> agent_task \<Rightarrow> bool" where
  "kept_task s t \<longleftrightarrow> task_keep t \<or> spec_keep s"

definition managed :: "string \<Rightarrow> agent_spec \<Rightarrow> agent_task \<Rightarrow> bool" where
  "managed this s t \<longleftrightarrow> resolved_host this s = this
     \<and> (is_running (desired_state s) \<longrightarrow> is_runnable s \<and> (command t = None) \<noteq> (argv t = None))"

text \<open>A service may be started when it has no session, or only a dead one that is not kept.\<close>

definition startable :: "string \<Rightarrow> (string \<Rightarrow> session_status) \<Rightarrow> agent_spec \<Rightarrow> agent_task \<Rightarrow> bool" where
  "startable this st s t \<longleftrightarrow> lifecycle t = Service
     \<and> (st (id_of this s t) = Absent \<or> st (id_of this s t) = Dead \<and> \<not> kept_task s t)"

text \<open>A generated companion runs only beside the authored agent of its spec, live or about to start.\<close>

definition agent_up :: "string \<Rightarrow> (string \<Rightarrow> session_status) \<Rightarrow> agent_spec \<Rightarrow> bool" where
  "agent_up this st s =
     (case filter (\<lambda>t. managed this s t \<and> task_name t = ''agent'' \<and> \<not> derived t) (tasks s) of
        [] \<Rightarrow> False
      | t # _ \<Rightarrow> st (id_of this s t) = Alive \<or> startable this st s t)"

definition wanted :: "string \<Rightarrow> (string \<Rightarrow> session_status) \<Rightarrow> agent_spec \<Rightarrow> agent_task \<Rightarrow> bool" where
  "wanted this st s t \<longleftrightarrow> is_running (desired_state s) \<and> (derived t \<longrightarrow> agent_up this st s)"

definition must_start :: "string \<Rightarrow> (string \<Rightarrow> session_status) \<Rightarrow> agent_spec \<Rightarrow> agent_task \<Rightarrow> bool" where
  "must_start this st s t \<longleftrightarrow> managed this s t \<and> wanted this st s t \<and> startable this st s t"

definition must_stop :: "string \<Rightarrow> (string \<Rightarrow> session_status) \<Rightarrow> agent_spec \<Rightarrow> agent_task \<Rightarrow> bool" where
  "must_stop this st s t \<longleftrightarrow> managed this s t \<and> \<not> wanted this st s t \<and> st (id_of this s t) = Alive"

text \<open>A dead session is cleared away to start its task again, or when its task should not run, unless it is
  kept; retirement keeps nothing.\<close>

definition must_reap :: "string \<Rightarrow> (string \<Rightarrow> session_status) \<Rightarrow> agent_spec \<Rightarrow> agent_task \<Rightarrow> bool" where
  "must_reap this st s t \<longleftrightarrow> managed this s t \<and> st (id_of this s t) = Dead
     \<and> (kept_task s t \<longrightarrow> is_retired (desired_state s)) \<and> (wanted this st s t \<longrightarrow> lifecycle t = Service)"

definition must_hold :: "string \<Rightarrow> (string \<Rightarrow> session_status) \<Rightarrow> agent_spec \<Rightarrow> agent_task \<Rightarrow> bool" where
  "must_hold this st s t \<longleftrightarrow> managed this s t \<and> wanted this st s t \<and> lifecycle t = AdoptOnly \<and> st (id_of this s t) \<noteq> Alive"

definition is_live :: "string \<Rightarrow> (string \<Rightarrow> session_status) \<Rightarrow> agent_spec \<Rightarrow> agent_task \<Rightarrow> bool" where
  "is_live this st s t \<longleftrightarrow> managed this s t \<and> wanted this st s t \<and> st (id_of this s t) = Alive"

text \<open>A spec is adopted when it should run here and nothing has to be done about any of its tasks.\<close>

definition may_adopt :: "string \<Rightarrow> (string \<Rightarrow> session_status) \<Rightarrow> agent_spec \<Rightarrow> bool" where
  "may_adopt this st s \<longleftrightarrow> resolved_host this s = this \<and> is_running (desired_state s) \<and> is_runnable s
     \<and> (\<forall>t\<in>set (tasks s). \<not> must_start this st s t \<and> \<not> must_stop this st s t \<and> \<not> must_reap this st s t \<and> \<not> must_hold this st s t)"

definition task_ids :: "string \<Rightarrow> (agent_spec \<Rightarrow> agent_task \<Rightarrow> bool) \<Rightarrow> agent_spec list \<Rightarrow> string list" where
  "task_ids this Q specs = concat (map (\<lambda>s. map (id_of this s) (filter (Q s) (tasks s))) specs)"

lemma launchable_iff: "launchable this s t = None \<longleftrightarrow> (command t = None) = (argv t = None)"
  by (cases "command t"; cases "argv t") (simp_all add: launchable_def launch_of_def)

lemma launchable_Some:
  assumes "launchable this s t = Some x"
  shows "pty_id (fst x) = id_of this s t" "target_derived (fst x) = derived t" "target_name (fst x) = task_name t"
    "target_keep (fst x) = kept_task s t" "snd x = lifecycle t"
  using assms by (auto simp: launchable_def target_of_def kept_task_def Let_def split: sum.splits option.splits)

lemma find_map_filter:
  "(\<And>t x. f t = Some x \<Longrightarrow> P x = R t) \<Longrightarrow>
     find P (List.map_filter f ts) = (case filter (\<lambda>t. f t \<noteq> None \<and> R t) ts of [] \<Rightarrow> None | t # _ \<Rightarrow> f t)"
  by (induction ts) (auto simp: List.map_filter_simps split: option.split)

lemma eligible_agent_up:
  assumes "resolved_host this s = this" "is_running (desired_state s)" "is_runnable s"
  shows "eligible st (targets this s) = agent_up this st s"
proof -
  let ?ts = "filter (\<lambda>t. launchable this s t \<noteq> None \<and> task_name t = ''agent'' \<and> \<not> derived t) (tasks s)"
  have ts: "filter (\<lambda>t. managed this s t \<and> task_name t = ''agent'' \<and> \<not> derived t) (tasks s) = ?ts"
    using assms by (intro filter_cong refl) (simp add: managed_def launchable_iff)
  have find: "find (\<lambda>(t, _). target_name t = ''agent'' \<and> \<not> target_derived t) (targets this s) =
      (case ?ts of [] \<Rightarrow> None | t # _ \<Rightarrow> launchable this s t)"
    unfolding targets_def by (rule find_map_filter) (use launchable_Some in \<open>force split: prod.split\<close>)
  show ?thesis
  proof (cases ?ts)
    case (Cons t ts')
    then have "t \<in> set ?ts" by simp
    then obtain x where x: "launchable this s t = Some x" and nd: "\<not> derived t" by auto
    show ?thesis
      using Cons find nd launchable_Some [OF x] unfolding eligible_def agent_up_def ts
      by (cases x; cases "st (id_of this s t)"; cases "lifecycle t") (simp_all add: x target_fate_def startable_def)
  qed (use find in \<open>simp add: eligible_def agent_up_def ts\<close>)
qed

lemma task_fate_asked:
  shows "task_fate this st s t \<in> {Start, Replace} \<longleftrightarrow> must_start this st s t"
    and "task_fate this st s t \<in> {Stop} \<longleftrightarrow> must_stop this st s t"
    and "task_fate this st s t \<in> {Reap, Replace} \<longleftrightarrow> must_reap this st s t"
    and "task_fate this st s t \<in> {Hold} \<longleftrightarrow> must_hold this st s t"
    and "task_fate this st s t \<in> {Keep_Live} \<longleftrightarrow> is_live this st s t"
proof -
  note asked = must_start_def must_stop_def must_reap_def must_hold_def is_live_def
  have "(task_fate this st s t \<in> {Start, Replace} \<longleftrightarrow> must_start this st s t)
    \<and> (task_fate this st s t \<in> {Stop} \<longleftrightarrow> must_stop this st s t)
    \<and> (task_fate this st s t \<in> {Reap, Replace} \<longleftrightarrow> must_reap this st s t)
    \<and> (task_fate this st s t \<in> {Hold} \<longleftrightarrow> must_hold this st s t)
    \<and> (task_fate this st s t \<in> {Keep_Live} \<longleftrightarrow> is_live this st s t)"
  proof (cases "resolved_host this s = this \<and> is_running (desired_state s) \<and> is_runnable s")
    case True
    then have here: "resolved_host this s = this" "is_running (desired_state s)" "is_runnable s" by auto
    have ret: "\<not> is_retired (desired_state s)" using here(2) by (simp add: is_running_def is_retired_def split: desired_state.splits)
    show ?thesis
    proof (cases "launchable this s t")
      case None
      then have "task_fate this st s t = Leave" "\<not> managed this s t"
        using here launchable_iff [of this s t] by (simp_all add: task_fate_def managed_def)
      then show ?thesis by (simp add: asked)
    next
      case (Some x)
      then have m: "managed this s t" using here launchable_iff [of this s t] by (simp add: managed_def)
      have f: "task_fate this st s t = target_fate st (agent_up this st s) x"
        using here Some eligible_agent_up [OF here, of st] by (simp add: task_fate_def)
      show ?thesis
        unfolding f using launchable_Some [OF Some] m here(2) ret
        by (cases x; cases "st (id_of this s t)"; cases "lifecycle t")
          (simp_all add: asked target_fate_def wanted_def startable_def)
    qed
  next
    case False
    show ?thesis
    proof (cases "resolved_host this s = this \<and> \<not> is_running (desired_state s)")
      case True
      then have "is_retired (desired_state s) \<longleftrightarrow> \<not> is_suspended (desired_state s)"
        by (simp add: is_running_def is_suspended_def is_retired_def split: desired_state.splits)
      with True show ?thesis
        by (cases "st (id_of this s t)") (auto simp: asked task_fate_def stop_fate_def managed_def wanted_def kept_task_def)
    next
      case False
      with \<open>\<not> (resolved_host this s = this \<and> is_running (desired_state s) \<and> is_runnable s)\<close> show ?thesis
        by (auto simp: asked task_fate_def managed_def split: option.split)
    qed
  qed
  then show "task_fate this st s t \<in> {Start, Replace} \<longleftrightarrow> must_start this st s t"
    "task_fate this st s t \<in> {Stop} \<longleftrightarrow> must_stop this st s t"
    "task_fate this st s t \<in> {Reap, Replace} \<longleftrightarrow> must_reap this st s t"
    "task_fate this st s t \<in> {Hold} \<longleftrightarrow> must_hold this st s t"
    "task_fate this st s t \<in> {Keep_Live} \<longleftrightarrow> is_live this st s t"
    by simp_all
qed

lemma asked_ids:
  "concat (map (spec_ids this st {Start, Replace}) specs) = task_ids this (must_start this st) specs"
  "concat (map (spec_ids this st {Stop}) specs) = task_ids this (must_stop this st) specs"
  "concat (map (spec_ids this st {Reap, Replace}) specs) = task_ids this (must_reap this st) specs"
  "concat (map (spec_ids this st {Hold}) specs) = task_ids this (must_hold this st) specs"
  "concat (map (spec_ids this st {Keep_Live}) specs) = task_ids this (is_live this st) specs"
  by (simp_all only: spec_ids_def [abs_def] task_ids_def task_fate_asked)

lemma plan_spec_specs:
  assumes "plan_spec this ss s p = Inr q"
  shows "adopt q = adopt p @ filter (may_adopt this (session_state ss)) [s]"
    "other_host q = other_host p @ filter (\<lambda>s. resolved_host this s \<noteq> this) [s]"
    "unrunnable q = unrunnable p
       @ filter (\<lambda>s. resolved_host this s = this \<and> is_running (desired_state s) \<and> \<not> is_runnable s) [s]"
    "settle_retirement q = settle_retirement p @ filter (\<lambda>s. resolved_host this s = this \<and> is_retired (desired_state s)) [s]"
proof -
  let ?st = "session_state ss"
  have "adopt q = adopt p @ filter (may_adopt this ?st) [s]
    \<and> other_host q = other_host p @ filter (\<lambda>s. resolved_host this s \<noteq> this) [s]
    \<and> unrunnable q = unrunnable p @ filter (\<lambda>s. resolved_host this s = this \<and> is_running (desired_state s) \<and> \<not> is_runnable s) [s]
    \<and> settle_retirement q = settle_retirement p @ filter (\<lambda>s. resolved_host this s = this \<and> is_retired (desired_state s)) [s]"
  proof (cases "resolved_host this s = this \<and> is_running (desired_state s) \<and> is_runnable s")
    case True
    then have here: "resolved_host this s = this" "is_running (desired_state s)" "is_runnable s" by auto
    have ret: "\<not> is_retired (desired_state s)" using here(2) by (simp add: is_running_def is_retired_def split: desired_state.splits)
    have r: "plan_running this ss s p = Inr q" using assms here by (simp add: plan_spec_def)
    obtain x where q: "q = finish_pass s (length (held p)) x" and sl: "spec_lists (pass_plan x) = spec_lists p"
      and h: "held (pass_plan x) = held p @ spec_ids this ?st {Hold} s"
      and l: "map pty_id (to_launch x) = spec_ids this ?st {Start, Replace} s"
      and i: "ineligible_derived x = spec_ids this ?st {Stop} s"
      and c: "derived_cleanup x \<longleftrightarrow> spec_ids this ?st {Stop, Reap} s \<noteq> []"
      by (rule plan_running_pass [OF r here])
    have quiet: "may_adopt this ?st s \<longleftrightarrow> to_launch x = [] \<and> spec_ids this ?st {Hold} s = [] \<and> \<not> derived_cleanup x"
      unfolding may_adopt_def task_fate_asked [symmetric] c Nil_is_map_conv [of pty_id, symmetric] l
      using here by (auto simp: spec_ids_def filter_empty_conv)
    show ?thesis
      unfolding q using sl quiet here ret by (auto simp: finish_pass_def spec_lists_def Let_def h)
  next
    case False
    then have "\<not> may_adopt this ?st s" by (auto simp: may_adopt_def)
    with False assms show ?thesis
      by (auto simp: plan_spec_def plan_stopped_def is_running_def is_retired_def Let_def split: if_splits prod.splits desired_state.splits)
  qed
  then show "adopt q = adopt p @ filter (may_adopt this (session_state ss)) [s]"
    "other_host q = other_host p @ filter (\<lambda>s. resolved_host this s \<noteq> this) [s]"
    "unrunnable q = unrunnable p
       @ filter (\<lambda>s. resolved_host this s = this \<and> is_running (desired_state s) \<and> \<not> is_runnable s) [s]"
    "settle_retirement q = settle_retirement p @ filter (\<lambda>s. resolved_host this s = this \<and> is_retired (desired_state s)) [s]"
    by simp_all
qed

lemma plan_specs_specs:
  "try_fold (plan_spec this ss) specs p = Inr q \<Longrightarrow>
    adopt q = adopt p @ filter (may_adopt this (session_state ss)) specs \<and>
    other_host q = other_host p @ filter (\<lambda>s. resolved_host this s \<noteq> this) specs \<and>
    unrunnable q = unrunnable p
      @ filter (\<lambda>s. resolved_host this s = this \<and> is_running (desired_state s) \<and> \<not> is_runnable s) specs \<and>
    settle_retirement q = settle_retirement p @ filter (\<lambda>s. resolved_host this s = this \<and> is_retired (desired_state s)) specs"
proof (induction specs arbitrary: p)
  case (Cons s specs)
  from Cons.prems obtain r where r: "plan_spec this ss s p = Inr r" "try_fold (plan_spec this ss) specs r = Inr q"
    by (auto simp: and_then_Inr)
  show ?case using Cons.IH [OF r(2)] by (simp add: plan_spec_specs [OF r(1)])
qed simp

lemma reconcile_specs:
  assumes "reconcile this specs ss = Inr p"
  shows "adopt p = filter (may_adopt this (session_state ss)) specs"
    "other_host p = filter (\<lambda>s. resolved_host this s \<noteq> this) specs"
    "unrunnable p = filter (\<lambda>s. resolved_host this s = this \<and> is_running (desired_state s) \<and> \<not> is_runnable s) specs"
    "settle_retirement p = filter (\<lambda>s. resolved_host this s = this \<and> is_retired (desired_state s)) specs"
proof -
  have "try_fold (plan_spec this ss) specs no_plan = Inr p" using assms by (auto simp: reconcile_def and_then_Inr)
  note plan_specs_specs [OF this]
  then show "adopt p = filter (may_adopt this (session_state ss)) specs"
    "other_host p = filter (\<lambda>s. resolved_host this s \<noteq> this) specs"
    "unrunnable p = filter (\<lambda>s. resolved_host this s = this \<and> is_running (desired_state s) \<and> \<not> is_runnable s) specs"
    "settle_retirement p = filter (\<lambda>s. resolved_host this s = this \<and> is_retired (desired_state s)) specs"
    by (simp_all add: no_plan_def)
qed

subsection \<open>When there is a plan\<close>

definition runs_here :: "string \<Rightarrow> agent_spec \<Rightarrow> bool" where
  "runs_here this s = (resolved_host this s = this \<and> is_running (desired_state s))"

definition no_conflict :: "string \<Rightarrow> agent_spec \<Rightarrow> bool" where
  "no_conflict this s = (\<forall>t\<in>set (tasks s). task_conflict (bus_id this s) t = None)"

definition one_launch :: "agent_spec \<Rightarrow> bool" where
  "one_launch s = (\<forall>t\<in>set (tasks s). command t = None \<or> argv t = None)"

definition plannable :: "string \<Rightarrow> agent_spec list \<Rightarrow> bool" where
  "plannable this specs \<longleftrightarrow>
     (\<forall>s\<in>set specs. runs_here this s \<longrightarrow> no_conflict this s \<and> (is_runnable s \<longrightarrow> one_launch s))"

lemma first_conflict_None: "first_conflict bus ts = None \<longleftrightarrow> (\<forall>t\<in>set ts. task_conflict bus t = None)"
  by (induction ts) (auto split: option.split)

lemma validate_Inr:
  "validate_task_identities this specs = Inr () \<longleftrightarrow> (\<forall>s\<in>set specs. runs_here this s \<longrightarrow> no_conflict this s)"
  by (induction specs) (auto simp: runs_here_def no_conflict_def first_conflict_None [symmetric] split: option.split)

lemma targets_of_ok: "(\<exists>xs. targets_of this s ts = Inr xs) \<longleftrightarrow> (\<forall>t\<in>set ts. command t = None \<or> argv t = None)"
proof (induction ts)
  case (Cons t ts)
  have "(\<exists>l. launch_of t = Inr l) \<longleftrightarrow> command t = None \<or> argv t = None"
    by (cases "command t"; cases "argv t") (simp_all add: launch_of_def)
  with Cons show ?case by (auto simp: and_then_Inr)
qed simp

lemma plan_specs_ok:
  "(\<exists>q. try_fold (plan_spec this ss) specs p = Inr q) \<longleftrightarrow>
     (\<forall>s\<in>set specs. runs_here this s \<and> is_runnable s \<longrightarrow> one_launch s)"
proof (induction specs arbitrary: p)
  case (Cons s specs)
  have "(\<exists>q. try_fold (plan_spec this ss) (s # specs) p = Inr q) \<longleftrightarrow>
      (\<exists>r. plan_spec this ss s p = Inr r \<and> (\<exists>q. try_fold (plan_spec this ss) specs r = Inr q))"
    by (auto simp: and_then_Inr)
  also have "\<dots> \<longleftrightarrow> (\<exists>r. plan_spec this ss s p = Inr r) \<and> (\<forall>s\<in>set specs. runs_here this s \<and> is_runnable s \<longrightarrow> one_launch s)"
    unfolding Cons.IH by simp
  also have "(\<exists>r. plan_spec this ss s p = Inr r) \<longleftrightarrow> (runs_here this s \<and> is_runnable s \<longrightarrow> one_launch s)"
    unfolding one_launch_def targets_of_ok [of this s "tasks s", symmetric]
    by (auto simp: plan_spec_def plan_running_def and_then_Inr runs_here_def)
  finally show ?case by simp
qed simp

lemma reconcile_ok: "(\<exists>p. reconcile this specs ss = Inr p) \<longleftrightarrow> plannable this specs"
proof -
  have "(\<exists>p. reconcile this specs ss = Inr p) \<longleftrightarrow>
      validate_task_identities this specs = Inr () \<and> (\<exists>q. try_fold (plan_spec this ss) specs no_plan = Inr q)"
    by (auto simp: reconcile_def and_then_Inr)
  also have "\<dots> \<longleftrightarrow> plannable this specs"
    unfolding validate_Inr plan_specs_ok plannable_def by auto
  finally show ?thesis .
qed

subsection \<open>What carrying out a plan changes\<close>


definition local_tasks :: "string \<Rightarrow> agent_spec list \<Rightarrow> (agent_spec \<times> agent_task) list" where
  "local_tasks this specs =
     concat (map (\<lambda>s. if resolved_host this s = this then map (Pair s) (tasks s) else []) specs)"

definition distinct_ids :: "string \<Rightarrow> agent_spec list \<Rightarrow> bool" where
  "distinct_ids this specs = distinct (map (\<lambda>(s, t). id_of this s t) (local_tasks this specs))"














subsection \<open>Selected tasks\<close>

lemma filter_one:
  "distinct (map f xs) \<Longrightarrow> x \<in> set xs \<Longrightarrow> filter ((=) (f x)) (map f (filter P xs)) = (if P x then [f x] else [])"
  by (induction xs) (auto simp: filter_empty_conv image_iff)

lemma spec_ids_local:
  assumes "Leave \<notin> F"
  shows "concat (map (spec_ids this st F) specs) =
    map (\<lambda>(s, t). id_of this s t) (filter (\<lambda>(s, t). task_fate this st s t \<in> F) (local_tasks this specs))"
proof (induction specs)
  case (Cons s specs)
  have "spec_ids this st F s = []" if "resolved_host this s \<noteq> this"
    using that assms by (simp add: spec_ids_def task_fate_def)
  with Cons show ?case by (simp add: local_tasks_def spec_ids_def filter_map comp_def)
qed (simp add: local_tasks_def)

lemma filter_ids:
  assumes "distinct_ids this specs" "(s, t) \<in> set (local_tasks this specs)" "Leave \<notin> F"
  shows "filter ((=) (id_of this s t)) (concat (map (spec_ids this st F) specs))
    = (if task_fate this st s t \<in> F then [id_of this s t] else [])"
  using filter_one [OF assms(1) [unfolded distinct_ids_def] assms(2), of "\<lambda>(s, t). task_fate this st s t \<in> F"]
  by (simp add: spec_ids_local [OF assms(3)])

lemma sessions_by_id_find:
  assumes "distinct (map session_id ss)"
  shows "sessions_by_id ss i = find (\<lambda>x. session_id x = i) ss"
  using assms
proof (induction ss)
  case (Cons s ss)
  have "sessions_by_id ss (session_id s) = None"
    using Cons.prems by (auto simp: sessions_by_id_def map_of_eq_None_iff image_image)
  with Cons show ?case by (auto simp: sessions_by_id_def map_add_def split: option.split)
qed (simp add: sessions_by_id_def)

lemma resolve_task_Inr:
  assumes "resolve_task this specs sel = Inr (s, t, i)"
  shows "(s, t) \<in> set (local_tasks this specs) \<and> i = id_of this s t \<and> resolved_host this s = this"
proof -
  let ?xs = "concat (map (\<lambda>s. if resolved_host this s \<noteq> this then []
    else map (\<lambda>t. (s, t, id_of this s t)) (filter (selected_by this sel s) (tasks s))) specs)"
  have "?xs = [(s, t, i)]" using assms by (auto simp: resolve_task_def split: list.splits)
  then have "(s, t, i) \<in> set ?xs" by simp
  then show ?thesis by (auto simp: local_tasks_def split: if_splits)
qed

text \<open>The five lists of a plan that acts on one task as its fate says.\<close>

definition acts :: "reconcile_plan \<Rightarrow> string \<Rightarrow> fate \<Rightarrow> bool" where
  "acts q i f \<longleftrightarrow>
     started q = (if f \<in> {Start, Replace} then [i] else []) \<and> stopped q = (if f \<in> {Stop} then [i] else [])
     \<and> gc q = (if f \<in> {Reap, Replace} then [i] else []) \<and> held q = (if f \<in> {Hold} then [i] else [])
     \<and> live q = (if f \<in> {Keep_Live} then [i] else [])"

lemma session_state_find:
  assumes "distinct (map session_id ss)"
  shows "session_state ss i = (case find (\<lambda>x. session_id x = i) ss of None \<Rightarrow> Absent | Some s \<Rightarrow> if alive s then Alive else Dead)"
  by (simp add: session_state_def sessions_by_id_find [OF assms])

lemma acts_stopped:
  assumes "distinct (map session_id ss)" "\<not> is_running (desired_state s)"
  shows "acts (plan_selected_stopped s t (resolve_task_id bus t) (find (\<lambda>x. session_id x = resolve_task_id bus t) ss)
      (no_plan\<lparr>settle_retirement := r\<rparr>)) (resolve_task_id bus t) (stop_fate (session_state ss) bus s t)"
proof -
  have "is_retired (desired_state s) \<longleftrightarrow> \<not> is_suspended (desired_state s)"
    using assms(2) by (simp add: is_running_def is_suspended_def is_retired_def split: desired_state.splits)
  moreover note session_state_find [OF assms(1), of "resolve_task_id bus t"]
  ultimately show ?thesis
    by (cases "find (\<lambda>x. session_id x = resolve_task_id bus t) ss")
      (simp_all add: plan_selected_stopped_def stop_fate_def acts_def no_plan_def started_def stopped_def)
qed

lemma acts_target:
  assumes "distinct (map session_id ss)" "\<not> target_derived t"
  shows "acts (plan_selected_target s l t (find (\<lambda>x. session_id x = pty_id t) ss) no_plan) (pty_id t)
    (target_fate (session_state ss) e (t, l))"
proof -
  have e: "started no_plan = []" "stopped no_plan = []" "gc no_plan = []" "held no_plan = []" "live no_plan = []"
    "launches no_plan = []" "teardown no_plan = []"
    by (simp_all add: started_def stopped_def no_plan_def)
  let ?f = "find (\<lambda>x. session_id x = pty_id t) ss"
  note st = session_state_find [OF assms(1), of "pty_id t"]
  show ?thesis
  proof (cases "\<exists>x. ?f = Some x \<and> alive x")
    case True
    then have "target_fate (session_state ss) e (t, l) = Keep_Live" using st assms(2) by (auto simp: target_fate_def)
    with True e show ?thesis
      by (cases "presentation_of t") (auto simp: plan_selected_target_def acts_def started_def stopped_def Let_def)
  next
    case False
    then show ?thesis using st assms(2) e
      by (cases ?f; cases l) (simp_all add: plan_selected_target_def target_fate_def acts_def started_def stopped_def Let_def)
  qed
qed

lemma selected_acts:
  assumes q: "reconcile_selected this specs ss sel = Inr q" and r: "resolve_task this specs sel = Inr (s, t, i)"
    and nd: "\<not> derived t" and d: "distinct (map session_id ss)"
  shows "acts q i (task_fate this (session_state ss) s t)"
proof -
  have i: "i = id_of this s t" and here: "resolved_host this s = this" and t: "t \<in> set (tasks s)"
    using resolve_task_Inr [OF r] by (auto simp: local_tasks_def split: if_splits)
  show ?thesis
  proof (cases "is_running (desired_state s)")
    case False
    then have f: "task_fate this (session_state ss) s t = stop_fate (session_state ss) (bus_id this s) s t"
      using here by (simp add: task_fate_def)
    have n: "no_plan = no_plan\<lparr>settle_retirement := []\<rparr>" by (simp add: no_plan_def)
    show ?thesis
      unfolding f using q r False acts_stopped [OF d False, where r = "[s]"] acts_stopped [OF d False, where r = "[]", folded n]
      by (auto simp: reconcile_selected_def and_then_Inr Let_def i split: if_splits)
  next
    case True
    then have q': "and_then (launch_of t) (\<lambda>l. Inr (case l of
        None \<Rightarrow> no_plan\<lparr>unrunnable := unrunnable no_plan @ [s]\<rparr>
      | Some x \<Rightarrow> plan_selected_target s (lifecycle t) (target_of this s t x) (find (\<lambda>x. session_id x = i) ss) no_plan)) = Inr q"
      using q r nd by (auto simp: reconcile_selected_def and_then_Inr Let_def is_running_def is_retired_def split: desired_state.splits)
    then obtain l where l: "launch_of t = Inr l" by (auto simp: and_then_Inr)
    show ?thesis
    proof (cases l)
      case None
      then have "task_fate this (session_state ss) s t = Leave" using here True l by (simp add: task_fate_def launchable_def)
      then show ?thesis using q' l None by (auto simp: acts_def no_plan_def started_def stopped_def)
    next
      case (Some x)
      let ?t = "target_of this s t x"
      have "is_runnable s" using t nd l Some
        by (auto simp: is_runnable_def list_ex_iff launch_of_def split: option.splits intro!: bexI [of _ t])
      then have "task_fate this (session_state ss) s t = target_fate (session_state ss) (eligible (session_state ss) (targets this s)) (?t, lifecycle t)"
        using here True l Some by (simp add: task_fate_def launchable_def)
      moreover have "pty_id ?t = i" "\<not> target_derived ?t" using nd by (simp_all add: target_of_def Let_def i)
      ultimately show ?thesis using acts_target [OF d, of ?t s "lifecycle t"] q' l Some by auto
    qed
  qed
qed

lemma selected_ok:
  assumes "validate_task_identities this specs = Inr ()" "resolve_task this specs sel = Inr (s, t, i)" "command t = None \<or> argv t = None"
  shows "\<exists>q. reconcile_selected this specs ss sel = Inr q"
proof -
  obtain l where "launch_of t = Inr l"
    using assms(3) by (cases "command t"; cases "argv t") (auto simp: launch_of_def)
  then show ?thesis using assms(1,2) by (simp add: reconcile_selected_def Let_def)
qed

text \<open>A running agent with a generated companion, and a retired agent whose session is still alive.\<close>

definition example_task :: "bool \<Rightarrow> string \<Rightarrow> agent_task" where
  "example_task der n = \<lparr>task_kind = Exec, derived = der, task_name = n, explicit_id = None, command = None,
     argv = Some [''run''], cwd = None, tags = Map.empty, env = Map.empty, task_keep = False, lifecycle = Service\<rparr>"

definition example_agent :: "string \<Rightarrow> desired_state \<Rightarrow> agent_task list \<Rightarrow> agent_spec" where
  "example_agent n d ts = \<lparr>identity = n, spec_name = None, description = None, host = None, workspace = None,
     supervisor = None, desired_state = d, spec_keep = False, tasks = ts\<rparr>"

definition example_specs :: "agent_spec list" where
  "example_specs = [example_agent ''a'' Running [example_task False ''agent'', example_task True ''ding''],
     example_agent ''b'' (Retired None) [example_task False ''agent'']]"

definition example_session :: "string \<Rightarrow> bool \<Rightarrow> session" where
  "example_session i al = \<lparr>session_id = i, alive = al, exit_code = None, observed = None\<rparr>"

lemmas example_plan_defs = example_task_def example_agent_def example_session_def resolved_host_def bus_id_def is_running_def

lemma example_plannable: "plannable ''h'' example_specs" "distinct_ids ''h'' example_specs"
  by (simp_all add: plannable_def runs_here_def no_conflict_def task_conflict_def one_launch_def distinct_ids_def
      local_tasks_def resolve_task_id_def example_specs_def example_plan_defs)



lemmas example_asked_defs = task_ids_def must_start_def must_stop_def may_adopt_def must_reap_def must_hold_def managed_def wanted_def
  startable_def agent_up_def kept_task_def is_runnable_def is_retired_def resolve_task_id_def

lemma example_asked:
  assumes "st ''h.a.agent'' = Alive" "st ''h.a.ding'' = Alive" "st ''h.b.agent'' = Alive"
  shows "task_ids ''h'' (must_start ''h'' st) example_specs = []"
    "task_ids ''h'' (must_stop ''h'' st) example_specs = [''h.b.agent'']"
    "filter (may_adopt ''h'' st) example_specs = [example_specs ! 0]"
    "filter (\<lambda>s. resolved_host ''h'' s = ''h'' \<and> is_retired (desired_state s)) example_specs = [example_specs ! 1]"
  using assms by (simp_all add: example_asked_defs example_specs_def example_plan_defs)

definition example_seen :: "bool \<Rightarrow> session list \<Rightarrow> session list" where
  "example_seen ok rest = (if ok then [example_session ''h.a.agent'' True, example_session ''h.a.ding'' True] else []) @ rest"

lemma example_states:
  "session_state (example_seen ok []) i = (if ok \<and> i \<in> {''h.a.agent'', ''h.a.ding''} then Alive else Absent)"
  "session_state (example_seen ok [example_session ''h.b.agent'' al]) i =
     (if i = ''h.b.agent'' then (if al then Alive else Dead)
      else if ok \<and> i \<in> {''h.a.agent'', ''h.a.ding''} then Alive else Absent)"
  by (auto simp: session_state_def sessions_by_id_def example_seen_def example_session_def)

subsection \<open>Properties\<close>

text \<open>
  C15. A plan does what the declarations and the sessions ask for. There is a plan whenever no running
  local task claims another agent's identity and no task of a runnable one has two launches. It starts,
  stops, reaps, holds and reports live exactly the tasks that ask for it, in order; it adopts exactly
  the specs that should run here and whose tasks ask for nothing; and it sets aside exactly the specs of
  other hosts, those with nothing to run, and the retired ones to settle.
\<close>

theorem plan_follows_fates:
  assumes "plannable this specs"
  shows "\<exists>p. reconcile this specs ss = Inr p
    \<and> started p = task_ids this (must_start this (session_state ss)) specs
    \<and> stopped p = task_ids this (must_stop this (session_state ss)) specs
    \<and> gc p = task_ids this (must_reap this (session_state ss)) specs
    \<and> held p = task_ids this (must_hold this (session_state ss)) specs
    \<and> live p = task_ids this (is_live this (session_state ss)) specs
    \<and> adopt p = filter (may_adopt this (session_state ss)) specs
    \<and> other_host p = filter (\<lambda>s. resolved_host this s \<noteq> this) specs
    \<and> unrunnable p = filter (\<lambda>s. resolved_host this s = this \<and> is_running (desired_state s) \<and> \<not> is_runnable s) specs
    \<and> settle_retirement p = filter (\<lambda>s. resolved_host this s = this \<and> is_retired (desired_state s)) specs"
proof -
  obtain p where p: "reconcile this specs ss = Inr p" using assms reconcile_ok by blast
  with reconcile_ids [OF p, unfolded asked_ids] reconcile_specs [OF p] show ?thesis by blast
qed

theorem plan_follows_fates_witness:
  "\<exists>p. reconcile ''h'' example_specs (example_seen True [example_session ''h.b.agent'' True]) = Inr p
     \<and> started p = [] \<and> stopped p = [''h.b.agent''] \<and> adopt p = [example_specs ! 0] \<and> settle_retirement p = [example_specs ! 1]"
  using plan_follows_fates [OF example_plannable(1), of "example_seen True [example_session ''h.b.agent'' True]"]
  by (auto simp: example_asked example_states)



text \<open>
  A plan for one selected task agrees with the whole plan. For an authored task, with every task and
  every session under its own id, the selected plan starts, stops, reaps, holds and reports live
  exactly what the whole plan does to that task, and nothing else.
\<close>

lemma selected_plan_agrees:
  assumes "reconcile this specs ss = Inr p" "reconcile_selected this specs ss sel = Inr q"
    and "resolve_task this specs sel = Inr (s, t, i)" "\<not> derived t" "distinct_ids this specs" "distinct (map session_id ss)"
  shows "started q = filter ((=) i) (started p) \<and> stopped q = filter ((=) i) (stopped p) \<and> gc q = filter ((=) i) (gc p)
    \<and> held q = filter ((=) i) (held p) \<and> live q = filter ((=) i) (live p)"
proof -
  have i: "i = id_of this s t" and t: "(s, t) \<in> set (local_tasks this specs)" using resolve_task_Inr [OF assms(3)] by auto
  note f = filter_ids [OF assms(5) t]
  show ?thesis
    using selected_acts [OF assms(2,3,4,6)] unfolding acts_def reconcile_ids [OF assms(1)] i
    by (simp only: f fate.distinct insert_iff empty_iff simp_thms if_cancel)
qed

end
