(* ===== verification/Command_Policy.thy ===== *)
theory Command_Policy
  imports Text_Codec
begin

section \<open>Command policies of the secret gateway\<close>

text \<open>
  Models \<open>crates/fractal-secrets/src/sekrets/policy.rs\<close>: rules over whole arguments, which argument
  vectors a policy allows, the parsing and printing of rules, and the presets. A refusal is a
  constructor with what its message quotes.
\<close>

subsection \<open>Rules\<close>

record command_rule =
  prefix :: "string list"
  options :: "string list"
  file_options :: "string list"
  field_options :: "string list"

definition rule_prefix :: "string list \<Rightarrow> command_rule" where
  "rule_prefix ws = \<lparr>prefix = ws, options = [], file_options = [], field_options = []\<rparr>"

definition rule_options :: "string list \<Rightarrow> string list \<Rightarrow> command_rule" where
  "rule_options ws os = (rule_prefix ws)\<lparr>options := os\<rparr>"

definition rule_files :: "string list \<Rightarrow> string list \<Rightarrow> string list \<Rightarrow> command_rule" where
  "rule_files ws files fs = (rule_prefix ws)\<lparr>file_options := files, field_options := fs\<rparr>"

definition denies_outright :: "command_rule \<Rightarrow> bool" where
  "denies_outright r = (options r = [] \<and> file_options r = [] \<and> field_options r = [])"

definition matches_prefix :: "command_rule \<Rightarrow> string list \<Rightarrow> bool" where
  "matches_prefix r argv =
     (length (prefix r) \<le> length argv \<and> list_all (\<lambda>(w, a). w = ''*'' \<or> w = a) (zip (prefix r) argv))"

definition passed_file :: "string \<Rightarrow> bool" where
  "passed_file p = (p = ''-'' \<or> (case strip_prefix ''/dev/fd/'' p of None \<Rightarrow> False | Some n \<Rightarrow> n \<noteq> [] \<and> list_all is_digit n))"

text \<open>What one argument that is not the option itself gives as a value of the option.\<close>

definition attached_value :: "string \<Rightarrow> string \<Rightarrow> string option list" where
  "attached_value opt arg =
     (case strip_prefix ''--'' opt of
        Some name \<Rightarrow>
          (case Option.bind (strip_prefix ''--'' arg) (strip_prefix name) of
             Some (c # v) \<Rightarrow> if c = CHR ''='' then [Some v] else []
           | _ \<Rightarrow> [])
      | None \<Rightarrow>
          (case strip_prefix ''-'' opt of
             Some letter \<Rightarrow>
               if starts_with arg ''-'' \<and> \<not> starts_with arg ''--'' then
                 (case strip_prefix opt arg of
                    Some v \<Rightarrow> [Some v]
                  | None \<Rightarrow> if contains letter (drop 1 arg) then [None] else [])
               else []
           | None \<Rightarrow> []))"

fun option_values :: "string \<Rightarrow> string list \<Rightarrow> string option list" where
  "option_values opt [] = []"
| "option_values opt (arg # args) =
     (if arg = opt then (case args of [] \<Rightarrow> [Some []] | v # rest \<Rightarrow> Some v # option_values opt rest)
      else attached_value opt arg @ option_values opt args)"

datatype refusal =
    NoCommand | NoAllowRule "string list" bool | DeniedBy command_rule | OptionDenied string command_rule
  | Bundled string | NotPassed string string bool

text \<open>A file name as a refusal shows it: at most eighty characters, and whether the name goes on.\<close>

definition not_passed :: "string \<Rightarrow> string \<Rightarrow> refusal" where
  "not_passed opt f = (let sh = concat (take 80 (utf8_chars f)) in NotPassed opt sh (length sh < length f))"

text \<open>The file one value names: none when it names no file.\<close>

definition named_file :: "bool \<Rightarrow> string \<Rightarrow> string option" where
  "named_file field v =
     (if field then
        (case split_once_text ''=@'' v of
           Some (_, f) \<Rightarrow> Some f
         | None \<Rightarrow> strip_prefix ''@'' v)
      else Some v)"

definition value_refusal :: "string \<Rightarrow> bool \<Rightarrow> string option \<Rightarrow> refusal option" where
  "value_refusal opt field v =
     (case v of
        None \<Rightarrow> Some (Bundled opt)
      | Some x \<Rightarrow>
          (case named_file field x of
             None \<Rightarrow> None
           | Some f \<Rightarrow> if passed_file f then None else Some (not_passed opt f)))"

fun find_map :: "('a \<Rightarrow> 'b option) \<Rightarrow> 'a list \<Rightarrow> 'b option" where
  "find_map f [] = None"
| "find_map f (x # xs) = (case f x of Some y \<Rightarrow> Some y | None \<Rightarrow> find_map f xs)"

definition file_refusal :: "command_rule \<Rightarrow> string list \<Rightarrow> refusal option" where
  "file_refusal r argv =
     (let args = drop (length (prefix r)) argv
      in find_map (\<lambda>(opt, field). find_map (value_refusal opt field) (option_values opt args))
           (map (\<lambda>opt. (opt, False)) (file_options r) @ map (\<lambda>opt. (opt, True)) (field_options r)))"

definition option_matches :: "string \<Rightarrow> string \<Rightarrow> bool \<Rightarrow> bool" where
  "option_matches opt arg abbreviated =
     (case strip_prefix ''--'' opt of
        Some name \<Rightarrow>
          (case strip_prefix ''--'' arg of
             None \<Rightarrow> False
           | Some given \<Rightarrow>
               (let g = (case split_once (CHR ''='') given of Some (n, _) \<Rightarrow> n | None \<Rightarrow> given)
                in g = name \<or> (abbreviated \<and> g \<noteq> [] \<and> starts_with name g)))
      | None \<Rightarrow>
          (case strip_prefix ''-'' opt of
             Some letters \<Rightarrow>
               starts_with arg ''-'' \<and> \<not> starts_with arg ''--'' \<and> list_all (\<lambda>l. contains l (drop 1 arg)) (utf8_chars letters)
           | None \<Rightarrow> arg = opt))"

definition option_in :: "command_rule \<Rightarrow> string list \<Rightarrow> string option" where
  "option_in r argv =
     find (\<lambda>arg. list_ex (\<lambda>opt. option_matches opt arg (case prefix r of tool # _ \<Rightarrow> tool = ''git'' | [] \<Rightarrow> False)) (options r))
       (drop (length (prefix r)) argv)"

subsection \<open>Parsing and printing rules\<close>

datatype rule_error = OptionsBetween | NoCommandNamed | NotAnOption string | AllowListsOptions | UnknownPreset string

fun parse_words :: "string list \<Rightarrow> string list \<times> string list \<Rightarrow> rule_error + string list \<times> string list" where
  "parse_words [] acc = Inr acc"
| "parse_words (w # ws) (pre, opts) =
     (if starts_with w ''-'' then parse_words ws (pre, opts @ filter (\<lambda>x. x \<noteq> []) (split_on (CHR '','') w))
      else if opts = [] then parse_words ws (pre @ [w], opts)
      else Inl OptionsBetween)"

definition parse_rule :: "string \<Rightarrow> rule_error + command_rule" where
  "parse_rule t =
     and_then (parse_words (split_whitespace t) ([], [])) (\<lambda>(pre, opts).
       if pre = [] then Inl NoCommandNamed
       else case find (\<lambda>x. x = ''-'' \<or> x = ''--'') opts of
         Some x \<Rightarrow> Inl (NotAnOption x)
       | None \<Rightarrow> Inr (rule_options pre opts))"

definition display_rule :: "command_rule \<Rightarrow> string" where
  "display_rule r =
     join_text '' '' (prefix r)
     @ (if options r \<noteq> [] then '' '' @ join_text '','' (options r) else [])
     @ (if file_options r \<noteq> [] \<or> field_options r \<noteq> []
        then '' [passed files only: '' @ join_text '', '' (file_options r @ map (\<lambda>opt. opt @ '' @'') (field_options r)) @ '']''
        else [])"

subsection \<open>Policies\<close>

record policy =
  allow :: "command_rule list"
  deny :: "command_rule list"
  presets :: "string list"

datatype policy_verdict = Allowed | Refused refusal

text \<open>The words a refusal shows, and whether more follow.\<close>

definition shown :: "string list \<Rightarrow> nat list \<Rightarrow> string list \<times> bool" where
  "shown argv lengths =
     (let n = max (foldr max lengths 0) 1 + 1; n = (if lengths = [] then 2 else n)
      in (take n argv, n < length argv))"

definition deny_refusal :: "string list \<Rightarrow> command_rule \<Rightarrow> refusal option" where
  "deny_refusal argv r =
     (if \<not> matches_prefix r argv then None
      else if denies_outright r then Some (DeniedBy r)
      else case option_in r argv of
        Some opt \<Rightarrow> Some (OptionDenied opt r)
      | None \<Rightarrow> file_refusal r argv)"

definition judge :: "policy \<Rightarrow> string list \<Rightarrow> policy_verdict" where
  "judge p argv =
     (if argv = [] then Refused NoCommand
      else if \<not> list_ex (\<lambda>r. matches_prefix r argv) (allow p)
        then Refused (case shown argv (map (\<lambda>r. length (prefix r)) (allow p)) of (ws, longer) \<Rightarrow> NoAllowRule ws longer)
      else case find_map (deny_refusal argv) (deny p) of Some x \<Rightarrow> Refused x | None \<Rightarrow> Allowed)"

definition broad_allow :: "policy \<Rightarrow> command_rule option" where
  "broad_allow p = find (\<lambda>r. length (prefix r) < 2 \<or> list_ex (\<lambda>w. w = ''*'') (take 2 (prefix r))) (allow p)"

subsection \<open>Presets\<close>

definition GH_LOCAL_OPTIONS :: "string list" where
  "GH_LOCAL_OPTIONS = [''--template'', ''-T'', ''--recover'', ''--editor'', ''-e'']"

definition GH_BODY_FILES :: "string list" where
  "GH_BODY_FILES = [''--body-file'', ''-F'']"

definition gh_verbs :: "string \<Rightarrow> string list \<Rightarrow> command_rule list" where
  "gh_verbs grp verbs = map (\<lambda>verb. rule_prefix [''gh'', grp, verb]) verbs"

definition gh_read :: "command_rule list" where
  "gh_read =
     gh_verbs ''pr'' [''view'', ''list'', ''diff'', ''checks'', ''status'']
     @ gh_verbs ''issue'' [''view'', ''list'', ''status'']
     @ concat (map (\<lambda>verb. [rule_prefix [''gh'', ''run'', verb], rule_prefix [''gh'', ''release'', verb]]) [''view'', ''list''])
     @ [rule_prefix [''gh'', ''repo'', ''view'']]"

definition gh_body_denies :: "string \<Rightarrow> string list \<Rightarrow> command_rule list" where
  "gh_body_denies grp verbs =
     concat (map (\<lambda>verb. [rule_options [''gh'', grp, verb] GH_LOCAL_OPTIONS, rule_files [''gh'', grp, verb] GH_BODY_FILES []]) verbs)"

definition preset_no_credential_printing :: "command_rule list" where
  "preset_no_credential_printing =
     [rule_prefix [''gh'', ''auth'', ''token''], rule_options [''gh'', ''auth'', ''status''] [''--show-token'', ''-t''],
      rule_prefix [''gh'', ''alias''], rule_prefix [''gh'', ''extension''], rule_prefix [''gh'', ''ext''],
      rule_prefix [''gh'', ''config''], rule_prefix [''gh'', ''api''], rule_prefix [''git'', ''credential''],
      rule_prefix [''git'', ''credential-store''], rule_prefix [''git'', ''credential-cache''], rule_prefix [''git'', ''config''],
      rule_options [''git''] [''-c'', ''--config-env'', ''--exec-path'']]"

definition preset_gh_pr :: "command_rule list \<times> command_rule list" where
  "preset_gh_pr =
     (let verbs = [''create'', ''edit'', ''comment'', ''ready'', ''close'', ''reopen'']
      in (gh_read @ gh_verbs ''pr'' verbs, gh_body_denies ''pr'' verbs))"

definition preset_gh_agent :: "command_rule list \<times> command_rule list" where
  "preset_gh_agent =
     (gh_verbs ''pr'' [''view'', ''list'', ''diff'', ''checks'', ''status'', ''create'', ''edit'', ''comment'', ''ready'', ''close'',
        ''reopen'', ''merge'', ''review'', ''update-branch'']
      @ gh_verbs ''issue'' [''view'', ''list'', ''status'', ''create'', ''edit'', ''comment'', ''close'', ''reopen'']
      @ gh_verbs ''run'' [''view'', ''list'', ''watch'', ''rerun'', ''cancel'', ''download'']
      @ gh_verbs ''workflow'' [''view'', ''list'', ''run''] @ gh_verbs ''release'' [''view'', ''list'', ''download'']
      @ gh_verbs ''repo'' [''view'', ''list''] @ gh_verbs ''search'' [''issues'', ''prs'', ''code'', ''repos'', ''commits'']
      @ gh_verbs ''label'' [''list''] @ gh_verbs ''variable'' [''list'', ''get'', ''set''] @ gh_verbs ''auth'' [''status'']
      @ [rule_prefix [''gh'', ''api'']],
      gh_body_denies ''pr'' [''create'', ''edit'', ''comment'', ''merge'', ''review'']
      @ gh_body_denies ''issue'' [''create'', ''edit'', ''comment'']
      @ [rule_options [''gh'', ''auth'', ''status''] [''--show-token'', ''-t''],
         rule_files [''gh'', ''api''] [''--input''] [''-F'', ''--field''],
         rule_files [''gh'', ''workflow'', ''run''] [] [''-F'', ''--field''],
         rule_files [''gh'', ''variable'', ''set''] [''--body-file'', ''--env-file'', ''-f''] []])"

definition preset :: "string \<Rightarrow> (command_rule list \<times> command_rule list) option" where
  "preset name =
     (if name = ''everything'' then Some ([rule_prefix [''*'']], [])
      else if name = ''no-credential-printing'' then Some ([], preset_no_credential_printing)
      else if name = ''gh-read'' then Some (gh_read, [])
      else if name = ''gh-pr'' then Some preset_gh_pr
      else if name = ''gh-agent'' then Some preset_gh_agent
      else if name = ''github-api'' then Some ([rule_prefix [''http'', ''*'', ''github'']], [])
      else if name = ''git-push'' then
        Some ([rule_prefix [''git'', ''push'']],
          [rule_options [''git'', ''push''] [''--mirror'', ''--prune'', ''--receive-pack'', ''--exec'']])
      else None)"

definition add_preset :: "string \<Rightarrow> policy \<Rightarrow> rule_error + policy" where
  "add_preset name p =
     (case preset name of
        None \<Rightarrow> Inl (UnknownPreset name)
      | Some (al, de) \<Rightarrow> Inr \<lparr>allow = allow p @ al, deny = deny p @ de, presets = presets p @ [name]\<rparr>)"

definition add_allow :: "string \<Rightarrow> policy \<Rightarrow> rule_error + policy" where
  "add_allow t p =
     and_then (parse_rule t) (\<lambda>r. if options r \<noteq> [] then Inl AllowListsOptions else Inr (p\<lparr>allow := allow p @ [r]\<rparr>))"

definition add_deny :: "string \<Rightarrow> policy \<Rightarrow> rule_error + policy" where
  "add_deny t p = and_then (parse_rule t) (\<lambda>r. Inr (p\<lparr>deny := deny p @ [r]\<rparr>))"

definition build_policy :: "string list \<Rightarrow> string list \<Rightarrow> string list \<Rightarrow> rule_error + policy" where
  "build_policy names als des =
     and_then (try_fold add_preset names \<lparr>allow = [], deny = [], presets = []\<rparr>) (\<lambda>p.
     and_then (try_fold add_allow als p) (try_fold add_deny des))"

subsection \<open>Lemmas: judging\<close>

lemma find_map_None: "find_map f xs = None \<longleftrightarrow> (\<forall>x\<in>set xs. f x = None)"
  by (induction xs) (auto split: option.split)

lemma judge_Allowed:
  "judge p argv = Allowed \<longleftrightarrow>
     argv \<noteq> [] \<and> (\<exists>r\<in>set (allow p). matches_prefix r argv)
     \<and> (\<forall>r\<in>set (deny p). matches_prefix r argv \<longrightarrow>
          \<not> denies_outright r \<and> option_in r argv = None \<and> file_refusal r argv = None)"
proof -
  have "deny_refusal argv r = None \<longleftrightarrow>
      (matches_prefix r argv \<longrightarrow> \<not> denies_outright r \<and> option_in r argv = None \<and> file_refusal r argv = None)" for r
    by (auto simp: deny_refusal_def split: option.split)
  then have "find_map (deny_refusal argv) (deny p) = None \<longleftrightarrow>
      (\<forall>r\<in>set (deny p). matches_prefix r argv \<longrightarrow>
         \<not> denies_outright r \<and> option_in r argv = None \<and> file_refusal r argv = None)"
    by (simp add: find_map_None)
  then show ?thesis by (auto simp: judge_def list_ex_iff split: option.split prod.split)
qed

lemma matches_prefix_nth:
  "matches_prefix r argv \<longleftrightarrow>
     length (prefix r) \<le> length argv \<and> (\<forall>i<length (prefix r). prefix r ! i = ''*'' \<or> prefix r ! i = argv ! i)"
  by (auto simp: matches_prefix_def list_all_length)

subsection \<open>Lemmas: file options\<close>

text \<open>Every value the scan can find in the arguments is a passed file.\<close>

definition scanned :: "string \<Rightarrow> string list \<Rightarrow> bool" where
  "scanned opt args \<longleftrightarrow>
     (\<forall>k<length args.
        (args ! k = opt \<longrightarrow> Suc k < length args \<and> passed_file (args ! Suc k))
        \<and> (args ! k \<noteq> opt \<longrightarrow> (\<forall>v\<in>set (attached_value opt (args ! k)). \<exists>f. v = Some f \<and> passed_file f)))"

lemma scanned_Nil: "scanned opt []"
  by (simp add: scanned_def)

lemma scanned_Cons:
  "scanned opt (a # args) \<longleftrightarrow>
     (a = opt \<longrightarrow> (\<exists>v rest. args = v # rest \<and> passed_file v))
     \<and> (a \<noteq> opt \<longrightarrow> (\<forall>v\<in>set (attached_value opt a). \<exists>f. v = Some f \<and> passed_file f)) \<and> scanned opt args"
  by (auto simp: scanned_def All_less_Suc2 length_Suc_conv neq_Nil_conv)

lemma passed_file_cases:
  assumes "passed_file f"
  shows "f = ''-'' \<or> (\<exists>n. f = ''/dev/fd/'' @ n)"
  using assms by (auto simp: passed_file_def strip_prefix_Some_iff split: option.splits)

lemma attached_passed:
  assumes "passed_file f" "\<not> passed_file opt"
  shows "attached_value opt f = []"
proof -
  have "opt \<noteq> ''-''" using assms(2) by (auto simp: passed_file_def)
  then have c: "\<not> contains letter []" "strip_prefix opt ''-'' = None" if "strip_prefix ''-'' opt = Some letter" for letter
  proof -
    have o: "opt = ''-'' @ letter" using that by (simp only: strip_prefix_Some_iff)
    with \<open>opt \<noteq> ''-''\<close> have "letter \<noteq> []" by auto
    then show "\<not> contains letter []" "strip_prefix opt ''-'' = None" by (simp_all add: o strip_prefix_def)
  qed
  have s: "strip_prefix ''--'' (''/dev/fd/'' @ n) = None" "\<not> starts_with (''/dev/fd/'' @ n) ''-''" for n
    by (simp_all add: strip_prefix_def starts_with_def)
  show ?thesis
    using passed_file_cases [OF assms(1)]
  proof
    assume "f = ''-''"
    then show ?thesis using c by (auto simp: attached_value_def strip_prefix_def split: option.split)
  next
    assume "\<exists>n. f = ''/dev/fd/'' @ n"
    then obtain n where "f = ''/dev/fd/'' @ n" by blast
    then show ?thesis using s [of n] by (simp add: attached_value_def split: option.split)
  qed
qed

lemma values_scanned:
  assumes "\<not> passed_file opt"
    and "\<forall>v\<in>set (option_values opt args). value_refusal opt False v = None"
  shows "scanned opt args"
  using assms
proof (induction opt args rule: option_values.induct)
  case (1 opt)
  then show ?case by (simp add: scanned_Nil)
next
  case (2 opt arg args)
  have ok: "value_refusal opt False v = None \<longleftrightarrow> (\<exists>f. v = Some f \<and> passed_file f)" for v
    by (auto simp: value_refusal_def named_file_def split: option.split)
  show ?case
  proof (cases "arg = opt")
    case False
    then show ?thesis using 2 by (auto simp: scanned_Cons ok)
  next
    case True
    show ?thesis
    proof (cases args)
      case Nil
      then show ?thesis using 2 True by (simp add: ok passed_file_def strip_prefix_def)
    next
      case (Cons v rest)
      have v: "passed_file v" using 2(4) True Cons by (simp add: ok)
      then have "v \<noteq> opt" "attached_value opt v = []" using 2(3) attached_passed by auto
      moreover have "scanned opt rest" using 2(1) [OF True Cons 2(3)] 2(4) True Cons by simp
      ultimately show ?thesis using True Cons v by (simp add: scanned_Cons)
    qed
  qed
qed

lemma file_refusal_scanned:
  assumes "file_refusal r argv = None" "opt \<in> set (file_options r)" "\<not> passed_file opt"
  shows "scanned opt (drop (length (prefix r)) argv)"
proof (rule values_scanned [OF assms(3)])
  have "(opt, False) \<in> set (map (\<lambda>opt. (opt, False)) (file_options r) @ map (\<lambda>opt. (opt, True)) (field_options r))"
    using assms(2) by simp
  from bspec [OF assms(1) [unfolded file_refusal_def Let_def find_map_None] this] show "\<forall>v\<in>set (option_values opt (drop (length (prefix r)) argv)). value_refusal opt False v = None"
    by (simp add: find_map_None)
qed

text \<open>
  How a command reads the option, whatever the scan does: the caller's own files, the values an option
  takes (the next argument, \<open>--name=value\<close>, or the rest of the argument behind a short option), and a
  short option bundled behind other letters.
\<close>

definition caller_file :: "string \<Rightarrow> bool" where
  "caller_file f \<longleftrightarrow> f = ''-'' \<or> (\<exists>n. f = ''/dev/fd/'' @ n \<and> n \<noteq> [] \<and> (\<forall>c\<in>set n. CHR ''0'' \<le> c \<and> c \<le> CHR ''9''))"

inductive takes :: "string \<Rightarrow> string list \<Rightarrow> string \<Rightarrow> bool" for opt where
  next_argument: "takes opt (xs @ opt # f # ys) f"
| after_equals: "opt = ''--'' @ name \<Longrightarrow> takes opt (xs @ (opt @ ''='' @ f) # ys) f"
| behind_letter: "opt = CHR ''-'' # l # ls \<Longrightarrow> l \<noteq> CHR ''-'' \<Longrightarrow> f \<noteq> [] \<Longrightarrow> takes opt (xs @ (opt @ f) # ys) f"

inductive bundled :: "string \<Rightarrow> string list \<Rightarrow> bool" for opt where
  "opt = CHR ''-'' # l # ls \<Longrightarrow> l \<noteq> CHR ''-'' \<Longrightarrow> arg = CHR ''-'' # a # as @ (l # ls) @ rest \<Longrightarrow> a \<noteq> CHR ''-''
     \<Longrightarrow> \<nexists>v. arg = opt @ v \<Longrightarrow> bundled opt (xs @ arg # ys)"

lemma caller_file_iff: "caller_file f \<longleftrightarrow> passed_file f"
proof (cases "strip_prefix ''/dev/fd/'' f")
  case None
  then have "f \<noteq> ''/dev/fd/'' @ n" for n using strip_prefix_Some_iff [of "''/dev/fd/''" f n] by simp
  then show ?thesis using None unfolding caller_file_def passed_file_def by simp
next
  case (Some n)
  then have f: "f = ''/dev/fd/'' @ n" unfolding strip_prefix_Some_iff .
  show ?thesis unfolding caller_file_def passed_file_def Some unfolding f by (simp add: list_all_iff is_digit_def)
qed

lemma scanned_at:
  assumes "scanned opt (xs @ arg # ys)" "arg \<noteq> opt" "v \<in> set (attached_value opt arg)"
  shows "\<exists>f. v = Some f \<and> passed_file f"
proof -
  have "length xs < length (xs @ arg # ys)" by simp
  from assms(1) [unfolded scanned_def, rule_format, OF this] assms(2,3) show ?thesis by simp
qed

lemma attached_long: "opt = ''--'' @ name \<Longrightarrow> attached_value opt (opt @ ''='' @ f) = [Some f]"
proof -
  assume o: "opt = ''--'' @ name"
  have "strip_prefix ''--'' opt = Some name" "strip_prefix ''--'' (opt @ ''='' @ f) = Some (name @ ''='' @ f)"
    "strip_prefix name (name @ ''='' @ f) = Some (''='' @ f)"
    by (simp_all only: strip_prefix_Some_iff o append_assoc)
  then show ?thesis by (simp add: attached_value_def)
qed

lemma attached_short:
  assumes o: "opt = CHR ''-'' # l # ls" "l \<noteq> CHR ''-''" and arg: "arg = CHR ''-'' # a # as" "a \<noteq> CHR ''-''"
  shows "attached_value opt arg =
    (case strip_prefix opt arg of Some v \<Rightarrow> [Some v] | None \<Rightarrow> if contains (l # ls) (a # as) then [None] else [])"
proof -
  have "strip_prefix ''--'' opt = None" "strip_prefix ''-'' opt = Some (l # ls)"
    using o by (simp_all add: strip_prefix_def)
  moreover have "starts_with arg ''-''" "\<not> starts_with arg ''--''" using arg by (auto simp: starts_with_iff)
  ultimately show ?thesis using arg by (simp add: attached_value_def)
qed

lemma scanned_takes:
  assumes "scanned opt args" "takes opt args f"
  shows "caller_file f"
  using assms(2,1)
proof cases
  case (next_argument xs ys)
  have "length xs < length (xs @ opt # f # ys)" by simp
  from assms(1) [unfolded scanned_def next_argument, rule_format, OF this] show ?thesis by (simp add: caller_file_iff nth_append)
next
  case (after_equals name xs ys)
  then show ?thesis using scanned_at [of opt xs "opt @ ''='' @ f" ys "Some f"] attached_long [of opt name f] assms(1)
    by (simp add: caller_file_iff)
next
  case (behind_letter l ls xs ys)
  have "strip_prefix opt (opt @ f) = Some f" by (simp only: strip_prefix_Some_iff)
  then have "attached_value opt (opt @ f) = [Some f]"
    using attached_short [OF behind_letter(2,3), of "opt @ f" l "ls @ f"] behind_letter(2,3) by simp
  then show ?thesis using scanned_at [of opt xs "opt @ f" ys "Some f"] behind_letter(1,4) assms(1)
    by (simp add: caller_file_iff)
qed

lemma contains_middle: "contains n (a @ n @ b)"
proof (induction a)
  case Nil
  show ?case by (cases n) (cases b; auto simp: starts_with_iff)+
qed simp

lemma scanned_bundled:
  assumes "scanned opt args"
  shows "\<not> bundled opt args"
proof
  assume "bundled opt args"
  then show False
  proof cases
    case (1 l ls arg a as rest xs ys)
    have "strip_prefix opt arg = None" using 1(6) strip_prefix_Some_iff [of opt arg] by (cases "strip_prefix opt arg") auto
    moreover have "contains (l # ls) (a # as @ (l # ls) @ rest)" using contains_middle [of "l # ls" "a # as" rest] by simp
    ultimately have "attached_value opt arg = [None]"
      using attached_short [OF 1(2,3), of arg a "as @ (l # ls) @ rest"] 1(4,5) by simp
    moreover have "arg \<noteq> opt" using 1(6) by auto
    ultimately show False using scanned_at [of opt xs arg ys None] 1(1) assms by simp
  qed
qed

lemma scanned_last: "scanned opt args \<Longrightarrow> args \<noteq> [] \<Longrightarrow> last args \<noteq> opt"
  by (induction args) (auto simp: scanned_Cons)

subsection \<open>Lemmas: parsing what was printed\<close>

definition plain :: "string \<Rightarrow> bool" where
  "plain w \<longleftrightarrow> w \<noteq> [] \<and> ascii w \<and> (\<forall>c\<in>set w. \<not> space1 c)"

lemma split_ascii_Cons:
  assumes "code c < 128"
  shows "split_whitespace_from w (c # cs) =
    (if space1 c then flush w @ split_whitespace_from [] cs else split_whitespace_from (w @ [c]) cs)"
proof -
  have "\<not> space2 c d" "\<not> space3 c d e" for d e using assms by (auto simp: space2_def space3_def)
  then show ?thesis by (auto simp only: split_whitespace_from.simps if_False split: list.split if_split)
qed

lemma split_plain:
  "ascii u \<Longrightarrow> \<forall>c\<in>set u. \<not> space1 c \<Longrightarrow> split_whitespace_from w (u @ t) = split_whitespace_from (w @ u) t"
  by (induction u arbitrary: w) (simp_all add: ascii_def split_ascii_Cons del: split_whitespace_from.simps(2))

lemma split_space: "w \<noteq> [] \<Longrightarrow> split_whitespace_from w ('' '' @ t) = w # split_whitespace_from [] t"
  by (simp add: split_ascii_Cons space1_def flush_def del: split_whitespace_from.simps(2))

lemma split_join: "\<forall>w\<in>set ws. plain w \<Longrightarrow> split_whitespace_from [] (join_text '' '' ws) = ws"
proof (induction ws rule: induct_list012)
  case 1
  then show ?case by (simp add: flush_def)
next
  case (2 w)
  then show ?case using split_plain [of w "[]" "[]"] by (simp add: plain_def flush_def)
next
  case (3 v w ws)
  then have "split_whitespace_from [] (v @ '' '' @ join_text '' '' (w # ws)) = v # split_whitespace_from [] (join_text '' '' (w # ws))"
    using split_plain [of v "[]"] split_space [of v] by (simp add: plain_def del: split_whitespace_from.simps(2))
  then show ?case using 3 by simp
qed

lemma plain_join:
  assumes "ws \<noteq> []" "\<forall>w\<in>set ws. plain w" "code c < 128" "\<not> space1 c"
  shows "plain (join_text [c] ws)"
proof -
  have "code x < 128 \<and> \<not> space1 x" if "x \<in> set (join_text [c] ws)" for x
    using that join_text_set [of c ws] assms(2-4) by (fastforce simp: plain_def ascii_def list_all_iff)
  moreover have "join_text [c] ws \<noteq> []"
    using assms(1,2) join_text_hd [of ws "[c]"] by (auto simp: plain_def dest: hd_in_set)
  ultimately show ?thesis by (simp add: plain_def ascii_def list_all_iff)
qed

lemma parse_words_prefix:
  "\<forall>w\<in>set ws. \<not> starts_with w ''-'' \<Longrightarrow> parse_words (ws @ rest) (pre, []) = parse_words rest (pre @ ws, [])"
  by (induction ws arbitrary: pre) auto

text \<open>A rule as it can be written: plain words, and options the first of which starts with a dash.\<close>

definition writable :: "command_rule \<Rightarrow> bool" where
  "writable r \<longleftrightarrow>
     prefix r \<noteq> [] \<and> (\<forall>w\<in>set (prefix r). plain w \<and> \<not> starts_with w ''-'')
     \<and> (\<forall>x\<in>set (options r). plain x \<and> CHR '','' \<notin> set x \<and> x \<noteq> ''-'' \<and> x \<noteq> ''--'')
     \<and> (options r \<noteq> [] \<longrightarrow> starts_with (hd (options r)) ''-'') \<and> file_options r = [] \<and> field_options r = []"

text \<open>A rule reads back as it prints, for every rule of plain words and options.\<close>

lemma parse_display:
  assumes "writable r"
  shows "parse_rule (display_rule r) = Inr r"
proof -
  let ?o = "join_text '','' (options r)"
  have r: "rule_options (prefix r) (options r) = r"
    using assms by (simp add: writable_def rule_options_def rule_prefix_def)
  have words: "split_whitespace (display_rule r) = prefix r @ (if options r = [] then [] else [?o])"
  proof (cases "options r = []")
    case True
    then show ?thesis using assms split_join [of "prefix r"] by (simp add: display_rule_def writable_def split_whitespace_def)
  next
    case False
    then have "plain ?o" using assms by (intro plain_join) (auto simp: writable_def space1_def)
    then have "split_whitespace_from [] (join_text '' '' (prefix r @ [?o])) = prefix r @ [?o]"
      using assms by (intro split_join) (auto simp: writable_def)
    then show ?thesis using False assms by (simp add: display_rule_def writable_def split_whitespace_def join_text_append)
  qed
  have opts: "parse_words (if options r = [] then [] else [?o]) (prefix r, []) = Inr (prefix r, options r)"
  proof (cases "options r = []")
    case False
    have "starts_with ?o ''-''" using assms False join_text_hd [of "options r" "'',''"]
      by (auto simp: writable_def starts_with_iff)
    moreover have "split_on (CHR '','') ?o = options r" using assms False by (intro split_on_join) (auto simp: writable_def)
    moreover have "filter (\<lambda>x. x \<noteq> []) (options r) = options r" using assms by (auto simp: filter_id_conv writable_def plain_def)
    ultimately show ?thesis using False by simp
  qed simp
  have "parse_words (split_whitespace (display_rule r)) ([], []) = Inr (prefix r, options r)"
    unfolding words using parse_words_prefix [of "prefix r"] opts assms by (simp add: writable_def)
  moreover have "find (\<lambda>x. x = ''-'' \<or> x = ''--'') (options r) = None"
    using assms by (auto simp: find_None_iff writable_def)
  ultimately show ?thesis using assms r by (simp add: parse_rule_def writable_def)
qed

subsection \<open>Properties\<close>

definition preset_policy :: "string \<Rightarrow> policy" where
  "preset_policy name = (case preset name of
     None \<Rightarrow> \<lparr>allow = [], deny = [], presets = []\<rparr> | Some (al, de) \<Rightarrow> \<lparr>allow = al, deny = de, presets = [name]\<rparr>)"

lemmas preset_defs = preset_policy_def preset_def preset_gh_pr_def preset_gh_agent_def gh_read_def gh_verbs_def gh_body_denies_def
  GH_BODY_FILES_def GH_LOCAL_OPTIONS_def rule_files_def rule_options_def rule_prefix_def Let_def

text \<open>
  C23. An allowed command reads no file through a guarded option. When a policy allows a command that a
  deny rule with file options matches, every value such an option takes behind the rule's words (as
  the next argument, behind \<open>=\<close>, or attached to a short option) is standard input or a descriptor the
  caller passed; the option is never the last argument, without a value, and never bundled behind the
  letters of other short options.
\<close>

theorem file_options_guarded:
  assumes "judge p argv = Allowed" and "r \<in> set (deny p)" "matches_prefix r argv"
    and "opt \<in> set (file_options r)" "\<not> caller_file opt"
  shows "let args = drop (length (prefix r)) argv in
    (\<forall>f. takes opt args f \<longrightarrow> caller_file f) \<and> (args \<noteq> [] \<longrightarrow> last args \<noteq> opt) \<and> \<not> bundled opt args"
proof -
  have "scanned opt (drop (length (prefix r)) argv)"
    using assms by (intro file_refusal_scanned) (auto simp: judge_Allowed caller_file_iff)
  then show ?thesis unfolding Let_def using scanned_takes scanned_last scanned_bundled by blast
qed

theorem file_options_guarded_witness:
  "takes ''--body-file'' [''--title'', ''x'', ''--body-file=/dev/fd/7''] ''/dev/fd/7'' \<and> caller_file ''/dev/fd/7''"
proof -
  let ?argv = "[''gh'', ''pr'', ''create'', ''--title'', ''x'', ''--body-file=/dev/fd/7'']"
  let ?r = "rule_files [''gh'', ''pr'', ''create''] GH_BODY_FILES []"
  have t: "takes ''--body-file'' [''--title'', ''x'', ''--body-file=/dev/fd/7''] ''/dev/fd/7''"
    using takes.after_equals [of "''--body-file''" "''body-file''" "[''--title'', ''x'']" "''/dev/fd/7''" "[]"] by simp
  have "judge (preset_policy ''gh-pr'') ?argv = Allowed"
    by (simp add: judge_def preset_defs matches_prefix_def deny_refusal_def denies_outright_def option_in_def option_matches_def
        file_refusal_def value_refusal_def named_file_def passed_file_def attached_value_def strip_prefix_def starts_with_def
        split_once_def is_digit_def)
  moreover have "?r \<in> set (deny (preset_policy ''gh-pr''))" by (simp add: preset_defs)
  ultimately have "\<forall>f. takes ''--body-file'' (drop (length (prefix ?r)) ?argv) f \<longrightarrow> caller_file f"
    using file_options_guarded [of "preset_policy ''gh-pr''" ?argv ?r "''--body-file''"]
    by (simp add: rule_files_def rule_prefix_def matches_prefix_def GH_BODY_FILES_def caller_file_def Let_def)
  then show ?thesis using t by (simp add: rule_files_def rule_prefix_def)
qed

text \<open>
  C40. A field option can read any file. Under the preset for agents, \<open>gh api\<close> with \<open>-F\<close> given as the value
  of another option and again before a field is allowed, whatever file the field reads after the \<open>@\<close>
  sign: the scan takes the second \<open>-F\<close> for the value of the first and skips it.
\<close>

theorem field_option_reads_any_file:
  "judge (preset_policy ''gh-agent'') [''gh'', ''api'', ''-p'', ''-F'', ''-F'', ''body=@'' @ f] = Allowed
   \<and> named_file True (''body=@'' @ f) = Some f"
  by (simp add: judge_def preset_defs matches_prefix_def deny_refusal_def denies_outright_def option_in_def option_matches_def
      file_refusal_def value_refusal_def named_file_def attached_value_def strip_prefix_def starts_with_def)

end
