(* ===== verification/Tile_Registry.thy ===== *)
theory Tile_Registry
  imports Text_Codec
begin

section \<open>The registry of tiles\<close>

text \<open>
  Models \<open>crates/fractal-tiles-registry/src/lib.rs\<close> and \<open>names.rs\<close>: the checks of a registry and of
  the user ids allocated to its tiles, and how a process is identified as a tile from its user id
  and cgroup. A registry is the record its TOML text decodes to, a \<open>BTreeMap\<close> the list of its entries
  in key order. A \<open>Path\<close> is its text, compared by its components.
\<close>

subsection \<open>Paths\<close>

datatype component = RootDir | CurDir | ParentDir | Normal string

definition components :: "string \<Rightarrow> component list" where
  "components p =
     (let segs = split_on (CHR ''/'') p
      in (if starts_with p ''/'' then [RootDir] else if hd segs = ''.'' then [CurDir] else [])
         @ map (\<lambda>s. if s = ''..'' then ParentDir else Normal s) (filter (\<lambda>s. s \<noteq> [] \<and> s \<noteq> ''.'') segs))"

definition is_absolute :: "string \<Rightarrow> bool" where
  "is_absolute p = starts_with p ''/''"

definition path_eq :: "string \<Rightarrow> string \<Rightarrow> bool" where
  "path_eq p q = (components p = components q)"

definition path_starts_with :: "string \<Rightarrow> string \<Rightarrow> bool" where
  "path_starts_with p base = (take (length (components base)) (components p) = components base)"

subsection \<open>Names\<close>

definition valid_word :: "string \<Rightarrow> bool" where
  "valid_word w =
     (w \<noteq> [] \<and> length w \<le> 64 \<and> hd w \<noteq> CHR ''.'' \<and> hd w \<noteq> CHR ''-''
      \<and> list_all (\<lambda>c. is_lower c \<or> is_digit c \<or> c = CHR ''-'' \<or> c = CHR ''_'' \<or> c = CHR ''.'') w)"

definition person_name :: "string \<Rightarrow> string option" where
  "person_name p = (case strip_prefix ''person/'' p of Some n \<Rightarrow> if valid_word n then Some n else None | None \<Rightarrow> None)"

definition check_name :: "string \<Rightarrow> bool" where
  "check_name n =
     (n \<noteq> [] \<and> length n \<le> 32 \<and> is_lower (hd n) \<and> list_all (\<lambda>c. is_lower c \<or> is_digit c \<or> c = CHR ''_'') n)"

subsection \<open>The registry\<close>

record uid_range =
  first_uid :: nat
  last_uid :: nat

definition range_contains :: "uid_range \<Rightarrow> nat \<Rightarrow> bool" where
  "range_contains r u = (first_uid r \<le> u \<and> u \<le> last_uid r)"

definition range_overlaps :: "uid_range \<Rightarrow> nat \<times> nat \<Rightarrow> bool" where
  "range_overlaps r = (\<lambda>(a, b). first_uid r \<le> b \<and> a \<le> last_uid r)"

record tile =
  tile_agent :: string
  tile_person :: string
  supervisor_uid :: "nat option"
  tasks_max :: nat
  memory_max :: string
  memory_high :: "string option"
  cpu_weight :: nat

record registry =
  state_root :: string
  runtime_root :: string
  read_only :: "string list"
  tile_path :: "string list"
  uids :: uid_range
  sekrets_socket :: "string option"
  tiles :: "(string \<times> tile) list"
  allocated :: "(string \<times> nat) list"

definition SYSTEMD_RESERVED :: "(nat \<times> nat) list" where
  "SYSTEMD_RESERVED = [(61184, 65519), (524288, 1879048191)]"

datatype registry_error =
    RootNotAbsolute string | PathNotAbsolute string | PathGoesUp string | ReadOnlyOverlaps string string
  | RangeInvalid | RangeHasNobody | RangeReserved nat nat | NotATileName string | NotAnAgent string
  | NotAPerson string | SupervisorInRange string | LimitsInvalid string | NotASize string string
  | OutsideRange string nat | SharedUid string string nat | SupervisorIsTile string nat string

definition memory_value :: "string \<Rightarrow> bool" where
  "memory_value v =
     (let unit_of = (\<lambda>c. c = CHR ''K'' \<or> c = CHR ''M'' \<or> c = CHR ''G'' \<or> c = CHR ''T'');
          ds = rev (dropWhile unit_of (rev v))
      in ds \<noteq> [] \<and> list_all is_digit ds \<and> length v - length ds \<le> 1
         \<and> (case parse_unsigned (2 ^ 64 - 1) ds of Some n \<Rightarrow> 0 < n | None \<Rightarrow> False))"

text \<open>The checks in their order: the first that fails is the error.\<close>

definition plain_root :: "string \<Rightarrow> bool" where
  "plain_root p = (is_absolute p \<and> \<not> path_eq p ''/'')"

definition check_path :: "string \<Rightarrow> registry_error + unit" where
  "check_path p = also_ok (ensure (plain_root p) (PathNotAbsolute p)) (ensure (ParentDir \<notin> set (components p)) (PathGoesUp p))"

definition check_read_only :: "registry \<Rightarrow> string \<Rightarrow> registry_error + unit" where
  "check_read_only r p =
     all_ok (\<lambda>q. ensure (\<not> path_starts_with p q \<and> \<not> path_starts_with q p) (ReadOnlyOverlaps p q)) [state_root r, runtime_root r]"

definition check_range :: "uid_range \<Rightarrow> registry_error + unit" where
  "check_range u =
     also_ok (ensure (first_uid u \<noteq> 0 \<and> first_uid u \<le> last_uid u \<and> last_uid u < (2 ^ 32 - 1) div 2) RangeInvalid)
    (also_ok (ensure (\<not> range_contains u 65534 \<and> \<not> range_contains u 65535) RangeHasNobody)
    (all_ok (\<lambda>(a, b). ensure (\<not> range_overlaps u (a, b)) (RangeReserved a b)) SYSTEMD_RESERVED))"

definition check_tile :: "uid_range \<Rightarrow> string \<times> tile \<Rightarrow> registry_error + unit" where
  "check_tile u = (\<lambda>(n, t).
     also_ok (ensure (check_name n) (NotATileName n))
    (also_ok (ensure (starts_with (tile_agent t) ''agent/'' \<and> length ''agent/'' < length (tile_agent t)) (NotAnAgent n))
    (also_ok (ensure (person_name (tile_person t) \<noteq> None) (NotAPerson n))
    (also_ok (ensure (case supervisor_uid t of Some s \<Rightarrow> \<not> range_contains u s | None \<Rightarrow> True) (SupervisorInRange n))
    (also_ok (ensure (tasks_max t \<noteq> 0 \<and> cpu_weight t \<noteq> 0 \<and> cpu_weight t \<le> 10000) (LimitsInvalid n))
    (all_ok (\<lambda>v. ensure (memory_value v) (NotASize n v))
       (memory_max t # (case memory_high t of Some h \<Rightarrow> [h] | None \<Rightarrow> []))))))))"

definition check_registry :: "registry \<Rightarrow> registry_error + unit" where
  "check_registry r =
     also_ok (all_ok (\<lambda>p. ensure (plain_root p) (RootNotAbsolute p)) [state_root r, runtime_root r])
    (also_ok (all_ok check_path (read_only r @ tile_path r @ (case sekrets_socket r of Some s \<Rightarrow> [s] | None \<Rightarrow> [])))
    (also_ok (all_ok (check_read_only r) (read_only r))
    (also_ok (check_range (uids r)) (all_ok (check_tile (uids r)) (tiles r)))))"

subsection \<open>User ids\<close>

definition add_uid :: "uid_range \<Rightarrow> string \<times> nat \<Rightarrow> (nat \<times> string) list \<Rightarrow> registry_error + (nat \<times> string) list" where
  "add_uid u = (\<lambda>(n, i) owners.
     also_ok (ensure (check_name n) (NotATileName n))
    (also_ok (ensure (range_contains u i) (OutsideRange n i))
    (case map_of owners i of Some other \<Rightarrow> Inl (SharedUid other n i) | None \<Rightarrow> Inr ((i, n) # owners))))"

definition check_supervisor :: "(nat \<times> string) list \<Rightarrow> string \<times> tile \<Rightarrow> registry_error + unit" where
  "check_supervisor owners = (\<lambda>(n, t).
     case supervisor_uid t of
       None \<Rightarrow> Inr ()
     | Some s \<Rightarrow> (case map_of owners s of Some other \<Rightarrow> Inl (SupervisorIsTile n s other) | None \<Rightarrow> Inr ()))"

definition with_uids :: "(string \<times> nat) list \<Rightarrow> registry \<Rightarrow> registry_error + registry" where
  "with_uids us r =
     and_then (try_fold (add_uid (uids r)) us []) (\<lambda>owners.
       also_ok (all_ok (check_supervisor owners) (tiles r)) (Inr (r\<lparr>allocated := us\<rparr>)))"

text \<open>Reading the registry and, once the launcher has written it, the file of user ids.\<close>

definition load_registry :: "registry \<Rightarrow> (string \<times> nat) list option \<Rightarrow> registry_error + registry" where
  "load_registry r us =
     also_ok (check_registry r) (case us of None \<Rightarrow> Inr (r\<lparr>allocated := []\<rparr>) | Some u \<Rightarrow> with_uids u r)"

definition uid_of :: "registry \<Rightarrow> string \<Rightarrow> nat option" where
  "uid_of r n = map_of (allocated r) n"

definition tile_for_uid :: "registry \<Rightarrow> nat \<Rightarrow> (string \<times> tile) option" where
  "tile_for_uid r u =
     (case find (\<lambda>(_, i). i = u) (allocated r) of
        None \<Rightarrow> None
      | Some (n, _) \<Rightarrow> map_option (\<lambda>t. (n, t)) (map_of (tiles r) n))"

definition slice_unit :: "string \<Rightarrow> string" where
  "slice_unit n = ''st_tiles-'' @ n @ ''.slice''"

definition slice_cgroup :: "string \<Rightarrow> string" where
  "slice_cgroup n = ''/'' @ ''st_tiles.slice'' @ ''/'' @ slice_unit n"

definition tools_unit :: "string \<Rightarrow> string" where
  "tools_unit n = ''st-tile-'' @ n @ ''-tools.service''"

definition tools_cgroup :: "string \<Rightarrow> string" where
  "tools_cgroup n = slice_cgroup n @ ''/'' @ tools_unit n"

definition identify :: "registry \<Rightarrow> nat \<Rightarrow> string \<Rightarrow> (string \<times> tile) option" where
  "identify r u cgroup =
     (case tile_for_uid r u of
        None \<Rightarrow> None
      | Some (n, t) \<Rightarrow> if starts_with cgroup (slice_cgroup n @ ''/'') then Some (n, t) else None)"

subsection \<open>What a checked registry guarantees\<close>

lemma all_ok_iff: "all_ok f xs = Inr () \<longleftrightarrow> (\<forall>x\<in>set xs. f x = Inr ())"
  by (induction xs) (auto simp: and_then_Inr)

lemma check_tile_names:
  assumes "check_tile u (n, t) = Inr ()"
  shows "check_name n" "starts_with (tile_agent t) ''agent/''" "person_name (tile_person t) \<noteq> None"
  using assms by (auto simp: check_tile_def and_then_Inr)

lemma checked_tile: "check_registry r = Inr () \<Longrightarrow> (n, t) \<in> set (tiles r) \<Longrightarrow> check_tile (uids r) (n, t) = Inr ()"
  by (auto simp: check_registry_def and_then_Inr all_ok_iff)

lemma add_uids_distinct:
  assumes "try_fold (add_uid u) us owners = Inr owners'"
  shows "distinct (map snd us) \<and> set (map snd us) \<inter> fst ` set owners = {} \<and> (\<forall>(n, i)\<in>set us. check_name n \<and> range_contains u i)"
  using assms
proof (induction us arbitrary: owners)
  case (Cons a us)
  obtain n i where a: "a = (n, i)" by force
  from Cons.prems have new: "check_name n" "range_contains u i" "i \<notin> fst ` set owners"
    and rest: "try_fold (add_uid u) us ((i, n) # owners) = Inr owners'"
    by (auto simp: a add_uid_def and_then_Inr map_of_eq_None_iff split: option.splits)
  show ?case using Cons.IH [OF rest] new by (auto simp: a)
qed simp

lemma with_uids_checked:
  assumes "with_uids us r = Inr r'"
  shows "r' = r\<lparr>allocated := us\<rparr>" "distinct (map snd us)" "\<forall>(n, i)\<in>set us. check_name n \<and> range_contains (uids r) i"
  using assms add_uids_distinct [of "uids r" us "[]"] by (auto simp: with_uids_def and_then_Inr)

lemma name_chars: "check_name n \<Longrightarrow> CHR ''.'' \<notin> set n \<and> CHR ''/'' \<notin> set n"
  by (auto simp: check_name_def list_all_iff is_lower_def is_digit_def less_eq_char_def)

lemma same_slice:
  assumes "check_name n" "check_name m"
    and "starts_with cgroup (slice_cgroup n @ ''/'')" "starts_with cgroup (slice_cgroup m @ ''/'')"
  shows "n = m"
proof -
  obtain a b where "n @ ''.slice/'' @ a = m @ ''.slice/'' @ b"
    using assms(3,4) by (auto simp: starts_with_iff slice_cgroup_def slice_unit_def)
  then have "split_once (CHR ''.'') (n @ CHR ''.'' # ''slice/'' @ a) = split_once (CHR ''.'') (m @ CHR ''.'' # ''slice/'' @ b)"
    by simp
  then show ?thesis using name_chars [OF assms(1)] name_chars [OF assms(2)] by (simp add: split_once_append)
qed

lemma tile_for_uid_sound:
  "tile_for_uid r u = Some (n, t) \<Longrightarrow> (n, u) \<in> set (allocated r) \<and> (n, t) \<in> set (tiles r)"
  by (auto simp: tile_for_uid_def dest!: find_SomeD map_of_SomeD split: option.splits)

lemma identify_sound:
  "identify r u cg = Some (n, t) \<longleftrightarrow> tile_for_uid r u = Some (n, t) \<and> starts_with cg (slice_cgroup n @ ''/'')"
  by (auto simp: identify_def split: option.splits if_splits)

lemma check_registry_allocated: "check_registry (r\<lparr>allocated := us\<rparr>) = check_registry r"
proof -
  have "check_read_only (r\<lparr>allocated := us\<rparr>) = check_read_only r" by (rule ext) (simp add: check_read_only_def)
  then show ?thesis by (simp add: check_registry_def)
qed

lemma loaded_registry_checked: "load_registry r us = Inr r' \<Longrightarrow> check_registry r' = Inr ()"
  by (auto simp: load_registry_def and_then_Inr check_registry_allocated dest: with_uids_checked(1) split: option.splits)

text \<open>
  A cgroup belongs to one tile. In a checked registry with checked user ids, a process is
  identified as a tile only when it runs as the user allocated to that tile, the tile is an agent of
  a person, and two processes of one cgroup identified as tiles are of the same user and tile.
\<close>

lemma tile_identity_unique:
  assumes "check_registry r = Inr ()" "with_uids us r = Inr r'" "distinct (map fst us)"
    and "identify r' u cg = Some (n, t)"
  shows "uid_of r' n = Some u" "range_contains (uids r) u" "starts_with (tile_agent t) ''agent/''" "person_name (tile_person t) \<noteq> None"
    and "identify r' v cg = Some (m, s) \<Longrightarrow> v = u \<and> m = n \<and> s = t"
proof -
  note w = with_uids_checked [OF assms(2)]
  have *: "(k, x) \<in> set us" "(k, y) \<in> set (tiles r)" "check_name k" "starts_with cg (slice_cgroup k @ ''/'')"
    "tile_for_uid r' x = Some (k, y)" if "identify r' x cg = Some (k, y)" for x k y
    using that tile_for_uid_sound [of r' x k y] w(1,3) by (auto simp: identify_sound)
  have t: "check_tile (uids r) (n, t) = Inr ()" using checked_tile [OF assms(1)] * [OF assms(4)] by blast
  show "starts_with (tile_agent t) ''agent/''" "person_name (tile_person t) \<noteq> None" using check_tile_names [OF t] by simp_all
  show "uid_of r' n = Some u" using * [OF assms(4)] assms(3) w(1) by (simp add: uid_of_def)
  show "range_contains (uids r) u" using * [OF assms(4)] w(3) by auto
  assume i: "identify r' v cg = Some (m, s)"
  have "m = n" using same_slice * [OF assms(4)] * [OF i] by blast
  moreover have "v = u" using * [OF assms(4)] * [OF i] assms(3) calculation by (metis map_of_is_SomeI option.inject)
  ultimately show "v = u \<and> m = n \<and> s = t" using * [OF assms(4)] * [OF i] by simp
qed

end
