(* ===== verification/Gateway_Store.thy ===== *)
theory Gateway_Store
  imports Command_Policy Tile_Registry "HOL-Library.AList"
begin

section \<open>The store of the secret gateway\<close>

text \<open>
  Models \<open>crates/fractal-secrets/src/sekrets/store.rs\<close>: profiles, the values put into them, grants,
  registered daemon keys, locks and the call log. A table is the list of its rows in the order they
  were inserted, keyed by its primary key, and a query returns what its SQL says: \<open>ORDER BY\<close> is a
  stable sort, and of two locks that are not the lock on everyone the model reports the caller's. The
  columns that record when a row was written and that nothing reads are left out, as are faults of the
  database. A policy is stored as it is. The clock, fresh grant ids and whether a directory could be
  made or removed are arguments; the type of a log entry's detail is a parameter.
\<close>

subsection \<open>Rows\<close>

record profile_row =
  profile_id :: string
  owner :: string
  profile_description :: "string option"
  profile_policy :: policy
  is_default :: bool

record profile = profile_row +
  env_names :: "string list"

record grant =
  grant_id :: string
  grant_profile :: string
  grantee :: string
  grant_policy :: policy
  until_ms :: "int option"
  granted_by :: string
  granted_at :: int

record lock =
  locked_by :: string
  lock_reason :: "string option"
  lock_at :: int

record 'd log_entry =
  seq :: nat
  log_at :: int
  log_caller :: "string option"
  log_owner :: "string option"
  log_event :: string
  log_actor :: "string option"
  log_profile :: "string option"
  log_detail :: 'd

record 'd gateway_store =
  profile_rows :: "profile_row list"
  profile_env :: "((string \<times> string) \<times> string) list"
  grant_rows :: "(grant \<times> (int \<times> string) option) list"
  daemon_rows :: "(nat \<times> string \<times> string \<times> string) list"
  lock_rows :: "(string \<times> lock) list"
  log_rows :: "'d log_entry list"
  last_seq :: nat

datatype store_error =
    NotOwnerSlashName | BadWord | NotOwnersName | BadEnvName | ReservedEnvName | ProfileExists | DirectoryFailed | ProfileVanished | GrantIdTaken

definition empty_store :: "'d gateway_store" where
  "empty_store = \<lparr>profile_rows = [], profile_env = [], grant_rows = [], daemon_rows = [], lock_rows = [], log_rows = [], last_seq = 0\<rparr>"

subsection \<open>Names\<close>

definition check_profile_id :: "string \<Rightarrow> string \<Rightarrow> store_error + unit" where
  "check_profile_id i own =
     (case split_once (CHR ''/'') i of
        None \<Rightarrow> Inl NotOwnerSlashName
      | Some (pre, name) \<Rightarrow>
          also_ok (ensure (valid_word pre \<and> valid_word name) BadWord) (ensure (person_name own = Some pre) NotOwnersName))"

definition RESERVED :: "string list" where
  "RESERVED = [''HOME'', ''PATH'', ''USER'', ''LOGNAME'', ''SHELL'', ''TERM'', ''PWD'', ''TMPDIR'']"

definition check_env_name :: "string \<Rightarrow> store_error + unit" where
  "check_env_name n =
     also_ok (ensure (n \<noteq> [] \<and> length n \<le> 128 \<and> (is_upper (hd n) \<or> hd n = CHR ''_'')
         \<and> list_all (\<lambda>c. is_upper c \<or> is_digit c \<or> c = CHR ''_'') n) BadEnvName)
       (ensure (\<not> (n \<in> set RESERVED \<or> starts_with n ''LD_'' \<or> starts_with n ''XDG_'' \<or> starts_with n ''GIT_CONFIG''
         \<or> starts_with n ''ST_'')) ReservedEnvName)"

subsection \<open>Profiles\<close>

definition env :: "string \<Rightarrow> 'd gateway_store \<Rightarrow> (string \<times> string) list" where
  "env p st = sort_key fst (map (\<lambda>((_, n), v). (n, v)) (filter (\<lambda>((q, _), _). q = p) (profile_env st)))"

definition find_profile :: "string \<Rightarrow> 'd gateway_store \<Rightarrow> profile option" where
  "find_profile i st =
     map_option (\<lambda>r. profile_row.extend r \<lparr>env_names = map fst (env i st)\<rparr>) (find (\<lambda>r. profile_id r = i) (profile_rows st))"

definition profiles :: "'d gateway_store \<Rightarrow> profile list" where
  "profiles st = List.map_filter (\<lambda>i. find_profile i st) (sort (map profile_id (profile_rows st)))"

definition clear_default :: "string \<Rightarrow> profile_row \<Rightarrow> profile_row" where
  "clear_default own r = (if owner r = own then r\<lparr>is_default := False\<rparr> else r)"

text \<open>The row is committed before the profile's directory is made.\<close>

definition create_profile ::
  "bool \<Rightarrow> string \<Rightarrow> string \<Rightarrow> string option \<Rightarrow> policy \<Rightarrow> bool \<Rightarrow> 'd gateway_store \<Rightarrow> 'd gateway_store \<times> (store_error + profile)"
where
  "create_profile dir_ok i own descr pol dflt st =
     (case check_profile_id i own of
        Inl e \<Rightarrow> (st, Inl e)
      | Inr _ \<Rightarrow>
          if i \<in> profile_id ` set (profile_rows st) then (st, Inl ProfileExists)
          else
            (let rows = (if dflt then map (clear_default own) (profile_rows st) else profile_rows st);
                 row = \<lparr>profile_id = i, owner = own, profile_description = descr, profile_policy = pol, is_default = dflt\<rparr>;
                 st' = st\<lparr>profile_rows := rows @ [row]\<rparr>
             in (st', if \<not> dir_ok then Inl DirectoryFailed
                  else case find_profile i st' of Some p \<Rightarrow> Inr p | None \<Rightarrow> Inl ProfileVanished)))"

definition revoke :: "(grant \<Rightarrow> bool) \<Rightarrow> int \<Rightarrow> string \<Rightarrow> (grant \<times> (int \<times> string) option) list \<Rightarrow> (grant \<times> (int \<times> string) option) list" where
  "revoke which now by_whom = map (\<lambda>(g, r). (g, if which g \<and> r = None then Some (now, by_whom) else r))"

definition remove_profile :: "bool \<Rightarrow> int \<Rightarrow> string \<Rightarrow> 'd gateway_store \<Rightarrow> 'd gateway_store \<times> (store_error + unit)" where
  "remove_profile dir_ok now i st =
     (st\<lparr>profile_rows := filter (\<lambda>r. profile_id r \<noteq> i) (profile_rows st),
         profile_env := filter (\<lambda>((p, _), _). p \<noteq> i) (profile_env st),
         grant_rows := revoke (\<lambda>g. grant_profile g = i) now ''profile removed'' (grant_rows st)\<rparr>,
      ensure dir_ok DirectoryFailed)"

definition set_policy :: "string \<Rightarrow> policy \<Rightarrow> 'd gateway_store \<Rightarrow> 'd gateway_store" where
  "set_policy i pol st = st\<lparr>profile_rows := map (\<lambda>r. if profile_id r = i then r\<lparr>profile_policy := pol\<rparr> else r) (profile_rows st)\<rparr>"

definition put :: "string \<Rightarrow> string \<Rightarrow> string \<Rightarrow> 'd gateway_store \<Rightarrow> 'd gateway_store \<times> (store_error + unit)" where
  "put p n v st =
     (case check_env_name n of
        Inl e \<Rightarrow> (st, Inl e)
      | Inr _ \<Rightarrow> (st\<lparr>profile_env := AList.update (p, n) v (profile_env st)\<rparr>, Inr ()))"

definition unset :: "string \<Rightarrow> string \<Rightarrow> 'd gateway_store \<Rightarrow> 'd gateway_store \<times> bool" where
  "unset p n st = (st\<lparr>profile_env := AList.delete (p, n) (profile_env st)\<rparr>, map_of (profile_env st) (p, n) \<noteq> None)"

subsection \<open>Grants\<close>

definition grants_where :: "(grant \<Rightarrow> bool) \<Rightarrow> 'd gateway_store \<Rightarrow> grant list" where
  "grants_where which st = sort_key granted_at (map fst (filter (\<lambda>(g, r). which g \<and> r = None) (grant_rows st)))"

definition grants :: "'d gateway_store \<Rightarrow> grant list" where
  "grants st = grants_where (\<lambda>_. True) st"

definition find_grant :: "string \<Rightarrow> 'd gateway_store \<Rightarrow> grant option" where
  "find_grant i st = (case rev (grants_where (\<lambda>g. grant_id g = i) st) of [] \<Rightarrow> None | g # _ \<Rightarrow> Some g)"

definition add_grant ::
  "string \<Rightarrow> int \<Rightarrow> string \<Rightarrow> string \<Rightarrow> policy \<Rightarrow> int option \<Rightarrow> string \<Rightarrow> 'd gateway_store \<Rightarrow> 'd gateway_store \<times> (store_error + grant)"
where
  "add_grant fresh now p to pol til by_whom st =
     (let g = \<lparr>grant_id = ''grant/'' @ fresh, grant_profile = p, grantee = to, grant_policy = pol, until_ms = til,
               granted_by = by_whom, granted_at = now\<rparr>
      in if grant_id g \<in> (grant_id \<circ> fst) ` set (grant_rows st) then (st, Inl GrantIdTaken)
         else (st\<lparr>grant_rows := grant_rows st @ [(g, None)]\<rparr>, Inr g))"

definition revoke_grant :: "string \<Rightarrow> int \<Rightarrow> string \<Rightarrow> 'd gateway_store \<Rightarrow> 'd gateway_store" where
  "revoke_grant i now by_whom st = st\<lparr>grant_rows := revoke (\<lambda>g. grant_id g = i) now by_whom (grant_rows st)\<rparr>"

subsection \<open>Daemons, locks and the log\<close>

definition register_daemon :: "nat \<Rightarrow> string \<Rightarrow> string \<Rightarrow> string \<Rightarrow> 'd gateway_store \<Rightarrow> 'd gateway_store" where
  "register_daemon uid person node key st = st\<lparr>daemon_rows := AList.update uid (person, node, key) (daemon_rows st)\<rparr>"

definition daemon :: "'d gateway_store \<Rightarrow> nat \<Rightarrow> (string \<times> string \<times> string) option" where
  "daemon st uid = map_of (daemon_rows st) uid"

definition put_lock :: "string \<Rightarrow> string \<Rightarrow> string option \<Rightarrow> int \<Rightarrow> 'd gateway_store \<Rightarrow> 'd gateway_store" where
  "put_lock scope by_whom reason now st =
     st\<lparr>lock_rows := AList.update scope \<lparr>locked_by = by_whom, lock_reason = reason, lock_at = now\<rparr> (lock_rows st)\<rparr>"

definition unlock :: "string \<Rightarrow> 'd gateway_store \<Rightarrow> 'd gateway_store \<times> bool" where
  "unlock scope st = (st\<lparr>lock_rows := AList.delete scope (lock_rows st)\<rparr>, map_of (lock_rows st) scope \<noteq> None)"

definition lock_for :: "string \<Rightarrow> string \<Rightarrow> 'd gateway_store \<Rightarrow> (string \<times> lock) option" where
  "lock_for who own st =
     find_map (\<lambda>scope. map_option (Pair scope) (map_of (lock_rows st) scope)) [''*'', who, own]"

definition locks :: "'d gateway_store \<Rightarrow> (string \<times> lock) list" where
  "locks st = sort_key fst (lock_rows st)"

definition append_log ::
  "int \<Rightarrow> string option \<Rightarrow> string option \<Rightarrow> string \<Rightarrow> string option \<Rightarrow> string option \<Rightarrow> 'd \<Rightarrow> 'd gateway_store \<Rightarrow> 'd gateway_store \<times> nat"
where
  "append_log now who own ev actor p d st =
     (let n = Suc (last_seq st);
          e = \<lparr>seq = n, log_at = now, log_caller = who, log_owner = own, log_event = ev, log_actor = actor, log_profile = p, log_detail = d\<rparr>
      in (st\<lparr>log_rows := log_rows st @ [e], last_seq := n\<rparr>, n))"

definition trim_log :: "int \<Rightarrow> int \<Rightarrow> 'd gateway_store \<Rightarrow> 'd gateway_store" where
  "trim_log now keep st = st\<lparr>log_rows := filter (\<lambda>e. \<not> log_at e < now - keep) (log_rows st)\<rparr>"

definition log_for :: "string \<Rightarrow> int \<Rightarrow> int \<Rightarrow> 'd gateway_store \<Rightarrow> 'd log_entry list" where
  "log_for person after limit st =
     take (nat (max 1 (min limit 1000)))
       (sort_key seq (filter (\<lambda>e. after < int (seq e) \<and> (log_caller e = Some person \<or> log_owner e = Some person)) (log_rows st)))"

end
