(* ===== verification/Caller_Identity.thy ===== *)
theory Caller_Identity
  imports Tile_Registry "HOL-Library.Word"
begin

section \<open>Who calls the secret gateway\<close>

text \<open>
  Models \<open>crates/fractal-secrets/src/sekrets/identity.rs\<close> and the caller half of \<open>gateway.rs\<close>: the
  configuration and its validation, where a process runs, the daemon's attestation of a seat, and the
  classification of a caller. The kernel's answers (the cgroup and start time of a process), the
  signature check and the decoding of a statement's JSON are arguments. The reason of an unidentified
  caller is a constructor. The age of a statement is a difference of two \<open>i64\<close> milliseconds, kept at
  that width: a release build wraps in the subtraction and in \<open>abs\<close> (\<open>Cargo.toml\<close> checks overflow in
  the dev and test profiles only).
\<close>

subsection \<open>Configuration\<close>

record program_checkout =
  backing_root :: string
  mount_root :: string

record program_config =
  program_name :: string
  program_person :: string
  program_unit :: string
  program_command :: "string list"
  program_checkout :: "program_checkout option"

record gateway_config =
  store_root :: string
  checkout_roots :: "string list"
  github_api :: string
  people :: "(string \<times> string) list"
  programs :: "(string \<times> program_config) list"

definition is_alnum :: "char \<Rightarrow> bool" where
  "is_alnum c = (is_lower c \<or> is_upper c \<or> is_digit c)"

definition program_principal :: "string \<Rightarrow> bool" where
  "program_principal v =
     (let parts = split_on (CHR ''/'') v
      in length v \<le> 256 \<and> length parts = 3 \<and> hd parts = ''program''
         \<and> list_all (\<lambda>p. p \<noteq> [] \<and> list_all (\<lambda>c. is_alnum c \<or> c \<in> set ''._-'') p) (tl parts))"

definition system_unit :: "string \<Rightarrow> bool" where
  "system_unit v =
     (length ''.service'' < length v \<and> length v \<le> 255 \<and> strip_suffix ''.service'' v \<noteq> None
      \<and> list_all (\<lambda>c. is_alnum c \<or> c \<in> set ''._-@'') v)"

datatype config_error =
    NotAUid string | NotAConfiguredPerson string | ProgramUid string | CheckoutRoot string | CheckoutOverlap string
  | BadProgram string | BadCheckoutRoot string

abbreviation u32_max :: nat where
  "u32_max \<equiv> 2 ^ 32 - 1"

definition check_person :: "string \<times> string \<Rightarrow> config_error + unit" where
  "check_person = (\<lambda>(uid, person).
     also_ok (ensure (parse_unsigned u32_max uid \<noteq> None) (NotAUid uid))
       (ensure (person_name person \<noteq> None) (NotAConfiguredPerson person)))"

definition plain_components :: "string \<Rightarrow> bool" where
  "plain_components p = list_all (\<lambda>c. case c of RootDir \<Rightarrow> True | Normal _ \<Rightarrow> True | _ \<Rightarrow> False) (components p)"

definition check_checkout :: "string \<Rightarrow> string \<Rightarrow> program_checkout option \<Rightarrow> config_error + unit" where
  "check_checkout root uid c =
     (case c of
        None \<Rightarrow> Inr ()
      | Some x \<Rightarrow>
          also_ok (all_ok (\<lambda>p. ensure (plain_root p \<and> plain_components p) (CheckoutRoot p)) [backing_root x, mount_root x])
            (ensure (\<not> path_eq (backing_root x) (mount_root x)
               \<and> \<not> path_starts_with (backing_root x) root \<and> \<not> path_starts_with root (backing_root x)
               \<and> \<not> path_starts_with (mount_root x) root \<and> \<not> path_starts_with root (mount_root x)) (CheckoutOverlap uid)))"

definition plain_command :: "string list \<Rightarrow> bool" where
  "plain_command ws =
     (ws \<noteq> [] \<and> length ws \<le> 16 \<and> list_all (\<lambda>w. w \<noteq> [] \<and> length w \<le> 1024 \<and> CHR 0x00 \<notin> set w) ws
      \<and> list_all (\<lambda>c. is_alnum c \<or> c \<in> set ''_-'') (hd ws))"

text \<open>One program; the accumulator holds the principals of the programs before it.\<close>

definition check_program :: "gateway_config \<Rightarrow> string \<times> program_config \<Rightarrow> string list \<Rightarrow> config_error + string list" where
  "check_program cfg = (\<lambda>(uid, p) seen.
     (case parse_unsigned u32_max uid of
        None \<Rightarrow> Inl (NotAUid uid)
      | Some n \<Rightarrow>
          also_ok (ensure (n \<noteq> 0 \<and> uid = decimal n \<and> \<not> list_ex (\<lambda>(k, _). parse_unsigned u32_max k = Some n) (people cfg)) (ProgramUid uid))
         (also_ok (check_checkout (store_root cfg) uid (program_checkout p))
         (also_ok (ensure (program_principal (program_name p) \<and> program_name p \<notin> set seen
              \<and> list_ex (\<lambda>(_, person). person = program_person p) (people cfg) \<and> system_unit (program_unit p)
              \<and> plain_command (program_command p)) (BadProgram uid))
          (Inr (program_name p # seen))))))"

definition validate_config :: "gateway_config \<Rightarrow> config_error + unit" where
  "validate_config cfg =
     also_ok (all_ok check_person (people cfg))
    (and_then (try_fold (check_program cfg) (programs cfg) []) (\<lambda>_.
     all_ok (\<lambda>r. ensure (plain_root r) (BadCheckoutRoot r)) (checkout_roots cfg)))"

definition person_for :: "gateway_config \<Rightarrow> nat \<Rightarrow> string option" where
  "person_for cfg uid = map_of (people cfg) (decimal uid)"

definition program_for :: "gateway_config \<Rightarrow> nat \<Rightarrow> program_config option" where
  "program_for cfg uid = map_of (programs cfg) (decimal uid)"

subsection \<open>Statements and placement\<close>

record attested =
  statement_version :: nat
  statement_node :: string
  statement_person :: string
  statement_agent :: string
  statement_revision :: "string option"
  statement_cgroup :: string
  statement_pid :: int
  statement_pid_start :: nat
  statement_nonce :: string
  issued_at :: "64 word"

record seat_attestation =
  statement :: string
  signature :: string

definition STATEMENT_VERSION :: nat where
  "STATEMENT_VERSION = 1"

definition ATTESTATION_WINDOW_MS :: int where
  "ATTESTATION_WINDOW_MS = 60000"

definition signing_message :: "string \<Rightarrow> string" where
  "signing_message t = ''st.sekrets.attestation.v1'' @ [CHR 0x0A] @ t"

datatype process_place = Session | UserManager | Elsewhere

definition placement_of :: "nat \<Rightarrow> string \<Rightarrow> process_place" where
  "placement_of uid cgroup =
     (case strip_prefix (''/user.slice/user-'' @ decimal uid @ ''.slice/'') cgroup of
        None \<Rightarrow> Elsewhere
      | Some rest \<Rightarrow>
          if (case Option.bind (strip_prefix ''session-'' rest) (strip_suffix ''.scope'') of
                Some name \<Rightarrow> name \<noteq> [] \<and> CHR ''/'' \<notin> set name | None \<Rightarrow> False) then Session
          else if starts_with rest (''user@'' @ decimal uid @ ''.service/'') then UserManager
          else Elsewhere)"

datatype statement_error =
    WrongVersion nat | OtherRequest | OtherProcess | OtherCgroup string | Stale | NotAgentOrNode string
  | NoDaemonKey | BadSignature | Unreadable | OtherNode string | SpeaksOnlyFor string | WorksFor string

definition wrapping_abs :: "64 word \<Rightarrow> 64 word" where
  "wrapping_abs w = (if sint w < 0 then - w else w)"

definition check_statement ::
  "attested \<Rightarrow> int \<Rightarrow> nat option \<Rightarrow> string \<Rightarrow> string \<Rightarrow> int \<Rightarrow> statement_error + unit"
where
  "check_statement s pid start cgroup nonce now =
     also_ok (ensure (statement_version s = STATEMENT_VERSION) (WrongVersion (statement_version s)))
    (also_ok (ensure (statement_nonce s = nonce) OtherRequest)
    (also_ok (ensure (statement_pid s = pid \<and> Some (statement_pid_start s) = start) OtherProcess)
    (also_ok (ensure (statement_cgroup s = cgroup) (OtherCgroup (statement_cgroup s)))
    (also_ok (ensure (sint (wrapping_abs (word_of_int now - issued_at s)) \<le> ATTESTATION_WINDOW_MS) Stale)
    (ensure (starts_with (statement_agent s) ''agent/'' \<or> starts_with (statement_agent s) ''host/'')
       (NotAgentOrNode (statement_agent s)))))))"

subsection \<open>Grant patterns\<close>

fun within :: "string \<Rightarrow> string \<Rightarrow> bool" where
  "within [] t = (t = [])"
| "within (p # ps) t =
     (if p = CHR ''*'' then list_ex (\<lambda>skip. within ps (drop skip t)) [0 ..< Suc (length t)]
      else case t of c # cs \<Rightarrow> c = p \<and> within ps cs | [] \<Rightarrow> False)"

fun segments :: "string list \<Rightarrow> string list \<Rightarrow> bool" where
  "segments [] [] = True"
| "segments [] (x # xs) = False"
| "segments (w # ws) xs =
     (if w = ''**'' then segments ws xs \<or> (case xs of [] \<Rightarrow> False | _ # ys \<Rightarrow> segments (w # ws) ys)
      else case xs of [] \<Rightarrow> False | x # ys \<Rightarrow> within w x \<and> segments ws ys)"

definition principal_matches :: "string \<Rightarrow> string \<Rightarrow> bool" where
  "principal_matches pattern p = segments (split_on (CHR ''/'') pattern) (split_on (CHR ''/'') p)"

subsection \<open>Classification\<close>

text \<open>What the kernel says of a process, and the code outside the gateway that an attestation needs.\<close>

record kernel =
  cgroup_of :: "int \<Rightarrow> string option"
  start_of :: "int \<Rightarrow> nat option"

record trust =
  verify :: "string \<Rightarrow> string \<Rightarrow> string \<Rightarrow> bool"
  decode_statement :: "string \<Rightarrow> attested option"

type_synonym daemons = "nat \<rightharpoonup> string \<times> string \<times> string"

datatype unidentified_reason =
    NoCgroup | NotInUnit string | RunsElsewhere string | NoAttestation | AttestationRefused statement_error
  | OutsideTile string string | LifetimeChanged

datatype caller_view =
    PersonView string
  | AgentView string string
  | HostView string string
  | ProgramView string string
  | UnidentifiedView string unidentified_reason

fun principal_of :: "caller_view \<Rightarrow> string option" where
  "principal_of (PersonView p) = Some p"
| "principal_of (AgentView a _) = Some a"
| "principal_of (HostView n _) = Some n"
| "principal_of (ProgramView g _) = Some g"
| "principal_of (UnidentifiedView _ _) = None"

definition check_attestation ::
  "trust \<Rightarrow> kernel \<Rightarrow> daemons \<Rightarrow> int \<Rightarrow> nat \<Rightarrow> int \<Rightarrow> string \<Rightarrow> string \<Rightarrow> seat_attestation \<Rightarrow> string \<Rightarrow> statement_error + string"
where
  "check_attestation tr k ds now uid pid person cgroup att nonce =
     (case ds uid of
        None \<Rightarrow> Inl NoDaemonKey
      | Some (_, node, key) \<Rightarrow>
          if \<not> verify tr key (signing_message (statement att)) (signature att) then Inl BadSignature
          else case decode_statement tr (statement att) of
            None \<Rightarrow> Inl Unreadable
          | Some s \<Rightarrow>
              also_ok (ensure (statement_node s = node) (OtherNode (statement_node s)))
             (also_ok (ensure (\<not> (starts_with (statement_agent s) ''host/'' \<and> statement_agent s \<noteq> node)) (SpeaksOnlyFor node))
             (also_ok (ensure (statement_person s = person) (WorksFor (statement_person s)))
             (also_ok (check_statement s pid (start_of k pid) cgroup nonce now)
               (Inr (statement_agent s))))))"

definition in_unit :: "string \<Rightarrow> string \<Rightarrow> bool" where
  "in_unit u cgroup =
     (let unit_path = ''/system.slice/'' @ u
      in cgroup = unit_path \<or> (case strip_prefix unit_path cgroup of Some rest \<Rightarrow> starts_with rest ''/'' | None \<Rightarrow> False))"

definition classify ::
  "gateway_config \<Rightarrow> trust \<Rightarrow> kernel \<Rightarrow> daemons \<Rightarrow> int \<Rightarrow> nat \<Rightarrow> int \<Rightarrow> string \<Rightarrow> seat_attestation option \<Rightarrow> string \<Rightarrow> caller_view"
where
  "classify cfg tr k ds now uid pid person att nonce =
     (case cgroup_of k pid of
        None \<Rightarrow> UnidentifiedView person NoCgroup
      | Some cgroup \<Rightarrow>
          (case program_for cfg uid of
             Some p \<Rightarrow>
               if in_unit (program_unit p) cgroup then ProgramView (program_name p) (program_person p)
               else UnidentifiedView person (NotInUnit (program_unit p))
           | None \<Rightarrow>
               (case placement_of uid cgroup of
                  Session \<Rightarrow> PersonView person
                | Elsewhere \<Rightarrow> UnidentifiedView person (RunsElsewhere cgroup)
                | UserManager \<Rightarrow>
                    (case att of
                       None \<Rightarrow> UnidentifiedView person NoAttestation
                     | Some a \<Rightarrow>
                         (case check_attestation tr k ds now uid pid person cgroup a nonce of
                            Inl e \<Rightarrow> UnidentifiedView person (AttestationRefused e)
                          | Inr who \<Rightarrow> if starts_with who ''host/'' then HostView who person else AgentView who person)))))"

definition classify_tile :: "kernel \<Rightarrow> registry \<Rightarrow> nat \<Rightarrow> int \<Rightarrow> string \<Rightarrow> tile \<Rightarrow> caller_view" where
  "classify_tile k reg uid pid name t =
     (case cgroup_of k pid of
        None \<Rightarrow> UnidentifiedView (tile_person t) NoCgroup
      | Some cgroup \<Rightarrow>
          (case identify reg uid cgroup of
             Some (found, _) \<Rightarrow>
               if found = name then AgentView (tile_agent t) (tile_person t)
               else UnidentifiedView (tile_person t) (OutsideTile name cgroup)
           | None \<Rightarrow> UnidentifiedView (tile_person t) (OutsideTile name cgroup)))"

subsection \<open>The start of a connection, and its requests\<close>

record caller =
  caller_uid :: nat
  caller_pid :: int
  pid_start :: "nat option"
  caller_person :: string
  caller_view :: caller_view
  caller_tile :: "string option"

datatype connect_error = OwnGateway | RegistryUnreadable | PersonAndTile string | NotServed

text \<open>The registry as it reads for this connection: unreadable, absent, or root's.\<close>

type_synonym registry_read = "unit + registry option"

definition peer_person :: "gateway_config \<Rightarrow> nat \<Rightarrow> string option" where
  "peer_person cfg uid = (case program_for cfg uid of Some p \<Rightarrow> Some (program_person p) | None \<Rightarrow> person_for cfg uid)"

definition peer_registry :: "string option \<Rightarrow> registry_read \<Rightarrow> connect_error + registry option" where
  "peer_registry person rd =
     (case rd of Inr r \<Rightarrow> Inr r | Inl _ \<Rightarrow> if person \<noteq> None then Inr None else Inl RegistryUnreadable)"

definition connect ::
  "gateway_config \<Rightarrow> trust \<Rightarrow> kernel \<Rightarrow> daemons \<Rightarrow> int \<Rightarrow> nat option \<Rightarrow> registry_read \<Rightarrow> nat \<Rightarrow> int \<Rightarrow> string \<Rightarrow> connect_error + caller"
where
  "connect cfg tr k ds now own rd uid pid nonce =
     (if Some uid = own then Inl OwnGateway
      else and_then (peer_registry (peer_person cfg uid) rd) (\<lambda>reg.
        (case (peer_person cfg uid, Option.bind reg (\<lambda>r. tile_for_uid r uid)) of
           (Some _, Some (n, _)) \<Rightarrow> Inl (PersonAndTile n)
         | (Some p, None) \<Rightarrow>
             Inr \<lparr>caller_uid = uid, caller_pid = pid, pid_start = start_of k pid, caller_person = p,
                   caller_view = classify cfg tr k ds now uid pid p None nonce, caller_tile = None\<rparr>
         | (None, Some (n, t)) \<Rightarrow>
             Inr \<lparr>caller_uid = uid, caller_pid = pid, pid_start = start_of k pid, caller_person = tile_person t,
                   caller_view = classify_tile k (the reg) uid pid n t, caller_tile = Some n\<rparr>
         | (None, None) \<Rightarrow> Inl NotServed)))"

text \<open>Before each request a program is classified again, for as long as its process lives.\<close>

definition recheck :: "gateway_config \<Rightarrow> trust \<Rightarrow> kernel \<Rightarrow> daemons \<Rightarrow> int \<Rightarrow> string \<Rightarrow> caller \<Rightarrow> caller" where
  "recheck cfg tr k ds now nonce c =
     (if program_for cfg (caller_uid c) = None then c
      else c\<lparr>caller_view :=
        (if pid_start c \<noteq> None \<and> start_of k (caller_pid c) = pid_start c
         then classify cfg tr k ds now (caller_uid c) (caller_pid c) (caller_person c) None nonce
         else UnidentifiedView (caller_person c) LifetimeChanged)\<rparr>)"

text \<open>\<open>Hello\<close> classifies the caller with the attestation it brings; a program or a tile stays what it is.\<close>

definition hello :: "gateway_config \<Rightarrow> trust \<Rightarrow> kernel \<Rightarrow> daemons \<Rightarrow> int \<Rightarrow> string \<Rightarrow> seat_attestation option \<Rightarrow> caller \<Rightarrow> caller" where
  "hello cfg tr k ds now nonce att c =
     (if program_for cfg (caller_uid c) \<noteq> None \<or> caller_tile c \<noteq> None then c
      else c\<lparr>caller_view := classify cfg tr k ds now (caller_uid c) (caller_pid c) (caller_person c) att nonce\<rparr>)"

subsection \<open>Lemmas: places and patterns\<close>

definition in_login_session :: "nat \<Rightarrow> string \<Rightarrow> bool" where
  "in_login_session uid cgroup \<longleftrightarrow>
     (\<exists>n. n \<noteq> [] \<and> CHR ''/'' \<notin> set n \<and> cgroup = ''/user.slice/user-'' @ decimal uid @ ''.slice/session-'' @ n @ ''.scope'')"

lemma strip_suffix_Some_iff: "strip_suffix suf s = Some r \<longleftrightarrow> s = r @ suf"
  by (auto simp: strip_suffix_def strip_prefix_Some_iff) (metis rev_append rev_rev_ident)

lemma placement_Session: "placement_of uid cg = Session \<longleftrightarrow> in_login_session uid cg"
proof -
  have "in_login_session uid cg \<longleftrightarrow>
      (\<exists>rest scope n. strip_prefix (''/user.slice/user-'' @ decimal uid @ ''.slice/'') cg = Some rest
        \<and> strip_prefix ''session-'' rest = Some scope \<and> strip_suffix ''.scope'' scope = Some n \<and> n \<noteq> [] \<and> CHR ''/'' \<notin> set n)"
    by (auto simp only: in_login_session_def strip_prefix_Some_iff strip_suffix_Some_iff append_assoc append_Cons append_Nil)
  also have "\<dots> \<longleftrightarrow> placement_of uid cg = Session"
    by (auto simp: placement_of_def Option.bind_eq_Some_conv split: option.splits if_splits)
  finally show ?thesis ..
qed

lemma decimal_then_dot: "decimal u @ CHR ''.'' # a = decimal v @ CHR ''.'' # b \<Longrightarrow> u = v"
proof -
  assume eq: "decimal u @ CHR ''.'' # a = decimal v @ CHR ''.'' # b"
  have dot: "CHR ''.'' \<notin> set (decimal n)" for n
    using decimal_digits [of n] by (auto simp: list_all_iff is_digit_def less_eq_char_def)
  have "split_once (CHR ''.'') (decimal v @ CHR ''.'' # b) = Some (decimal u, a)"
    unfolding eq [symmetric] by (rule split_once_append [OF dot])
  then have "decimal u = decimal v" unfolding split_once_append [OF dot] by simp
  then show ?thesis by (metis decimal_value_decimal)
qed

lemma session_one_user: "in_login_session u cg \<Longrightarrow> in_login_session v cg \<Longrightarrow> u = v"
  by (auto simp: in_login_session_def intro: decimal_then_dot)

lemma split_on_nonempty [simp]: "split_on c s \<noteq> []"
  by (induction s) (auto split: list.split)

lemma split_on_Cons: "c \<notin> set w \<Longrightarrow> split_on c (w @ c # t) = w # split_on c t"
  by (induction w) auto

lemma within_plain: "CHR ''*'' \<notin> set w \<Longrightarrow> within w t \<longleftrightarrow> t = w"
  by (induction w arbitrary: t) (auto split: list.split)

lemma segments_plain: "\<forall>w\<in>set ws. CHR ''*'' \<notin> set w \<Longrightarrow> segments ws xs \<longleftrightarrow> xs = ws"
proof (induction ws arbitrary: xs)
  case (Cons w ws)
  then show ?case by (cases xs) (auto simp: within_plain)
qed (auto elim: segments.elims)

text \<open>The kind of a principal: its first segment. A pattern with a plain kind matches only that kind.\<close>

definition kind_of :: "string \<Rightarrow> string" where
  "kind_of p = hd (split_on (CHR ''/'') p)"

lemma kind_of_append: "CHR ''/'' \<notin> set k \<Longrightarrow> kind_of (k @ CHR ''/'' # t) = k"
  by (simp add: kind_of_def split_on_Cons)

lemma kinds:
  "starts_with p ''agent/'' \<Longrightarrow> kind_of p = ''agent''" "starts_with p ''host/'' \<Longrightarrow> kind_of p = ''host''"
  "starts_with p ''person/'' \<Longrightarrow> kind_of p = ''person''" "program_principal p \<Longrightarrow> kind_of p = ''program''"
  by (auto simp: starts_with_iff kind_of_def program_principal_def Let_def)

lemma matches_kind:
  assumes "principal_matches pat p" and "CHR ''*'' \<notin> set (kind_of pat)"
  shows "kind_of p = kind_of pat"
proof -
  obtain ws where ws: "split_on (CHR ''/'') pat = kind_of pat # ws"
    by (cases "split_on (CHR ''/'') pat") (simp_all add: kind_of_def)
  have "kind_of pat \<noteq> ''**''" using assms(2) by auto
  then show ?thesis
    using assms(1) within_plain [OF assms(2)] by (auto simp: principal_matches_def ws kind_of_def [of p] split: list.splits)
qed

subsection \<open>Lemmas: the age of a statement\<close>

lemma sint_i64: "- (2 ^ 63) \<le> x \<Longrightarrow> x < 2 ^ 63 \<Longrightarrow> sint (word_of_int x :: 64 word) = x"
  by (simp add: signed_take_bit_int_eq_self_iff sint_sbintrunc')

lemma wrapping_abs_small:
  assumes "- (2 ^ 63) < x" "x < 2 ^ 63"
  shows "sint (wrapping_abs (word_of_int x)) = \<bar>x\<bar>"
  using assms sint_i64 [of x] sint_i64 [of "- x"] by (simp add: wrapping_abs_def)

lemma word_of_int_shift: "(word_of_int (x - 2 ^ 64) :: 64 word) = word_of_int x"
proof -
  have "(2 ^ 64 :: 64 word) = 0" by simp
  then show ?thesis by (simp only: of_int_diff of_int_power of_int_numeral diff_zero)
qed

lemma wrapping_abs_min: "sint (wrapping_abs (word_of_int (2 ^ 63))) = - (2 ^ 63)"
  using sint_i64 [of "- (2 ^ 63)"] word_of_int_shift [of "2 ^ 63"] by (simp add: wrapping_abs_def)

lemma age_i64:
  assumes "0 \<le> now" "now < 2 ^ 62"
  shows "sint (wrapping_abs (word_of_int now - i)) \<le> 60000 \<longleftrightarrow> \<bar>now - sint i\<bar> \<le> 60000 \<or> sint i = now - 2 ^ 63"
proof -
  have i: "- (2 ^ 63) \<le> sint i" "sint i < 2 ^ 63" using sint_ge [of i] sint_lt [of i] by simp_all
  have w: "word_of_int now - i = word_of_int (now - sint i)" by simp
  consider "now - sint i < 2 ^ 63" | "now - sint i = 2 ^ 63" | "2 ^ 63 < now - sint i" by linarith
  then show ?thesis
  proof cases
    case 1
    then show ?thesis unfolding w using wrapping_abs_small [of "now - sint i"] assms i by auto
  next
    case 2
    then show ?thesis unfolding w 2 wrapping_abs_min using 2 by simp
  next
    case 3
    have "sint (wrapping_abs (word_of_int (now - sint i))) = \<bar>now - sint i - 2 ^ 64\<bar>"
      using wrapping_abs_small [of "now - sint i - 2 ^ 64"] 3 assms i unfolding word_of_int_shift by simp
    then show ?thesis unfolding w using 3 assms i by simp
  qed
qed
text \<open>
  What the freshness check is worth, while the clock reads a time of the first \<open>2 ^ 62\<close> milliseconds:
  the statement was issued within a minute of now, or its time is the one value whose distance has no
  \<open>i64\<close>, exactly \<open>2 ^ 63\<close> milliseconds before.
\<close>

definition issued_near :: "int \<Rightarrow> 64 word \<Rightarrow> bool" where
  "issued_near now i \<longleftrightarrow> (0 \<le> now \<and> now < 2 ^ 62 \<longrightarrow> \<bar>now - sint i\<bar> \<le> 60000 \<or> sint i = now - 2 ^ 63)"

lemma ancient_statement_fresh:
  assumes "0 \<le> now" "now < 2 ^ 62" "sint (issued_at s) = now - 2 ^ 63" "statement_version s = 1"
    and "starts_with (statement_agent s) ''agent/''"
  shows "check_statement s (statement_pid s) (Some (statement_pid_start s)) (statement_cgroup s) (statement_nonce s) now = Inr ()"
  using assms age_i64 [of now "issued_at s"]
  by (simp add: check_statement_def and_then_Inr STATEMENT_VERSION_def ATTESTATION_WINDOW_MS_def)

subsection \<open>Lemmas: what a view rests on\<close>

text \<open>An attestation that names \<open>who\<close>: signed with the key registered for the user, of this node, person,
  process, cgroup and nonce, and issued near now.\<close>

definition attests ::
  "trust \<Rightarrow> kernel \<Rightarrow> daemons \<Rightarrow> int \<Rightarrow> nat \<Rightarrow> int \<Rightarrow> string \<Rightarrow> string \<Rightarrow> seat_attestation \<Rightarrow> string \<Rightarrow> bool"
where
  "attests tr k ds now uid pid person nonce att who \<longleftrightarrow>
     (\<exists>p key s. ds uid = Some (p, statement_node s, key)
        \<and> verify tr key (signing_message (statement att)) (signature att) \<and> decode_statement tr (statement att) = Some s
        \<and> statement_agent s = who \<and> statement_person s = person \<and> statement_nonce s = nonce
        \<and> statement_pid s = pid \<and> start_of k pid = Some (statement_pid_start s)
        \<and> cgroup_of k pid = Some (statement_cgroup s) \<and> placement_of uid (statement_cgroup s) = UserManager
        \<and> issued_near now (issued_at s)
        \<and> (if starts_with who ''host/'' then who = statement_node s else starts_with who ''agent/''))"

lemma check_attestation_attests:
  assumes "check_attestation tr k ds now uid pid person cg att nonce = Inr who"
    and "cgroup_of k pid = Some cg" "placement_of uid cg = UserManager"
  shows "attests tr k ds now uid pid person nonce att who"
proof -
  obtain p node key s where d: "ds uid = Some (p, node, key)" "decode_statement tr (statement att) = Some s"
    using assms(1) by (auto simp: check_attestation_def split: option.splits if_splits)
  with assms(1) have "verify tr key (signing_message (statement att)) (signature att)" "statement_node s = node" "statement_agent s = who"
    "starts_with who ''host/'' \<longrightarrow> who = node" "statement_person s = person" "check_statement s pid (start_of k pid) cg nonce now = Inr ()"
    by (auto simp: check_attestation_def and_then_Inr split: if_splits)
  then show ?thesis
    using d assms(2,3) unfolding attests_def
    by (intro exI [of _ p] exI [of _ key] exI [of _ s])
      (auto simp: check_statement_def and_then_Inr ATTESTATION_WINDOW_MS_def issued_near_def age_i64)
qed

definition justified ::
  "gateway_config \<Rightarrow> trust \<Rightarrow> kernel \<Rightarrow> daemons \<Rightarrow> int \<Rightarrow> nat \<Rightarrow> int \<Rightarrow> string \<Rightarrow> registry_read \<Rightarrow> seat_attestation option \<Rightarrow> caller_view \<Rightarrow> bool"
where
  "justified cfg tr k ds now uid pid nonce rd att v \<longleftrightarrow>
     (case v of
        PersonView p \<Rightarrow>
          program_for cfg uid = None \<and> person_for cfg uid = Some p \<and> (\<exists>cg. cgroup_of k pid = Some cg \<and> in_login_session uid cg)
      | AgentView a p \<Rightarrow>
          (\<exists>r cg n t. rd = Inr (Some r) \<and> cgroup_of k pid = Some cg \<and> identify r uid cg = Some (n, t)
             \<and> a = tile_agent t \<and> p = tile_person t)
          \<or> person_for cfg uid = Some p \<and> starts_with a ''agent/'' \<and> (\<exists>x. att = Some x \<and> attests tr k ds now uid pid p nonce x a)
      | HostView n p \<Rightarrow>
          person_for cfg uid = Some p \<and> starts_with n ''host/'' \<and> (\<exists>x. att = Some x \<and> attests tr k ds now uid pid p nonce x n)
      | ProgramView g p \<Rightarrow>
          (\<exists>c cg. program_for cfg uid = Some c \<and> g = program_name c \<and> p = program_person c
             \<and> cgroup_of k pid = Some cg \<and> in_unit (program_unit c) cg)
      | UnidentifiedView _ _ \<Rightarrow> True)"

lemma classify_justified:
  assumes "peer_person cfg uid = Some p"
  shows "justified cfg tr k ds now uid pid nonce rd att (classify cfg tr k ds now uid pid p att nonce)"
proof (cases "cgroup_of k pid")
  case (Some cg)
  note cg = this
  show ?thesis
  proof (cases "program_for cfg uid")
    case None
    then have p: "person_for cfg uid = Some p" using assms by (simp add: peer_person_def)
    have att: "attests tr k ds now uid pid p nonce x who"
      if "check_attestation tr k ds now uid pid p cg x nonce = Inr who" "placement_of uid cg = UserManager" for x who
      using check_attestation_attests [OF that(1) cg that(2)] .
    have agent: "starts_with who ''agent/''"
      if "check_attestation tr k ds now uid pid p cg x nonce = Inr who" "placement_of uid cg = UserManager" "\<not> starts_with who ''host/''" for x who
      using att [OF that(1,2)] that(3) by (auto simp: attests_def)
    show ?thesis
      using cg None p att agent
      by (auto simp: classify_def justified_def placement_Session split: process_place.split option.split sum.split)
  next
    case (Some c)
    then show ?thesis using cg by (simp add: classify_def justified_def)
  qed
qed (simp add: classify_def justified_def)

lemma classify_tile_justified:
  assumes "tile_for_uid r uid = Some (n, t)"
  shows "justified cfg tr k ds now uid pid nonce (Inr (Some r)) att (classify_tile k r uid pid n t)"
proof (cases "cgroup_of k pid")
  case (Some cg)
  show ?thesis
  proof (cases "identify r uid cg")
    case None
    then show ?thesis using Some by (simp add: classify_tile_def justified_def)
  next
    case i: (Some x)
    then have "x = (n, t)" using assms by (auto simp: identify_def split: if_splits)
    then show ?thesis using Some i by (auto simp: classify_tile_def justified_def)
  qed
qed (simp add: classify_tile_def justified_def)

lemma connect_cases:
  assumes "connect cfg tr k ds now own rd uid pid nonce = Inr c"
  obtains (known) p where "peer_person cfg uid = Some p" "caller_tile c = None" "caller_person c = p"
      "caller_view c = classify cfg tr k ds now uid pid p None nonce"
    | (tile) r n t where "peer_person cfg uid = None" "rd = Inr (Some r)" "tile_for_uid r uid = Some (n, t)" "caller_tile c = Some n"
      "caller_person c = tile_person t" "caller_view c = classify_tile k r uid pid n t"
  using assms
  by (auto simp: connect_def and_then_Inr peer_registry_def Option.bind_eq_Some_conv split: if_splits option.splits sum.splits prod.splits)

lemma connect_fields:
  assumes "connect cfg tr k ds now own rd uid pid nonce = Inr c"
  shows "caller_uid c = uid" "caller_pid c = pid" "pid_start c = start_of k pid"
  using assms by (auto simp: connect_def and_then_Inr split: if_splits option.splits sum.splits prod.splits)

text \<open>The kind a view has, in a validated configuration and with checked registries.\<close>

definition wf_view :: "gateway_config \<Rightarrow> nat \<Rightarrow> caller_view \<Rightarrow> bool" where
  "wf_view cfg uid v \<longleftrightarrow>
     (case v of
        PersonView p \<Rightarrow> person_for cfg uid = Some p \<and> person_name p \<noteq> None
      | AgentView a _ \<Rightarrow> kind_of a = ''agent''
      | HostView n _ \<Rightarrow> kind_of n = ''host''
      | ProgramView g _ \<Rightarrow> kind_of g = ''program'' \<and> program_for cfg uid \<noteq> None
      | UnidentifiedView _ _ \<Rightarrow> True)"

definition registry_ok :: "registry_read \<Rightarrow> bool" where
  "registry_ok rd \<longleftrightarrow> (\<forall>r. rd = Inr (Some r) \<longrightarrow> check_registry r = Inr ())"

lemma validated_person: "validate_config cfg = Inr () \<Longrightarrow> person_for cfg uid = Some p \<Longrightarrow> person_name p \<noteq> None"
  by (auto simp: validate_config_def and_then_Inr all_ok_iff person_for_def check_person_def dest!: map_of_SomeD)

lemma checked_programs:
  "try_fold (check_program cfg) ps seen = Inr seen' \<Longrightarrow> (uid, p) \<in> set ps \<Longrightarrow>
     program_principal (program_name p) \<and> (\<exists>k. (k, program_person p) \<in> set (people cfg)) \<and> plain_command (program_command p)"
proof (induction ps arbitrary: seen)
  case (Cons x ps)
  then show ?case
    by (cases x) (auto simp: check_program_def and_then_Inr list_ex_iff split: option.splits)
qed simp

lemma validated_program:
  assumes "validate_config cfg = Inr ()" "program_for cfg uid = Some p"
  shows "program_principal (program_name p)" "\<exists>k. (k, program_person p) \<in> set (people cfg)" "plain_command (program_command p)"
  using assms checked_programs [of cfg "programs cfg" "[]" _ "decimal uid" p]
  by (auto simp: validate_config_def and_then_Inr program_for_def dest!: map_of_SomeD)

lemma justified_wf:
  assumes "validate_config cfg = Inr ()" "registry_ok rd" "justified cfg tr k ds now uid pid nonce rd att v"
  shows "wf_view cfg uid v"
proof (cases v)
  case (AgentView a p)
  then consider (tile) r cg n t where "rd = Inr (Some r)" "identify r uid cg = Some (n, t)" "a = tile_agent t" | "starts_with a ''agent/''"
    using assms(3) by (auto simp: justified_def)
  then show ?thesis
  proof cases
    case tile
    then have "check_tile (uids r) (n, t) = Inr ()"
      using assms(2) checked_tile tile_for_uid_sound by (auto simp: registry_ok_def identify_sound)
    then show ?thesis using tile AgentView kinds(1) check_tile_names(2) by (auto simp: wf_view_def)
  qed (simp add: wf_view_def AgentView kinds(1))
qed (use assms validated_person validated_program kinds in \<open>auto simp: wf_view_def justified_def\<close>)

text \<open>
  C7. The gateway takes nobody's word but the kernel's, root's and a registered daemon's. A new
  connection is a person only from that user's own login session, an agent only as a tile in its
  slice, and a program only in its enrolled unit; a later greeting changes that only to a caller
  justified then, for which the registered key of the user's daemon signed a statement about this
  process, cgroup and nonce. That statement was issued within a minute of now, or, through the
  wrap-around of the age, exactly \<open>2 ^ 63\<close> milliseconds before.
\<close>

theorem caller_vouched:
  assumes "connect cfg tr k ds now own rd uid pid nonce = Inr c"
  shows "justified cfg tr k ds now uid pid nonce rd None (caller_view c)
    \<and> (caller_view (hello cfg tr k' ds' now' nonce att c) = caller_view c
       \<or> justified cfg tr k' ds' now' uid pid nonce rd att (caller_view (hello cfg tr k' ds' now' nonce att c)))"
  using assms
proof (cases rule: connect_cases)
  case (known p)
  then show ?thesis using classify_justified [OF known(1)] connect_fields [OF assms] by (simp add: hello_def)
next
  case (tile r n t)
  then show ?thesis using classify_tile_justified [OF tile(3)] by (simp add: hello_def)
qed

definition example_config :: gateway_config where
  "example_config = \<lparr>store_root = ''/var/lib/st-sekrets'', checkout_roots = [''/home''], github_api = ''https://api.github.com'',
     people = [(''7'', ''person/ada'')], programs = []\<rparr>"

definition in_cgroup :: "string \<Rightarrow> kernel" where
  "in_cgroup cg = \<lparr>cgroup_of = \<lambda>_. Some cg, start_of = \<lambda>_. Some 5\<rparr>"

definition no_trust :: trust where
  "no_trust = \<lparr>verify = \<lambda>_ _ _. False, decode_statement = \<lambda>_. None\<rparr>"

theorem caller_vouched_witness:
  "in_login_session 7 ''/user.slice/user-7.slice/session-4.scope''"
proof -
  let ?k = "in_cgroup ''/user.slice/user-7.slice/session-4.scope''"
  have seven: "decimal 7 = ''7''" by code_simp
  have "connect example_config no_trust ?k Map.empty 0 (Some 9) (Inr None) 7 100 ''n'' =
    Inr \<lparr>caller_uid = 7, caller_pid = 100, pid_start = Some 5, caller_person = ''person/ada'',
      caller_view = PersonView ''person/ada'', caller_tile = None\<rparr>"
    by (simp add: connect_def peer_person_def peer_registry_def program_for_def person_for_def example_config_def seven in_cgroup_def
        classify_def placement_of_def strip_prefix_def strip_suffix_def)
  from caller_vouched [OF this, of undefined undefined undefined undefined] show ?thesis
    by (auto simp: justified_def in_cgroup_def)
qed

end
