(* ===== verification/Gateway.thy ===== *)
theory Gateway
  imports Gateway_Store Caller_Identity
begin

section \<open>The secret gateway\<close>

text \<open>
  Models \<open>crates/fractal-secrets/src/sekrets/gateway.rs\<close> with the request side of \<open>protocol.rs\<close>, the
  checks of \<open>authorized.rs\<close> and the descriptors of \<open>files.rs\<close>: which profile a call may use, running a
  command, an authorized request, and every management request, over the state of the store and the
  token cache. What comes from outside is an input of each request: the clock, the kernel, a fresh id,
  the file system, the sandbox and its command, the \<open>gh\<close> login and the HTTP exchange. A command that
  runs and a request that is sent are effects beside the reply. One request is handled at a time, with
  one reading of the clock.
\<close>

subsection \<open>Passed files\<close>

lemma split_once_text_append: "split_once_text m s = Some (a, b) \<Longrightarrow> s = a @ m @ b"
proof (induction s arbitrary: a)
  case (Cons c s)
  then show ?case
    by (auto simp: starts_with_iff split: if_splits prod.splits)
qed (auto split: if_splits)

datatype file_error = FileNotPassed string | FileUnused

function substitute_arg :: "nat list \<Rightarrow> string \<Rightarrow> bool list \<Rightarrow> string \<times> (file_error + bool list)" where
  "substitute_arg fds arg used =
     (case split_once_text ''/dev/fd/@'' arg of
        None \<Rightarrow> (arg, Inr used)
      | Some (before, after) \<Rightarrow>
          (case parse_unsigned (2 ^ 64 - 1) (takeWhile is_digit after) of
             Some i \<Rightarrow>
               if i < length fds then
                 substitute_arg fds (before @ ''/dev/fd/'' @ decimal (fds ! i) @ dropWhile is_digit after) (used[i := True])
               else (arg, Inl (FileNotPassed arg))
           | None \<Rightarrow> (arg, Inl (FileNotPassed arg))))"
  by pat_completeness auto

definition ats :: "string \<Rightarrow> nat" where
  "ats s = length (filter (\<lambda>c. c = CHR ''@'') s)"

lemma ats_append [simp]: "ats (s @ t) = ats s + ats t"
  by (simp add: ats_def)

lemma ats_digits: "ats (decimal n) = 0"
  using decimal_digits [of n] by (auto simp: ats_def list_all_iff filter_empty_conv is_digit_def less_eq_char_def)

lemma ats_drop: "ats (dropWhile p s) \<le> ats s"
  by (induction s) (auto simp: ats_def)

termination substitute_arg
proof (relation "measure (\<lambda>(_, arg, _). ats arg)", goal_cases)
  case (2 fds arg used x before after i)
  then have arg: "arg = before @ ''/dev/fd/@'' @ after" using split_once_text_append by blast
  have "ats (''/dev/fd/'') = 0" "ats (''/dev/fd/@'') = 1" by (simp_all add: ats_def)
  then show ?case using ats_drop [of is_digit after] by (simp add: arg ats_digits del: append_Cons)
qed simp

declare substitute_arg.simps [simp del]

fun substitute_args :: "nat list \<Rightarrow> string list \<Rightarrow> bool list \<Rightarrow> string list \<times> (file_error + bool list)" where
  "substitute_args fds [] used = ([], Inr used)"
| "substitute_args fds (a # args) used =
     (case substitute_arg fds a used of
        (a', Inl e) \<Rightarrow> (a' # args, Inl e)
      | (a', Inr used') \<Rightarrow> (case substitute_args fds args used' of (args', r) \<Rightarrow> (a' # args', r)))"

definition substitute :: "string list \<Rightarrow> nat list \<Rightarrow> string list \<times> (file_error + unit)" where
  "substitute argv fds =
     (case substitute_args fds argv (replicate (length fds) False) of
        (argv', Inl e) \<Rightarrow> (argv', Inl e)
      | (argv', Inr used) \<Rightarrow> (argv', ensure (list_all (\<lambda>u. u) used) FileUnused))"

subsection \<open>Requests, replies and effects\<close>

record run_request =
  run_profile :: "string option"
  run_argv :: "string list"
  on_tty :: bool
  directories :: nat
  files :: nat
  login :: bool

record authorized_call =
  call_profile :: string
  call_method :: string
  call_url :: string
  call_headers :: "(string \<times> string) list"
  call_body :: string

datatype request =
    Hello "seat_attestation option"
  | Run run_request
  | Authorized authorized_call
  | Signal int
  | ProfileCreate string "string option" policy bool
  | ProfileList
  | ProfileShow string
  | ProfileRemove string
  | PolicySet string policy
  | Put string string string
  | Unset string string
  | GrantAdd string string policy "int option"
  | GrantRemove string
  | GrantList
  | Lock "string option" "string option"
  | Unlock "string option"
  | Register string string
  | ReadLog int int

record usable =
  used_profile :: profile
  used_grant :: "grant option"

datatype usable_refusal = ProfileRefuses string refusal | GrantRefuses string string refusal

datatype refusal_reason =
    NotIdentified unidentified_reason
  | OnlyItsCommand
  | LoginNamesProfile
  | NotTheOwner string
  | NotGranted string
  | OwnsNothing
  | AllRefuse "usable_refusal list"
  | SeveralAllow "string list"
  | DescriptorCount nat nat
  | FileProblem file_error
  | IsLocked string lock
  | NotPrepared string
  | RunOnly
  | NotAPersonCaller caller_view
  | BadUrl string
  | CarriesCredential string
  | BodyTooLarge
  | BodyNotBase64
  | NotAPersonName string
  | OnlyTheyUnlock string
  | NotANode string
  | NeedsAllowRule
  | BelongsTo string
  | NoProfile string
  | EmptyValue
  | NotAGrantee string
  | OwnsAlready
  | ProgramWildcard
  | BroadGrant command_rule
  | ExpiryPassed
  | NoGrant string
  | StoreRefuses store_error
  | NotManagement

datatype detail =
    RefusedRun "string list" refusal_reason bool
  | Called "string list" string "string option" bool bool
  | Ended nat "string + int option \<times> int option"
  | Requested string string "string + nat"
  | Scope string "string option"
  | Registered string nat int
  | Policied policy bool
  | Named string
  | Granted string string policy "int option"
  | Ungranted string string
  | Plain

datatype answer =
    Profiles "(profile \<times> grant option) list"
  | Grants "grant list"
  | LockedScope string
  | UnlockedScope string bool
  | RegisteredNode string string
  | TheProfile profile
  | TheGrant grant
  | Done
  | WasSet bool
  | Entries "detail log_entry list"

datatype reply =
    HelloReply caller_view string
  | Response nat "(string \<times> string) list" string
  | Exited "int option" "int option"
  | RefusedReply refusal_reason "nat option"
  | OkReply answer
  | ErrorReply string
  | Dropped

record url =
  scheme :: string
  url_host :: "string option"
  port :: "nat option"
  url_path :: string
  username :: string
  password :: "string option"

datatype effect = Executed string "string list" bool | Sent string string url "(string \<times> string) list"

record gateway =
  store :: "detail gateway_store"
  tokens :: "(string \<times> string) list"

text \<open>What the gateway is built with, and what comes from outside in one request.\<close>

record outside =
  config :: gateway_config
  trusts :: trust
  own_uid :: "nat option"
  parse_url :: "string \<Rightarrow> url option"
  decode_base64 :: "string \<Rightarrow> string option"

record world =
  now_ms :: int
  kernel_now :: kernel
  fresh_id :: string
  directory_ok :: bool
  sandbox_cwd :: "string + string"
  command_end :: "string + int option \<times> int option"
  gh_login :: "string option"
  http_answer :: "string + nat \<times> (string \<times> string) list \<times> string"

subsection \<open>The profile a call uses\<close>

definition log_as :: "world \<Rightarrow> caller \<Rightarrow> string option \<Rightarrow> string \<Rightarrow> string option \<Rightarrow> detail \<Rightarrow> gateway \<Rightarrow> gateway \<times> nat" where
  "log_as w c own ev p d g =
     (let (st, n) = append_log (now_ms w) (Some (caller_person c)) own ev (principal_of (caller_view c)) p d (store g)
      in (g\<lparr>store := st\<rparr>, n))"

definition require_person :: "caller \<Rightarrow> refusal_reason + string" where
  "require_person c =
     (case caller_view c of
        PersonView p \<Rightarrow> Inr p
      | UnidentifiedView _ r \<Rightarrow> Inl (NotIdentified r)
      | v \<Rightarrow> Inl (NotAPersonCaller v))"

definition own_profiles :: "caller_view \<Rightarrow> 'd gateway_store \<Rightarrow> usable list" where
  "own_profiles v st =
     (case v of
        PersonView p \<Rightarrow> map (\<lambda>r. \<lparr>used_profile = r, used_grant = None\<rparr>) (filter (\<lambda>r. owner r = p) (profiles st))
      | _ \<Rightarrow> [])"

definition granted_profile :: "int \<Rightarrow> string \<Rightarrow> usable list \<Rightarrow> 'd gateway_store \<Rightarrow> grant \<Rightarrow> usable option" where
  "granted_profile now who own st gr =
     (if (case until_ms gr of Some t \<Rightarrow> t \<le> now | None \<Rightarrow> False) \<or> \<not> principal_matches (grantee gr) who
         \<or> list_ex (\<lambda>u. profile_id (used_profile u) = grant_profile gr) own then None
      else map_option (\<lambda>r. \<lparr>used_profile = r, used_grant = Some gr\<rparr>) (find_profile (grant_profile gr) st))"

definition usable_by :: "int \<Rightarrow> caller_view \<Rightarrow> 'd gateway_store \<Rightarrow> usable list" where
  "usable_by now v st =
     (case principal_of v of
        None \<Rightarrow> []
      | Some who \<Rightarrow>
          (let own = own_profiles v st
           in own @ List.map_filter (granted_profile now who own st) (grants st)))"

definition judge_usable :: "usable \<Rightarrow> string list \<Rightarrow> usable_refusal option" where
  "judge_usable u argv =
     (let p = used_profile u
      in case judge (profile_policy p) argv of
           Refused r \<Rightarrow> Some (ProfileRefuses (profile_id p) r)
         | Allowed \<Rightarrow>
             (case used_grant u of
                None \<Rightarrow> None
              | Some gr \<Rightarrow>
                  (case judge (grant_policy gr) argv of
                     Refused r \<Rightarrow> Some (GrantRefuses (grant_id gr) (profile_id p) r)
                   | Allowed \<Rightarrow> None)))"

definition allows :: "string list \<Rightarrow> usable \<Rightarrow> bool" where
  "allows argv u = (judge_usable u argv = None)"

definition refusals :: "string list \<Rightarrow> usable list \<Rightarrow> usable_refusal list" where
  "refusals argv us = List.map_filter (\<lambda>u. judge_usable u argv) us"

definition choose_named :: "string \<Rightarrow> string list \<Rightarrow> usable list \<Rightarrow> refusal_reason + usable" where
  "choose_named i argv us =
     (let matching = filter (\<lambda>u. profile_id (used_profile u) = i) us
      in if matching = [] then Inl (NotGranted i)
         else case find (allows argv) matching of
           Some u \<Rightarrow> Inr u
         | None \<Rightarrow> Inl (AllRefuse (refusals argv matching)))"

definition choose_any :: "string list \<Rightarrow> usable list \<Rightarrow> refusal_reason + usable" where
  "choose_any argv us =
     (case find (\<lambda>u. used_grant u = None \<and> is_default (used_profile u)) us of
        Some u \<Rightarrow> (case judge_usable u argv of None \<Rightarrow> Inr u | Some r \<Rightarrow> Inl (AllRefuse [r]))
      | None \<Rightarrow>
          (case filter (allows argv) us of
             [] \<Rightarrow> Inl (AllRefuse (refusals argv us))
           | [u] \<Rightarrow> Inr u
           | more_than_one \<Rightarrow> Inl (SeveralAllow (remdups_adj (map (\<lambda>u. profile_id (used_profile u)) more_than_one)))))"

definition choose_profile :: "outside \<Rightarrow> int \<Rightarrow> caller \<Rightarrow> run_request \<Rightarrow> 'd gateway_store \<Rightarrow> refusal_reason + usable" where
  "choose_profile out now c run st =
     (case caller_view c of
        UnidentifiedView _ r \<Rightarrow> Inl (NotIdentified r)
      | v \<Rightarrow>
          if (case program_for (config out) (caller_uid c) of Some p \<Rightarrow> login run \<or> run_argv run \<noteq> program_command p | None \<Rightarrow> False)
          then Inl OnlyItsCommand
          else
            (let us = usable_by now v st
             in if login run then
                  (case run_profile run of
                     None \<Rightarrow> Inl LoginNamesProfile
                   | Some i \<Rightarrow>
                       (case find (\<lambda>u. profile_id (used_profile u) = i \<and> used_grant u = None) us of
                          Some u \<Rightarrow> Inr u
                        | None \<Rightarrow> Inl (NotTheOwner i)))
                else case run_profile run of
                  Some i \<Rightarrow> choose_named i (run_argv run) us
                | None \<Rightarrow> if us = [] then Inl OwnsNothing else choose_any (run_argv run) us))"

subsection \<open>Running a command\<close>

definition refuse :: "world \<Rightarrow> caller \<Rightarrow> run_request \<Rightarrow> string option \<Rightarrow> string option \<Rightarrow> refusal_reason \<Rightarrow> gateway \<Rightarrow> gateway \<times> reply" where
  "refuse w c run own p r g =
     (let (g', n) = log_as w c own ''refused'' p (RefusedRun (run_argv run) r (login run)) g
      in (g', RefusedReply r (Some n)))"

definition usize :: "nat \<Rightarrow> nat" where
  "usize n = n mod 2 ^ 64"

definition streams :: "run_request \<Rightarrow> nat" where
  "streams run = (if on_tty run then 0 else 3)"

text \<open>The checks of \<open>prepare\<close> before the sandbox is built; the directory the sandbox runs in is an input.\<close>

definition prepare :: "world \<Rightarrow> run_request \<Rightarrow> nat \<Rightarrow> string + string" where
  "prepare w run n =
     (if run_argv run = [] then Inl ''no command''
      else if n \<noteq> usize (streams run + directories run) \<or> directories run = 0 then Inl ''descriptors''
      else sandbox_cwd w)"

definition execute :: "world \<Rightarrow> caller \<Rightarrow> run_request \<Rightarrow> usable \<Rightarrow> string \<Rightarrow> gateway \<Rightarrow> gateway \<times> reply \<times> effect list" where
  "execute w c run u cwd g =
     (let p = profile_id (used_profile u); own = owner (used_profile u);
          (g1, n) = log_as w c (Some own) ''call'' (Some p)
            (Called (run_argv run) cwd (map_option grant_id (used_grant u)) (login run) (on_tty run)) g;
          (g2, _) = log_as w c (Some own) ''exited'' (Some p) (Ended n (command_end w)) g1
      in (g2, (case command_end w of Inl e \<Rightarrow> ErrorReply e | Inr (status, sig) \<Rightarrow> Exited status sig),
          [Executed p (run_argv run) (login run)]))"

definition run_chosen :: "world \<Rightarrow> caller \<Rightarrow> run_request \<Rightarrow> nat \<Rightarrow> usable \<Rightarrow> gateway \<Rightarrow> gateway \<times> reply \<times> effect list" where
  "run_chosen w c run n u g =
     (let p = profile_id (used_profile u); own = owner (used_profile u);
          no = (\<lambda>r. case refuse w c run (Some own) (Some p) r g of (g', rep) \<Rightarrow> (g', rep, []))
      in case lock_for (caller_person c) own (store g) of
           Some (scope, l) \<Rightarrow> no (IsLocked scope l)
         | None \<Rightarrow>
             (case prepare w run n of
                Inl e \<Rightarrow> no (NotPrepared e)
              | Inr cwd \<Rightarrow> execute w c run u cwd g))"

definition run_call :: "outside \<Rightarrow> world \<Rightarrow> caller \<Rightarrow> run_request \<Rightarrow> nat list \<Rightarrow> gateway \<Rightarrow> gateway \<times> reply \<times> effect list" where
  "run_call out w c run fds g =
     (let no = (\<lambda>run' r. case refuse w c run' None (run_profile run') r g of (g', rep) \<Rightarrow> (g', rep, []));
          want = usize (streams run + directories run + files run);
          n = usize (streams run + directories run)
      in if length fds \<noteq> want then no run (DescriptorCount (length fds) want)
         else if length fds < n then (g, Dropped, [])
         else
           (let (argv', r) = substitute (run_argv run) (drop n fds); run' = run\<lparr>run_argv := argv'\<rparr>
            in case r of
                 Inl e \<Rightarrow> no run' (FileProblem e)
               | Inr _ \<Rightarrow>
                   (case choose_profile out (now_ms w) c run' (store g) of
                      Inl e \<Rightarrow> no run' e
                    | Inr u \<Rightarrow> run_chosen w c run' n u g)))"

subsection \<open>Authorized requests\<close>

definition MAX_REQUEST_BODY :: nat where
  "MAX_REQUEST_BODY = 16 * 2 ^ 20"

definition DROPPED_HEADERS :: "string list" where
  "DROPPED_HEADERS = [''host'', ''connection'', ''keep-alive'', ''proxy-authorization'', ''proxy-connection'', ''te'', ''trailer'',
     ''transfer-encoding'', ''upgrade'', ''content-length'']"

fun forwarded_headers :: "(string \<times> string) list \<Rightarrow> refusal_reason + (string \<times> string) list" where
  "forwarded_headers [] = Inr []"
| "forwarded_headers ((n, v) # hs) =
     (let lower = map to_ascii_lowercase n
      in if lower = ''authorization'' \<or> lower = ''cookie'' then Inl (CarriesCredential n)
         else and_then (forwarded_headers hs) (\<lambda>rest. Inr (if lower \<in> set DROPPED_HEADERS then rest else (n, v) # rest)))"

definition trim_slashes :: "string \<Rightarrow> string" where
  "trim_slashes p = rev (dropWhile (\<lambda>c. c = CHR ''/'') (rev p))"

definition under_base :: "url \<Rightarrow> url \<Rightarrow> bool" where
  "under_base u b =
     (let base_path = trim_slashes (url_path b)
      in scheme u = scheme b \<and> url_host u = url_host b \<and> port u = port b
         \<and> (url_path u = base_path \<or> base_path = [] \<or> starts_with (url_path u) (base_path @ ''/''))
         \<and> username u = [] \<and> password u = None)"

definition check_url :: "outside \<Rightarrow> string \<Rightarrow> refusal_reason + url" where
  "check_url out t =
     (case (parse_url out t, parse_url out (github_api (config out))) of
        (Some u, Some b) \<Rightarrow> if under_base u b then Inr u else Inl (BadUrl t)
      | _ \<Rightarrow> Inl (BadUrl t))"

definition check_body :: "outside \<Rightarrow> string \<Rightarrow> refusal_reason + string" where
  "check_body out b =
     (case decode_base64 out b of
        None \<Rightarrow> Inl BodyNotBase64
      | Some x \<Rightarrow> if length x \<le> MAX_REQUEST_BODY then Inr x else Inl BodyTooLarge)"

text \<open>The token of a profile: cached, put into the profile, or what its \<open>gh\<close> login prints.\<close>

definition api_token :: "world \<Rightarrow> string \<Rightarrow> gateway \<Rightarrow> gateway \<times> (string + string)" where
  "api_token w i g =
     (case map_of (tokens g) i of
        Some t \<Rightarrow> (g, Inr t)
      | None \<Rightarrow>
          (let found = (case find (\<lambda>(n, _). n = ''GH_TOKEN'' \<or> n = ''GITHUB_TOKEN'') (env i (store g)) of
                Some (_, v) \<Rightarrow> Some v
              | None \<Rightarrow> map_option trim (gh_login w))
           in case found of
                None \<Rightarrow> (g, Inl ''no login'')
              | Some t \<Rightarrow> if t = [] then (g, Inl ''empty token'') else (g\<lparr>tokens := AList.update i t (tokens g)\<rparr>, Inr t)))"

definition authorized_argv :: "authorized_call \<Rightarrow> string list" where
  "authorized_argv a = [''http'', map to_ascii_uppercase (call_method a), ''github'']"

definition send_authorized ::
  "world \<Rightarrow> caller \<Rightarrow> authorized_call \<Rightarrow> usable \<Rightarrow> url \<Rightarrow> (string \<times> string) list \<Rightarrow> string \<Rightarrow> gateway \<Rightarrow> gateway \<times> reply \<times> effect list"
where
  "send_authorized w c a u to hs t g =
     (let i = profile_id (used_profile u);
          (g', _) = log_as w c (Some (owner (used_profile u))) ''requested'' (Some i)
            (Requested (call_method a) (url_path to) (map_sum id fst (http_answer w))) g
      in case http_answer w of
           Inl e \<Rightarrow> (g', ErrorReply e, [Sent i t to hs])
         | Inr (status, hs', body) \<Rightarrow>
             ((if status = 401 then g'\<lparr>tokens := AList.delete i (tokens g')\<rparr> else g'), Response status hs' body,
              [Sent i t to hs]))"

definition authorized :: "outside \<Rightarrow> world \<Rightarrow> caller \<Rightarrow> authorized_call \<Rightarrow> gateway \<Rightarrow> gateway \<times> reply \<times> effect list" where
  "authorized out w c a g =
     (let no = (\<lambda>r. (g, RefusedReply r None, []));
          us = filter (\<lambda>u. profile_id (used_profile u) = call_profile a) (usable_by (now_ms w) (caller_view c) (store g))
      in if program_for (config out) (caller_uid c) \<noteq> None then no RunOnly
         else case principal_of (caller_view c) of
           None \<Rightarrow> (case require_person c of Inl r \<Rightarrow> no r | Inr p \<Rightarrow> no (NotAPersonName p))
         | Some who \<Rightarrow>
             if us = [] then no (NotGranted (call_profile a))
             else case find (allows (authorized_argv a)) us of
               None \<Rightarrow> no (AllRefuse (refusals (authorized_argv a) us))
             | Some u \<Rightarrow>
                 (case and_then (check_url out (call_url a)) (\<lambda>to.
                         and_then (forwarded_headers (call_headers a)) (\<lambda>hs.
                         and_then (check_body out (call_body a)) (\<lambda>_. Inr (to, hs)))) of
                    Inl r \<Rightarrow> no r
                  | Inr (to, hs) \<Rightarrow>
                      (case api_token w (profile_id (used_profile u)) g of
                         (g1, Inl e) \<Rightarrow> (g1, ErrorReply e, [])
                       | (g1, Inr t) \<Rightarrow> send_authorized w c a u to hs t g1)))"

subsection \<open>Management\<close>

definition check_policy :: "policy \<Rightarrow> refusal_reason + unit" where
  "check_policy pol = ensure (allow pol \<noteq> []) NeedsAllowRule"

definition owned :: "string \<Rightarrow> string \<Rightarrow> 'd gateway_store \<Rightarrow> refusal_reason + profile" where
  "owned person i st =
     (case find_profile i st of
        None \<Rightarrow> Inl (NoProfile i)
      | Some p \<Rightarrow> if owner p = person then Inr p else Inl (BelongsTo (owner p)))"

text \<open>A change that succeeded is logged and answered; one the store refuses leaves what the store left.\<close>

definition logged ::
  "world \<Rightarrow> caller \<Rightarrow> string option \<Rightarrow> string \<Rightarrow> string option \<Rightarrow> ('a \<Rightarrow> detail) \<Rightarrow> ('a \<Rightarrow> answer) \<Rightarrow> gateway \<Rightarrow>
     detail gateway_store \<times> (store_error + 'a) \<Rightarrow> gateway \<times> (refusal_reason + answer)"
where
  "logged w c own ev p d ans g = (\<lambda>(st, r).
     case r of
       Inl e \<Rightarrow> (g\<lparr>store := st\<rparr>, Inl (StoreRefuses e))
     | Inr x \<Rightarrow> (case log_as w c own ev p (d x) (g\<lparr>store := st\<rparr>) of (g', _) \<Rightarrow> (g', Inr (ans x))))"

definition guarded_by :: "refusal_reason + 'a \<Rightarrow> gateway \<Rightarrow> gateway \<times> (refusal_reason + answer) \<Rightarrow> gateway \<times> (refusal_reason + answer)" where
  "guarded_by r g k = (case r of Inl e \<Rightarrow> (g, Inl e) | Inr _ \<Rightarrow> k)"

definition check_grantee :: "int \<Rightarrow> string \<Rightarrow> string \<Rightarrow> policy \<Rightarrow> int option \<Rightarrow> refusal_reason + unit" where
  "check_grantee now person to pol til =
     also_ok (ensure (starts_with to ''agent/'' \<or> starts_with to ''person/'' \<or> starts_with to ''host/'' \<or> program_principal to) (NotAGrantee to))
    (also_ok (ensure (to \<noteq> person) OwnsAlready)
    (also_ok (ensure (\<not> (starts_with to ''program/'' \<and> list_ex (\<lambda>r. list_ex (\<lambda>w. w = ''*'') (prefix r)) (allow pol))) ProgramWildcard)
    (also_ok (if starts_with to ''agent/'' then (case broad_allow pol of Some r \<Rightarrow> Inl (BroadGrant r) | None \<Rightarrow> Inr ()) else Inr ())
    (ensure (\<not> (case til of Some t \<Rightarrow> t \<le> now | None \<Rightarrow> False)) ExpiryPassed))))"

definition manage_owned :: "world \<Rightarrow> caller \<Rightarrow> string \<Rightarrow> request \<Rightarrow> gateway \<Rightarrow> gateway \<times> (refusal_reason + answer)" where
  "manage_owned w c person req g =
     (let st = store g; now = now_ms w
      in case req of
           ProfileCreate i descr pol dflt \<Rightarrow>
             guarded_by (check_policy pol) g
               (logged w c (Some person) ''profile-created'' (Some i) (\<lambda>_. Policied pol dflt) TheProfile g
                  (create_profile (directory_ok w) i person descr pol dflt st))
         | ProfileRemove i \<Rightarrow>
             guarded_by (owned person i st) g
               (logged w c (Some person) ''profile-removed'' (Some i) (\<lambda>_. Plain) (\<lambda>_. Done) g
                  (remove_profile (directory_ok w) now i st))
         | PolicySet i pol \<Rightarrow>
             guarded_by (owned person i st) g
               (guarded_by (check_policy pol) g
                  (logged w c (Some person) ''policy-set'' (Some i) (\<lambda>_. Policied pol False) (\<lambda>_. Done) g
                     (set_policy i pol st, Inr ())))
         | Put i n v \<Rightarrow>
             guarded_by (owned person i st) g
               (guarded_by (ensure (v \<noteq> []) EmptyValue) g
                  (logged w c (Some person) ''put'' (Some i) (\<lambda>_. Named n) (\<lambda>_. Done) g (put i n v st)))
         | Unset i n \<Rightarrow>
             guarded_by (owned person i st) g
               (logged w c (Some person) ''unset'' (Some i) (\<lambda>_. Named n) WasSet g
                  (case unset i n st of (st', b) \<Rightarrow> (st', Inr b)))
         | GrantAdd i to pol til \<Rightarrow>
             guarded_by (owned person i st) g
               (guarded_by (check_policy pol) g
                  (guarded_by (check_grantee now person to pol til) g
                     (logged w c (Some person) ''grant-added'' (Some i) (\<lambda>gr. Granted (grant_id gr) to pol til) TheGrant g
                        (add_grant (fresh_id w) now i to pol til person st))))
         | GrantRemove gid \<Rightarrow>
             (case find_grant gid st of
                None \<Rightarrow> (g, Inl (NoGrant gid))
              | Some gr \<Rightarrow>
                  guarded_by (owned person (grant_profile gr) st) g
                    (logged w c (Some person) ''grant-removed'' (Some (grant_profile gr)) (\<lambda>_. Ungranted gid (grantee gr)) (\<lambda>_. Done) g
                       (revoke_grant gid now person st, Inr ())))
         | _ \<Rightarrow> (g, Inl NotManagement))"

definition visible_grant :: "string \<Rightarrow> 'd gateway_store \<Rightarrow> grant \<Rightarrow> bool" where
  "visible_grant who st gr =
     (grant_profile gr \<in> profile_id ` set (filter (\<lambda>r. owner r = who) (profiles st)) \<or> principal_matches (grantee gr) who)"

definition usable_pair :: "usable \<Rightarrow> profile \<times> grant option" where
  "usable_pair u = (used_profile u, used_grant u)"

fun first_of_each :: "string list \<Rightarrow> usable list \<Rightarrow> usable list" where
  "first_of_each seen [] = []"
| "first_of_each seen (u # us) =
     (let i = profile_id (used_profile u)
      in if i \<in> set seen then first_of_each seen us else u # first_of_each (i # seen) us)"

definition identified :: "caller \<Rightarrow> refusal_reason + string" where
  "identified c = (case principal_of (caller_view c) of Some who \<Rightarrow> Inr who | None \<Rightarrow> require_person c)"

definition lock_scope :: "caller \<Rightarrow> string option \<Rightarrow> refusal_reason + string" where
  "lock_scope c person =
     (case person of
        None \<Rightarrow> and_then (require_person c) (\<lambda>_. Inr ''*'')
      | Some p \<Rightarrow> if person_name p \<noteq> None then Inr p else Inl (NotAPersonName p))"

definition manage :: "outside \<Rightarrow> world \<Rightarrow> caller \<Rightarrow> request \<Rightarrow> gateway \<Rightarrow> gateway \<times> (refusal_reason + answer)" where
  "manage out w c req g =
     (let st = store g; us = usable_by (now_ms w) (caller_view c) st
      in if program_for (config out) (caller_uid c) \<noteq> None then (g, Inl RunOnly)
         else case req of
           ProfileList \<Rightarrow> (g, Inr (Profiles (map usable_pair (first_of_each [] us))))
         | ProfileShow i \<Rightarrow>
             (case filter (\<lambda>u. profile_id (used_profile u) = i) us of
                [] \<Rightarrow> (g, Inl (NoProfile i))
              | found \<Rightarrow> (g, Inr (Profiles (map usable_pair found))))
         | GrantList \<Rightarrow> (g, and_then (identified c) (\<lambda>who. Inr (Grants (filter (visible_grant who st) (grants st)))))
         | Lock person reason \<Rightarrow>
             (case and_then (identified c) (\<lambda>who. and_then (lock_scope c person) (\<lambda>scope. Inr (who, scope))) of
                Inl e \<Rightarrow> (g, Inl e)
              | Inr (who, scope) \<Rightarrow>
                  logged w c None ''locked'' None (\<lambda>_. Scope scope reason) (\<lambda>_. LockedScope scope) g
                    (put_lock scope who reason (now_ms w) st, Inr ()))
         | Unlock person \<Rightarrow>
             (case require_person c of
                Inl e \<Rightarrow> (g, Inl e)
              | Inr me \<Rightarrow>
                  (let scope = (case person of Some p \<Rightarrow> p | None \<Rightarrow> ''*'')
                   in guarded_by (ensure (scope = ''*'' \<or> scope = me) (OnlyTheyUnlock scope)) g
                        (logged w c None ''unlocked'' None (\<lambda>_. Scope scope None) (UnlockedScope scope) g
                           (case unlock scope st of (st', b) \<Rightarrow> (st', Inr b)))))
         | Register node key \<Rightarrow>
             (case require_person c of
                Inl e \<Rightarrow> (g, Inl e)
              | Inr person \<Rightarrow>
                  guarded_by (ensure (starts_with node ''host/'') (NotANode node)) g
                    (logged w c None ''daemon-registered'' None (\<lambda>_. Registered node (caller_uid c) (caller_pid c))
                       (\<lambda>_. RegisteredNode node person) g
                       (register_daemon (caller_uid c) person node key st, Inr ())))
         | _ \<Rightarrow> (case require_person c of Inl e \<Rightarrow> (g, Inl e) | Inr person \<Rightarrow> manage_owned w c person req g))"

subsection \<open>Connections and the running gateway\<close>

definition serve :: "outside \<Rightarrow> world \<Rightarrow> string \<Rightarrow> request \<Rightarrow> nat list \<Rightarrow> caller \<Rightarrow> gateway \<Rightarrow> caller \<times> gateway \<times> reply \<times> effect list" where
  "serve out w nonce req fds c0 g =
     (let ds = daemon (store g); k = kernel_now w; now = now_ms w;
          c = recheck (config out) (trusts out) k ds now nonce c0
      in case req of
           Hello att \<Rightarrow>
             (let c' = hello (config out) (trusts out) k ds now nonce att c in (c', g, HelloReply (caller_view c') nonce, []))
         | Run run \<Rightarrow> (c, run_call out w c run fds g)
         | Signal _ \<Rightarrow> (c, g, ErrorReply ''nothing is running'', [])
         | ReadLog after limit \<Rightarrow>
             (c, g, if program_for (config out) (caller_uid c) \<noteq> None then RefusedReply RunOnly None
                    else OkReply (Entries (log_for (caller_person c) after limit (store g))), [])
         | Authorized a \<Rightarrow> (c, authorized out w c a g)
         | _ \<Rightarrow>
             (case manage out w c req g of
                (g', Inr x) \<Rightarrow> (c, g', OkReply x, [])
              | (g', Inl r) \<Rightarrow> (c, g', RefusedReply r None, [])))"

datatype registry_source = RegistryAbsent | RegistryFault | RegistryFile registry "(string \<times> nat) list option"

fun read_registry :: "registry_source \<Rightarrow> registry_read" where
  "read_registry RegistryAbsent = Inr None"
| "read_registry RegistryFault = Inl ()"
| "read_registry (RegistryFile r us) = (case load_registry r us of Inl _ \<Rightarrow> Inl () | Inr x \<Rightarrow> Inr (Some x))"

record system =
  gate :: gateway
  conns :: "(nat \<times> caller \<times> string) list"

datatype gateway_event =
    Connect nat world registry_source nat int string
  | Ask nat world request "nat list"
  | Close nat
  | Trim int
  | Restart

definition LOG_KEEP_MS :: int where
  "LOG_KEEP_MS = 7 * 24 * 60 * 60 * 1000"

definition fresh_system :: system where
  "fresh_system = \<lparr>gate = \<lparr>store = empty_store, tokens = []\<rparr>, conns = []\<rparr>"

definition ends_connection :: "request \<Rightarrow> bool" where
  "ends_connection req = (case req of Run _ \<Rightarrow> True | _ \<Rightarrow> False)"

definition accept_peer :: "outside \<Rightarrow> nat \<Rightarrow> world \<Rightarrow> registry_source \<Rightarrow> nat \<Rightarrow> int \<Rightarrow> string \<Rightarrow> system \<Rightarrow> system" where
  "accept_peer out i w src uid pid nonce s =
     (if map_of (conns s) i \<noteq> None then s
      else case connect (config out) (trusts out) (kernel_now w) (daemon (store (gate s))) (now_ms w) (own_uid out) (read_registry src) uid pid nonce of
        Inl _ \<Rightarrow> s
      | Inr c \<Rightarrow> s\<lparr>conns := AList.update i (c, nonce) (conns s)\<rparr>)"

definition ask :: "outside \<Rightarrow> nat \<Rightarrow> world \<Rightarrow> request \<Rightarrow> nat list \<Rightarrow> system \<Rightarrow> system" where
  "ask out i w req fds s =
     (case map_of (conns s) i of
        None \<Rightarrow> s
      | Some (c, nonce) \<Rightarrow>
          (case serve out w nonce req fds c (gate s) of
             (c', g', _, _) \<Rightarrow>
               \<lparr>gate = g', conns = (if ends_connection req then AList.delete i (conns s) else AList.update i (c', nonce) (conns s))\<rparr>))"

fun gateway_step :: "outside \<Rightarrow> gateway_event \<Rightarrow> system \<Rightarrow> system" where
  "gateway_step out (Connect i w src uid pid nonce) s = accept_peer out i w src uid pid nonce s"
| "gateway_step out (Ask i w req fds) s = ask out i w req fds s"
| "gateway_step out (Close i) s = s\<lparr>conns := AList.delete i (conns s)\<rparr>"
| "gateway_step out (Trim now) s = s\<lparr>gate := (gate s)\<lparr>store := trim_log now LOG_KEEP_MS (store (gate s))\<rparr>\<rparr>"
| "gateway_step out Restart s = \<lparr>gate = (gate s)\<lparr>tokens := []\<rparr>, conns = []\<rparr>"

end
