(* ===== verification/Gateway_Access.thy ===== *)
theory Gateway_Access
  imports Gateway
begin

section \<open>What a call to the gateway rests on\<close>

text \<open>
  Lemmas on single requests: what the profile a caller may use rests on, when a command runs or a
  request is sent, and the contract of the store's operations under which every request keeps a
  property of the store.
\<close>

subsection \<open>Lemmas: reading the store\<close>

lemma find_profile_row:
  assumes "find_profile i st = Some p"
  obtains r where "r \<in> set (profile_rows st)" "profile_id r = i" "profile_id p = i" "owner p = owner r"
    "profile_policy p = profile_policy r" "is_default p = is_default r"
  using assms by (auto simp: find_profile_def profile_row.defs dest!: find_SomeD)

lemma profiles_find: "p \<in> set (profiles st) \<Longrightarrow> \<exists>i. find_profile i st = Some p"
  by (auto simp: profiles_def List.map_filter_def)

lemma grants_live: "gr \<in> set (grants st) \<longleftrightarrow> (gr, None) \<in> set (grant_rows st)"
  by (force simp: grants_def grants_where_def)

text \<open>What a profile a caller may use rests on.\<close>

definition entitled :: "int \<Rightarrow> caller_view \<Rightarrow> 'd gateway_store \<Rightarrow> usable \<Rightarrow> bool" where
  "entitled now v st u \<longleftrightarrow>
     (\<exists>r\<in>set (profile_rows st). profile_id (used_profile u) = profile_id r \<and> owner (used_profile u) = owner r
        \<and> profile_policy (used_profile u) = profile_policy r
        \<and> (case used_grant u of
             None \<Rightarrow> v = PersonView (owner r)
           | Some gr \<Rightarrow> (gr, None) \<in> set (grant_rows st) \<and> grant_profile gr = profile_id r
               \<and> (\<forall>t. until_ms gr = Some t \<longrightarrow> now < t) \<and> (\<exists>who. principal_of v = Some who \<and> principal_matches (grantee gr) who)))"

lemma usable_entitled: "u \<in> set (usable_by now v st) \<Longrightarrow> entitled now v st u"
proof -
  assume u: "u \<in> set (usable_by now v st)"
  then obtain who where who: "principal_of v = Some who" by (cases "principal_of v") (auto simp: usable_by_def)
  consider (own) "u \<in> set (own_profiles v st)" | (granted) gr where "gr \<in> set (grants st)" "granted_profile now who (own_profiles v st) st gr = Some u"
    using u who by (auto simp: usable_by_def Let_def List.map_filter_def)
  then show ?thesis
  proof cases
    case own
    then obtain p where "v = PersonView p" "owner (used_profile u) = p" "used_grant u = None" "used_profile u \<in> set (profiles st)"
      by (auto simp: own_profiles_def split: caller_view.splits)
    moreover then obtain i where "find_profile i st = Some (used_profile u)" using profiles_find by blast
    then obtain r where "r \<in> set (profile_rows st)" "profile_id (used_profile u) = profile_id r" "owner (used_profile u) = owner r"
      "profile_policy (used_profile u) = profile_policy r" by (rule find_profile_row) simp
    ultimately show ?thesis unfolding entitled_def by (intro bexI [of _ r]) simp_all
  next
    case granted
    then have u: "find_profile (grant_profile gr) st = Some (used_profile u)" "used_grant u = Some gr" "principal_matches (grantee gr) who"
      and "\<not> (case until_ms gr of Some t \<Rightarrow> t \<le> now | None \<Rightarrow> False)"
      by (auto simp: granted_profile_def split: if_splits)
    then have "\<forall>t. until_ms gr = Some t \<longrightarrow> now < t" by (cases "until_ms gr") auto
    moreover obtain r where "r \<in> set (profile_rows st)" "profile_id r = grant_profile gr" "profile_id (used_profile u) = profile_id r"
      "owner (used_profile u) = owner r" "profile_policy (used_profile u) = profile_policy r"
      using u(1) by (rule find_profile_row) simp
    ultimately show ?thesis using granted(1) who u(2,3) unfolding entitled_def by (intro bexI [of _ r]) (simp_all add: grants_live)
  qed
qed

subsection \<open>Lemmas: what runs and what is sent\<close>

lemma choose_named_Inr: "choose_named i argv us = Inr u \<Longrightarrow> u \<in> set us \<and> allows argv u"
  by (auto simp: choose_named_def Let_def dest!: find_SomeD split: if_splits option.splits)

lemma choose_any_Inr:
  assumes "choose_any argv us = Inr u"
  shows "u \<in> set us \<and> allows argv u"
proof (cases "find (\<lambda>u. used_grant u = None \<and> is_default (used_profile u)) us")
  case (Some x)
  then show ?thesis using assms find_SomeD [OF Some] by (auto simp: choose_any_def allows_def split: option.splits)
next
  case None
  with assms have "filter (allows argv) us = [u]" by (auto simp: choose_any_def split: list.splits)
  then show ?thesis by (metis filter_eq_ConsD in_set_conv_decomp)
qed

lemma choose_profile_Inr:
  assumes "choose_profile out now c run st = Inr u"
  shows "entitled now (caller_view c) st u" "if login run then used_grant u = None else allows (run_argv run) u"
    "program_for (config out) (caller_uid c) = Some p \<Longrightarrow> \<not> login run \<and> run_argv run = program_command p"
proof -
  have *: "u \<in> set (usable_by now (caller_view c) st) \<and> (if login run then used_grant u = None else allows (run_argv run) u)
      \<and> (program_for (config out) (caller_uid c) = Some p \<longrightarrow> \<not> login run \<and> run_argv run = program_command p)"
    if "\<And>w r. caller_view c \<noteq> UnidentifiedView w r"
    using that assms
    by (cases "caller_view c")
      (auto simp: choose_profile_def Let_def dest!: find_SomeD choose_named_Inr choose_any_Inr split: if_splits option.splits)
  have "caller_view c \<noteq> UnidentifiedView w r" for w r using assms by (auto simp: choose_profile_def)
  note * = * [OF this]
  from * show "entitled now (caller_view c) st u" by (blast intro: usable_entitled)
  from * show "if login run then used_grant u = None else allows (run_argv run) u" by blast
  from * show "program_for (config out) (caller_uid c) = Some p \<Longrightarrow> \<not> login run \<and> run_argv run = program_command p" by blast
qed

lemma run_chosen_effects:
  assumes "run_chosen w c run n u g = (g', rep, effs)" "e \<in> set effs"
  shows "e = Executed (profile_id (used_profile u)) (run_argv run) (login run)"
    "lock_for (caller_person c) (owner (used_profile u)) (store g) = None"
  using assms by (auto simp: run_chosen_def execute_def Let_def split: option.splits sum.splits prod.splits)

lemma run_call_effects:
  assumes "run_call out w c run fds g = (g', rep, effs)" "e \<in> set effs"
  obtains u run' where "choose_profile out (now_ms w) c run' (store g) = Inr u"
    "e = Executed (profile_id (used_profile u)) (run_argv run') (login run')"
    "lock_for (caller_person c) (owner (used_profile u)) (store g) = None"
proof -
  obtain argv' r where sub: "substitute (run_argv run) (drop (usize (streams run + directories run)) fds) = (argv', r)" by force
  let ?run = "run\<lparr>run_argv := argv'\<rparr>"
  obtain u n where u: "choose_profile out (now_ms w) c ?run (store g) = Inr u" "run_chosen w c ?run n u g = (g', rep, effs)"
    using assms by (auto simp: run_call_def Let_def sub split: if_splits sum.splits prod.splits)
  show thesis by (rule that [OF u(1)]) (use run_chosen_effects [OF u(2) assms(2)] in simp_all)
qed

lemma lock_for_None:
  "lock_for who own st = None \<longleftrightarrow> map_of (lock_rows st) ''*'' = None \<and> map_of (lock_rows st) who = None \<and> map_of (lock_rows st) own = None"
  by (auto simp: lock_for_def split: option.splits)

lemma allows_iff:
  "allows argv u \<longleftrightarrow> judge (profile_policy (used_profile u)) argv = Allowed
     \<and> (\<forall>gr. used_grant u = Some gr \<longrightarrow> judge (grant_policy gr) argv = Allowed)"
  by (auto simp: allows_def judge_usable_def Let_def split: policy_verdict.splits option.splits)

lemma authorized_effects:
  assumes "authorized out w c a g = (g', rep, effs)" "e \<in> set effs"
  obtains u to b hs t where "entitled (now_ms w) (caller_view c) (store g) u" "profile_id (used_profile u) = call_profile a"
    "allows (authorized_argv a) u" "e = Sent (call_profile a) t to hs" "parse_url out (github_api (config out)) = Some b" "under_base to b"
    "forwarded_headers (call_headers a) = Inr hs" "program_for (config out) (caller_uid c) = None"
proof -
  let ?us = "filter (\<lambda>u. profile_id (used_profile u) = call_profile a) (usable_by (now_ms w) (caller_view c) (store g))"
  have prog: "program_for (config out) (caller_uid c) = None"
    using assms by (auto simp: authorized_def Let_def split: if_splits)
  obtain u where u: "find (allows (authorized_argv a)) ?us = Some u"
    using assms prog by (auto simp: authorized_def Let_def split: if_splits option.splits sum.splits)
  obtain to hs body where urls: "check_url out (call_url a) = Inr to" "forwarded_headers (call_headers a) = Inr hs" "check_body out (call_body a) = Inr body"
    using assms prog u
    by (cases "check_url out (call_url a)"; cases "forwarded_headers (call_headers a)"; cases "check_body out (call_body a)")
      (auto simp: authorized_def Let_def split: if_splits option.splits sum.splits)
  obtain b where b: "parse_url out (github_api (config out)) = Some b" "under_base to b"
    using urls(1) by (auto simp: check_url_def split: option.splits if_splits)
  have mine: "u \<in> set ?us" "allows (authorized_argv a) u" using find_SomeD [OF u] by simp_all
  obtain t where "e = Sent (profile_id (used_profile u)) t to hs"
    using assms prog u urls
    by (auto simp: authorized_def Let_def send_authorized_def split: if_splits option.splits sum.splits prod.splits)
  with mine show thesis using that [OF usable_entitled _ mine(2) _ b urls(2) prog] by auto
qed

lemma forwarded_clean:
  "forwarded_headers hs = Inr hs' \<Longrightarrow> \<forall>(n, v)\<in>set hs'. map to_ascii_lowercase n \<notin> {''authorization'', ''cookie''} \<and> (n, v) \<in> set hs"
  by (induction hs arbitrary: hs' rule: forwarded_headers.induct) (fastforce simp: Let_def and_then_Inr split: if_splits)+

subsection \<open>The contract of the store's operations\<close>

text \<open>
  A property of the store that every operation the gateway calls keeps, under the guards the gateway has
  checked by then and for the persons \<open>who\<close> admits, is kept by every request and every event.
\<close>

locale store_contract =
  fixes inv :: "detail gateway_store \<Rightarrow> bool"
    and who :: "nat \<Rightarrow> string \<Rightarrow> bool"
  assumes inv_log: "inv st \<Longrightarrow> inv (fst (append_log now caller own ev actor about d st))"
    and inv_trim: "inv st \<Longrightarrow> inv (trim_log now keep st)"
    and inv_create: "inv st \<Longrightarrow> who u person \<Longrightarrow> check_policy pol = Inr () \<Longrightarrow> inv (fst (create_profile ok i person descr pol dflt st))"
    and inv_remove: "inv st \<Longrightarrow> who u person \<Longrightarrow> owned person i st = Inr p \<Longrightarrow> inv (fst (remove_profile ok now i st))"
    and inv_policy: "inv st \<Longrightarrow> who u person \<Longrightarrow> owned person i st = Inr p \<Longrightarrow> check_policy pol = Inr () \<Longrightarrow> inv (set_policy i pol st)"
    and inv_put: "inv st \<Longrightarrow> who u person \<Longrightarrow> owned person i st = Inr p \<Longrightarrow> inv (fst (put i n v st))"
    and inv_unset: "inv st \<Longrightarrow> who u person \<Longrightarrow> owned person i st = Inr p \<Longrightarrow> inv (fst (unset i n st))"
    and inv_grant: "inv st \<Longrightarrow> who u person \<Longrightarrow> owned person i st = Inr p \<Longrightarrow> check_policy pol = Inr () \<Longrightarrow>
      check_grantee now person to pol til = Inr () \<Longrightarrow> inv (fst (add_grant fresh now i to pol til person st))"
    and inv_revoke: "inv st \<Longrightarrow> who u person \<Longrightarrow> find_grant i st = Some gr \<Longrightarrow> owned person (grant_profile gr) st = Inr p \<Longrightarrow>
      inv (revoke_grant i now person st)"
    and inv_register: "inv st \<Longrightarrow> who u person \<Longrightarrow> inv (register_daemon u person node key st)"
    and inv_lock: "inv st \<Longrightarrow> scope = ''*'' \<or> person_name scope \<noteq> None \<Longrightarrow> inv (put_lock scope by_whom why now st)"
    and inv_unlock: "inv st \<Longrightarrow> who u person \<Longrightarrow> inv (fst (unlock scope st))"
begin

lemma log_as_inv: "inv (store g) \<Longrightarrow> inv (store (fst (log_as w c own ev p d g)))"
  using inv_log [of "store g" "now_ms w" "Some (caller_person c)" own ev "principal_of (caller_view c)" p d]
  by (simp add: log_as_def case_prod_unfold Let_def)

lemma logged_inv: "inv (fst res) \<Longrightarrow> inv (store (fst (logged w c own ev p d ans g res)))"
  using log_as_inv [of "g\<lparr>store := fst res\<rparr>" w c own ev p]
  by (simp add: logged_def case_prod_unfold split: sum.split)

lemma guarded_inv: "inv (store g) \<Longrightarrow> (\<And>x. r = Inr x \<Longrightarrow> inv (store (fst k))) \<Longrightarrow> inv (store (fst (guarded_by r g k)))"
  by (cases r) (auto simp: guarded_by_def)

lemma manage_owned_inv:
  assumes "inv (store g)" "who u person"
  shows "inv (store (fst (manage_owned w c person req g)))"
proof (cases req)
  case (ProfileCreate i descr pol dflt)
  then show ?thesis using assms by (auto simp: manage_owned_def Let_def intro!: guarded_inv logged_inv inv_create)
next
  case (ProfileRemove i)
  then show ?thesis using assms by (auto simp: manage_owned_def Let_def intro!: guarded_inv logged_inv inv_remove)
next
  case (PolicySet i pol)
  then show ?thesis using assms by (auto simp: manage_owned_def Let_def intro!: guarded_inv logged_inv inv_policy)
next
  case (Put i n v)
  then show ?thesis using assms by (auto simp: manage_owned_def Let_def intro!: guarded_inv logged_inv inv_put)
next
  case (Unset i n)
  then show ?thesis using assms inv_unset [OF assms]
    by (auto simp: manage_owned_def Let_def case_prod_unfold intro!: guarded_inv logged_inv)
next
  case (GrantAdd i to pol til)
  then show ?thesis using assms by (auto simp: manage_owned_def Let_def intro!: guarded_inv logged_inv inv_grant)
next
  case (GrantRemove i)
  then show ?thesis using assms
    by (auto simp: manage_owned_def Let_def split: option.split intro!: guarded_inv logged_inv inv_revoke)
qed (use assms in \<open>simp_all add: manage_owned_def Let_def\<close>)

lemma lock_scope_Inr: "lock_scope c person = Inr scope \<Longrightarrow> scope = ''*'' \<or> person_name scope \<noteq> None"
  by (auto simp: lock_scope_def and_then_Inr split: option.splits if_splits)

lemma require_person_Inr: "require_person c = Inr p \<longleftrightarrow> caller_view c = PersonView p"
  by (auto simp: require_person_def split: caller_view.splits)

lemma manage_inv:
  assumes "inv (store g)" "\<And>p. caller_view c = PersonView p \<Longrightarrow> who (caller_uid c) p"
  shows "inv (store (fst (manage out w c req g)))"
proof (cases "program_for (config out) (caller_uid c)")
  case None
  have me: "who (caller_uid c) p" if "require_person c = Inr p" for p
    using that assms(2) by (simp add: require_person_Inr)
  have rest: "inv (store (fst (case require_person c of Inl e \<Rightarrow> (g, Inl e) | Inr person \<Rightarrow> manage_owned w c person req g)))"
    using assms(1) me manage_owned_inv by (auto split: sum.split)
  show ?thesis
  proof (cases req)
    case (Lock person reason)
    then show ?thesis using assms(1) None
      by (auto simp: manage_def Let_def and_then_Inr dest!: lock_scope_Inr split: sum.split intro!: logged_inv inv_lock)
  next
    case (Unlock person)
    then show ?thesis using assms(1) None me
      by (auto simp: manage_def Let_def case_prod_unfold split: sum.split option.split intro!: guarded_inv logged_inv inv_unlock)
  next
    case (Register node key)
    then show ?thesis using assms(1) None me
      by (auto simp: manage_def Let_def split: sum.split intro!: guarded_inv logged_inv inv_register)
  qed (use assms(1) None rest in \<open>auto simp: manage_def Let_def split: list.split\<close>)
qed (use assms in \<open>simp add: manage_def Let_def\<close>)

lemma refuse_inv: "inv (store g) \<Longrightarrow> inv (store (fst (refuse w c run own p r g)))"
  using log_as_inv by (simp add: refuse_def Let_def case_prod_unfold)

lemma run_call_inv: "inv (store g) \<Longrightarrow> inv (store (fst (run_call out w c run fds g)))"
  by (auto simp: run_call_def run_chosen_def execute_def Let_def case_prod_unfold refuse_inv split: sum.split option.split
      intro!: log_as_inv)

lemma authorized_inv: "inv (store g) \<Longrightarrow> inv (store (fst (authorized out w c a g)))"
proof -
  assume g: "inv (store g)"
  have token: "store (fst (api_token w i g)) = store g" for i
    by (simp add: api_token_def Let_def split: option.split prod.split)
  have "inv (store (fst (send_authorized w c a u to hs t (fst (api_token w i g)))))" for u to hs t i
    using g log_as_inv token by (auto simp: send_authorized_def Let_def case_prod_unfold split: sum.split)
  then show ?thesis
    using g token by (auto simp: authorized_def Let_def case_prod_unfold split: option.split sum.split)
qed

lemma serve_inv:
  assumes "inv (store g)" "\<And>p. caller_view (recheck (config out) (trusts out) (kernel_now w) (daemon (store g)) (now_ms w) nonce c) = PersonView p
    \<Longrightarrow> who (caller_uid c) p"
  shows "inv (store (fst (snd (serve out w nonce req fds c g))))"
proof -
  let ?c = "recheck (config out) (trusts out) (kernel_now w) (daemon (store g)) (now_ms w) nonce c"
  have "caller_uid ?c = caller_uid c" by (simp add: recheck_def)
  then have m: "inv (store (fst (manage out w ?c req g)))" by (intro manage_inv assms) (use assms(2) in simp)
  then show ?thesis
    using run_call_inv [OF assms(1)] authorized_inv [OF assms(1)] assms(1)
    by (cases req) (auto simp: serve_def Let_def case_prod_unfold split: sum.split)
qed

end

end
