(* ===== verification/Gateway_Safety.thy ===== *)
theory Gateway_Safety
  imports Gateway_Access
begin

section \<open>What the secret gateway guarantees\<close>

text \<open>
  Properties of the gateway in every state its events reach: which commands run and which requests
  are sent, who changes profiles, values, grants and keys, what the store keeps true, and that a
  revoked grant stays revoked.
\<close>

subsection \<open>What the store keeps true\<close>

definition profiles_ok :: "profile_row list \<Rightarrow> bool" where
  "profiles_ok rows \<longleftrightarrow> distinct (map profile_id rows)
     \<and> (\<forall>r\<in>set rows. check_profile_id (profile_id r) (owner r) = Inr () \<and> allow (profile_policy r) \<noteq> [])
     \<and> distinct (map owner (filter is_default rows))"

definition sound_grant :: "grant \<Rightarrow> bool" where
  "sound_grant gr \<longleftrightarrow> allow (grant_policy gr) \<noteq> [] \<and> grantee gr \<noteq> granted_by gr
     \<and> kind_of (grantee gr) \<in> {''agent'', ''person'', ''host'', ''program''}
     \<and> (kind_of (grantee gr) = ''agent'' \<longrightarrow> broad_allow (grant_policy gr) = None)
     \<and> (kind_of (grantee gr) = ''program'' \<longrightarrow> program_principal (grantee gr) \<and> (\<forall>r\<in>set (allow (grant_policy gr)). ''*'' \<notin> set (prefix r)))"

definition grants_ok :: "profile_row list \<Rightarrow> (grant \<times> (int \<times> string) option) list \<Rightarrow> bool" where
  "grants_ok rows gs \<longleftrightarrow> distinct (map (grant_id \<circ> fst) gs) \<and> (\<forall>(gr, rv)\<in>set gs. sound_grant gr)
     \<and> (\<forall>gr. (gr, None) \<in> set gs \<longrightarrow> (\<exists>r\<in>set rows. profile_id r = grant_profile gr \<and> owner r = granted_by gr))"

definition log_ok :: "'d log_entry list \<Rightarrow> nat \<Rightarrow> bool" where
  "log_ok es n \<longleftrightarrow> sorted_wrt (<) (map seq es) \<and> (\<forall>e\<in>set es. seq e \<le> n)"

definition locks_ok :: "(string \<times> lock) list \<Rightarrow> bool" where
  "locks_ok ls \<longleftrightarrow> (\<forall>scope\<in>fst ` set ls. scope = ''*'' \<or> person_name scope \<noteq> None)"

definition store_ok :: "'d gateway_store \<Rightarrow> bool" where
  "store_ok st \<longleftrightarrow> profiles_ok (profile_rows st) \<and> grants_ok (profile_rows st) (grant_rows st)
     \<and> log_ok (log_rows st) (last_seq st) \<and> locks_ok (lock_rows st)"

lemma split_on_first: "split_on c s = w # x # ws \<Longrightarrow> \<exists>t. s = w @ c # t"
proof (induction s arbitrary: w)
  case (Cons y s)
  then show ?case by (cases "split_on c s") (auto split: if_splits)
qed simp

lemma program_starts: "program_principal p \<Longrightarrow> starts_with p ''program/''"
proof -
  assume p: "program_principal p"
  then obtain x ws where "split_on (CHR ''/'') p = ''program'' # x # ws"
    by (cases "split_on (CHR ''/'') p"; cases "tl (split_on (CHR ''/'') p)") (auto simp: program_principal_def Let_def)
  then show ?thesis using split_on_first by (fastforce simp: starts_with_iff)
qed

lemma checked_grant_sound:
  assumes "check_policy pol = Inr ()" "check_grantee now person to pol til = Inr ()"
  shows "sound_grant \<lparr>grant_id = i, grant_profile = p, grantee = to, grant_policy = pol, until_ms = til, granted_by = person, granted_at = t\<rparr>"
proof -
  from assms have *: "allow pol \<noteq> []" "to \<noteq> person"
    and to: "starts_with to ''agent/'' \<or> starts_with to ''person/'' \<or> starts_with to ''host/'' \<or> program_principal to"
    and wild: "starts_with to ''program/'' \<Longrightarrow> \<forall>r\<in>set (allow pol). ''*'' \<notin> set (prefix r)"
    and broad: "starts_with to ''agent/'' \<Longrightarrow> broad_allow pol = None"
    by (auto simp: check_policy_def check_grantee_def and_then_Inr list_ex_iff split: if_splits option.splits)
  from to consider "kind_of to = ''agent''" "starts_with to ''agent/''" | "kind_of to = ''person''" | "kind_of to = ''host''"
    | "kind_of to = ''program''" "program_principal to" using kinds by blast
  then show ?thesis by cases (use * wild broad program_starts in \<open>auto simp: sound_grant_def\<close>)
qed

lemma clear_default_fields [simp]:
  "profile_id (clear_default own r) = profile_id r" "owner (clear_default own r) = owner r"
  "profile_policy (clear_default own r) = profile_policy r" "is_default (clear_default own r) \<longleftrightarrow> is_default r \<and> owner r \<noteq> own"
  by (auto simp: clear_default_def)

lemma owners_clear:
  "map owner (filter is_default (map (clear_default own) rows)) = filter (\<lambda>x. x \<noteq> own) (map owner (filter is_default rows))"
  by (induction rows) auto

lemma profiles_ok_clear: "profiles_ok rows \<Longrightarrow> profiles_ok (map (clear_default own) rows)"
  by (simp add: profiles_ok_def comp_def owners_clear del: filter_map)

lemma profiles_ok_snoc:
  assumes "profiles_ok rows" "profile_id new \<notin> profile_id ` set rows" "check_profile_id (profile_id new) (owner new) = Inr ()"
    and "allow (profile_policy new) \<noteq> []" "is_default new \<Longrightarrow> \<forall>r\<in>set rows. owner r = owner new \<longrightarrow> \<not> is_default r"
  shows "profiles_ok (rows @ [new])"
  using assms by (auto simp: profiles_ok_def)

lemma create_profile_rows:
  assumes "profiles_ok (profile_rows st)" "allow pol \<noteq> []" "create_profile ok i own descr pol dflt st = (st', res)" "st' \<noteq> st"
  obtains rows where "st' = st\<lparr>profile_rows := rows\<rparr>" "profiles_ok rows"
    "\<forall>r\<in>set (profile_rows st). \<exists>q\<in>set rows. profile_id q = profile_id r \<and> owner q = owner r"
proof -
  let ?old = "if dflt then map (clear_default own) (profile_rows st) else profile_rows st"
  let ?new = "\<lparr>profile_id = i, owner = own, profile_description = descr, profile_policy = pol, is_default = dflt\<rparr>"
  have st': "st' = st\<lparr>profile_rows := ?old @ [?new]\<rparr>" and i: "check_profile_id i own = Inr ()" "i \<notin> profile_id ` set (profile_rows st)"
    using assms(3,4) by (auto simp: create_profile_def Let_def split: sum.splits if_splits)
  have "profiles_ok ?old" using assms(1) profiles_ok_clear by simp
  then have ok: "profiles_ok (?old @ [?new])" by (rule profiles_ok_snoc) (use assms(2) i in \<open>auto simp: image_iff\<close>)
  have "\<forall>r\<in>set (profile_rows st). \<exists>q\<in>set (?old @ [?new]). profile_id q = profile_id r \<and> owner q = owner r" by auto
  then show thesis by (rule that [OF st' ok])
qed

lemma owned_row: "owned person i st = Inr p \<Longrightarrow> \<exists>r\<in>set (profile_rows st). profile_id r = i \<and> owner r = person"
  by (auto simp: owned_def split: option.splits if_splits elim!: find_profile_row)

lemma revoke_rows: "(gr, rv) \<in> set (revoke which now by_whom gs) \<longleftrightarrow>
    (\<exists>rv'. (gr, rv') \<in> set gs \<and> (if which gr \<and> rv' = None then Some (now, by_whom) else rv') = rv)"
proof
  assume "(gr, rv) \<in> set (revoke which now by_whom gs)"
  then show "\<exists>rv'. (gr, rv') \<in> set gs \<and> (if which gr \<and> rv' = None then Some (now, by_whom) else rv') = rv"
    unfolding revoke_def set_map by (elim imageE) (auto split: prod.splits)
next
  assume "\<exists>rv'. (gr, rv') \<in> set gs \<and> (if which gr \<and> rv' = None then Some (now, by_whom) else rv') = rv"
  then obtain rv' where "(gr, rv') \<in> set gs" "(if which gr \<and> rv' = None then Some (now, by_whom) else rv') = rv" by blast
  then show "(gr, rv) \<in> set (revoke which now by_whom gs)"
    unfolding revoke_def set_map by (intro image_eqI [of _ _ "(gr, rv')"]) simp_all
qed

lemma map_fst_revoke: "map (f \<circ> fst) (revoke which now by_whom gs) = map (f \<circ> fst) gs"
  by (simp add: revoke_def case_prod_unfold comp_def)

lemma grants_ok_rows:
  "grants_ok rows gs \<Longrightarrow> \<forall>r\<in>set rows. \<exists>q\<in>set rows'. profile_id q = profile_id r \<and> owner q = owner r \<Longrightarrow> grants_ok rows' gs"
  unfolding grants_ok_def
proof (elim conjE, intro conjI allI impI)
  fix gr
  assume "\<forall>r\<in>set rows. \<exists>q\<in>set rows'. profile_id q = profile_id r \<and> owner q = owner r" "(gr, None) \<in> set gs"
    "\<forall>gr. (gr, None) \<in> set gs \<longrightarrow> (\<exists>r\<in>set rows. profile_id r = grant_profile gr \<and> owner r = granted_by gr)"
  then obtain r q where "r \<in> set rows" "q \<in> set rows'" "profile_id r = grant_profile gr" "owner r = granted_by gr"
    "profile_id q = profile_id r" "owner q = owner r" by blast
  then show "\<exists>r\<in>set rows'. profile_id r = grant_profile gr \<and> owner r = granted_by gr" by (intro bexI [of _ q]) simp_all
qed

lemma grants_ok_revoke:
  assumes "grants_ok rows gs" "\<And>gr r. (gr, None) \<in> set gs \<Longrightarrow> \<not> which gr \<Longrightarrow> r \<in> set rows \<Longrightarrow> profile_id r = grant_profile gr \<Longrightarrow> r \<in> set rows'"
  shows "grants_ok rows' (revoke which now by_whom gs)"
  unfolding grants_ok_def
proof (intro conjI allI impI)
  show "distinct (map (grant_id \<circ> fst) (revoke which now by_whom gs))" using assms(1) by (simp add: grants_ok_def map_fst_revoke)
  show "\<forall>(gr, rv)\<in>set (revoke which now by_whom gs). sound_grant gr" using assms(1) by (fastforce simp: grants_ok_def revoke_rows)
  fix gr assume "(gr, None) \<in> set (revoke which now by_whom gs)"
  then obtain rv where "(gr, rv) \<in> set gs" "(if which gr \<and> rv = None then Some (now, by_whom) else rv) = None"
    unfolding revoke_rows by blast
  then have live: "(gr, None) \<in> set gs" "\<not> which gr" by (cases rv; simp split: if_splits)+
  with assms(1) obtain r where "r \<in> set rows" "profile_id r = grant_profile gr" "owner r = granted_by gr" by (auto simp: grants_ok_def)
  with assms(2) [OF live] show "\<exists>r\<in>set rows'. profile_id r = grant_profile gr \<and> owner r = granted_by gr" by blast
qed

lemma grants_ok_snoc:
  assumes "grants_ok rows gs" "grant_id g \<notin> (grant_id \<circ> fst) ` set gs" "sound_grant g"
    and "\<exists>r\<in>set rows. profile_id r = grant_profile g \<and> owner r = granted_by g"
  shows "grants_ok rows (gs @ [(g, None)])"
  using assms by (auto simp: grants_ok_def)

lemma log_ok_snoc: "log_ok es n \<Longrightarrow> seq e = Suc n \<Longrightarrow> log_ok (es @ [e]) (Suc n)"
  by (auto simp: log_ok_def sorted_wrt_append)

lemma log_ok_filter: "log_ok es n \<Longrightarrow> log_ok (filter f es) n"
  by (induction es) (auto simp: log_ok_def)

lemma set_alist_update: "fst ` set (AList.update k v al) = insert k (fst ` set al)"
  using dom_update [of k v al] by (simp add: dom_map_of_conv_image_fst)

lemma set_alist_delete: "fst ` set (AList.delete k al) = fst ` set al - {k}"
  by (auto simp: AList.delete_eq)

lemma profiles_ok_map:
  assumes "profiles_ok rows" "\<And>r. profile_id (f r) = profile_id r" "\<And>r. owner (f r) = owner r" "\<And>r. is_default (f r) = is_default r"
    and "\<And>r. r \<in> set rows \<Longrightarrow> allow (profile_policy (f r)) \<noteq> []"
  shows "profiles_ok (map f rows)"
proof -
  have "map owner (filter is_default (map f rows)) = map owner (filter is_default rows)"
    using assms(3,4) by (induction rows) auto
  then show ?thesis using assms by (simp add: profiles_ok_def comp_def del: filter_map)
qed

lemma profiles_ok_filter: "profiles_ok rows \<Longrightarrow> profiles_ok (filter P rows)"
  by (auto simp: profiles_ok_def distinct_map inj_on_def)

lemma store_ok_log: "store_ok st \<Longrightarrow> store_ok (fst (append_log now caller own ev actor about d st))"
  by (simp add: store_ok_def append_log_def Let_def log_ok_snoc)

lemma store_ok_trim: "store_ok st \<Longrightarrow> store_ok (trim_log now keep st)"
  by (simp add: store_ok_def trim_log_def log_ok_filter)

lemma store_ok_create:
  assumes "store_ok st" "check_policy pol = Inr ()"
  shows "store_ok (fst (create_profile ok i person descr pol dflt st))"
proof -
  obtain st' res where c: "create_profile ok i person descr pol dflt st = (st', res)" by force
  show ?thesis
  proof (cases "st' = st")
    case False
    have "profiles_ok (profile_rows st)" "allow pol \<noteq> []" using assms by (simp_all add: store_ok_def check_policy_def)
    then obtain rows where "st' = st\<lparr>profile_rows := rows\<rparr>" "profiles_ok rows"
      "\<forall>r\<in>set (profile_rows st). \<exists>q\<in>set rows. profile_id q = profile_id r \<and> owner q = owner r"
      using c False by (rule create_profile_rows)
    then show ?thesis using assms(1) c grants_ok_rows [of "profile_rows st" "grant_rows st" rows] by (simp add: store_ok_def)
  qed (use assms c in simp)
qed

lemma store_ok_remove: "store_ok st \<Longrightarrow> store_ok (fst (remove_profile ok now i st))"
proof -
  assume st: "store_ok st"
  have "grants_ok (filter (\<lambda>r. profile_id r \<noteq> i) (profile_rows st)) (revoke (\<lambda>g. grant_profile g = i) now ''profile removed'' (grant_rows st))"
    by (rule grants_ok_revoke [of "profile_rows st"]) (use st in \<open>simp_all add: store_ok_def\<close>)
  then show ?thesis using st profiles_ok_filter by (simp add: store_ok_def remove_profile_def)
qed

lemma store_ok_policy:
  assumes "store_ok st" "check_policy pol = Inr ()"
  shows "store_ok (set_policy i pol st)"
proof -
  let ?f = "\<lambda>r. if profile_id r = i then r\<lparr>profile_policy := pol\<rparr> else r"
  have "profiles_ok (map ?f (profile_rows st))"
    by (rule profiles_ok_map) (use assms in \<open>auto simp: store_ok_def check_policy_def profiles_ok_def\<close>)
  moreover have "grants_ok (map ?f (profile_rows st)) (grant_rows st)"
  proof (rule grants_ok_rows [of "profile_rows st"], use assms(1) in \<open>simp add: store_ok_def\<close>, rule ballI)
    fix r assume "r \<in> set (profile_rows st)"
    then show "\<exists>q\<in>set (map ?f (profile_rows st)). profile_id q = profile_id r \<and> owner q = owner r" by (intro bexI [of _ "?f r"]) simp_all
  qed
  ultimately show ?thesis using assms(1) by (simp add: store_ok_def set_policy_def)
qed

lemma store_ok_grant:
  assumes "store_ok st" "owned person i st = Inr p" "check_policy pol = Inr ()" "check_grantee now person to pol til = Inr ()"
  shows "store_ok (fst (add_grant fresh now i to pol til person st))"
  using assms owned_row [OF assms(2)]
  by (simp add: store_ok_def add_grant_def Let_def grants_ok_snoc checked_grant_sound)

lemma store_ok_revoke: "store_ok st \<Longrightarrow> store_ok (revoke_grant i now person st)"
  using grants_ok_revoke [of "profile_rows st" "grant_rows st" "\<lambda>g. grant_id g = i" "profile_rows st"] by (simp add: store_ok_def revoke_grant_def)

lemma store_ok_lock: "store_ok st \<Longrightarrow> scope = ''*'' \<or> person_name scope \<noteq> None \<Longrightarrow> store_ok (put_lock scope by_whom why now st)"
  by (simp add: store_ok_def put_lock_def locks_ok_def set_alist_update)

lemma store_ok_unlock: "store_ok st \<Longrightarrow> store_ok (fst (unlock scope st))"
  by (auto simp: store_ok_def unlock_def locks_ok_def set_alist_delete)

lemma store_ok_rest:
  "store_ok st \<Longrightarrow> store_ok (fst (put i n v st))" "store_ok st \<Longrightarrow> store_ok (fst (unset i n st))"
  "store_ok st \<Longrightarrow> store_ok (register_daemon u person node key st)"
  by (simp_all add: store_ok_def put_def unset_def register_daemon_def split: sum.split)

interpretation kept: store_contract store_ok "\<lambda>_ _. True"
  by unfold_locales
    (simp_all add: store_ok_log store_ok_trim store_ok_create store_ok_remove store_ok_policy store_ok_grant store_ok_revoke store_ok_lock
      store_ok_unlock store_ok_rest)

subsection \<open>Who changes what\<close>

definition access where
  "access st = (profile_rows st, profile_env st, grant_rows st, daemon_rows st)"

interpretation frame: store_contract "\<lambda>st. access st = a" "\<lambda>_ _. False" for a
  by unfold_locales (simp_all add: access_def append_log_def trim_log_def put_lock_def Let_def)

interpretation revoked: store_contract "\<lambda>st. (gr, Some x) \<in> set (grant_rows st)" "\<lambda>_ _. True" for gr x
  by unfold_locales
    (simp_all add: append_log_def trim_log_def put_lock_def create_profile_def remove_profile_def set_policy_def put_def unset_def add_grant_def
      revoke_grant_def register_daemon_def unlock_def revoke_rows Let_def split: sum.split, force+)

interpretation numbered: store_contract "\<lambda>st. n \<le> last_seq st" "\<lambda>_ _. True" for n
  by unfold_locales
    (simp_all add: append_log_def trim_log_def put_lock_def create_profile_def remove_profile_def set_policy_def put_def unset_def add_grant_def
      revoke_grant_def register_daemon_def unlock_def Let_def split: sum.split)

text \<open>What in the store is not one person's: profiles and grants of others, values in profiles under other names, keys of other users.\<close>

definition foreign where
  "foreign p u st =
     (filter (\<lambda>r. owner r \<noteq> p) (profile_rows st),
      filter (\<lambda>x. check_profile_id (fst (fst x)) p \<noteq> Inr ()) (profile_env st),
      filter (\<lambda>(gr, _). granted_by gr \<noteq> p) (grant_rows st),
      filter (\<lambda>x. fst x \<noteq> u) (daemon_rows st))"

lemma filter_alist_update: "\<not> Q k \<Longrightarrow> filter (\<lambda>x. Q (fst x)) (AList.update k v al) = filter (\<lambda>x. Q (fst x)) al"
  by (induction al) auto

lemma filter_alist_delete: "\<not> Q k \<Longrightarrow> filter (\<lambda>x. Q (fst x)) (AList.delete k al) = filter (\<lambda>x. Q (fst x)) al"
  by (induction al) (auto simp: AList.delete_eq)

lemma filter_revoke:
  "(\<And>gr. (gr, None) \<in> set gs \<Longrightarrow> which gr \<Longrightarrow> \<not> Q gr) \<Longrightarrow>
     filter (\<lambda>(gr, _). Q gr) (revoke which now by_whom gs) = filter (\<lambda>(gr, _). Q gr) gs"
proof (induction gs)
  case (Cons x gs)
  then show ?case by (cases x; cases "snd x") (auto simp: revoke_def)
qed (simp add: revoke_def)

lemma filter_clear: "filter (\<lambda>r. owner r \<noteq> p) (map (clear_default p) rows) = filter (\<lambda>r. owner r \<noteq> p) rows"
  by (induction rows) (auto simp: clear_default_def)

lemma owned_facts:
  assumes "store_ok st" "owned p i st = Inr x"
  shows "check_profile_id i p = Inr ()" "r \<in> set (profile_rows st) \<Longrightarrow> profile_id r = i \<Longrightarrow> owner r = p"
    "(gr, None) \<in> set (grant_rows st) \<Longrightarrow> grant_profile gr = i \<Longrightarrow> granted_by gr = p"
proof -
  obtain q where q: "q \<in> set (profile_rows st)" "profile_id q = i" "owner q = p" using owned_row [OF assms(2)] by blast
  have d: "distinct (map profile_id (profile_rows st))" using assms(1) by (simp add: store_ok_def profiles_ok_def)
  show own: "owner r = p" if "r \<in> set (profile_rows st)" "profile_id r = i" for r
    using that q d by (metis distinct_map inj_onD)
  show "check_profile_id i p = Inr ()" using q assms(1) by (auto simp: store_ok_def profiles_ok_def)
  assume "(gr, None) \<in> set (grant_rows st)" "grant_profile gr = i"
  then obtain r where "r \<in> set (profile_rows st)" "profile_id r = i" "owner r = granted_by gr"
    using assms(1) by (auto simp: store_ok_def grants_ok_def)
  then show "granted_by gr = p" using own by metis
qed

lemma foreign_create: "foreign p u (fst (create_profile ok i p descr pol dflt st)) = foreign p u st"
  by (simp add: create_profile_def foreign_def Let_def filter_clear del: filter_map split: sum.split)

lemma foreign_remove:
  assumes "store_ok st" "owned p i st = Inr x"
  shows "foreign p u (fst (remove_profile ok now i st)) = foreign p u st"
proof -
  note o = owned_facts [OF assms]
  have "filter (\<lambda>r. owner r \<noteq> p) (filter (\<lambda>r. profile_id r \<noteq> i) (profile_rows st)) = filter (\<lambda>r. owner r \<noteq> p) (profile_rows st)"
    using o(2) by (auto intro!: filter_cong)
  moreover have "filter (\<lambda>x. check_profile_id (fst (fst x)) p \<noteq> Inr ()) (filter (\<lambda>((j, _), _). j \<noteq> i) (profile_env st))
      = filter (\<lambda>x. check_profile_id (fst (fst x)) p \<noteq> Inr ()) (profile_env st)"
    unfolding filter_filter using o(1) by (intro filter_cong) auto
  moreover have "filter (\<lambda>(gr, _). granted_by gr \<noteq> p) (revoke (\<lambda>g. grant_profile g = i) now ''profile removed'' (grant_rows st))
      = filter (\<lambda>(gr, _). granted_by gr \<noteq> p) (grant_rows st)"
    by (rule filter_revoke) (use o(3) in auto)
  ultimately show ?thesis by (simp add: remove_profile_def foreign_def)
qed

lemma foreign_policy:
  assumes "store_ok st" "owned p i st = Inr x"
  shows "foreign p u (set_policy i pol st) = foreign p u st"
proof -
  have *: "filter (\<lambda>r. owner r \<noteq> p) (map (\<lambda>r. if profile_id r = i then r\<lparr>profile_policy := pol\<rparr> else r) rows) = filter (\<lambda>r. owner r \<noteq> p) rows"
    if "\<forall>r\<in>set rows. profile_id r = i \<longrightarrow> owner r = p" for rows
    using that by (induction rows) auto
  have "\<forall>r\<in>set (profile_rows st). profile_id r = i \<longrightarrow> owner r = p" using owned_facts(2) [OF assms] by blast
  from * [OF this] show ?thesis by (simp add: set_policy_def foreign_def del: filter_map)
qed

lemma foreign_env:
  assumes "store_ok st" "owned p i st = Inr x"
  shows "foreign p u (fst (put i n v st)) = foreign p u st" "foreign p u (fst (unset i n st)) = foreign p u st"
proof -
  let ?Q = "\<lambda>k. check_profile_id (fst k) p \<noteq> Inr ()"
  have n: "\<not> ?Q (i, n)" using owned_facts(1) [OF assms] by simp
  show "foreign p u (fst (put i n v st)) = foreign p u st"
    using filter_alist_update [of ?Q, OF n, of v "profile_env st"] by (simp add: foreign_def put_def split: sum.split)
  show "foreign p u (fst (unset i n st)) = foreign p u st"
    using filter_alist_delete [of ?Q, OF n, of "profile_env st"] by (simp add: foreign_def unset_def)
qed

lemma foreign_revoke:
  assumes "store_ok st" "find_grant i st = Some gr" "owned p (grant_profile gr) st = Inr x"
  shows "foreign p u (revoke_grant i now p st) = foreign p u st"
proof -
  have "gr \<in> set (rev (grants_where (\<lambda>g. grant_id g = i) st))"
    using assms(2) by (cases "rev (grants_where (\<lambda>g. grant_id g = i) st)") (simp_all add: find_grant_def)
  then have gr: "(gr, None) \<in> set (grant_rows st)" "grant_id gr = i" by (auto simp: grants_where_def)
  have d: "distinct (map (grant_id \<circ> fst) (grant_rows st))" using assms(1) by (simp add: store_ok_def grants_ok_def)
  have "granted_by h = p" if "(h, None) \<in> set (grant_rows st)" "grant_id h = i" for h
  proof -
    have "inj_on (grant_id \<circ> fst) (set (grant_rows st))" using d by (simp add: distinct_map)
    then have "(h, None :: (int \<times> string) option) = (gr, None)" by (rule inj_onD) (use that gr in simp_all)
    then have "h = gr" by simp
    then show ?thesis using owned_facts(3) [OF assms(1,3) gr(1)] by simp
  qed
  then have "filter (\<lambda>(h, _). granted_by h \<noteq> p) (revoke (\<lambda>g. grant_id g = i) now p (grant_rows st)) = filter (\<lambda>(h, _). granted_by h \<noteq> p) (grant_rows st)"
    by (intro filter_revoke) auto
  then show ?thesis by (simp add: revoke_grant_def foreign_def)
qed

lemma foreign_grant: "foreign p u (fst (add_grant fresh now i to pol til p st)) = foreign p u st"
  by (simp add: foreign_def add_grant_def Let_def)

lemma foreign_register: "foreign p u (register_daemon u p node key st) = foreign p u st"
  using filter_alist_update [of "\<lambda>v. v \<noteq> u" u "(p, node, key)" "daemon_rows st"] by (simp add: foreign_def register_daemon_def)

interpretation others: store_contract "\<lambda>st. store_ok st \<and> foreign p u st = f" "\<lambda>v q. v = u \<and> q = p" for p u f
proof (unfold_locales, goal_cases)
  case (3 st v person pol ok i descr dflt)
  then show ?case using store_ok_create [of st] by (simp add: foreign_create)
next
  case (4 st v person i x ok now)
  then show ?case using store_ok_remove [of st] foreign_remove [of st p i x] by simp
next
  case (5 st v person i x pol)
  then show ?case using store_ok_policy [of st] foreign_policy [of st p i x] by simp
next
  case (6 st v person i x n w)
  then show ?case using foreign_env(1) [of st p i x] by (simp add: store_ok_rest)
next
  case (7 st v person i x n)
  then show ?case using foreign_env(2) [of st p i x] by (simp add: store_ok_rest)
next
  case (8 st v person i x pol now to til fresh)
  then show ?case using store_ok_grant [of st p i x] by (simp add: foreign_grant)
next
  case (9 st v person i gr x now)
  then show ?case using store_ok_revoke [of st] foreign_revoke [of st i gr p x] by simp
next
  case (10 st v person node key)
  then show ?case by (simp add: foreign_register store_ok_rest)
next
  case (12 st v person scope)
  then show ?case using store_ok_unlock [of st] by (simp add: foreign_def unlock_def)
qed (simp_all add: store_ok_log store_ok_trim store_ok_lock, simp_all add: foreign_def append_log_def trim_log_def put_lock_def Let_def)

subsection \<open>The running gateway\<close>

definition wf_caller :: "gateway_config \<Rightarrow> caller \<Rightarrow> bool" where
  "wf_caller cfg c \<longleftrightarrow> wf_view cfg (caller_uid c) (caller_view c)
     \<and> peer_person cfg (caller_uid c) = (if caller_tile c = None then Some (caller_person c) else None)"

definition system_ok :: "outside \<Rightarrow> system \<Rightarrow> bool" where
  "system_ok out s \<longleftrightarrow> validate_config (config out) = Inr () \<and> store_ok (store (gate s))
     \<and> (\<forall>(c, _)\<in>snd ` set (conns s). wf_caller (config out) c)"

definition later :: "system \<Rightarrow> system \<Rightarrow> bool" where
  "later s t \<longleftrightarrow> (\<forall>gr x. (gr, Some x) \<in> set (grant_rows (store (gate s))) \<longrightarrow> (gr, Some x) \<in> set (grant_rows (store (gate t))))
     \<and> last_seq (store (gate s)) \<le> last_seq (store (gate t))"

lemma read_registry_ok: "registry_ok (read_registry src)"
  by (cases src) (auto simp: registry_ok_def dest: loaded_registry_checked split: sum.splits)

lemma connect_wf:
  assumes "validate_config cfg = Inr ()" "registry_ok rd" "connect cfg tr k ds now own rd uid pid nonce = Inr c"
  shows "wf_caller cfg c"
proof -
  note uid = connect_fields [OF assms(3)]
  from assms(3) show ?thesis
  proof (cases rule: connect_cases)
    case (known p)
    have "wf_view cfg uid (caller_view c)"
      unfolding known(4) by (rule justified_wf [OF assms(1,2) classify_justified [OF known(1)]])
    then show ?thesis using known uid by (simp add: wf_caller_def)
  next
    case (tile r n t)
    have "wf_view cfg uid (caller_view c)"
      unfolding tile(6) using justified_wf [OF assms(1) _ classify_tile_justified [OF tile(3)]] assms(2) tile(2) by blast
    then show ?thesis using tile uid by (simp add: wf_caller_def)
  qed
qed

lemma classify_wf:
  assumes "validate_config cfg = Inr ()" "peer_person cfg uid = Some p"
  shows "wf_view cfg uid (classify cfg tr k ds now uid pid p att nonce)"
proof -
  have "registry_ok (Inr None)" by (simp add: registry_ok_def)
  then show ?thesis by (rule justified_wf [OF assms(1) _ classify_justified [OF assms(2)]])
qed

lemma recheck_wf: "validate_config cfg = Inr () \<Longrightarrow> wf_caller cfg c \<Longrightarrow> wf_caller cfg (recheck cfg tr k ds now nonce c)"
  using classify_wf [of cfg "caller_uid c" "caller_person c"]
  by (cases "caller_tile c") (auto simp: wf_caller_def recheck_def wf_view_def [of _ _ "UnidentifiedView _ _"] peer_person_def split: option.splits)

lemma hello_wf: "validate_config cfg = Inr () \<Longrightarrow> wf_caller cfg c \<Longrightarrow> wf_caller cfg (hello cfg tr k ds now nonce att c)"
  using classify_wf [of cfg "caller_uid c" "caller_person c"] by (auto simp: wf_caller_def hello_def)

lemma serve_wf:
  assumes "validate_config (config out) = Inr ()" "wf_caller (config out) c"
  shows "wf_caller (config out) (fst (serve out w nonce req fds c g))"
  using recheck_wf [OF assms] hello_wf [OF assms(1)]
  by (cases req) (simp_all add: serve_def Let_def case_prod_unfold split: sum.split)

lemma snd_alist_update: "snd ` set (AList.update k v al) \<subseteq> insert v (snd ` set al)"
  by (induction al) auto

lemma snd_alist_delete: "snd ` set (AList.delete k al) \<subseteq> snd ` set al"
  by (auto simp: AList.delete_eq)

lemma conns_update:
  assumes "\<forall>(c, _)\<in>snd ` set cs. P c" "P c"
  shows "\<forall>(c, _)\<in>snd ` set (AList.update i (c, n) cs). P c"
proof
  fix x assume "x \<in> snd ` set (AList.update i (c, n) cs)"
  then have "x \<in> insert (c, n) (snd ` set cs)" using snd_alist_update by (rule rev_subsetD)
  then show "case x of (c, _) \<Rightarrow> P c" using assms by blast
qed

lemma conns_delete: "\<forall>(c, _)\<in>snd ` set cs. P c \<Longrightarrow> \<forall>(c, _)\<in>snd ` set (AList.delete i cs). P c"
  using snd_alist_delete [of i cs] by blast

lemma ask_cases:
  obtains (none) "ask out i w req fds s = s" | (served) c nonce c' g' rep effs where "map_of (conns s) i = Some (c, nonce)"
    "serve out w nonce req fds c (gate s) = (c', g', rep, effs)"
    "ask out i w req fds s = \<lparr>gate = g', conns = (if ends_connection req then AList.delete i (conns s) else AList.update i (c', nonce) (conns s))\<rparr>"
proof (cases "map_of (conns s) i")
  case (Some x)
  obtain c nonce where x: "x = (c, nonce)" by force
  obtain c' g' rep effs where "serve out w nonce req fds c (gate s) = (c', g', rep, effs)" by (metis prod_cases4)
  then show thesis using served Some x by (simp add: ask_def)
qed (use none in \<open>simp add: ask_def\<close>)

lemma conn_wf: "system_ok out s \<Longrightarrow> map_of (conns s) i = Some (c, nonce) \<Longrightarrow> wf_caller (config out) c"
  by (auto simp: system_ok_def dest!: map_of_SomeD)

lemma ask_ok:
  assumes "system_ok out s"
  shows "system_ok out (ask out i w req fds s)"
proof (cases rule: ask_cases [of out i w req fds s])
  case (served c nonce c' g' rep effs)
  have v: "validate_config (config out) = Inr ()" and st: "store_ok (store (gate s))" and cs: "\<forall>(c, _)\<in>snd ` set (conns s). wf_caller (config out) c"
    using assms by (simp_all add: system_ok_def)
  have "store_ok (store g')" using kept.serve_inv [OF st, of out w nonce c req fds] served(2) by simp
  moreover have "wf_caller (config out) c'" using serve_wf [OF v conn_wf [OF assms served(1)], of w nonce req fds "gate s"] served(2) by simp
  ultimately show ?thesis
    unfolding served(3) system_ok_def using v conns_update [OF cs, of c'] conns_delete [OF cs] by (cases "ends_connection req") simp_all
qed (use assms in simp)

lemma accept_peer_ok:
  assumes "system_ok out s"
  shows "system_ok out (accept_peer out i w src uid pid nonce s)"
proof (cases "accept_peer out i w src uid pid nonce s = s")
  case False
  then obtain c where c: "connect (config out) (trusts out) (kernel_now w) (daemon (store (gate s))) (now_ms w) (own_uid out) (read_registry src) uid pid nonce = Inr c"
    "accept_peer out i w src uid pid nonce s = s\<lparr>conns := AList.update i (c, nonce) (conns s)\<rparr>"
    by (auto simp: accept_peer_def split: if_splits sum.splits)
  have v: "validate_config (config out) = Inr ()" and cs: "\<forall>(c, _)\<in>snd ` set (conns s). wf_caller (config out) c"
    using assms by (simp_all add: system_ok_def)
  have "wf_caller (config out) c" by (rule connect_wf [OF v read_registry_ok c(1)])
  from conns_update [of "conns s" "wf_caller (config out)" c, OF cs this] show ?thesis using assms unfolding c(2) system_ok_def by simp
qed (use assms in simp)

lemma step_ok:
  assumes "system_ok out s"
  shows "system_ok out (gateway_step out e s)"
proof (cases e)
  case (Connect i w src uid pid nonce)
  show ?thesis unfolding Connect gateway_step.simps by (rule accept_peer_ok [OF assms])
next
  case (Ask i w req fds)
  show ?thesis unfolding Ask gateway_step.simps by (rule ask_ok [OF assms])
next
  case (Close i)
  have "\<forall>(c, _)\<in>snd ` set (conns s). wf_caller (config out) c" using assms by (simp add: system_ok_def)
  from conns_delete [OF this, of i] show ?thesis using assms unfolding Close system_ok_def by simp
next
  case (Trim now)
  show ?thesis using assms unfolding Trim system_ok_def by (simp add: store_ok_trim)
next
  case Restart
  show ?thesis using assms unfolding Restart system_ok_def by simp
qed

lemma later_step: "later s (gateway_step out e s)"
proof (cases e)
  case (Connect i w src uid pid nonce)
  then show ?thesis by (auto simp: accept_peer_def later_def split: sum.split)
next
  case (Ask i w req fds)
  show ?thesis
  proof (cases rule: ask_cases [of out i w req fds s])
    case (served c nonce c' g' rep effs)
    have "(gr, Some x) \<in> set (grant_rows (store g'))" if "(gr, Some x) \<in> set (grant_rows (store (gate s)))" for gr x
      using revoked.serve_inv [OF that, of out w nonce c req fds] served(2) by simp
    moreover have "last_seq (store (gate s)) \<le> last_seq (store g')"
      using numbered.serve_inv [of "last_seq (store (gate s))" "gate s" out w nonce c req fds] served(2) by simp
    ultimately show ?thesis using served(3) by (simp add: later_def Ask)
  qed (simp add: Ask later_def)
qed (simp_all add: later_def trim_log_def)

interpretation gateway_runs: monotone_machine "gateway_step out" "system_ok out" later for out
  by unfold_locales (simp_all add: step_ok later_step, auto simp: later_def)

lemma fresh_system_ok: "validate_config (config out) = Inr () \<Longrightarrow> system_ok out fresh_system"
  by (simp add: system_ok_def fresh_system_def empty_store_def store_ok_def profiles_ok_def grants_ok_def log_ok_def locks_ok_def)

lemmas reached_ok = gateway_runs.run_inv [OF fresh_system_ok]

subsection \<open>Properties\<close>

text \<open>A command that starts with two literal words of a rule the grant allows.\<close>

definition narrow :: "grant \<Rightarrow> string list \<Rightarrow> bool" where
  "narrow gr argv \<longleftrightarrow>
     (\<exists>r\<in>set (allow (grant_policy gr)). 2 \<le> length (prefix r) \<and> take 2 argv = take 2 (prefix r) \<and> ''*'' \<notin> set (take 2 (prefix r)))"

text \<open>A live grant of the profile by its owner that matches the caller and allows the command.\<close>

definition granted_to :: "int \<Rightarrow> caller_view \<Rightarrow> 'd gateway_store \<Rightarrow> profile_row \<Rightarrow> string list \<Rightarrow> bool" where
  "granted_to now v st r argv \<longleftrightarrow>
     (\<exists>gr who. (gr, None) \<in> set (grant_rows st) \<and> grant_profile gr = profile_id r \<and> granted_by gr = owner r
        \<and> (\<forall>t. until_ms gr = Some t \<longrightarrow> now < t) \<and> principal_of v = Some who \<and> principal_matches (grantee gr) who
        \<and> judge (grant_policy gr) argv = Allowed \<and> (\<forall>a p. v = AgentView a p \<longrightarrow> narrow gr argv))"

lemma broad_allow_narrow:
  assumes "broad_allow (grant_policy gr) = None" "judge (grant_policy gr) argv = Allowed"
  shows "narrow gr argv"
proof -
  obtain r where r: "r \<in> set (allow (grant_policy gr))" "matches_prefix r argv" using assms(2) by (auto simp: judge_Allowed list_ex_iff)
  have long: "2 \<le> length (prefix r)" "''*'' \<notin> set (take 2 (prefix r))"
    using assms(1) r(1) by (auto simp: broad_allow_def find_None_iff list_ex_iff not_less)
  have "take 2 argv = take 2 (prefix r)"
  proof (rule nth_equalityI)
    show len: "length (take 2 argv) = length (take 2 (prefix r))" using r(2) long(1) by (simp add: matches_prefix_def)
    fix k assume k: "k < length (take 2 argv)"
    then have k2: "k < length (take 2 (prefix r))" using len by metis
    then have "take 2 (prefix r) ! k \<noteq> ''*''" using long(2) nth_mem by metis
    then show "take 2 argv ! k = take 2 (prefix r) ! k" using r(2) [unfolded matches_prefix_nth] k2 by auto
  qed
  then show ?thesis using r(1) long by (auto simp: narrow_def)
qed

lemma entitled_reached:
  assumes "store_ok st" "wf_view cfg uid v" "entitled now v st u" "allows argv u"
  obtains r where "r \<in> set (profile_rows st)" "profile_id (used_profile u) = profile_id r" "owner (used_profile u) = owner r"
    "judge (profile_policy r) argv = Allowed" "v = PersonView (owner r) \<or> granted_to now v st r argv"
proof -
  obtain r where r: "r \<in> set (profile_rows st)" "profile_id (used_profile u) = profile_id r" "owner (used_profile u) = owner r"
    "profile_policy (used_profile u) = profile_policy r"
    "case used_grant u of None \<Rightarrow> v = PersonView (owner r)
      | Some gr \<Rightarrow> (gr, None) \<in> set (grant_rows st) \<and> grant_profile gr = profile_id r
          \<and> (\<forall>t. until_ms gr = Some t \<longrightarrow> now < t) \<and> (\<exists>who. principal_of v = Some who \<and> principal_matches (grantee gr) who)"
    using assms(3) unfolding entitled_def by blast
  have ok: "judge (profile_policy r) argv = Allowed" using assms(4) r(4) by (simp add: allows_iff)
  have "v = PersonView (owner r) \<or> granted_to now v st r argv"
  proof (cases "used_grant u")
    case (Some gr)
    then obtain who where g: "(gr, None) \<in> set (grant_rows st)" "grant_profile gr = profile_id r" "\<forall>t. until_ms gr = Some t \<longrightarrow> now < t"
      "principal_of v = Some who" "principal_matches (grantee gr) who" using r(5) by auto
    have j: "judge (grant_policy gr) argv = Allowed" using assms(4) Some by (simp add: allows_iff)
    have s: "sound_grant gr" using assms(1) g(1) by (auto simp: store_ok_def grants_ok_def)
    obtain q where q: "q \<in> set (profile_rows st)" "profile_id q = grant_profile gr" "owner q = granted_by gr"
      using assms(1) g(1) by (auto simp: store_ok_def grants_ok_def)
    have "q = r" using q(1,2) r(1) g(2) assms(1) by (auto simp: store_ok_def profiles_ok_def distinct_map dest: inj_onD)
    have n: "narrow gr argv" if "v = AgentView a p" for a p
    proof -
      have "kind_of who = ''agent''" using assms(2) g(4) that by (auto simp: wf_view_def)
      moreover have "CHR ''*'' \<notin> set (kind_of (grantee gr))" using s by (auto simp: sound_grant_def)
      ultimately have "kind_of (grantee gr) = ''agent''" using matches_kind [OF g(5)] by simp
      then show ?thesis using s j broad_allow_narrow by (simp add: sound_grant_def)
    qed
    have "granted_to now v st r argv"
      unfolding granted_to_def by (intro exI [of _ gr] exI [of _ who]) (use g j n q(3) \<open>q = r\<close> in simp)
    then show ?thesis ..
  qed (use r(5) in simp)
  then show thesis by (rule that [OF r(1-3) ok])
qed

text \<open>
  C6. A command runs only for someone entitled to the profile. In every state the gateway reaches, when
  a request runs a command with a profile, the profile exists, neither everyone nor the caller's
  person nor the owner is locked, and either the owner calls from a login session and the profile's
  policy allows the command or it is a login, or the policy allows it and a live, unexpired grant by
  the owner matches the caller and allows it too. An agent's command then starts with two literal words
  of the grant's allow list, and a program runs exactly its enrolled command.
\<close>

theorem run_needs_entitlement:
  assumes "validate_config (config out) = Inr ()" "s = fold (gateway_step out) es fresh_system" "map_of (conns s) i = Some (c, nonce)"
    and "serve out w nonce (Run run) fds c (gate s) = (c', g', rep, effs)" "Executed p argv lg \<in> set effs"
  shows "\<exists>r\<in>set (profile_rows (store (gate s))). profile_id r = p
    \<and> map_of (lock_rows (store (gate s))) ''*'' = None \<and> map_of (lock_rows (store (gate s))) (caller_person c) = None
    \<and> map_of (lock_rows (store (gate s))) (owner r) = None
    \<and> (caller_view c' = PersonView (owner r) \<and> (lg \<or> judge (profile_policy r) argv = Allowed)
       \<or> \<not> lg \<and> judge (profile_policy r) argv = Allowed \<and> granted_to (now_ms w) (caller_view c') (store (gate s)) r argv)
    \<and> (\<forall>g. program_for (config out) (caller_uid c) = Some g \<longrightarrow> \<not> lg \<and> argv = program_command g)"
proof -
  have ok: "system_ok out s" unfolding assms(2) by (rule reached_ok [OF assms(1)])
  then have st: "store_ok (store (gate s))" by (simp add: system_ok_def)
  have r: "run_call out w c' run fds (gate s) = (g', rep, effs)" and c': "caller_uid c' = caller_uid c" "caller_person c' = caller_person c"
    using assms(4) by (auto simp: serve_def Let_def recheck_def)
  have wf: "wf_view (config out) (caller_uid c') (caller_view c')"
    using serve_wf [OF assms(1) conn_wf [OF ok assms(3)], of w nonce "Run run" fds "gate s"] assms(4) by (simp add: wf_caller_def)
  obtain u run' where u: "choose_profile out (now_ms w) c' run' (store (gate s)) = Inr u" "p = profile_id (used_profile u)"
    "argv = run_argv run'" "lg = login run'" "lock_for (caller_person c') (owner (used_profile u)) (store (gate s)) = None"
    using run_call_effects [OF r assms(5)] by blast
  note ch = choose_profile_Inr [OF u(1)]
  have prog: "\<forall>g. program_for (config out) (caller_uid c) = Some g \<longrightarrow> \<not> lg \<and> argv = program_command g"
    using ch(3) u(3,4) c'(1) by auto
  show ?thesis
  proof (cases lg)
    case True
    then obtain r where "r \<in> set (profile_rows (store (gate s)))" "profile_id r = p" "owner (used_profile u) = owner r" "caller_view c' = PersonView (owner r)"
      using ch(1,2) u(2,4) by (auto simp: entitled_def)
    then show ?thesis using u(5) c'(2) True prog by (intro bexI [of _ r]) (simp_all add: lock_for_None)
  next
    case False
    then have "allows argv u" using ch(2) u(3,4) by simp
    from st wf ch(1) this obtain r where "r \<in> set (profile_rows (store (gate s)))" "profile_id (used_profile u) = profile_id r"
      "owner (used_profile u) = owner r" "judge (profile_policy r) argv = Allowed"
      "caller_view c' = PersonView (owner r) \<or> granted_to (now_ms w) (caller_view c') (store (gate s)) r argv"
      by (rule entitled_reached)
    then show ?thesis using u(2,5) c'(2) False prog by (intro bexI [of _ r]) (auto simp: lock_for_None)
  qed
qed


text \<open>
  C8. Only a person changes profiles, values, grants and keys, and only their own. A request of a caller that
  is no person in a login session leaves them all as they were, and a request of a person leaves the
  profiles and grants of others, the values in profiles under other names and the keys of other users
  as they were.
\<close>

theorem others_unchanged:
  assumes "validate_config (config out) = Inr ()" "s = fold (gateway_step out) es fresh_system" "map_of (conns s) i = Some (c, nonce)"
    and "serve out w nonce req fds c (gate s) = (c', g', rep, effs)" "\<not> (\<exists>att. req = Hello att)"
  shows "(\<forall>p. caller_view c' = PersonView p \<longrightarrow> foreign p (caller_uid c) (store g') = foreign p (caller_uid c) (store (gate s)))
    \<and> ((\<forall>p. caller_view c' \<noteq> PersonView p) \<longrightarrow> access (store g') = access (store (gate s)))"
proof -
  have ok: "system_ok out s" unfolding assms(2) by (rule reached_ok [OF assms(1)])
  let ?c = "recheck (config out) (trusts out) (kernel_now w) (daemon (store (gate s))) (now_ms w) nonce c"
  have c': "c' = ?c" using assms(4,5) by (cases req) (auto simp: serve_def Let_def split: prod.splits sum.splits)
  have g': "fst (snd (serve out w nonce req fds c (gate s))) = g'" using assms(4) by simp
  show ?thesis
  proof (cases "\<exists>p. caller_view c' = PersonView p")
    case True
    then obtain p where p: "caller_view c' = PersonView p" by blast
    have "store_ok (store g') \<and> foreign p (caller_uid c) (store g') = foreign p (caller_uid c) (store (gate s))"
      unfolding g' [symmetric] by (rule others.serve_inv) (use ok p c' in \<open>auto simp: system_ok_def\<close>)
    then show ?thesis using p by auto
  next
    case False
    have "access (store g') = access (store (gate s))"
      unfolding g' [symmetric] by (rule frame.serve_inv) (use False c' in auto)
    then show ?thesis using False by simp
  qed
qed

text \<open>
  C31. Every reached store is sound: profile ids are distinct and start with their owner's name, every policy
  allows something, each owner has at most one default profile, every live grant is of an existing
  profile by its owner, grants to agents list subcommands and grants to programs name one program and
  use no wildcard, locks are on everyone or a person, and log numbers only grow.
\<close>

theorem reached_store_sound:
  assumes "validate_config (config out) = Inr ()"
  shows "store_ok (store (gate (fold (gateway_step out) es fresh_system)))"
  using reached_ok [OF assms, of es] by (simp add: system_ok_def)

text \<open>
  C25. A revoked grant stays revoked. Once a grant is revoked, in every state reached later no live grant
  has its id, so no caller may use a profile by it, whatever happens in between.
\<close>

theorem revoked_for_good:
  assumes "validate_config (config out) = Inr ()" "s = fold (gateway_step out) es fresh_system" "(gr, Some x) \<in> set (grant_rows (store (gate s)))"
  shows "let t = fold (gateway_step out) later_events s
    in (gr, Some x) \<in> set (grant_rows (store (gate t)))
       \<and> (\<forall>now v u h. u \<in> set (usable_by now v (store (gate t))) \<and> used_grant u = Some h \<longrightarrow> grant_id h \<noteq> grant_id gr)"
proof -
  let ?t = "fold (gateway_step out) later_events s"
  have ok: "system_ok out s" unfolding assms(2) by (rule reached_ok [OF assms(1)])
  have kept: "(gr, Some x) \<in> set (grant_rows (store (gate ?t)))"
    using gateway_runs.run_le [OF ok, of later_events] assms(3) unfolding later_def by blast
  have "store_ok (store (gate ?t))" using gateway_runs.run_inv [OF ok] by (simp add: system_ok_def)
  then have inj: "inj_on (grant_id \<circ> fst) (set (grant_rows (store (gate ?t))))" by (simp add: store_ok_def grants_ok_def distinct_map)
  have "grant_id h \<noteq> grant_id gr" if "u \<in> set (usable_by now v (store (gate ?t)))" "used_grant u = Some h" for now v u h
  proof
    assume "grant_id h = grant_id gr"
    moreover have "(h, None) \<in> set (grant_rows (store (gate ?t)))" using usable_entitled [OF that(1)] that(2) by (auto simp: entitled_def)
    ultimately have "(h, None) = (gr, Some x)" using inj_onD [OF inj _ _ kept, of "(h, None)"] by simp
    then show False by simp
  qed
  then show ?thesis using kept by (auto simp: Let_def)
qed

subsection \<open>An example\<close>

definition example_url :: url where
  "example_url = \<lparr>scheme = ''https'', url_host = Some ''api.github.com'', port = Some 443, url_path = ''/'', username = [], password = None\<rparr>"

definition example_outside :: outside where
  "example_outside = \<lparr>config = example_config, trusts = no_trust, own_uid = Some 9, parse_url = \<lambda>_. Some example_url, decode_base64 = Some\<rparr>"

definition example_world :: world where
  "example_world = \<lparr>now_ms = 1000, kernel_now = in_cgroup ''/user.slice/user-7.slice/session-4.scope'', fresh_id = ''1'', directory_ok = True,
     sandbox_cwd = Inr ''/home/ada'', command_end = Inr (Some 0, None), gh_login = None, http_answer = Inr (200, [], [])\<rparr>"

definition anything :: policy where
  "anything = \<lparr>allow = [rule_prefix [''*'']], deny = [], presets = []\<rparr>"

definition one_command :: policy where
  "one_command = \<lparr>allow = [rule_prefix [''gh'', ''pr'']], deny = [], presets = []\<rparr>"

definition example_requests :: "request list" where
  "example_requests = [ProfileCreate ''ada/gh'' None anything True, Put ''ada/gh'' ''GH_TOKEN'' ''t0'',
     GrantAdd ''ada/gh'' ''agent/web'' one_command None, GrantRemove ''grant/1'']"

definition example_events :: "gateway_event list" where
  "example_events = Connect 1 example_world RegistryAbsent 7 100 ''n'' # map (\<lambda>r. Ask 1 example_world r []) example_requests"

definition example_system :: system where
  "example_system = fold (gateway_step example_outside) example_events fresh_system"

definition example_caller :: caller where
  "example_caller = \<lparr>caller_uid = 7, caller_pid = 100, pid_start = Some 5, caller_person = ''person/ada'',
     caller_view = PersonView ''person/ada'', caller_tile = None\<rparr>"

lemma seven: "decimal 7 = ''7''" by code_simp

lemmas text_eval = check_profile_id_def check_env_name_def RESERVED_def split_once_def valid_word_def person_name_def strip_prefix_def
  starts_with_def is_lower_def is_upper_def is_digit_def less_eq_char_def ensure_def

definition example_profile_row :: profile_row where
  "example_profile_row = \<lparr>profile_id = ''ada/gh'', owner = ''person/ada'', profile_description = None, profile_policy = anything, is_default = True\<rparr>"

definition example_grant :: grant where
  "example_grant = \<lparr>grant_id = ''grant/1'', grant_profile = ''ada/gh'', grantee = ''agent/web'', grant_policy = one_command, until_ms = None,
     granted_by = ''person/ada'', granted_at = 1000\<rparr>"

definition example_gate where
  "example_gate rows vals gs es n =
     \<lparr>store = \<lparr>profile_rows = rows, profile_env = vals, grant_rows = gs, daemon_rows = [], lock_rows = [], log_rows = es, last_seq = n\<rparr>, tokens = []\<rparr>"

lemma example_connect:
  "connect example_config no_trust (kernel_now example_world) ds now (Some 9) (Inr None) 7 100 ''n'' = Inr example_caller"
  by (simp add: connect_def peer_person_def peer_registry_def program_for_def person_for_def example_config_def seven in_cgroup_def example_caller_def
      example_world_def classify_def placement_of_def strip_prefix_def strip_suffix_def)

lemma example_recheck: "recheck (config example_outside) tr k ds now nonce example_caller = example_caller"
  by (simp add: recheck_def program_for_def example_outside_def example_config_def)

lemma example_no_program: "program_for (config example_outside) uid = None"
  by (simp add: program_for_def example_outside_def example_config_def)

lemma example_person: "require_person example_caller = Inr ''person/ada''" "caller_view example_caller = PersonView ''person/ada''"
  by (simp_all add: require_person_def example_caller_def)

lemma example_ask:
  assumes "req \<in> set example_requests"
  shows "ask example_outside 1 example_world req [] \<lparr>gate = g, conns = [(1, example_caller, ''n'')]\<rparr> =
    \<lparr>gate = fst (manage_owned example_world example_caller ''person/ada'' req g), conns = [(1, example_caller, ''n'')]\<rparr>"
  using assms
  by (auto simp: ask_def example_requests_def ends_connection_def serve_def manage_def Let_def example_recheck example_no_program example_person
      split: prod.split sum.split)

lemmas manage_eval = manage_owned_def guarded_by_def check_policy_def owned_def find_profile_def env_def profile_row.defs logged_def log_as_def append_log_def
  example_profile_row_def example_gate_def example_world_def text_eval

lemma example_create:
  "\<exists>es. fst (manage_owned example_world example_caller ''person/ada'' (ProfileCreate ''ada/gh'' None anything True) (example_gate [] [] [] [] 0))
     = example_gate [example_profile_row] [] [] es 1"
  by (simp add: manage_eval create_profile_def anything_def)

lemma example_put:
  "\<exists>es'. fst (manage_owned example_world example_caller ''person/ada'' (Put ''ada/gh'' ''GH_TOKEN'' ''t0'') (example_gate [example_profile_row] [] [] es n))
     = example_gate [example_profile_row] [((''ada/gh'', ''GH_TOKEN''), ''t0'')] [] es' (Suc n)"
  by (simp add: manage_eval put_def)

lemma example_grant_add:
  "\<exists>es'. fst (manage_owned example_world example_caller ''person/ada'' (GrantAdd ''ada/gh'' ''agent/web'' one_command None) (example_gate [example_profile_row] vs [] es n))
     = example_gate [example_profile_row] vs [(example_grant, None)] es' (Suc n)"
  by (simp add: manage_eval Let_def add_grant_def check_grantee_def one_command_def rule_prefix_def broad_allow_def example_grant_def)

lemma example_grant_remove:
  "\<exists>es'. fst (manage_owned example_world example_caller ''person/ada'' (GrantRemove ''grant/1'') (example_gate [example_profile_row] vs [(example_grant, None)] es n))
     = example_gate [example_profile_row] vs [(example_grant, Some (1000, ''person/ada''))] es' (Suc n)"
  by (simp add: manage_eval find_grant_def grants_where_def revoke_grant_def revoke_def example_grant_def)

lemma example_system_eq:
  "\<exists>es n. example_system = \<lparr>gate = example_gate [example_profile_row] [((''ada/gh'', ''GH_TOKEN''), ''t0'')] [(example_grant, Some (1000, ''person/ada''))] es n,
     conns = [(1, example_caller, ''n'')]\<rparr>"
proof -
  have "gateway_step example_outside (Connect 1 example_world RegistryAbsent 7 100 ''n'') fresh_system
      = \<lparr>gate = example_gate [] [] [] [] 0, conns = [(1, example_caller, ''n'')]\<rparr>"
    using example_connect by (simp add: accept_peer_def fresh_system_def example_gate_def empty_store_def example_outside_def)
  moreover have "ProfileCreate ''ada/gh'' None anything True \<in> set example_requests" "Put ''ada/gh'' ''GH_TOKEN'' ''t0'' \<in> set example_requests"
    "GrantAdd ''ada/gh'' ''agent/web'' one_command None \<in> set example_requests" "GrantRemove ''grant/1'' \<in> set example_requests"
    by (simp_all add: example_requests_def)
  moreover obtain e1 where "fst (manage_owned example_world example_caller ''person/ada'' (ProfileCreate ''ada/gh'' None anything True) (example_gate [] [] [] [] 0))
     = example_gate [example_profile_row] [] [] e1 1" using example_create by blast
  moreover obtain e2 where "fst (manage_owned example_world example_caller ''person/ada'' (Put ''ada/gh'' ''GH_TOKEN'' ''t0'') (example_gate [example_profile_row] [] [] e1 1))
     = example_gate [example_profile_row] [((''ada/gh'', ''GH_TOKEN''), ''t0'')] [] e2 (Suc 1)" using example_put by blast
  moreover obtain e3 where "fst (manage_owned example_world example_caller ''person/ada'' (GrantAdd ''ada/gh'' ''agent/web'' one_command None)
       (example_gate [example_profile_row] [((''ada/gh'', ''GH_TOKEN''), ''t0'')] [] e2 (Suc 1)))
     = example_gate [example_profile_row] [((''ada/gh'', ''GH_TOKEN''), ''t0'')] [(example_grant, None)] e3 (Suc (Suc 1))" using example_grant_add by blast
  moreover obtain e4 where "fst (manage_owned example_world example_caller ''person/ada'' (GrantRemove ''grant/1'')
       (example_gate [example_profile_row] [((''ada/gh'', ''GH_TOKEN''), ''t0'')] [(example_grant, None)] e3 (Suc (Suc 1))))
     = example_gate [example_profile_row] [((''ada/gh'', ''GH_TOKEN''), ''t0'')] [(example_grant, Some (1000, ''person/ada''))] e4 (Suc (Suc (Suc 1)))"
    using example_grant_remove by blast
  ultimately have "example_system = \<lparr>gate = example_gate [example_profile_row] [((''ada/gh'', ''GH_TOKEN''), ''t0'')] [(example_grant, Some (1000, ''person/ada''))] e4 (Suc (Suc (Suc 1))),
     conns = [(1, example_caller, ''n'')]\<rparr>"
    unfolding example_system_def example_events_def
    by (simp only: example_requests_def list.map fold_simps id_apply gateway_step.simps example_ask [unfolded example_requests_def])
  then show ?thesis by blast
qed

lemma example_gate_eq:
  "\<exists>es n. gate example_system = example_gate [example_profile_row] [((''ada/gh'', ''GH_TOKEN''), ''t0'')] [(example_grant, Some (1000, ''person/ada''))] es n"
  using example_system_eq by (metis system.select_convs(1))

lemma example_conn: "map_of (conns example_system) 1 = Some (example_caller, ''n'')"
proof -
  have "conns example_system = [(1, example_caller, ''n'')]" using example_system_eq by (metis system.select_convs(2))
  then show ?thesis by simp
qed

lemma example_valid: "validate_config (config example_outside) = Inr ()"
  by (simp add: example_outside_def example_config_def validate_config_def check_person_def parse_unsigned_def decimal_value_def digit_value_def
      plain_root_def is_absolute_def path_eq_def components_def text_eval)

definition example_run :: run_request where
  "example_run = \<lparr>run_profile = None, run_argv = [''gh'', ''pr'', ''list''], on_tty = False, directories = 1, files = 0, login = False\<rparr>"

lemma example_usable:
  "usable_by now (caller_view example_caller) (store (example_gate [example_profile_row] vs [(example_grant, Some x)] es n)) =
     [\<lparr>used_profile = profile_row.extend example_profile_row \<lparr>env_names = map fst (env ''ada/gh'' (store (example_gate [example_profile_row] vs [(example_grant, Some x)] es n)))\<rparr>,
       used_grant = None\<rparr>]"
  by (simp add: usable_by_def example_person own_profiles_def profiles_def List.map_filter_def find_profile_def grants_def grants_where_def
      example_gate_def example_profile_row_def profile_row.defs)

lemma example_allows:
  "argv \<noteq> [] \<Longrightarrow> allows argv \<lparr>used_profile = profile_row.extend example_profile_row x, used_grant = None\<rparr>"
  by (cases argv) (simp_all add: allows_iff example_profile_row_def profile_row.defs anything_def judge_def matches_prefix_def rule_prefix_def)

lemma example_runs:
  "snd (snd (run_call example_outside example_world example_caller example_run [4, 5, 6, 7] (gate example_system)))
     = [Executed ''ada/gh'' [''gh'', ''pr'', ''list''] False]"
proof -
  obtain es n where s: "gate example_system = example_gate [example_profile_row] [((''ada/gh'', ''GH_TOKEN''), ''t0'')] [(example_grant, Some (1000, ''person/ada''))] es n"
    using example_gate_eq by blast
  let ?u = "\<lparr>used_profile = profile_row.extend example_profile_row \<lparr>env_names = [''GH_TOKEN'']\<rparr>, used_grant = None\<rparr>"
  have us: "usable_by 1000 (PersonView ''person/ada'') (store (gate example_system)) = [?u]"
    using example_usable [of 1000 _ _ es n] unfolding s example_person by (simp add: env_def example_gate_def)
  have sub: "substitute (run_argv example_run) [] = (run_argv example_run, Inr ())"
    by (simp add: substitute_def example_run_def substitute_arg.simps starts_with_def strip_prefix_def)
  have "choose_profile example_outside 1000 example_caller example_run (store (gate example_system)) = Inr ?u"
    using example_allows [of "run_argv example_run"]
    by (simp add: choose_profile_def example_person example_no_program us example_run_def choose_any_def allows_def example_profile_row_def profile_row.defs)
  moreover have "lock_for x y (store (gate example_system)) = None" for x y
    by (simp add: s example_gate_def lock_for_def)
  ultimately show ?thesis
    using sub
    by (simp add: run_call_def usize_def streams_def example_run_def example_world_def run_chosen_def prepare_def execute_def log_as_def
        example_profile_row_def profile_row.defs Let_def case_prod_unfold)
qed

definition example_call :: authorized_call where
  "example_call = \<lparr>call_profile = ''ada/gh'', call_method = ''get'', call_url = ''https://api.github.com/'', call_headers = [], call_body = []\<rparr>"

lemma example_sends:
  assumes "store g = (store (example_gate [example_profile_row] [((''ada/gh'', ''GH_TOKEN''), ''t0'')] [(example_grant, Some x)] es n))\<lparr>lock_rows := ls\<rparr>"
    and "tokens g = []"
  shows "snd (snd (authorized example_outside example_world example_caller example_call g)) = [Sent ''ada/gh'' ''t0'' example_url []]"
proof -
  let ?u = "\<lparr>used_profile = profile_row.extend example_profile_row \<lparr>env_names = [''GH_TOKEN'']\<rparr>, used_grant = None\<rparr>"
  have us: "usable_by 1000 (PersonView ''person/ada'') (store g) = [?u]"
    unfolding assms(1)
    by (simp add: usable_by_def own_profiles_def profiles_def List.map_filter_def find_profile_def grants_def grants_where_def env_def
        example_gate_def example_profile_row_def profile_row.defs)
  have token: "api_token example_world ''ada/gh'' g = (g\<lparr>tokens := [(''ada/gh'', ''t0'')]\<rparr>, Inr ''t0'')"
    by (simp add: api_token_def assms example_gate_def env_def)
  show ?thesis
    using example_allows [of "authorized_argv example_call"] token
    by (simp add: authorized_def example_no_program [unfolded example_outside_def outside.select_convs] example_person example_world_def us example_call_def authorized_argv_def example_profile_row_def profile_row.defs
        check_url_def example_outside_def under_base_def example_url_def trim_slashes_def check_body_def MAX_REQUEST_BODY_def send_authorized_def
        log_as_def Let_def case_prod_unfold)
qed

theorem run_needs_entitlement_witness:
  "\<exists>r\<in>set (profile_rows (store (gate example_system))). profile_id r = ''ada/gh'' \<and> map_of (lock_rows (store (gate example_system))) ''*'' = None"
proof -
  let ?rc = "run_call example_outside example_world example_caller example_run [4, 5, 6, 7] (gate example_system)"
  have "serve example_outside example_world ''n'' (Run example_run) [4, 5, 6, 7] example_caller (gate example_system)
      = (example_caller, fst ?rc, fst (snd ?rc), snd (snd ?rc))"
    by (simp add: serve_def Let_def example_recheck)
  from run_needs_entitlement [OF example_valid example_system_def example_conn this, of "''ada/gh''" "[''gh'', ''pr'', ''list'']" False]
  show ?thesis by (auto simp: example_runs)
qed


theorem others_unchanged_witness:
  "foreign ''person/ada'' 7 (store (fst (snd (serve example_outside example_world ''n'' ProfileList [] example_caller (gate example_system)))))
     = foreign ''person/ada'' 7 (store (gate example_system))"
proof -
  let ?s = "serve example_outside example_world ''n'' ProfileList [] example_caller (gate example_system)"
  have "?s = (example_caller, fst (snd ?s), fst (snd (snd ?s)), snd (snd (snd ?s)))"
    by (simp add: serve_def Let_def example_recheck case_prod_unfold split: sum.split)
  from others_unchanged [OF example_valid example_system_def example_conn this] show ?thesis
    by (simp add: example_person) (simp add: example_caller_def)
qed

theorem reached_store_sound_witness: "store_ok (store (gate example_system))"
  using reached_store_sound [OF example_valid, of example_events] by (simp add: example_system_def)

theorem revoked_for_good_witness:
  "(example_grant, Some (1000, ''person/ada'')) \<in> set (grant_rows (store (gate (fold (gateway_step example_outside) [Restart] example_system))))"
proof -
  obtain es n where "gate example_system = example_gate [example_profile_row] [((''ada/gh'', ''GH_TOKEN''), ''t0'')] [(example_grant, Some (1000, ''person/ada''))] es n"
    using example_gate_eq by blast
  then have "(example_grant, Some (1000, ''person/ada'')) \<in> set (grant_rows (store (gate example_system)))" by (simp add: example_gate_def)
  from revoked_for_good [OF example_valid example_system_def this, of "[Restart]"] show ?thesis by (simp add: Let_def)
qed

lemma usable_locks: "usable_by now v (st\<lparr>lock_rows := ls\<rparr>) = usable_by now v st"
proof -
  have f: "find_profile i (st\<lparr>lock_rows := ls\<rparr>) = find_profile i st" for i by (simp add: find_profile_def env_def)
  then have "profiles (st\<lparr>lock_rows := ls\<rparr>) = profiles st" by (simp add: profiles_def)
  then have "own_profiles v (st\<lparr>lock_rows := ls\<rparr>) = own_profiles v st" by (cases v) (simp_all add: own_profiles_def)
  moreover have "granted_profile now who own (st\<lparr>lock_rows := ls\<rparr>) = granted_profile now who own st" for who own
    by (rule ext) (simp add: granted_profile_def f)
  moreover have "grants (st\<lparr>lock_rows := ls\<rparr>) = grants st" by (simp add: grants_def grants_where_def)
  ultimately show ?thesis by (cases "principal_of v") (simp_all add: usable_by_def)
qed

lemma token_locks: "snd (api_token w i (g\<lparr>store := (store g)\<lparr>lock_rows := ls\<rparr>\<rparr>)) = snd (api_token w i g)"
  by (simp add: api_token_def env_def Let_def split: option.split)

lemma send_effects: "snd (snd (send_authorized w c a u to hs t g)) = [Sent (profile_id (used_profile u)) t to hs]"
  by (simp add: send_authorized_def Let_def case_prod_unfold split: sum.split)

lemma authorized_locks: "snd (snd (authorized out w c a (g\<lparr>store := (store g)\<lparr>lock_rows := ls\<rparr>\<rparr>))) = snd (snd (authorized out w c a g))"
  by (simp add: authorized_def Let_def usable_locks token_locks send_effects case_prod_unfold split: option.split sum.split)

text \<open>
  C39. A lock does not stop authorized requests. What an authorized request sends does not depend on the locks,
  and after its owner has locked everyone out, a profile's token still leaves the gateway.
\<close>

theorem locked_gateway_still_sends:
  "(\<forall>out w c a g ls. snd (snd (authorized out w c a (g\<lparr>store := (store g)\<lparr>lock_rows := ls\<rparr>\<rparr>))) = snd (snd (authorized out w c a g)))
   \<and> (let s = gateway_step example_outside (Ask 1 example_world (Lock None (Some ''token leaked'')) []) example_system
      in map_of (lock_rows (store (gate s))) ''*'' \<noteq> None
         \<and> snd (snd (snd (serve example_outside example_world ''n'' (Authorized example_call) [] example_caller (gate s))))
           = [Sent ''ada/gh'' ''t0'' example_url []])"
proof -
  let ?req = "Lock None (Some ''token leaked'')"
  let ?vs = "[((''ada/gh'', ''GH_TOKEN''), ''t0'')]" and ?gs = "[(example_grant, Some (1000, ''person/ada''))]"
  let ?l = "\<lparr>locked_by = ''person/ada'', lock_reason = Some ''token leaked'', lock_at = 1000\<rparr>"
  obtain es n where s: "gate example_system = example_gate [example_profile_row] ?vs ?gs es n" using example_gate_eq by blast
  have "\<exists>es' n'. store (gate (ask example_outside 1 example_world ?req [] example_system))
      = (store (example_gate [example_profile_row] ?vs ?gs es' n'))\<lparr>lock_rows := [(''*'', ?l)]\<rparr>
    \<and> tokens (gate (ask example_outside 1 example_world ?req [] example_system)) = []"
    using example_conn
    by (simp add: ask_def serve_def manage_def Let_def example_recheck example_no_program example_person identified_def lock_scope_def logged_def log_as_def
        append_log_def put_lock_def s example_gate_def example_world_def)
  then obtain es' n' where g: "store (gate (ask example_outside 1 example_world ?req [] example_system))
      = (store (example_gate [example_profile_row] ?vs ?gs es' n'))\<lparr>lock_rows := [(''*'', ?l)]\<rparr>"
    "tokens (gate (ask example_outside 1 example_world ?req [] example_system)) = []" by blast
  have "map_of (lock_rows (store (gate (ask example_outside 1 example_world ?req [] example_system)))) ''*'' \<noteq> None" unfolding g by simp
  moreover have "snd (snd (snd (serve example_outside example_world ''n'' (Authorized example_call) [] example_caller
      (gate (ask example_outside 1 example_world ?req [] example_system))))) = [Sent ''ada/gh'' ''t0'' example_url []]"
    using example_sends [OF g] by (simp add: serve_def Let_def example_recheck)
  ultimately show ?thesis using authorized_locks by (simp only: gateway_step.simps Let_def) blast
qed

end
