(* ===== verification/Frame_Gate.thy ===== *)
theory Frame_Gate
  imports Prelude "HOL-Library.Word"
begin

section \<open>What a raw terminal client may send\<close>

text \<open>
  Models \<open>FrameGate\<close> of \<open>crates/fractal-api-core/src/api/client_v0/raw_terminal.rs\<close>: the filter between a
  client's byte stream and the socket of a terminal. It checks the header of every frame and forwards
  payloads as they come, whatever way the stream is cut into messages. The tags of frames belong to the terminal
  library, so \<open>from_u8\<close> is an argument. A socket that fails ends the stream and is not modelled.
\<close>

subsection \<open>The gate\<close>

datatype raw_mode = AttachMode | PeekMode

datatype message_type = MsgAttach | MsgPeek | MsgData | MsgResize | MsgDetach | MsgStatus | MsgResetInputModes | MsgOther

record frame_gate =
  gate_mode :: "raw_mode option"
  header :: "8 word list"
  used :: nat
  remaining :: nat
  attached :: bool

definition new_gate :: "raw_mode option \<Rightarrow> frame_gate" where
  "new_gate m = \<lparr>gate_mode = m, header = replicate 5 0, used = 0, remaining = 0, attached = False\<rparr>"

definition be32 :: "8 word list \<Rightarrow> nat" where
  "be32 bs = unat (word_rcat (take 4 bs) :: 32 word)"

definition permitted :: "raw_mode option \<Rightarrow> bool \<Rightarrow> message_type \<Rightarrow> bool" where
  "permitted m att t =
     (case m of
        None \<Rightarrow> True
      | Some AttachMode \<Rightarrow>
          if \<not> att then t = MsgAttach
          else t \<in> {MsgData, MsgResize, MsgDetach, MsgStatus, MsgResetInputModes}
      | Some PeekMode \<Rightarrow> if \<not> att then t = MsgPeek else t \<in> {MsgDetach, MsgStatus})"

definition header_ok :: "(8 word \<Rightarrow> message_type) \<Rightarrow> raw_mode option \<Rightarrow> bool \<Rightarrow> 8 word list \<Rightarrow> bool" where
  "header_ok from_u8 m att h =
     (let t = from_u8 (h ! 0); len = be32 (drop 1 h)
      in permitted m att t \<and> len \<le> 16 * 1024 * 1024 \<and> \<not> (t = MsgResetInputModes \<and> len \<noteq> 0))"

text \<open>\<open>None\<close> is the error \<open>PermissionDenied\<close>.\<close>

definition accept_header :: "(8 word \<Rightarrow> message_type) \<Rightarrow> frame_gate \<Rightarrow> frame_gate option" where
  "accept_header from_u8 g =
     (if header_ok from_u8 (gate_mode g) (attached g) (header g)
      then Some (g\<lparr>attached := True, remaining := be32 (drop 1 (header g))\<rparr>)
      else None)"

text \<open>The gate after a message, the bytes it wrote to the terminal, and whether the stream goes on.\<close>

function write_gate :: "(8 word \<Rightarrow> message_type) \<Rightarrow> frame_gate \<Rightarrow> 8 word list \<Rightarrow> frame_gate \<times> 8 word list \<times> bool" where
  "write_gate from_u8 g bytes =
     (if bytes = [] then (g, [], True)
      else if remaining g = 0 then
        let count = min (5 - used g) (length bytes);
            g1 = g\<lparr>header := take (used g) (header g) @ take count bytes @ drop (used g + count) (header g),
                   used := used g + count\<rparr>;
            rest = drop count bytes
        in if used g1 < 5 then write_gate from_u8 g1 rest
           else case accept_header from_u8 g1 of
                  None \<Rightarrow> (g1, [], False)
                | Some g2 \<Rightarrow>
                    let (g3, out, ok) = write_gate from_u8 (g2\<lparr>used := 0\<rparr>) rest in (g3, header g2 @ out, ok)
      else
        let count = min (remaining g) (length bytes);
            (g', out, ok) = write_gate from_u8 (g\<lparr>remaining := remaining g - count\<rparr>) (drop count bytes)
        in (g', take count bytes @ out, ok))"
  by pat_completeness auto
termination
  by (relation "measure (\<lambda>(_, g, bytes). 2 * length bytes + (if 5 \<le> used g then 1 else 0))")
    (auto simp: accept_header_def min_def split: if_splits)

text \<open>The messages of a client one after the other, until one is refused.\<close>

fun write_all :: "(8 word \<Rightarrow> message_type) \<Rightarrow> frame_gate \<Rightarrow> 8 word list list \<Rightarrow> 8 word list \<times> bool" where
  "write_all from_u8 g [] = ([], True)"
| "write_all from_u8 g (b # bs) =
     (let (g', out, ok) = write_gate from_u8 g b
      in if ok then (let (out', ok') = write_all from_u8 g' bs in (out @ out', ok')) else (out, False))"

subsection \<open>A reference: frames of the whole stream\<close>

text \<open>
  The same filter over the whole stream at once: a complete header is checked and its frame, as far as it
  has arrived, is passed; an incomplete header is held back; a refused one ends the stream.
\<close>

function forward :: "(8 word \<Rightarrow> message_type) \<Rightarrow> raw_mode option \<Rightarrow> bool \<Rightarrow> 8 word list \<Rightarrow> 8 word list \<times> bool" where
  "forward from_u8 m att bs =
     (if length bs < 5 then ([], True)
      else if header_ok from_u8 m att (take 5 bs) then
        let n = 5 + be32 (take 4 (drop 1 bs)); (out, ok) = forward from_u8 m True (drop n bs)
        in (take n bs @ out, ok)
      else ([], False))"
  by pat_completeness auto
termination by (relation "measure (\<lambda>(_, _, _, bs). length bs)") auto

declare write_gate.simps [simp del] forward.simps [simp del]

definition gate_ok :: "frame_gate \<Rightarrow> bool" where
  "gate_ok g = (length (header g) = 5 \<and> used g < 5 \<and> (0 < remaining g \<longrightarrow> used g = 0))"

definition resume :: "(8 word \<Rightarrow> message_type) \<Rightarrow> frame_gate \<Rightarrow> 8 word list \<Rightarrow> 8 word list \<times> bool" where
  "resume from_u8 g bs =
     (if remaining g = 0 then forward from_u8 (gate_mode g) (attached g) (take (used g) (header g) @ bs)
      else let (out, ok) = forward from_u8 (gate_mode g) (attached g) (drop (remaining g) bs)
           in (take (remaining g) bs @ out, ok))"

subsection \<open>Lemmas: the gate follows the reference\<close>

lemma be32_take [simp]: "be32 (take 4 bs) = be32 bs"
  by (simp add: be32_def)

lemma drop_1_take: "drop (Suc 0) (take 5 bs) = take 4 (drop (Suc 0) bs)"
  by (simp add: drop_take)

lemma forward_short: "length bs < 5 \<Longrightarrow> forward f m att bs = ([], True)"
  by (simp add: forward.simps)

lemma forward_refused: "length h = 5 \<Longrightarrow> \<not> header_ok f m att h \<Longrightarrow> forward f m att (h @ bs) = ([], False)"
  by (subst forward.simps) simp

lemma forward_frame:
  assumes "length h = 5" "header_ok f m att h"
  shows "forward f m att (h @ bs) =
    (let n = be32 (drop 1 h); (out, ok) = forward f m True (drop n bs) in (h @ take n bs @ out, ok))"
proof -
  have "take 4 (drop (Suc 0) (h @ bs)) = drop (Suc 0) h" using assms(1) by simp
  then show ?thesis using assms by (subst forward.simps) (simp add: Let_def split: prod.split)
qed

lemma accepted_header:
  assumes "length (header g) = 5" "remaining g = 0"
  shows "case accept_header f g of
      None \<Rightarrow> forward f (gate_mode g) (attached g) (header g @ bs) = ([], False)
    | Some g2 \<Rightarrow> gate_ok (g2\<lparr>used := 0\<rparr>) \<and> header g2 = header g \<and>
        forward f (gate_mode g) (attached g) (header g @ bs)
          = (header g2 @ fst (resume f (g2\<lparr>used := 0\<rparr>) bs), snd (resume f (g2\<lparr>used := 0\<rparr>) bs))"
  using assms
  by (auto simp: accept_header_def forward_refused forward_frame gate_ok_def resume_def Let_def split: prod.split)

lemma resume_payload:
  assumes "0 < remaining g" "k = min (remaining g) (length bs)" "gate_ok g"
  shows "resume f g (bs @ rest) =
    (take k bs @ fst (resume f (g\<lparr>remaining := remaining g - k\<rparr>) (drop k bs @ rest)),
     snd (resume f (g\<lparr>remaining := remaining g - k\<rparr>) (drop k bs @ rest)))"
  using assms by (cases "remaining g \<le> length bs") (auto simp: resume_def gate_ok_def min_def split: prod.split)

definition fill :: "frame_gate \<Rightarrow> nat \<Rightarrow> 8 word list \<Rightarrow> frame_gate" where
  "fill g k bs = g\<lparr>header := take (used g) (header g) @ take k bs @ drop (used g + k) (header g), used := used g + k\<rparr>"

lemma write_gate_nil: "write_gate f g [] = (g, [], True)"
  by (simp add: write_gate.simps)

lemma write_gate_header:
  assumes "bs \<noteq> []" "remaining g = 0" "k = min (5 - used g) (length bs)"
  shows "write_gate f g bs =
    (if used (fill g k bs) < 5 then write_gate f (fill g k bs) (drop k bs)
     else case accept_header f (fill g k bs) of
            None \<Rightarrow> (fill g k bs, [], False)
          | Some g2 \<Rightarrow>
              let (g3, out, ok) = write_gate f (g2\<lparr>used := 0\<rparr>) (drop k bs) in (g3, header g2 @ out, ok))"
  unfolding fill_def assms(3) by (subst write_gate.simps) (simp only: Let_def assms(1,2) if_False if_True simp_thms)

lemma write_gate_payload:
  assumes "bs \<noteq> []" "0 < remaining g" "k = min (remaining g) (length bs)"
  shows "write_gate f g bs =
    (let (g', out, ok) = write_gate f (g\<lparr>remaining := remaining g - k\<rparr>) (drop k bs) in (g', take k bs @ out, ok))"
proof -
  have "(remaining g = 0) = False" using assms(2) by simp
  then show ?thesis unfolding assms(3) by (subst write_gate.simps) (simp only: Let_def assms(1) if_False)
qed

lemma write_gate_resumes:
  assumes "gate_ok g" "write_gate f g bs = (g', out, ok)"
  shows "if ok then gate_ok g' \<and> (\<forall>rest. resume f g (bs @ rest) = (out @ fst (resume f g' rest), snd (resume f g' rest)))
    else (\<forall>rest. resume f g (bs @ rest) = (out, False))"
  using assms
proof (induction "2 * length bs + (if 5 \<le> used g then 1 else 0)" arbitrary: g bs g' out ok rule: less_induct)
  case less
  have g: "length (header g) = 5" "used g < 5" "0 < remaining g \<longrightarrow> used g = 0"
    using less.prems(1) by (auto simp: gate_ok_def)
  define k where "k = min (5 - used g) (length bs)"
  define p where "p = min (remaining g) (length bs)"
  let ?g1 = "fill g k bs" and ?r = "g\<lparr>remaining := remaining g - p\<rparr>"
  consider "bs = []" | "bs \<noteq> []" "remaining g = 0" "used ?g1 < 5" | "bs \<noteq> []" "remaining g = 0" "\<not> used ?g1 < 5"
    | "bs \<noteq> []" "0 < remaining g" by linarith
  then show ?case
  proof cases
    case 1
    then show ?thesis using less.prems by (simp add: write_gate_nil)
  next
    case 2
    have k: "k = length bs" "0 < k" using 2 g by (auto simp: k_def fill_def min_def split: if_splits)
    have g1: "gate_ok ?g1" using g 2 k by (auto simp: gate_ok_def fill_def)
    have w: "write_gate f ?g1 (drop k bs) = (g', out, ok)"
      using less.prems(2) 2 by (simp add: write_gate_header [OF 2(1,2) k_def])
    have eq: "resume f g (bs @ rest) = resume f ?g1 (drop k bs @ rest)" for rest
      using 2 g k by (simp add: resume_def fill_def)
    have "2 * length (drop k bs) + (if 5 \<le> used ?g1 then 1 else 0) < 2 * length bs + (if 5 \<le> used g then 1 else 0)"
      using k 2 by simp
    from less.hyps [OF this g1 w] show ?thesis by (simp only: eq)
  next
    case 3
    have k: "used g + k = 5" "0 < k" "k \<le> length bs" using 3 g by (auto simp: k_def fill_def min_def split: if_splits)
    have h: "length (header ?g1) = 5" "remaining ?g1 = 0" using 3 g k by (auto simp: fill_def)
    have eq: "resume f g (bs @ rest) = forward f (gate_mode ?g1) (attached ?g1) (header ?g1 @ drop k bs @ rest)" for rest
      using 3 g k by (simp add: resume_def fill_def) (metis append_assoc append_take_drop_id)
    show ?thesis
    proof (cases "accept_header f ?g1")
      case None
      then show ?thesis using less.prems(2) 3 accepted_header [OF h, of f] eq
        by (simp add: write_gate_header [OF 3(1,2) k_def])
    next
      case (Some g2)
      let ?g2 = "g2\<lparr>used := 0\<rparr>"
      obtain g3 o3 k3 where w: "write_gate f ?g2 (drop k bs) = (g3, o3, k3)" by (cases "write_gate f ?g2 (drop k bs)")
      have r: "g' = g3" "out = header g2 @ o3" "ok = k3"
        using less.prems(2) 3 Some w by (simp_all add: write_gate_header [OF 3(1,2) k_def])
      have a: "gate_ok ?g2" "resume f g (bs @ rest) =
          (header g2 @ fst (resume f ?g2 (drop k bs @ rest)), snd (resume f ?g2 (drop k bs @ rest)))" for rest
        using accepted_header [OF h, of f "drop k bs @ rest"] Some unfolding eq by simp_all
      have "2 * length (drop k bs) + (if 5 \<le> used ?g2 then 1 else 0) < 2 * length bs + (if 5 \<le> used g then 1 else 0)"
        using k by simp
      from less.hyps [OF this a(1) w] show ?thesis using r by (simp add: a(2) split: if_splits)
    qed
  next
    case 4
    obtain g3 o3 k3 where w: "write_gate f ?r (drop p bs) = (g3, o3, k3)" by (cases "write_gate f ?r (drop p bs)")
    have r: "g' = g3" "out = take p bs @ o3" "ok = k3"
      using less.prems(2) w by (simp_all add: write_gate_payload [OF 4 p_def])
    have g1: "gate_ok ?r" using g 4 by (auto simp: gate_ok_def)
    have "2 * length (drop p bs) + (if 5 \<le> used ?r then 1 else 0) < 2 * length bs + (if 5 \<le> used g then 1 else 0)"
      using 4 g by (auto simp: p_def min_def)
    from less.hyps [OF this g1 w] show ?thesis
      using r resume_payload [OF 4(2) p_def less.prems(1), of f] by (simp split: if_splits)
  qed
qed

lemma resume_nil: "gate_ok g \<Longrightarrow> resume f g [] = ([], True)"
  by (simp add: resume_def gate_ok_def forward_short)

lemma write_all_resumes: "gate_ok g \<Longrightarrow> write_all f g chunks = resume f g (concat chunks)"
proof (induction chunks arbitrary: g)
  case (Cons b bs)
  obtain g' out ok where w: "write_gate f g b = (g', out, ok)" by (cases "write_gate f g b")
  show ?case using write_gate_resumes [OF Cons.prems w] Cons.IH [of g'] w
    by (auto simp: Let_def split: if_splits prod.split)
qed (simp add: resume_nil)

lemma gate_ok_new: "gate_ok (new_gate m)"
  by (simp add: gate_ok_def new_gate_def)

subsection \<open>Lemmas: the frames the terminal reads\<close>

text \<open>
  The tags of the frames in a stream as the terminal reads it; the last payload may still be on its way.
  \<open>None\<close> means that the stream stops inside a header.
\<close>

function frame_tags :: "8 word list \<Rightarrow> 8 word list option" where
  "frame_tags bs =
     (if bs = [] then Some []
      else if length bs < 5 then None
      else map_option (Cons (bs ! 0)) (frame_tags (drop (5 + be32 (take 4 (drop 1 bs))) bs)))"
  by pat_completeness auto
termination by (relation "measure length") auto

declare frame_tags.simps [simp del]

lemma frame_tags_frame:
  assumes "5 \<le> length bs" "n = 5 + be32 (take 4 (drop 1 bs))" "out = [] \<or> n \<le> length bs"
  shows "frame_tags (take n bs @ out) = map_option (Cons (bs ! 0)) (frame_tags out)"
proof -
  have "4 \<le> length bs - 1" "4 \<le> n - 1" using assms(1,2) by auto
  then have h: "take 4 (drop 1 (take n bs @ out)) = take 4 (drop 1 bs)" by (simp add: drop_take)
  have d: "drop n (take n bs @ out) = out" using assms(3) by auto
  show ?thesis
    using assms(1,2) h d by (subst frame_tags.simps) (auto simp: nth_append simp del: take_drop)
qed

lemma forward_frames:
  "\<exists>ts. frame_tags (fst (forward f m att bs)) = Some ts
     \<and> (\<forall>t r. ts = t # r \<longrightarrow> permitted m att (f t) \<and> (\<forall>u\<in>set r. permitted m True (f u)))
     \<and> (\<exists>rest. bs = fst (forward f m att bs) @ rest)"
proof (induction "length bs" arbitrary: att bs rule: less_induct)
  case less
  define n where "n = 5 + be32 (take 4 (drop 1 bs))"
  show ?case
  proof (cases "5 \<le> length bs \<and> header_ok f m att (take 5 bs)")
    case False
    then have "fst (forward f m att bs) = []" by (subst forward.simps) auto
    then show ?thesis by (simp add: frame_tags.simps)
  next
    case True
    then have fw: "fst (forward f m att bs) = take n bs @ fst (forward f m True (drop n bs))"
      by (subst forward.simps) (simp add: Let_def n_def split: prod.split)
    have ok: "permitted m att (f (bs ! 0))" using True by (simp add: header_ok_def Let_def)
    have "length (drop n bs) < length bs" using True by (auto simp: n_def)
    from less.hyps [OF this, of True] obtain ts rest where ts: "frame_tags (fst (forward f m True (drop n bs))) = Some ts"
        "\<forall>t r. ts = t # r \<longrightarrow> permitted m True (f t) \<and> (\<forall>u\<in>set r. permitted m True (f u))"
        "drop n bs = fst (forward f m True (drop n bs)) @ rest" by blast
    have "fst (forward f m True (drop n bs)) = [] \<or> n \<le> length bs" by (cases "n \<le> length bs") (auto simp: forward_short)
    then have "frame_tags (fst (forward f m att bs)) = Some (bs ! 0 # ts)"
      using True n_def ts(1) unfolding fw by (subst frame_tags_frame) auto
    moreover have "\<forall>u\<in>set ts. permitted m True (f u)" using ts(2) by (cases ts) auto
    moreover have "bs = fst (forward f m att bs) @ rest" using ts(3) unfolding fw by (metis append_assoc append_take_drop_id)
    ultimately show ?thesis using ok by blast
  qed
qed

subsection \<open>Properties\<close>

text \<open>
  C17. The gate treats a client's stream as one stream. However the bytes are cut into messages, a
  new gate writes to the terminal exactly what the reference passes of the whole stream, and refuses the stream exactly
  when the reference does.
\<close>

theorem gate_ignores_message_boundaries:
  "write_all from_u8 (new_gate m) chunks = forward from_u8 m False (concat chunks)"
  using write_all_resumes [OF gate_ok_new] by (simp add: resume_def new_gate_def)

text \<open>
  A peek never types. Whatever a client in peek mode sends, and in whatever pieces, the bytes the gate
  writes are a prefix of what it sent, never stop inside a header, and hold one peek frame followed only by
  detach and status frames: no input, resize or attach frame reaches the terminal.
\<close>

lemma peek_never_types:
  "\<exists>ts rest. concat chunks = fst (write_all from_u8 (new_gate (Some PeekMode)) chunks) @ rest
    \<and> frame_tags (fst (write_all from_u8 (new_gate (Some PeekMode)) chunks)) = Some ts
    \<and> map from_u8 ts \<in> insert [] {MsgPeek # r |r. set r \<subseteq> {MsgDetach, MsgStatus}}"
proof -
  let ?out = "fst (forward from_u8 (Some PeekMode) False (concat chunks))"
  obtain ts rest where ts: "frame_tags ?out = Some ts" "concat chunks = ?out @ rest"
      "\<forall>t r. ts = t # r \<longrightarrow> permitted (Some PeekMode) False (from_u8 t) \<and> (\<forall>u\<in>set r. permitted (Some PeekMode) True (from_u8 u))"
    using forward_frames [of from_u8 "Some PeekMode" False "concat chunks"] by blast
  have "write_all from_u8 (new_gate (Some PeekMode)) chunks = forward from_u8 (Some PeekMode) False (concat chunks)"
    using write_all_resumes [OF gate_ok_new] by (simp add: resume_def new_gate_def)
  moreover have "map from_u8 ts \<in> insert [] {MsgPeek # r |r. set r \<subseteq> {MsgDetach, MsgStatus}}"
    using ts(3) by (cases ts) (auto simp: permitted_def)
  ultimately show ?thesis using ts(1,2) by auto
qed

end
