(* ===== verification/Fleet_View.thy ===== *)
theory Fleet_View
  imports Trust_Roots
begin

section \<open>Who may exchange with a node\<close>

text \<open>
  Models \<open>crates/smallclaims/src/fleet/view.rs\<close>: the view of the folded membership that the replication
  worker and the relay read, and \<open>accept\<close>, the table that decides on the sender of a signed
  message. The theorems relate the table to the state of a name in the membership and, through the
  fold, to the chain of admissions from the anchor.
\<close>

subsection \<open>The view\<close>

record member_view =
  view_name :: string
  view_key :: string
  view_state :: string
  view_mode :: string
  view_endpoints :: "json list"
  view_start :: nat
  view_end :: "nat option"
  view_ended :: "string option"
  view_removed_by :: "string option"
  view_removal_reason :: "string option"

record fleet_view =
  view_anchor :: "string option"
  view_members :: "member_view list"
  legacy_removed :: "string list"

text \<open>The iterators over the ordered maps of a membership.\<close>

definition all_incarnations :: "membership \<Rightarrow> incarnation list" where
  "all_incarnations m = concat (map (incarnations_of m) (sorted_list_of_set (dom (incarnations m))))"

definition legacy_removed_names :: "membership \<Rightarrow> string list" where
  "legacy_removed_names m = sorted_list_of_set (dom (legacy_ends m))"

definition state_label :: "member_state \<Rightarrow> incarnation \<Rightarrow> string" where
  "state_label s i =
     (if (case s of Conflicted current \<Rightarrow> list_ex (\<lambda>j. member_key j = member_key i) current | _ \<Rightarrow> False) then ''conflicted''
      else if window_end i = None then ''current'' else ''ended'')"

definition member_view_of :: "string \<Rightarrow> member_state \<Rightarrow> incarnation \<Rightarrow> member_view" where
  "member_view_of n s i =
     \<lparr>view_name = n, view_key = member_key i, view_state = state_label s i, view_mode = mode i,
      view_endpoints = endpoints i, view_start = start i, view_end = window_end i, view_ended = ended i,
      view_removed_by = removed_by i, view_removal_reason = removal_reason i\<rparr>"

definition from_membership :: "membership \<Rightarrow> fleet_view" where
  "from_membership m =
     (let names = sort (remdups (map inc_name (all_incarnations m)))
      in \<lparr>view_anchor = anchor m,
          view_members = concat (map (\<lambda>n. map (member_view_of n (state m n))
            (filter (\<lambda>i. inc_name i = n) (all_incarnations m))) names),
          legacy_removed = filter (\<lambda>n. n \<notin> set names) (legacy_removed_names m)\<rparr>)"

definition current :: "fleet_view \<Rightarrow> string \<Rightarrow> member_view list" where
  "current v n = filter (\<lambda>x. view_name x = n \<and> view_state x \<noteq> ''ended'') (view_members v)"

definition ended_keys :: "fleet_view \<Rightarrow> string \<Rightarrow> member_view list" where
  "ended_keys v n = filter (\<lambda>x. view_name x = n \<and> view_state x = ''ended'') (view_members v)"

subsection \<open>The acceptance table\<close>

record sender =
  sender_name :: string
  sender_key :: "string option"
  member_signature_valid :: bool

datatype acceptance = AcceptMember | AcceptLegacy

record refusal =
  refusal_status :: nat
  refusal_code :: string
  refusal_message :: string
  refusal_key :: "string option"

definition quoted :: "string \<Rightarrow> string" where
  "quoted n = ''`'' @ n @ ''`''"

text \<open>The refusal that names an ended key.\<close>

definition ended_refusal :: "string \<Rightarrow> member_view \<Rightarrow> refusal" where
  "ended_refusal n x =
     (let left = (view_ended x = Some ''left'')
      in \<lparr>refusal_status = 403, refusal_code = (if left then ''member-left'' else ''member-removed''),
          refusal_message =
            (case (view_removed_by x, view_removal_reason x) of
               (Some by_whom, Some why) \<Rightarrow>
                 if left then quoted n @ '' is no longer a member of this fleet''
                 else quoted n @ '' was removed from this fleet by '' @ by_whom @ '': '' @ why
             | _ \<Rightarrow> quoted n @ '' is no longer a member of this fleet''),
          refusal_key = Some (view_key x)\<rparr>)"

definition refusal_without_key :: "nat \<Rightarrow> string \<Rightarrow> string \<Rightarrow> refusal" where
  "refusal_without_key s c t = \<lparr>refusal_status = s, refusal_code = c, refusal_message = t, refusal_key = None\<rparr>"

definition accept :: "fleet_view \<Rightarrow> sender \<Rightarrow> bool \<Rightarrow> bool \<Rightarrow> refusal + acceptance" where
  "accept v s config_peer legacy =
     (let n = sender_name s; cur = current v n
      in if 1 < length cur then
           Inl (refusal_without_key 409 ''member-conflicted'' (quoted n @ '' has more than one current member key''))
         else case cur of
           x # _ \<Rightarrow>
             if member_signature_valid s \<and> sender_key s = Some (view_key x) then Inr AcceptMember
             else if legacy \<and> config_peer then Inr AcceptLegacy
             else Inl (refusal_without_key 401 ''member-signature-required'' (quoted n @ '' must sign with its member key''))
         | [] \<Rightarrow>
             let gone = ended_keys v n; removed_legacy = (n \<in> set (legacy_removed v))
             in case (case sender_key s of
                        Some k \<Rightarrow> find (\<lambda>x. view_key x = k) gone
                      | None \<Rightarrow> (if gone = [] then None else Some (last gone))) of
                  Some x \<Rightarrow> Inl (ended_refusal n x)
                | None \<Rightarrow>
                    if removed_legacy \<and> sender_key s = None then
                      Inl (refusal_without_key 403 ''member-removed'' (quoted n @ '' was removed from this fleet''))
                    else if config_peer \<and> legacy \<and> gone = [] \<and> \<not> removed_legacy then Inr AcceptLegacy
                    else Inl (refusal_without_key 403 ''not-a-member'' (quoted n @ '' is not a member of this fleet'')))"

subsection \<open>Lemmas: the view lists what the membership holds\<close>

definition proper :: "membership \<Rightarrow> bool" where
  "proper m = (well_named m \<and> one_per_key m \<and> finite (dom (incarnations m)) \<and> finite (dom (legacy_ends m)))"

lemma finite_dom_admit: "finite (dom (incarnations m)) \<Longrightarrow> finite (dom (incarnations (Membership.admit c m)))"
  by (auto simp: Membership.admit_def split: option.splits)

lemma finite_dom_amend:
  "finite (dom (incarnations m)) \<and> finite (dom (legacy_ends m)) \<Longrightarrow>
     finite (dom (incarnations (amend c m))) \<and> finite (dom (legacy_ends (amend c m)))"
  by (auto simp: amend_def update_incarnation_def split: option.splits)

lemma legacy_ends_admit: "legacy_ends (Membership.admit c m) = legacy_ends m"
  by (auto simp: Membership.admit_def split: option.splits)

lemma proper_build: "proper (build a cs v)"
proof -
  have ad: "finite (dom (incarnations m)) \<Longrightarrow> finite (dom (incarnations (fold Membership.admit ds m)))" for ds m
    by (induction ds arbitrary: m) (simp_all add: finite_dom_admit)
  have le: "legacy_ends (fold Membership.admit ds m) = legacy_ends m" for ds m
    by (induction ds arbitrary: m) (simp_all add: legacy_ends_admit)
  have am: "finite (dom (incarnations m)) \<and> finite (dom (legacy_ends m)) \<Longrightarrow>
      finite (dom (incarnations (fold amend ds m))) \<and> finite (dom (legacy_ends (fold amend ds m)))" for ds m
    by (induction ds arbitrary: m) (simp_all add: finite_dom_amend)
  show ?thesis
    unfolding proper_def using well_named_build one_per_key_build
    by (simp add: build_def Let_def am ad le no_membership_def)
qed

lemma proper_fold: "proper (fold_membership anc claims)"
proof (cases anc)
  case None
  then show ?thesis
    by (simp add: fold_membership_def proper_def well_named_def one_per_key_def incarnations_of_def no_membership_def)
qed (simp add: fold_membership_def Let_def proper_build)

lemma concat_at: "distinct ns \<Longrightarrow> concat (map (\<lambda>x. if x = n then ys else []) ns) = (if n \<in> set ns then ys else [])"
  by (induction ns) auto

lemma filter_all_incarnations:
  assumes "proper m"
  shows "filter (\<lambda>i. inc_name i = n) (all_incarnations m) = incarnations_of m n"
proof -
  have named: "inc_name i = x" if "i \<in> set (incarnations_of m x)" for i x
    using assms that by (auto simp: proper_def well_named_def)
  have one: "filter (\<lambda>i. inc_name i = n) (incarnations_of m x) = (if x = n then incarnations_of m n else [])" for x
    using named [of _ x] by (auto simp: filter_empty_conv filter_id_conv)
  have "incarnations m n = None \<Longrightarrow> incarnations_of m n = []" by (simp add: incarnations_of_def)
  then show ?thesis
    using assms
    by (cases "incarnations m n") (auto simp: all_incarnations_def filter_concat one concat_at proper_def comp_def)
qed

lemma set_names: "proper m \<Longrightarrow> set (map inc_name (all_incarnations m)) = {n. incarnations_of m n \<noteq> []}"
proof -
  assume m: "proper m"
  have "n \<in> set (map inc_name (all_incarnations m)) \<longleftrightarrow> filter (\<lambda>i. inc_name i = n) (all_incarnations m) \<noteq> []" for n
    by (auto simp: filter_empty_conv)
  then show ?thesis unfolding filter_all_incarnations [OF m] by blast
qed

lemma filter_view_members:
  assumes "proper m"
  shows "filter (\<lambda>x. view_name x = n \<and> P x) (view_members (from_membership m))
    = filter P (map (member_view_of n (state m n)) (incarnations_of m n))"
proof -
  let ?names = "sort (remdups (map inc_name (all_incarnations m)))"
  have one: "filter (\<lambda>x. view_name x = n \<and> P x) (map (member_view_of k (state m k)) is)
      = (if k = n then filter P (map (member_view_of n (state m n)) is) else [])" for k "is"
    by (auto simp: filter_empty_conv member_view_of_def intro!: filter_cong)
  have "filter (\<lambda>x. view_name x = n \<and> P x) (view_members (from_membership m))
      = concat (map (\<lambda>k. if k = n then filter P (map (member_view_of n (state m n)) (incarnations_of m k)) else []) ?names)"
    by (simp add: from_membership_def Let_def filter_concat comp_def one filter_all_incarnations [OF assms] del: filter_map set_map)
  also have "\<dots> = concat (map (\<lambda>k. if k = n then filter P (map (member_view_of n (state m n)) (incarnations_of m n)) else []) ?names)"
    by (rule arg_cong [where f = concat], rule map_cong) auto
  also have "\<dots> = (if n \<in> set ?names then filter P (map (member_view_of n (state m n)) (incarnations_of m n)) else [])"
    by (rule concat_at) simp
  also have "\<dots> = filter P (map (member_view_of n (state m n)) (incarnations_of m n))"
    using set_names [OF assms] by (simp only: set_sort set_remdups) auto
  finally show ?thesis .
qed

lemma state_label_ended:
  assumes "proper m" "i \<in> set (incarnations_of m n)"
  shows "state_label (state m n) i = ''ended'' \<longleftrightarrow> window_end i \<noteq> None"
proof -
  have "window_end i = None" if c: "state m n = Conflicted cur" and j: "j \<in> set cur" "member_key j = member_key i" for cur j
  proof -
    have "cur = filter (\<lambda>i. window_end i = None) (incarnations_of m n)"
      using c by (auto simp: state_def Let_def split: list.splits option.splits)
    then have "j \<in> set (incarnations_of m n)" "window_end j = None" using j(1) by auto
    then show ?thesis using assms j(2) by (auto simp: proper_def one_per_key_def distinct_map inj_on_def)
  qed
  then show ?thesis by (auto simp: state_label_def list_ex_iff split: member_state.splits)
qed

lemma current_from_membership:
  assumes "proper m"
  shows "current (from_membership m) n
    = map (member_view_of n (state m n)) (filter (\<lambda>i. window_end i = None) (incarnations_of m n))"
  unfolding current_def filter_view_members [OF assms] filter_map
  by (rule arg_cong [where f = "map _"], rule filter_cong) (auto simp: member_view_of_def state_label_ended [OF assms])

lemma ended_from_membership:
  assumes "proper m"
  shows "ended_keys (from_membership m) n
    = map (member_view_of n (state m n)) (filter (\<lambda>i. window_end i \<noteq> None) (incarnations_of m n))"
  unfolding ended_keys_def filter_view_members [OF assms] filter_map
  by (rule arg_cong [where f = "map _"], rule filter_cong) (auto simp: member_view_of_def state_label_ended [OF assms])

lemma legacy_removed_from_membership:
  assumes "proper m"
  shows "n \<in> set (legacy_removed (from_membership m)) \<longleftrightarrow> legacy_ends m n \<noteq> None \<and> incarnations_of m n = []"
  using assms set_names [OF assms]
  by (auto simp: from_membership_def Let_def legacy_removed_names_def proper_def)

subsection \<open>Lemmas: the answer by the state of the name\<close>

text \<open>An answer as a peer sees it: the status, the code and the ended key of a refusal, or how it is accepted.\<close>

type_synonym peer_answer = "nat \<times> string \<times> string option + acceptance"

definition answer_of :: "refusal + acceptance \<Rightarrow> peer_answer" where
  "answer_of = map_sum (\<lambda>r. (refusal_status r, refusal_code r, refusal_key r)) id"

definition departure :: "incarnation \<Rightarrow> peer_answer" where
  "departure i = Inl (403, if ended i = Some ''left'' then ''member-left'' else ''member-removed'', Some (member_key i))"

definition answer_by_state :: "membership \<Rightarrow> sender \<Rightarrow> bool \<Rightarrow> bool \<Rightarrow> peer_answer" where
  "answer_by_state m s config_peer legacy =
     (case state m (sender_name s) of
        Conflicted _ \<Rightarrow> Inl (409, ''member-conflicted'', None)
      | Current i \<Rightarrow>
          if member_signature_valid s \<and> sender_key s = Some (member_key i) then Inr AcceptMember
          else if legacy \<and> config_peer then Inr AcceptLegacy
          else Inl (401, ''member-signature-required'', None)
      | Ended _ \<Rightarrow>
          (case sender_key s of
             None \<Rightarrow> departure (last (incarnations_of m (sender_name s)))
           | Some k \<Rightarrow>
               (case incarnation_of m (sender_name s) k of
                  Some i \<Rightarrow> departure i
                | None \<Rightarrow> Inl (403, ''not-a-member'', None)))
      | LegacyRemoved _ \<Rightarrow> Inl (403, if sender_key s = None then ''member-removed'' else ''not-a-member'', None)
      | NotMember \<Rightarrow> if config_peer \<and> legacy then Inr AcceptLegacy else Inl (403, ''not-a-member'', None))"

text \<open>
  The table of \<open>docs/fleet-join.md\<close>, \<open>Who may exchange\<close>: its seven rows in their order, each with the
  sender names and signatures it is for and its result. The fourth row covers two kinds of name and is
  two entries. The first row that applies decides.
\<close>

definition documented_rows :: "membership \<Rightarrow> sender \<Rightarrow> bool \<Rightarrow> bool \<Rightarrow> (bool \<times> peer_answer) list" where
  "documented_rows m s config_peer legacy =
     (let n = sender_name s;
          is_current = (case state m n of Current _ \<Rightarrow> True | _ \<Rightarrow> False);
          valid = (member_signature_valid s \<and> (case state m n of Current i \<Rightarrow> sender_key s = Some (member_key i) | _ \<Rightarrow> False));
          ended_key = (case state m n of Ended _ \<Rightarrow> Option.bind (sender_key s) (incarnation_of m n) | _ \<Rightarrow> None);
          ended_legacy = (case state m n of LegacyRemoved _ \<Rightarrow> True | _ \<Rightarrow> False)
      in [(is_current \<and> valid, Inr AcceptMember),
          (is_current \<and> \<not> valid \<and> legacy \<and> config_peer, Inr AcceptLegacy),
          (is_current \<and> \<not> valid, Inl (401, ''member-signature-required'', None)),
          (ended_key \<noteq> None, departure (the ended_key)),
          (ended_legacy \<and> sender_key s = None, Inl (403, ''member-removed'', None)),
          ((case state m n of Conflicted _ \<Rightarrow> True | _ \<Rightarrow> False), Inl (409, ''member-conflicted'', None)),
          (state m n = NotMember \<and> config_peer \<and> legacy, Inr AcceptLegacy),
          (True, Inl (403, ''not-a-member'', None))])"

definition documented_answer :: "membership \<Rightarrow> sender \<Rightarrow> bool \<Rightarrow> bool \<Rightarrow> peer_answer" where
  "documented_answer m s config_peer legacy = hd (map snd (filter fst (documented_rows m s config_peer legacy)))"

text \<open>The senders the code and the table answer differently: an ended member key's name, presented without a key.\<close>

definition keyless_ended :: "membership \<Rightarrow> sender \<Rightarrow> bool" where
  "keyless_ended m s = ((case state m (sender_name s) of Ended _ \<Rightarrow> True | _ \<Rightarrow> False) \<and> sender_key s = None)"

lemma answer_of_ended_refusal [simp]: "answer_of (Inl (ended_refusal n (member_view_of n st i))) = departure i"
  by (simp add: answer_of_def ended_refusal_def Let_def member_view_of_def departure_def)

lemma answer_of_refusal_without_key [simp]: "answer_of (Inl (refusal_without_key s c t)) = Inl (s, c, None)"
  by (simp add: answer_of_def refusal_without_key_def)

lemma answer_of_Inr [simp]: "answer_of (Inr a) = Inr a" "answer_of x = Inr a \<longleftrightarrow> x = Inr a"
  by (cases x; simp add: answer_of_def)+

lemma view_key_member_view_of [simp]: "view_key (member_view_of n st i) = member_key i"
  by (simp add: member_view_of_def)

lemma find_map: "find P (map f xs) = map_option f (find (P \<circ> f) xs)"
  by (induction xs) auto

lemma latest_None [simp]: "latest is = None \<longleftrightarrow> is = []"
  by (cases "is") (auto split: option.splits)

lemma accept_by_state:
  assumes "proper m"
  shows "answer_of (accept (from_membership m) s cp lg) = answer_by_state m s cp lg"
proof -
  let ?n = "sender_name s"
  let ?all = "incarnations_of m ?n"
  let ?cur = "filter (\<lambda>i. window_end i = None) ?all"
  note defs = accept_def answer_by_state_def current_from_membership [OF assms] ended_from_membership [OF assms]
    legacy_removed_from_membership [OF assms] Let_def
  consider "?cur = []" | i where "?cur = [i]" | i j r where "?cur = i # j # r"
    by (metis remdups_adj.cases)
  then show ?thesis
  proof cases
    case 1
    then have gone: "filter (\<lambda>i. window_end i \<noteq> None) ?all = ?all" by (auto simp: filter_id_conv filter_empty_conv)
    have st: "state m ?n = (case latest ?all of Some i \<Rightarrow> Ended i
        | None \<Rightarrow> (case legacy_ends m ?n of Some h \<Rightarrow> LegacyRemoved h | None \<Rightarrow> NotMember))"
      using 1 by (simp add: state_def Let_def)
    show ?thesis
    proof (cases "?all = []")
      case True
      then show ?thesis using st by (auto simp: defs find_map split: option.split)
    next
      case False
      then obtain i where "latest ?all = Some i" by (cases "latest ?all") auto
      then have "state m ?n = Ended i" using st by simp
      then show ?thesis
        using False 1 gone
        by (cases "sender_key s")
          (auto simp: defs find_map last_map incarnation_of_def comp_def split: option.split)
    qed
  next
    case (2 i)
    then have "state m ?n = Current i" by (simp add: state_def Let_def)
    then show ?thesis using 2 by (simp add: defs member_view_of_def)
  next
    case (3 i j r)
    then have "state m ?n = Conflicted ?cur" by (simp add: state_def Let_def)
    then show ?thesis using 3 by (simp add: defs)
  qed
qed

lemma answer_by_state_documented:
  "if keyless_ended m s
   then answer_by_state m s cp lg = departure (last (incarnations_of m (sender_name s)))
     \<and> documented_answer m s cp lg = Inl (403, ''not-a-member'', None)
   else answer_by_state m s cp lg = documented_answer m s cp lg"
  by (cases "state m (sender_name s)"; cases "sender_key s")
    (auto simp: keyless_ended_def answer_by_state_def documented_answer_def documented_rows_def split: option.split)

subsection \<open>Lemmas: an accepted member was admitted and has not departed\<close>

lemma ended_stays: "window_end i \<noteq> None \<Longrightarrow> window_end (fold (amend_one n k) cs i) \<noteq> None"
  by (induction cs arbitrary: i)
    (auto simp: amend_one_def end_incarnation_def set_endpoints_def Let_def split: option.splits)

lemma open_no_departure:
  "window_end (fold (amend_one n k) cs i) = None \<Longrightarrow> c \<in> set cs \<Longrightarrow> high_water n k c = None"
proof (induction cs arbitrary: i)
  case (Cons d ds)
  have "window_end (amend_one n k d i) \<noteq> None" if "high_water n k d \<noteq> None"
    using that by (auto simp: amend_one_def end_incarnation_def Let_def split: option.splits)
  then have "high_water n k d = None" using Cons.prems(1) ended_stays by fastforce
  then show ?case using Cons by auto
qed simp

lemma current_incarnation:
  assumes "state m n = Current i"
  shows "i \<in> set (incarnations_of m n)" "window_end i = None"
proof -
  have "filter (\<lambda>i. window_end i = None) (incarnations_of m n) = [i]"
    using assms by (auto simp: state_def Let_def split: list.splits option.splits)
  then have "i \<in> set (filter (\<lambda>i. window_end i = None) (incarnations_of m n))" by simp
  then show "i \<in> set (incarnations_of m n)" "window_end i = None" by auto
qed

lemma current_key_admitted:
  assumes ids: "distinct (map claim_id claims)" and st: "state (fold_membership (Some a) claims) n = Current i"
  shows "\<exists>c. trusted a (set (fleet_claims claims)) c \<and> admits n (member_key i) c"
    and "\<forall>d\<in>set (fleet_claims claims). counts (fold_membership (Some a) claims) (claim_id d)
      \<longrightarrow> high_water n (member_key i) d = None"
proof -
  let ?cs = "fleet_claims claims"
  let ?v = "settle (revise a ?cs) (2 * length ?cs + 4) None {}"
  have m: "fold_membership (Some a) claims = build a ?cs ?v" by (simp add: fold_membership_def Let_def)
  note i = current_incarnation [OF st]
  have one: "distinct (map member_key (incarnations_of (build a ?cs ?v) n))"
    using one_per_key_build by (auto simp: one_per_key_def)
  have inc: "incarnation_of (build a ?cs ?v) n (member_key i) = Some i"
    unfolding incarnation_of_def using i(1) one by (intro find_unique) (auto simp: m distinct_map inj_on_def)
  then obtain c where c: "find (admits n (member_key i)) (counted ?v ?cs) = Some c"
      "i = fold (amend_one n (member_key i)) (counted ?v ?cs) (fresh_incarnation c n (member_key i))"
    by (auto simp: build_incarnation_of)
  then have "c \<in> set ?cs" "claim_id c \<in> ?v" "admits n (member_key i) c" using find_SomeD [OF c(1)] by auto
  then have "(''host/'' @ n, member_key i) \<in> member_roots (fold_membership (Some a) claims)"
    unfolding m by (rule admitted_member_root)
  then obtain n' c' where "''host/'' @ n = ''host/'' @ n'" "trusted a (set ?cs) c'" "admits n' (member_key i) c'"
    by (rule fold_roots_trusted [OF ids])
  then show "\<exists>c. trusted a (set ?cs) c \<and> admits n (member_key i) c" by auto
  show "\<forall>d\<in>set ?cs. counts (fold_membership (Some a) claims) (claim_id d) \<longrightarrow> high_water n (member_key i) d = None"
  proof (intro ballI impI)
    fix d assume d: "d \<in> set ?cs" "counts (fold_membership (Some a) claims) (claim_id d)"
    then have "d \<in> set (counted ?v ?cs)" by (simp add: counts_def m)
    moreover have "window_end (fold (amend_one n (member_key i)) (counted ?v ?cs) (fresh_incarnation c n (member_key i))) = None"
      using i(2) c(2) by simp
    ultimately show "high_water n (member_key i) d = None" using open_no_departure by blast
  qed
qed

subsection \<open>The anchor of the example fleet\<close>

definition example_sender :: sender where
  "example_sender = \<lparr>sender_name = ''r'', sender_key = Some ''kr'', member_signature_valid = True\<rparr>"

lemma example_anchor_state:
  "\<exists>i. state (fold_membership (Some ''kr'') example_fleet) ''r'' = Current i \<and> member_key i = ''kr''"
  unfolding fold_membership_example
  by (simp add: example_defs build_def Let_def Membership.admit_def amend_def update_incarnation_def state_def
      incarnations_of_def no_membership_def fresh_incarnation_def)

lemma example_sender_accepted:
  "accept (from_membership (fold_membership (Some ''kr'') example_fleet)) example_sender cp lg = Inr AcceptMember"
proof -
  have "answer_of (accept (from_membership (fold_membership (Some ''kr'') example_fleet)) example_sender cp lg) = Inr AcceptMember"
    using example_anchor_state by (auto simp: accept_by_state [OF proper_fold] answer_by_state_def example_sender_def)
  then show ?thesis by simp
qed

lemma example_fleet_ids: "distinct (map claim_id example_fleet)"
  by (simp add: example_fleet_def example_claim_def)

subsection \<open>Properties\<close>

text \<open>
  C20. Who may exchange is the documented table, one kind of sender apart. For the view of any folded
  membership, every sender, and whether or not it is a configured peer of a node that still takes legacy
  exchanges, \<open>accept\<close> answers as the first row of the table that applies: accepted as a member or as a
  legacy peer, or refused with that row's status and code, naming the ended key where the row is for
  one. The exception is a name whose member keys have all ended, presented without a key: the table
  leaves it to its last row, 403 \<open>not-a-member\<close>, and \<open>accept\<close> answers 403 with the departure of the
  name's last incarnation.
\<close>

theorem accept_follows_table:
  "let m = fold_membership anc claims in
   if keyless_ended m s
    then answer_of (accept (from_membership m) s config_peer legacy) = departure (last (incarnations_of m (sender_name s)))
      \<and> documented_answer m s config_peer legacy = Inl (403, ''not-a-member'', None)
    else answer_of (accept (from_membership m) s config_peer legacy) = documented_answer m s config_peer legacy"
  unfolding Let_def accept_by_state [OF proper_fold] by (rule answer_by_state_documented)

text \<open>
  A sender accepted as a member proved a key that the fleet admitted and has not ended. The key was
  admitted for the sender's name by a claim that a chain of admissions leads to from the anchor, and no
  claim that counts has removed it or let it leave.
\<close>

lemma accepted_member_vouched:
  assumes "distinct (map claim_id claims)"
    and "accept (from_membership (fold_membership (Some a) claims)) s config_peer legacy = Inr AcceptMember"
  shows "member_signature_valid s \<and> (\<exists>k. sender_key s = Some k
    \<and> (\<exists>c. trusted a (set (fleet_claims claims)) c \<and> admits (sender_name s) k c)
    \<and> (\<forall>d\<in>set (fleet_claims claims). counts (fold_membership (Some a) claims) (claim_id d)
         \<longrightarrow> high_water (sender_name s) k d = None))"
proof -
  have "answer_by_state (fold_membership (Some a) claims) s config_peer legacy = Inr AcceptMember"
    using accept_by_state [OF proper_fold, of "Some a" claims s config_peer legacy] assms(2) by simp
  then obtain i where i: "state (fold_membership (Some a) claims) (sender_name s) = Current i"
      "member_signature_valid s" "sender_key s = Some (member_key i)"
    by (auto simp: answer_by_state_def departure_def split: member_state.splits if_splits option.splits)
  then show ?thesis using current_key_admitted [OF assms(1) i(1)] by blast
qed

end
