(* ===== verification/Terminal_Lease.thy ===== *)
theory Terminal_Lease
  imports Fleet_View
begin

section \<open>Leases of open terminal views\<close>

text \<open>
  Models \<open>crates/fractal-api-core/src/api/client_v0/raw_terminal/lease.rs\<close>, with \<open>RawLeaseBinding\<close> of
  \<open>crates/fractal-peer/src/peer.rs\<close>, \<open>fleet_membership_tx_with_local_signer\<close> and \<open>observe_commits\<close> of
  \<open>crates/smallclaims/src\<close>. A lease lets one person's client watch one terminal. It holds while the authority that
  opened it is unchanged in the store, and while its idle, absolute and proof deadlines have not passed.

  The part of a store that a lease reads is a record: the claims in canonical order, the revisions of declarations,
  the fleet's claims and anchor, and for each subject what \<open>runtime_authority_on\<close> answers. The digest of a text and
  the text of a JSON value are arguments. Monotonic and wall time are in milliseconds.
\<close>

subsection \<open>What a store holds\<close>

record authority_row = verdict_row +
  row_origin :: string

record runtime_authority =
  actual :: "json option"
  actual_origin :: "string option"
  reachability :: string

text \<open>A fleet claim as a row of the query: with the keys that signed its envelope, and whether it has one yet.\<close>

record authority_store =
  authority_rows :: "authority_row list"
  desired_revisions :: "string \<rightharpoonup> string"
  fleet_anchor :: "string option"
  fleet_rows :: "(fleet_claim \<times> bool) list"
  runtimes :: "string \<rightharpoonup> runtime_authority"

definition local_signers :: "(string \<times> string) option \<Rightarrow> fleet_claim \<times> bool \<Rightarrow> fleet_claim" where
  "local_signers local r =
     (case (snd r, local) of
        (False, Some (origin, key)) \<Rightarrow>
          if claim_writer (fst r) = origin then (fst r)\<lparr>claim_signers := insert key (claim_signers (fst r))\<rparr> else fst r
      | _ \<Rightarrow> fst r)"

definition merge_fork :: "fleet_claim \<Rightarrow> fleet_claim list \<Rightarrow> fleet_claim list" where
  "merge_fork c cs =
     (if cs \<noteq> [] \<and> claim_id (last cs) = claim_id c
      then butlast cs @ [(last cs)\<lparr>claim_signers := claim_signers (last cs) \<union> claim_signers c\<rparr>]
      else cs @ [c])"

definition fleet_membership_tx :: "authority_store \<Rightarrow> (string \<times> string) option \<Rightarrow> membership" where
  "fleet_membership_tx st local =
     (case fleet_anchor st of
        None \<Rightarrow> no_membership
      | Some a \<Rightarrow>
          fold_membership (Some a)
            (fold (\<lambda>r. merge_fork (local_signers local r)) (sort_key (\<lambda>r. claim_id (fst r)) (fleet_rows st)) []))"

subsection \<open>The authority of a session\<close>

text \<open>The origin and body of the latest claim of a kind about a subject.\<close>

definition latest_claim :: "authority_store \<Rightarrow> string \<Rightarrow> string \<Rightarrow> (string \<times> json) option" where
  "latest_claim st s k =
     map_option (\<lambda>r. (row_origin r, row_body r))
       (find (\<lambda>r. row_subject r = s \<and> row_kind r = k) (rev (authority_rows st)))"

text \<open>What the process and its libraries give: the digest, the JSON text, and the epoch of this daemon.\<close>

record lease_env =
  credential_digest :: "string \<Rightarrow> string"
  json_text :: "json \<Rightarrow> string"
  daemon_epoch :: string

definition opt_string :: "string option \<Rightarrow> json" where
  "opt_string x = (case x of None \<Rightarrow> JNull | Some s \<Rightarrow> JString s)"

definition principal_epoch :: "lease_env \<Rightarrow> authority_store \<Rightarrow> string \<Rightarrow> json" where
  "principal_epoch env st person =
     JObject [(''daemon_epoch'', JString (daemon_epoch env)),
       (''keys'', JArray (map JString (sort (map row_claim_id
          (filter (\<lambda>r. row_subject r = person \<and> (row_kind r = ''principal.key-granted'' \<or> row_kind r = ''principal.key-revoked''))
            (authority_rows st)))))),
       (''person'', JString person),
       (''revision'', opt_string (desired_revisions st person))]"

definition pointer :: "string list \<Rightarrow> json \<Rightarrow> json option" where
  "pointer path v = fold (\<lambda>k x. Option.bind x (json_get k)) path (Some v)"

function replace_whitespace :: "string \<Rightarrow> string" where
  "replace_whitespace s =
     (case find (\<lambda>w. w \<noteq> [] \<and> take (length w) s = w) white_space of
        Some w \<Rightarrow> CHR ''-'' # replace_whitespace (drop (length w) s)
      | None \<Rightarrow> (case s of [] \<Rightarrow> [] | c # cs \<Rightarrow> c # replace_whitespace cs))"
  by pat_completeness auto
termination
  by (relation "measure length") (auto dest!: find_SomeD drop_prefix_shorter)

declare replace_whitespace.simps [simp del]

definition client_host_id :: "string \<Rightarrow> string" where
  "client_host_id node = ''host/'' @ replace_whitespace node"

datatype lease_error =
    NoExactGrant | GrantAbsent | SessionActorChanged | PersonChanged | GrantExpired | ReadRevoked | PairingRevoked
  | MemberRefused refusal
  | RuntimeMissing | AuthorityIndeterminate | OwnerMissing | OwnerChanged | IncarnationChanged | RuntimeExited
  | AcquisitionEpochChanged | AuthorizationEpochChanged | IssuerWatchUnavailable
  | GrantIdentityMissing | GrantDigestMissing | PairingRevokedOnOwner | PairingChangedOnOwner

definition authority ::
  "lease_env \<Rightarrow> authority_store \<Rightarrow> nat \<Rightarrow> string \<Rightarrow> string \<Rightarrow> string option \<Rightarrow> lease_error + json"
where
  "authority env st wall who person pairing_grant =
     (let principal_json = principal_epoch env st person
      in if who = person then Inr (JObject [(''local_principal_epoch'', principal_json)])
         else case pairing_grant of
           None \<Rightarrow> Inl NoExactGrant
         | Some s \<Rightarrow>
             (case latest_claim st s ''custom.client.pairing-completed'' of
                None \<Rightarrow> Inl GrantAbsent
              | Some (issuing, paired) \<Rightarrow>
                  also_ok (ensure (Option.bind (pointer [''fields'', ''session_actor''] paired) as_str = Some who) SessionActorChanged)
                 (also_ok (ensure (Option.bind (pointer [''fields'', ''person_id''] paired) as_str = Some person) PersonChanged)
                 (also_ok (ensure (case Option.bind (pointer [''fields'', ''expires_at_unix_ms''] paired) as_u64 of
                                     Some expiry \<Rightarrow> wall < expiry | None \<Rightarrow> False) GrantExpired)
                 (also_ok (ensure (case Option.bind (pointer [''fields'', ''scopes''] paired) as_array of
                                     Some scopes \<Rightarrow> list_ex (\<lambda>x. as_str x = Some ''terminal.read'') scopes | None \<Rightarrow> False) ReadRevoked)
                 (also_ok (ensure (latest_claim st s ''custom.client.pairing-revoked'' = None) PairingRevoked)
                   (Inr (JObject [(''grant'', paired), (''issuer'', JString (client_host_id issuing)),
                                  (''pairing'', JString s), (''principal'', principal_json)]))))))))"

subsection \<open>Bindings and the snapshot of an authority\<close>

record raw_lease_binding =
  bind_lease_id :: string
  bind_gateway :: string
  gateway_epoch :: string
  bind_actor :: string
  bind_person :: string
  bind_authorization_epoch :: string
  grant_subject :: "string option"
  grant_digest :: "string option"
  gateway_member_key :: "string option"
  owner_member_key :: "string option"
  bind_terminal :: string
  bind_owner :: string
  bind_incarnation :: string
  bind_mode :: string
  absolute_deadline_unix_ms :: nat

record membership_authority =
  auth_node :: string
  local_key :: "string option"
  auth_peers :: "string list"
  auth_legacy :: bool

definition trim_host :: "string \<Rightarrow> string" where
  "trim_host = trim_start [''host/'']"

definition validate_host :: "membership_authority \<Rightarrow> fleet_view \<Rightarrow> string \<times> string option \<Rightarrow> lease_error + unit" where
  "validate_host ma view = (\<lambda>(host, key).
     (let n = trim_host host
      in if n = auth_node ma \<and> key = None \<and> view_anchor view = None then Inr ()
         else case accept view \<lparr>sender_name = n, sender_key = key, member_signature_valid = (key \<noteq> None)\<rparr>
                     (n = auth_node ma \<or> n \<in> set (auth_peers ma)) (auth_legacy ma) of
                Inl refused \<Rightarrow> Inl (MemberRefused refused)
              | Inr _ \<Rightarrow> Inr ()))"

definition validate_membership :: "membership_authority \<Rightarrow> authority_store \<Rightarrow> raw_lease_binding \<Rightarrow> lease_error + unit" where
  "validate_membership ma st b =
     (let view = from_membership (fleet_membership_tx st (map_option (Pair (auth_node ma)) (local_key ma)))
      in all_ok (validate_host ma view) [(bind_gateway b, gateway_member_key b), (bind_owner b, owner_member_key b)])"

definition terminal_subject :: "string \<Rightarrow> string" where
  "terminal_subject i = (case strip_prefix ''terminal/'' i of Some s \<Rightarrow> s | None \<Rightarrow> i)"

definition text_at :: "string \<Rightarrow> json \<Rightarrow> string option" where
  "text_at k v = Option.bind (json_get k v) as_str"

definition check_runtime :: "authority_store \<Rightarrow> raw_lease_binding \<Rightarrow> lease_error + (string \<times> json)" where
  "check_runtime st b =
     (case runtimes st (terminal_subject (bind_terminal b)) of
        None \<Rightarrow> Inl RuntimeMissing
      | Some rt \<Rightarrow>
          also_ok (ensure (reachability rt = ''reachable'' \<or> reachability rt = ''local'') AuthorityIndeterminate)
            (case actual_origin rt of
               None \<Rightarrow> Inl OwnerMissing
             | Some origin \<Rightarrow>
                 (case actual rt of
                    None \<Rightarrow> Inl RuntimeMissing
                  | Some act \<Rightarrow>
                      (let fs = (case json_get ''fields'' act of Some f \<Rightarrow> f | None \<Rightarrow> act)
                       in also_ok (ensure (client_host_id origin = bind_owner b) OwnerChanged)
                         (also_ok (ensure (text_at ''incarnation_id'' fs = Some (bind_incarnation b)) IncarnationChanged)
                         (also_ok (ensure (text_at ''status'' fs = Some ''running'') RuntimeExited)
                           (Inr (origin, fs))))))))"

definition check_owner_grant :: "lease_env \<Rightarrow> authority_store \<Rightarrow> raw_lease_binding \<Rightarrow> lease_error + unit" where
  "check_owner_grant env st b =
     (case grant_subject b of
        None \<Rightarrow> Inl GrantIdentityMissing
      | Some s \<Rightarrow>
          (case grant_digest b of
             None \<Rightarrow> Inl GrantDigestMissing
           | Some d \<Rightarrow>
               also_ok (ensure (latest_claim st s ''custom.client.pairing-revoked'' = None) PairingRevokedOnOwner)
                 (case latest_claim st s ''custom.client.pairing-completed'' of
                    None \<Rightarrow> Inr ()
                  | Some (_, given) \<Rightarrow>
                      ensure (credential_digest env (json_text env given) = d) PairingChangedOnOwner)))"

definition snapshot ::
  "lease_env \<Rightarrow> authority_store \<Rightarrow> nat \<Rightarrow> raw_lease_binding \<Rightarrow> bool \<Rightarrow> string \<Rightarrow> membership_authority \<Rightarrow> lease_error + string"
where
  "snapshot env st wall b owner_side acquisition_epoch ma =
     also_ok (validate_membership ma st b)
    (and_then (check_runtime st b) (\<lambda>(origin, fs).
     and_then (authority env st wall (if owner_side then bind_person b else bind_actor b) (bind_person b) (grant_subject b)) (\<lambda>auth.
      (let current_epoch = credential_digest env (json_text env auth)
       in also_ok (ensure (current_epoch = acquisition_epoch) AcquisitionEpochChanged)
         (also_ok (ensure (owner_side \<or> current_epoch = bind_authorization_epoch b) AuthorizationEpochChanged)
         (also_ok (ensure (owner_side \<or> (case text_at ''issuer'' auth of Some i \<Rightarrow> i = bind_gateway b | None \<Rightarrow> True)) IssuerWatchUnavailable)
         (also_ok (if owner_side \<and> bind_actor b \<noteq> bind_person b then check_owner_grant env st b else Inr ())
           (Inr (credential_digest env (json_text env
              (JObject [(''authority'', auth), (''owner'', JString origin),
                 (''revision'', opt_string (desired_revisions st (terminal_subject (bind_terminal b)))),
                 (''runtime'', (case json_get ''runtime_id'' fs of Some v \<Rightarrow> v | None \<Rightarrow> JNull))])))))))))))"

subsection \<open>The lease\<close>

definition IDLE :: nat where "IDLE = 60000"
definition ABSOLUTE :: nat where "ABSOLUTE = 300000"
definition WATCH :: nat where "WATCH = 5000"

record lease_clock =
  idle :: nat
  absolute :: nat
  proof_until :: nat
  activity_sequence :: nat
  proof_sequence :: nat

definition expired_code :: "lease_clock \<Rightarrow> nat \<Rightarrow> string option" where
  "expired_code c now =
     (if absolute c \<le> now then Some ''lease-absolute-expired''
      else if idle c \<le> now then Some ''lease-idle-expired''
      else if proof_until c \<le> now then Some ''lease-watch-lost''
      else None)"

record lease =
  binding :: raw_lease_binding
  owner_side :: bool
  lease_snapshot :: string
  acquisition_epoch :: string
  lease_membership :: membership_authority
  clock :: lease_clock
  cancelled :: "string option"

definition cancel :: "string \<Rightarrow> lease \<Rightarrow> lease" where
  "cancel why l = (if cancelled l = None then l\<lparr>cancelled := Some why\<rparr> else l)"

text \<open>The outcome of an operation: the lease it leaves, and the text of its error if it failed.\<close>

type_synonym lease_outcome = "lease \<times> (string + unit)"

definition and_also :: "lease_outcome \<Rightarrow> (lease \<Rightarrow> lease_outcome) \<Rightarrow> lease_outcome" where
  "and_also r f = (case r of (l, Inl e) \<Rightarrow> (l, Inl e) | (l, Inr _) \<Rightarrow> f l)"

definition expire :: "nat \<Rightarrow> lease \<Rightarrow> lease_outcome" where
  "expire now l = (case expired_code (clock l) now of Some why \<Rightarrow> (cancel why l, Inl why) | None \<Rightarrow> (l, Inr ()))"

definition unless_cancelled :: "lease \<Rightarrow> lease_outcome" where
  "unless_cancelled l = (l, case cancelled l of Some why \<Rightarrow> Inl why | None \<Rightarrow> Inr ())"

definition check :: "nat \<Rightarrow> lease \<Rightarrow> lease_outcome" where
  "check now l = and_also (unless_cancelled l) (expire now)"

definition snapshot_holds :: "lease_env \<Rightarrow> authority_store \<Rightarrow> nat \<Rightarrow> lease \<Rightarrow> bool" where
  "snapshot_holds env st wall l =
     (snapshot env st wall (binding l) (owner_side l) (acquisition_epoch l) (lease_membership l) = Inr (lease_snapshot l))"

text \<open>\<open>None\<close> for a store that has closed.\<close>

definition revalidate :: "lease_env \<Rightarrow> authority_store option \<Rightarrow> nat \<Rightarrow> nat \<Rightarrow> lease \<Rightarrow> lease_outcome" where
  "revalidate env st wall now l =
     and_also (check now l) (\<lambda>l.
       case st of
         None \<Rightarrow> (l, Inl ''authority stopped'')
       | Some db \<Rightarrow>
           if snapshot_holds env db wall l then check now l
           else (cancel ''lease-revoked'' l, Inl ''lease revoked''))"

definition selected_use :: "lease_env \<Rightarrow> authority_store option \<Rightarrow> nat \<Rightarrow> nat \<Rightarrow> nat \<Rightarrow> lease \<Rightarrow> lease_outcome" where
  "selected_use env st wall now sequence l =
     and_also (revalidate env st wall now l) (\<lambda>l.
     and_also (expire now l) (\<lambda>l.
     and_also (unless_cancelled l) (\<lambda>l.
       if activity_sequence (clock l) < sequence
       then (l\<lparr>clock := (clock l)\<lparr>activity_sequence := sequence, idle := now + IDLE\<rparr>\<rparr>, Inr ())
       else (l, Inl ''selected-use sequence replay''))))"

definition proof_op :: "lease_env \<Rightarrow> authority_store option \<Rightarrow> nat \<Rightarrow> nat \<Rightarrow> string \<Rightarrow> nat \<Rightarrow> lease \<Rightarrow> lease_outcome" where
  "proof_op env st wall now ep sequence l =
     and_also (revalidate env st wall now l) (\<lambda>l.
     if ep \<noteq> gateway_epoch (binding l) then (l, Inl ''watch epoch changed'')
     else and_also (expire now l) (\<lambda>l.
     and_also (unless_cancelled l) (\<lambda>l.
       if proof_sequence (clock l) < sequence
       then (l\<lparr>clock := (clock l)\<lparr>proof_sequence := sequence, proof_until := now + WATCH\<rparr>\<rparr>, Inr ())
       else (l, Inl ''watch proof replay''))))"

definition has_proof :: "lease \<Rightarrow> bool" where
  "has_proof l = (0 < proof_sequence (clock l))"

text \<open>The commit observer of a lease.\<close>

definition on_commit :: "lease_env \<Rightarrow> authority_store \<Rightarrow> nat \<Rightarrow> lease \<Rightarrow> lease" where
  "on_commit env db wall l = (if snapshot_holds env db wall l then l else cancel ''lease-revoked'' l)"

subsection \<open>Registering a lease\<close>

record lease_session =
  session_actor :: string
  authority_actor :: string
  pairing_grant :: "string option"

record lease_target =
  target_terminal :: string
  target_owner :: string
  target_incarnation :: string

definition origin_agrees :: "lease_session \<Rightarrow> lease_target \<Rightarrow> raw_lease_binding \<Rightarrow> bool" where
  "origin_agrees s t b =
     (bind_mode b = ''peek'' \<and> bind_person b = authority_actor s \<and> bind_terminal b = target_terminal t
      \<and> bind_owner b = target_owner t \<and> bind_incarnation b = target_incarnation t
      \<and> gateway_epoch b \<noteq> [] \<and> bind_authorization_epoch b \<noteq> [])"

text \<open>The binding a gateway makes for its own session; \<open>new_id\<close> is the fresh id of the lease.\<close>

definition gateway_binding ::
  "lease_env \<Rightarrow> authority_store \<Rightarrow> nat \<Rightarrow> string \<Rightarrow> membership_authority \<Rightarrow> lease_session \<Rightarrow> lease_target \<Rightarrow> string
   \<Rightarrow> lease_error + raw_lease_binding"
where
  "gateway_binding env st wall new_id ma s t acq =
     and_then (authority env st wall (session_actor s) (authority_actor s) (pairing_grant s)) (\<lambda>auth.
       (let view = from_membership (fleet_membership_tx st (map_option (Pair (auth_node ma)) (local_key ma)));
            expiry = Option.bind (pointer [''grant'', ''fields'', ''expires_at_unix_ms''] auth) as_u64
        in Inr \<lparr>bind_lease_id = new_id, bind_gateway = client_host_id (auth_node ma), gateway_epoch = daemon_epoch env,
                bind_actor = session_actor s, bind_person = authority_actor s, bind_authorization_epoch = acq,
                grant_subject = text_at ''pairing'' auth,
                grant_digest = map_option (\<lambda>g. credential_digest env (json_text env g)) (json_get ''grant'' auth),
                gateway_member_key = local_key ma,
                owner_member_key = (case current view (trim_host (target_owner t)) of [] \<Rightarrow> None | x # _ \<Rightarrow> Some (view_key x)),
                bind_terminal = target_terminal t, bind_owner = target_owner t, bind_incarnation = target_incarnation t,
                bind_mode = ''peek'',
                absolute_deadline_unix_ms =
                  min (case expiry of Some e \<Rightarrow> e | None \<Rightarrow> 2 ^ 128 - 1) (wall + ABSOLUTE)\<rparr>))"

text \<open>The lease made from a snapshot that succeeded, before it is observed.\<close>

definition new_lease ::
  "raw_lease_binding \<Rightarrow> bool \<Rightarrow> string \<Rightarrow> string \<Rightarrow> membership_authority \<Rightarrow> nat \<Rightarrow> nat \<Rightarrow> lease"
where
  "new_lease b own initial acq ma wall now =
     \<lparr>binding = b, owner_side = own, lease_snapshot = initial, acquisition_epoch = acq,
      lease_membership = ma,
      clock = \<lparr>idle = now + IDLE, absolute = now + min (absolute_deadline_unix_ms b - wall) ABSOLUTE,
               proof_until = now + WATCH, activity_sequence = 0, proof_sequence = 0\<rparr>,
      cancelled = None\<rparr>"

datatype register_error = BindingDiffers | Forbidden lease_error | StaleAuthority lease_error | StaleLease string

text \<open>
  The first half of \<open>register\<close>: the binding, the initial snapshot and the lease. The second half
  registers the observer and revalidates; the two halves are separate because commits may come between.
\<close>

definition register_lease ::
  "lease_env \<Rightarrow> authority_store \<Rightarrow> nat \<Rightarrow> nat \<Rightarrow> string \<Rightarrow> membership_authority \<Rightarrow> lease_session \<Rightarrow> lease_target
   \<Rightarrow> raw_lease_binding option \<Rightarrow> string \<Rightarrow> register_error + lease"
where
  "register_lease env st wall now new_id ma s t origin acq =
     and_then
       (case origin of
          Some b \<Rightarrow> if origin_agrees s t b then Inr b else Inl BindingDiffers
        | None \<Rightarrow> map_sum Forbidden id (gateway_binding env st wall new_id ma s t acq)) (\<lambda>b.
     and_then (map_sum StaleAuthority id (snapshot env st wall b (origin \<noteq> None) acq ma)) (\<lambda>initial.
       Inr (new_lease b (origin \<noteq> None) initial acq ma wall now)))"

definition confirm_lease :: "lease_env \<Rightarrow> authority_store \<Rightarrow> nat \<Rightarrow> nat \<Rightarrow> lease \<Rightarrow> register_error + lease" where
  "confirm_lease env st wall now l =
     (case revalidate env (Some st) wall now l of (l', Inr _) \<Rightarrow> Inr l' | (_, Inl e) \<Rightarrow> Inl (StaleLease e))"

subsection \<open>Operations on an open lease\<close>

datatype lease_op = CheckOp | RevalidateOp | SelectedUseOp nat | ProofOp string nat | CommitOp

record lease_moment =
  at_store :: "authority_store option"
  at_wall :: nat
  at_now :: nat

text \<open>\<open>CommitOp\<close> is the observer at a commit; it does not fail.\<close>

definition lease_do :: "lease_env \<Rightarrow> lease_op \<Rightarrow> lease_moment \<Rightarrow> lease \<Rightarrow> lease_outcome" where
  "lease_do env op m l =
     (case op of
        CheckOp \<Rightarrow> check (at_now m) l
      | RevalidateOp \<Rightarrow> revalidate env (at_store m) (at_wall m) (at_now m) l
      | SelectedUseOp n \<Rightarrow> selected_use env (at_store m) (at_wall m) (at_now m) n l
      | ProofOp e n \<Rightarrow> proof_op env (at_store m) (at_wall m) (at_now m) e n l
      | CommitOp \<Rightarrow> (case at_store m of Some db \<Rightarrow> (on_commit env db (at_wall m) l, Inr ()) | None \<Rightarrow> (l, Inr ())))"

subsection \<open>Lemmas: what an operation leaves\<close>

lemma and_also_ok: "snd (and_also r f) = Inr () \<longleftrightarrow> snd r = Inr () \<and> snd (f (fst r)) = Inr ()"
  by (auto simp: and_also_def split: prod.split sum.split)

lemma and_also_fst: "fst (and_also r f) = (if snd r = Inr () then fst (f (fst r)) else fst r)"
  by (auto simp: and_also_def split: prod.split sum.split)

lemmas and_also_simps = and_also_ok and_also_fst

lemma cancel_simps [simp]:
  "binding (cancel w l) = binding l" "owner_side (cancel w l) = owner_side l" "lease_snapshot (cancel w l) = lease_snapshot l"
  "acquisition_epoch (cancel w l) = acquisition_epoch l" "lease_membership (cancel w l) = lease_membership l"
  "clock (cancel w l) = clock l" "cancelled (cancel w l) \<noteq> None"
  by (simp_all add: cancel_def)

lemma cancelled_cancel [simp]: "\<exists>y. cancelled (cancel w l) = Some y"
  by (simp add: cancel_def)

lemma snapshot_holds_cancel [simp]: "snapshot_holds env db wall (cancel w l) = snapshot_holds env db wall l"
  by (simp add: snapshot_holds_def)

lemma unless_cancelled_simps [simp]:
  "fst (unless_cancelled l) = l" "snd (unless_cancelled l) = Inr () \<longleftrightarrow> cancelled l = None"
  by (simp_all add: unless_cancelled_def split: option.split)

lemma expire_ok [simp]: "snd (expire now l) = Inr () \<longleftrightarrow> expired_code (clock l) now = None"
  by (simp add: expire_def split: option.split)

lemma expire_fst [simp]: "expired_code (clock l) now = None \<Longrightarrow> fst (expire now l) = l"
  by (simp add: expire_def)

lemma check_ok: "snd (check now l) = Inr () \<longleftrightarrow> cancelled l = None \<and> expired_code (clock l) now = None"
  by (simp add: check_def and_also_simps)

lemma check_fst: "snd (check now l) = Inr () \<Longrightarrow> fst (check now l) = l"
  by (auto simp: check_def and_also_simps)

lemma revalidate_ok:
  "snd (revalidate env st wall now l) = Inr () \<longleftrightarrow>
     snd (check now l) = Inr () \<and> (\<exists>db. st = Some db \<and> snapshot_holds env db wall l)"
  using check_fst [of now l] by (auto simp: revalidate_def and_also_simps split: option.splits)

lemma revalidate_fst: "snd (revalidate env st wall now l) = Inr () \<Longrightarrow> fst (revalidate env st wall now l) = l"
  using check_fst [of now l] by (auto simp: revalidate_def and_also_simps split: option.splits)

text \<open>What is fixed for the life of a lease.\<close>

definition same_terms :: "lease \<Rightarrow> lease \<Rightarrow> bool" where
  "same_terms l l' =
     (binding l' = binding l \<and> owner_side l' = owner_side l \<and> lease_snapshot l' = lease_snapshot l
      \<and> acquisition_epoch l' = acquisition_epoch l \<and> lease_membership l' = lease_membership l
      \<and> absolute (clock l') = absolute (clock l) \<and> (cancelled l \<noteq> None \<longrightarrow> cancelled l' = cancelled l))"

lemma same_terms_refl [simp]: "same_terms l l"
  by (simp add: same_terms_def)

lemma same_terms_trans: "same_terms l l' \<Longrightarrow> same_terms l' l'' \<Longrightarrow> same_terms l l''"
  by (auto simp: same_terms_def)

lemma same_terms_cancel [simp]: "same_terms l (cancel w l)"
  by (simp add: same_terms_def) (simp add: cancel_def)

lemma same_terms_clock [simp]: "absolute c = absolute (clock l) \<Longrightarrow> same_terms l (l\<lparr>clock := c\<rparr>)"
  by (simp add: same_terms_def)

lemma same_terms_and_also:
  "same_terms l (fst r) \<Longrightarrow> (\<And>l'. same_terms l' (fst (f l'))) \<Longrightarrow> same_terms l (fst (and_also r f))"
  by (auto simp: and_also_simps intro: same_terms_trans)

lemma same_terms_expire [simp]: "same_terms l (fst (expire now l))"
  by (simp add: expire_def split: option.split)

lemma same_terms_check [simp]: "same_terms l (fst (check now l))"
  unfolding check_def by (rule same_terms_and_also) simp_all

lemma same_terms_revalidate [simp]: "same_terms l (fst (revalidate env st wall now l))"
  unfolding revalidate_def by (rule same_terms_and_also) (simp_all split: option.split)

lemma same_terms_do: "same_terms l (fst (lease_do env op m l))"
proof -
  have "same_terms l (fst (selected_use env st w n q l))" for st w n q
    unfolding selected_use_def by (intro same_terms_and_also) simp_all
  moreover have "same_terms l (fst (proof_op env st w n e q l))" for st w n e q
    unfolding proof_op_def by (rule same_terms_and_also) (auto intro!: same_terms_and_also)
  moreover have "same_terms l (on_commit env db w l)" for db w by (simp add: on_commit_def)
  ultimately show ?thesis by (auto simp: lease_do_def split: lease_op.split option.split)
qed

lemma snapshot_holds_same_terms: "same_terms l l' \<Longrightarrow> snapshot_holds env db wall l' = snapshot_holds env db wall l"
  by (simp add: snapshot_holds_def same_terms_def)

subsection \<open>Lemmas: deadlines\<close>

definition selected_at :: "(nat \<times> lease_op) list \<Rightarrow> nat set" where
  "selected_at log = {t. \<exists>n. (t, SelectedUseOp n) \<in> set log}"

definition proved_at :: "(nat \<times> lease_op) list \<Rightarrow> nat set" where
  "proved_at log = {t. \<exists>e n. (t, ProofOp e n) \<in> set log}"

text \<open>A run of operations, and when each one that succeeded took place.\<close>

definition lease_run_step ::
  "lease_env \<Rightarrow> lease_op \<times> lease_moment \<Rightarrow> lease \<times> (nat \<times> lease_op) list \<Rightarrow> lease \<times> (nat \<times> lease_op) list"
where
  "lease_run_step env = (\<lambda>(op, m) (l, log).
     case lease_do env op m l of (l', r) \<Rightarrow> (l', if r = Inr () then (at_now m, op) # log else log))"

definition deadlines_justified :: "nat \<Rightarrow> lease \<Rightarrow> (nat \<times> lease_op) list \<Rightarrow> bool" where
  "deadlines_justified t0 l log =
     ((\<exists>u\<in>insert t0 (selected_at log). idle (clock l) = u + IDLE)
      \<and> (\<exists>u\<in>insert t0 (proved_at log). proof_until (clock l) = u + WATCH))"

definition extends :: "nat \<Rightarrow> lease_op \<Rightarrow> lease_clock \<Rightarrow> lease_clock" where
  "extends now op c =
     (case op of
        SelectedUseOp n \<Rightarrow> c\<lparr>activity_sequence := n, idle := now + IDLE\<rparr>
      | ProofOp e n \<Rightarrow> c\<lparr>proof_sequence := n, proof_until := now + WATCH\<rparr>
      | _ \<Rightarrow> c)"

lemma clock_expire [simp]: "clock (fst (expire now l)) = clock l"
  by (simp add: expire_def split: option.split)

lemma clock_check [simp]: "clock (fst (check now l)) = clock l"
  by (simp add: check_def and_also_simps)

lemma clock_revalidate [simp]: "clock (fst (revalidate env st wall now l)) = clock l"
  by (simp add: revalidate_def and_also_simps split: option.split)

lemma lease_do_clock:
  "clock (fst (lease_do env op m l)) =
     (if snd (lease_do env op m l) = Inr () then extends (at_now m) op (clock l) else clock l)"
  by (cases op)
    (auto simp: lease_do_def extends_def selected_use_def proof_op_def and_also_simps on_commit_def split: option.splits if_splits)

lemma lease_do_unexpired:
  "snd (lease_do env op m l) = Inr () \<Longrightarrow> op \<noteq> CommitOp \<Longrightarrow> cancelled l = None \<and> expired_code (clock l) (at_now m) = None"
  by (cases op) (auto simp: lease_do_def selected_use_def proof_op_def and_also_simps revalidate_ok check_ok)

lemma lease_run_justified:
  assumes "deadlines_justified t0 l log"
  shows "case fold (lease_run_step env) ops (l, log) of (l', log') \<Rightarrow>
    deadlines_justified t0 l' log' \<and> same_terms l l'"
  using assms
proof (induction ops arbitrary: l log)
  case (Cons x ops)
  obtain op m where x: "x = (op, m)" by force
  obtain l1 r where l1: "lease_do env op m l = (l1, r)" by force
  let ?log = "if r = Inr () then (at_now m, op) # log else log"
  have c: "clock l1 = (if r = Inr () then extends (at_now m) op (clock l) else clock l)"
    using lease_do_clock [of env op m l] l1 by simp
  have "deadlines_justified t0 l1 ?log"
    using Cons.prems by (auto simp: deadlines_justified_def c extends_def selected_at_def proved_at_def split: lease_op.splits)
  moreover have "same_terms l l1" using same_terms_do [of l env op m] l1 by simp
  ultimately show ?case
    using Cons.IH [of l1 ?log] same_terms_trans [of l l1] by (auto simp: x l1 lease_run_step_def split: prod.splits)
qed simp

subsection \<open>Lemmas: what a snapshot shows\<close>

text \<open>
  The authority of a lease, read off the store: the terminal runs as the bound incarnation on the bound owner; the pairing of
  a session that is not the person's own is complete, lets it read terminals and is not revoked; and the
  fleet accepts both nodes.
\<close>

definition terminal_runs :: "authority_store \<Rightarrow> raw_lease_binding \<Rightarrow> bool" where
  "terminal_runs st b =
     (\<exists>rt origin act fs. runtimes st (terminal_subject (bind_terminal b)) = Some rt
        \<and> actual_origin rt = Some origin \<and> client_host_id origin = bind_owner b
        \<and> actual rt = Some act \<and> fs = (case json_get ''fields'' act of Some f \<Rightarrow> f | None \<Rightarrow> act)
        \<and> text_at ''incarnation_id'' fs = Some (bind_incarnation b) \<and> text_at ''status'' fs = Some ''running'')"

definition pairing_lets_read :: "authority_store \<Rightarrow> nat \<Rightarrow> raw_lease_binding \<Rightarrow> bool" where
  "pairing_lets_read st wall b =
     (\<exists>s by_whom paired expiry scopes. grant_subject b = Some s
        \<and> latest_claim st s ''custom.client.pairing-completed'' = Some (by_whom, paired)
        \<and> latest_claim st s ''custom.client.pairing-revoked'' = None
        \<and> Option.bind (pointer [''fields'', ''session_actor''] paired) as_str = Some (bind_actor b)
        \<and> Option.bind (pointer [''fields'', ''person_id''] paired) as_str = Some (bind_person b)
        \<and> Option.bind (pointer [''fields'', ''expires_at_unix_ms''] paired) as_u64 = Some expiry \<and> wall < expiry
        \<and> Option.bind (pointer [''fields'', ''scopes''] paired) as_array = Some scopes
        \<and> JString ''terminal.read'' \<in> set scopes)"

definition authorised :: "lease_env \<Rightarrow> authority_store \<Rightarrow> nat \<Rightarrow> lease \<Rightarrow> bool" where
  "authorised env st wall l =
     (let b = binding l
      in terminal_runs st b
         \<and> validate_membership (lease_membership l) st b = Inr ()
         \<and> (bind_actor b = bind_person b
            \<or> (if owner_side l
               then \<exists>s. grant_subject b = Some s \<and> latest_claim st s ''custom.client.pairing-revoked'' = None
               else pairing_lets_read st wall b)))"

lemma check_runtime_Inr: "check_runtime st b = Inr x \<Longrightarrow> terminal_runs st b"
  by (auto simp: check_runtime_def terminal_runs_def and_then_Inr Let_def split: option.splits)

lemma as_str_Some: "as_str x = Some s \<longleftrightarrow> x = JString s"
  by (cases x) auto

lemma authority_Inr:
  assumes "authority env st wall who person pg = Inr auth" "who \<noteq> person"
  shows "\<exists>s by_whom paired expiry scopes. pg = Some s
        \<and> latest_claim st s ''custom.client.pairing-completed'' = Some (by_whom, paired)
        \<and> latest_claim st s ''custom.client.pairing-revoked'' = None
        \<and> Option.bind (pointer [''fields'', ''session_actor''] paired) as_str = Some who
        \<and> Option.bind (pointer [''fields'', ''person_id''] paired) as_str = Some person
        \<and> Option.bind (pointer [''fields'', ''expires_at_unix_ms''] paired) as_u64 = Some expiry \<and> wall < expiry
        \<and> Option.bind (pointer [''fields'', ''scopes''] paired) as_array = Some scopes
        \<and> JString ''terminal.read'' \<in> set scopes"
  using assms
  by (auto simp: authority_def Let_def and_then_Inr list_ex_iff as_str_Some split: option.splits prod.splits)

lemma snapshot_holds_authorised:
  assumes "snapshot_holds env st wall l"
  shows "authorised env st wall l"
proof -
  let ?b = "binding l" and ?ow = "owner_side l"
  obtain rt auth where h: "validate_membership (lease_membership l) st ?b = Inr ()" "check_runtime st ?b = Inr rt"
      "authority env st wall (if ?ow then bind_person ?b else bind_actor ?b) (bind_person ?b) (grant_subject ?b) = Inr auth"
      "(if ?ow \<and> bind_actor ?b \<noteq> bind_person ?b then check_owner_grant env st ?b else Inr ()) = Inr ()"
    using assms by (auto simp: snapshot_holds_def snapshot_def and_then_Inr Let_def split: prod.splits)
  have "bind_actor ?b \<noteq> bind_person ?b \<Longrightarrow> ?ow \<Longrightarrow>
      \<exists>s. grant_subject ?b = Some s \<and> latest_claim st s ''custom.client.pairing-revoked'' = None"
    using h(4) by (auto simp: check_owner_grant_def and_then_Inr split: option.splits)
  moreover have "bind_actor ?b \<noteq> bind_person ?b \<Longrightarrow> \<not> ?ow \<Longrightarrow> pairing_lets_read st wall ?b"
    using authority_Inr [of env st wall "bind_actor ?b" "bind_person ?b" "grant_subject ?b" auth] h(3)
    by (simp add: pairing_lets_read_def)
  ultimately show ?thesis using h(1) check_runtime_Inr [OF h(2)] by (auto simp: authorised_def Let_def)
qed

subsection \<open>A node that registers a lease while its store changes\<close>

text \<open>
  The writer makes a commit visible, then takes the list of observers, then runs them, and only then
  acknowledges the write. Registration puts its steps between: the first snapshot, the observer, the
  revalidation. A reader sees a commit as soon as it is visible.
\<close>

datatype writer_phase = Quiet | Visible | Notifying bool

datatype lease_phase = NoLease | Drafted lease | Observed lease | Opened lease | Closed

record lease_node =
  node_store :: authority_store
  node_now :: nat
  node_wall :: nat
  last_commit :: nat
  writer :: writer_phase
  phase :: lease_phase

definition registered :: "lease_phase \<Rightarrow> bool" where
  "registered p = (case p of Observed _ \<Rightarrow> True | Opened _ \<Rightarrow> True | _ \<Rightarrow> False)"

definition observe_phase :: "lease_env \<Rightarrow> authority_store \<Rightarrow> nat \<Rightarrow> lease_phase \<Rightarrow> lease_phase" where
  "observe_phase env db wall p =
     (case p of
        Observed l \<Rightarrow> Observed (on_commit env db wall l)
      | Opened l \<Rightarrow> Opened (on_commit env db wall l)
      | _ \<Rightarrow> p)"

definition fresh_node :: "authority_store \<Rightarrow> nat \<Rightarrow> nat \<Rightarrow> lease_node" where
  "fresh_node st now wall = \<lparr>node_store = st, node_now = now, node_wall = wall, last_commit = wall, writer = Quiet, phase = NoLease\<rparr>"

inductive lease_step :: "lease_env \<Rightarrow> lease_node \<Rightarrow> lease_node \<Rightarrow> bool" for env where
  pass: "lease_step env n (n\<lparr>node_now := node_now n + d, node_wall := node_wall n + w\<rparr>)"
| draft: "lease_step env n (n\<lparr>phase := Drafted l\<rparr>)"
    if "phase n = NoLease"
      "register_lease env (node_store n) (node_wall n) (node_now n) i ma s t origin acq = Inr l"
| observe: "lease_step env n (n\<lparr>phase := Observed l\<rparr>)" if "phase n = Drafted l"
| confirm: "lease_step env n (n\<lparr>phase := (case confirm_lease env (node_store n) (node_wall n) (node_now n) l of
      Inr l' \<Rightarrow> Opened l' | Inl _ \<Rightarrow> Closed)\<rparr>)"
    if "phase n = Observed l"
| operate: "lease_step env n (n\<lparr>phase := Opened (fst (lease_do env op
      \<lparr>at_store = Some (node_store n), at_wall = node_wall n, at_now = node_now n\<rparr> l))\<rparr>)"
    if "phase n = Opened l" "op \<noteq> CommitOp"
| close: "lease_step env n (n\<lparr>phase := Closed\<rparr>)" if "phase n \<noteq> NoLease"
| commit: "lease_step env n (n\<lparr>node_store := st, last_commit := node_wall n, writer := Visible\<rparr>)" if "writer n = Quiet"
| notify: "lease_step env n (n\<lparr>writer := Notifying (registered (phase n))\<rparr>)" if "writer n = Visible"
| acknowledge: "lease_step env n (n\<lparr>phase := (if b then observe_phase env (node_store n) (node_wall n) (phase n) else phase n),
      writer := Quiet\<rparr>)"
    if "writer n = Notifying b"

definition lease_reachable :: "lease_env \<Rightarrow> lease_node \<Rightarrow> bool" where
  "lease_reachable env n = (\<exists>st now wall. (lease_step env)\<^sup>*\<^sup>* (fresh_node st now wall) n)"

subsection \<open>Lemmas: an open lease follows the store\<close>

definition lease_follows :: "lease_env \<Rightarrow> lease_node \<Rightarrow> bool" where
  "lease_follows env n =
     (last_commit n \<le> node_wall n \<and>
      (case phase n of
         Opened l \<Rightarrow> cancelled l = None \<longrightarrow> writer n = Quiet \<or> writer n = Notifying False \<longrightarrow>
           (\<exists>wall\<in>{last_commit n..node_wall n}. snapshot_holds env (node_store n) wall l)
       | _ \<Rightarrow> True))"

lemma on_commit_holds: "cancelled (on_commit env db wall l) = None \<Longrightarrow> snapshot_holds env db wall (on_commit env db wall l)"
  by (auto simp: on_commit_def split: if_splits)

lemma confirm_lease_Inr:
  "confirm_lease env db wall now l = Inr l' \<Longrightarrow> l' = l \<and> snapshot_holds env db wall l"
  using revalidate_ok [of env "Some db" wall now l] revalidate_fst [of env "Some db" wall now l]
  by (auto simp: confirm_lease_def split: prod.splits sum.splits)

lemma lease_step_follows: "lease_step env n n' \<Longrightarrow> lease_follows env n \<Longrightarrow> lease_follows env n'"
proof (induction rule: lease_step.induct)
  case (confirm n l)
  then show ?case by (force simp: lease_follows_def split: sum.split dest!: confirm_lease_Inr)
next
  case (operate n l op)
  let ?m = "\<lparr>at_store = Some (node_store n), at_wall = node_wall n, at_now = node_now n\<rparr>"
  let ?l' = "fst (lease_do env op ?m l)"
  have t: "same_terms l ?l'" by (rule same_terms_do)
  then have "cancelled ?l' = None \<Longrightarrow> cancelled l = None" by (auto simp: same_terms_def)
  then show ?case using operate snapshot_holds_same_terms [OF t] by (simp add: lease_follows_def)
next
  case (acknowledge n b)
  then show ?case
    by (auto simp: lease_follows_def observe_phase_def split: lease_phase.splits dest!: on_commit_holds intro: bexI [of _ "node_wall n"])
next
  case (notify n)
  then show ?case by (auto simp: lease_follows_def registered_def split: lease_phase.splits)
next
  case (pass n d w)
  then show ?case by (force simp: lease_follows_def split: lease_phase.splits)
qed (auto simp: lease_follows_def split: lease_phase.splits)

lemma reachable_follows:
  assumes "lease_reachable env n"
  shows "lease_follows env n"
proof -
  obtain st now wall where "(lease_step env)\<^sup>*\<^sup>* (fresh_node st now wall) n" using assms by (auto simp: lease_reachable_def)
  moreover have "lease_follows env (fresh_node st now wall)" by (simp add: lease_follows_def fresh_node_def)
  ultimately show ?thesis by (induction rule: rtranclp_induct) (simp_all add: lease_step_follows)
qed

lemma lease_step_cancelled:
  assumes "lease_step env n n'" "phase n = Closed \<or> (\<exists>l. phase n = Opened l \<and> cancelled l \<noteq> None)"
  shows "phase n' = Closed \<or> (\<exists>l. phase n' = Opened l \<and> cancelled l \<noteq> None)"
  using assms
proof (induction rule: lease_step.induct)
  case (operate n l op)
  let ?m = "\<lparr>at_store = Some (node_store n), at_wall = node_wall n, at_now = node_now n\<rparr>"
  have "same_terms l (fst (lease_do env op ?m l))" by (rule same_terms_do)
  then show ?case using operate by (auto simp: same_terms_def)
next
  case (acknowledge n b)
  then show ?case by (auto simp: observe_phase_def on_commit_def split: if_splits)
qed auto

subsection \<open>Lemmas: when a registered lease ends\<close>

lemma gateway_binding_deadline:
  assumes "gateway_binding env st wall i ma s t acq = Inr b"
  shows "absolute_deadline_unix_ms b \<le> wall + ABSOLUTE"
    and "session_actor s \<noteq> authority_actor s \<Longrightarrow>
      \<exists>g by_whom paired expiry. pairing_grant s = Some g
        \<and> latest_claim st g ''custom.client.pairing-completed'' = Some (by_whom, paired)
        \<and> Option.bind (pointer [''fields'', ''expires_at_unix_ms''] paired) as_u64 = Some expiry
        \<and> absolute_deadline_unix_ms b \<le> expiry"
  using assms
  by (auto simp: gateway_binding_def and_then_Inr Let_def authority_def pointer_def split: option.splits prod.splits)

lemma register_lease_Inr:
  assumes "register_lease env st wall now i ma s t origin acq = Inr l"
  obtains b initial where "l = new_lease b (origin \<noteq> None) initial acq ma wall now"
    "case origin of Some b' \<Rightarrow> b = b' | None \<Rightarrow> gateway_binding env st wall i ma s t acq = Inr b"
proof -
  obtain b where b: "(case origin of Some b \<Rightarrow> if origin_agrees s t b then Inr b else Inl BindingDiffers
        | None \<Rightarrow> map_sum Forbidden id (gateway_binding env st wall i ma s t acq)) = Inr b"
      "and_then (map_sum StaleAuthority id (snapshot env st wall b (origin \<noteq> None) acq ma))
         (\<lambda>initial. Inr (new_lease b (origin \<noteq> None) initial acq ma wall now)) = Inr l"
    using assms unfolding register_lease_def by (auto simp: and_then_Inr)
  have "case origin of Some b' \<Rightarrow> b = b' | None \<Rightarrow> gateway_binding env st wall i ma s t acq = Inr b"
    using b(1) by (cases "gateway_binding env st wall i ma s t acq") (auto split: option.splits if_splits)
  then show thesis using b(2) that by (auto simp: and_then_Inr)
qed

lemma new_lease_justified: "deadlines_justified now (new_lease b own initial acq ma wall now) []"
  by (simp add: deadlines_justified_def new_lease_def)

lemma expired_code_None: "expired_code c now = None \<longleftrightarrow> now < absolute c \<and> now < idle c \<and> now < proof_until c"
  by (auto simp: expired_code_def)

subsection \<open>An example: a person watches a terminal of their own node\<close>

definition example_lease_env :: lease_env where
  "example_lease_env = \<lparr>credential_digest = id, json_text = (\<lambda>_. ''j''), daemon_epoch = ''e''\<rparr>"

definition example_runtime :: runtime_authority where
  "example_runtime =
     \<lparr>actual = Some (JObject [(''incarnation_id'', JString ''i''), (''status'', JString ''running'')]),
      actual_origin = Some ''n'', reachability = ''local''\<rparr>"

definition example_leases :: "runtime_authority option \<Rightarrow> authority_store" where
  "example_leases rt =
     \<lparr>authority_rows = [], desired_revisions = Map.empty, fleet_anchor = None, fleet_rows = [],
      runtimes = Map.empty(''agent/s'' := rt)\<rparr>"

definition example_membership :: membership_authority where
  "example_membership = \<lparr>auth_node = ''n'', local_key = None, auth_peers = [], auth_legacy = False\<rparr>"

definition example_lease_session :: lease_session where
  "example_lease_session = \<lparr>session_actor = ''person/a'', authority_actor = ''person/a'', pairing_grant = None\<rparr>"

definition example_target :: lease_target where
  "example_target = \<lparr>target_terminal = ''terminal/agent/s'', target_owner = ''host/n'', target_incarnation = ''i''\<rparr>"

definition example_binding :: raw_lease_binding where
  "example_binding =
     \<lparr>bind_lease_id = ''x'', bind_gateway = ''host/n'', gateway_epoch = ''e'', bind_actor = ''person/a'',
      bind_person = ''person/a'', bind_authorization_epoch = ''j'', grant_subject = None, grant_digest = None,
      gateway_member_key = None, owner_member_key = None, bind_terminal = ''terminal/agent/s'',
      bind_owner = ''host/n'', bind_incarnation = ''i'', bind_mode = ''peek'', absolute_deadline_unix_ms = 300000\<rparr>"

definition example_lease :: lease where
  "example_lease = new_lease example_binding False ''j'' ''j'' example_membership 0 0"

lemma example_names [simp]:
  "client_host_id ''n'' = ''host/n''" "trim_host ''host/n'' = ''n''" "terminal_subject ''terminal/agent/s'' = ''agent/s''"
  by code_simp+

lemma view_of_nobody: "from_membership no_membership = \<lparr>view_anchor = None, view_members = [], legacy_removed = []\<rparr>"
  by (simp add: from_membership_def all_incarnations_def legacy_removed_names_def no_membership_def Let_def)

lemmas example_lease_defs = example_lease_env_def example_runtime_def example_leases_def example_membership_def
  example_lease_session_def example_target_def example_binding_def fleet_membership_tx_def view_of_nobody

lemma example_authority_ok:
  "authority example_lease_env (example_leases rt) wall ''person/a'' ''person/a'' g =
     Inr (JObject [(''local_principal_epoch'', principal_epoch example_lease_env (example_leases rt) ''person/a'')])"
  by (simp add: authority_def)

lemma example_snapshot:
  "snapshot example_lease_env (example_leases (Some example_runtime)) wall example_binding False ''j'' example_membership = Inr ''j''"
  "snapshot example_lease_env (example_leases None) wall example_binding False ''j'' example_membership = Inl RuntimeMissing"
  by (simp_all add: snapshot_def validate_membership_def validate_host_def check_runtime_def authority_def example_lease_defs
      text_at_def Let_def ensure_def)

lemma example_registered:
  "register_lease example_lease_env (example_leases (Some example_runtime)) 0 0 ''x'' example_membership example_lease_session example_target
     None ''j'' = Inr example_lease"
proof -
  have "gateway_binding example_lease_env (example_leases (Some example_runtime)) 0 ''x'' example_membership example_lease_session
      example_target ''j'' = Inr example_binding"
    by (simp add: gateway_binding_def example_lease_defs authority_def Let_def text_at_def pointer_def ABSOLUTE_def current_def)
  then show ?thesis
    by (simp add: register_lease_def example_lease_def example_snapshot)
qed

lemma example_holds:
  "snapshot_holds example_lease_env (example_leases (Some example_runtime)) wall example_lease"
  "\<not> snapshot_holds example_lease_env (example_leases None) wall example_lease"
  by (simp_all add: snapshot_holds_def example_lease_def new_lease_def example_snapshot)

definition example_node :: lease_node where
  "example_node = (fresh_node (example_leases (Some example_runtime)) 0 0)\<lparr>phase := Opened example_lease\<rparr>"

lemma example_check: "check 0 example_lease = (example_lease, Inr ())"
  by (simp add: check_def and_also_def unless_cancelled_def expire_def expired_code_def example_lease_def new_lease_def
      IDLE_def ABSOLUTE_def WATCH_def example_binding_def)

lemma example_node_reachable: "lease_reachable example_lease_env example_node"
proof -
  let ?n = "fresh_node (example_leases (Some example_runtime)) 0 0"
  have 1: "lease_step example_lease_env ?n (?n\<lparr>phase := Drafted example_lease\<rparr>)"
    using example_registered by (intro lease_step.draft) (simp_all add: fresh_node_def)
  have 2: "lease_step example_lease_env (?n\<lparr>phase := Drafted example_lease\<rparr>) (?n\<lparr>phase := Observed example_lease\<rparr>)"
    using lease_step.observe [of "?n\<lparr>phase := Drafted example_lease\<rparr>" example_lease example_lease_env] by simp
  have "confirm_lease example_lease_env (example_leases (Some example_runtime)) 0 0 example_lease = Inr example_lease"
    by (simp add: confirm_lease_def revalidate_def and_also_def example_check example_holds)
  then have 3: "lease_step example_lease_env (?n\<lparr>phase := Observed example_lease\<rparr>) example_node"
    using lease_step.confirm [of "?n\<lparr>phase := Observed example_lease\<rparr>" example_lease example_lease_env]
    by (simp add: example_node_def fresh_node_def)
  show ?thesis unfolding lease_reachable_def
    using rtranclp.rtrancl_into_rtrancl [OF rtranclp.rtrancl_into_rtrancl [OF r_into_rtranclp [of "lease_step example_lease_env", OF 1] 2] 3]
    by blast
qed

subsection \<open>Properties\<close>

text \<open>
  C9. A terminal lease follows the store. However registration, commits and the notification of
  observers interleave, when no write is waiting for its acknowledgement and an operation on an open lease succeeds, the
  authority of the lease held in the current store, at a wall time since its last commit: the
  terminal runs as the bound incarnation on the bound owner, the fleet accepts both nodes, and the pairing
  the lease was opened with is there, readable and not revoked.
\<close>

theorem open_lease_follows_store:
  assumes "lease_reachable env n" "writer n = Quiet" "phase n = Opened l" "op \<noteq> CommitOp"
    and "snd (lease_do env op \<lparr>at_store = Some (node_store n), at_wall = node_wall n, at_now = node_now n\<rparr> l) = Inr ()"
  shows "\<exists>wall\<in>{last_commit n..node_wall n}. authorised env (node_store n) wall l"
proof -
  have "cancelled l = None" using lease_do_unexpired [OF assms(5,4)] by simp
  then obtain wall where "wall \<in> {last_commit n..node_wall n}" "snapshot_holds env (node_store n) wall l"
    using reachable_follows [OF assms(1)] assms(2,3) by (auto simp: lease_follows_def)
  then show ?thesis using snapshot_holds_authorised by blast
qed

theorem open_lease_follows_store_witness:
  "\<exists>wall\<in>{0..0}. authorised example_lease_env (example_leases (Some example_runtime)) wall example_lease"
  using open_lease_follows_store [OF example_node_reachable, of example_lease CheckOp] example_check
  by (simp add: example_node_def fresh_node_def lease_do_def)

text \<open>
  A revocation ends a lease for good. Once the observers have run on a commit that changed the authority
  of an open lease, the lease is closed or cancelled in every later state, also when a later commit
  restores the authority, and no operation on it succeeds.
\<close>

lemma revocation_is_final:
  assumes "writer n = Notifying True" "phase n = Opened l" "\<not> snapshot_holds env (node_store n) (node_wall n) l"
    and "(lease_step env)\<^sup>*\<^sup>* (n\<lparr>phase := observe_phase env (node_store n) (node_wall n) (phase n), writer := Quiet\<rparr>) n'"
    and "phase n' = Opened l'" "op \<noteq> CommitOp"
  shows "snd (lease_do env op m l') \<noteq> Inr ()"
proof -
  have "phase n' = Closed \<or> (\<exists>l. phase n' = Opened l \<and> cancelled l \<noteq> None)"
    using assms(4)
  proof (induction rule: rtranclp_induct)
    case base
    then show ?case using assms(2,3) by (simp add: observe_phase_def on_commit_def)
  next
    case (step y z)
    then show ?case using lease_step_cancelled by blast
  qed
  then have "cancelled l' \<noteq> None" using assms(5) by simp
  then show ?thesis using lease_do_unexpired [OF _ assms(6), of env m l'] by auto
qed

text \<open>
  C30. Every lease ends in time. Whatever operations came before, one succeeds only less than five minutes after the
  lease was registered, before the absolute deadline of its binding, less than a minute after the registration or a
  selected use that succeeded, and less than five seconds after the registration or a proof that succeeded.
  For a paired session the gateway's lease also ends before the pairing expires.
\<close>

theorem lease_ends_in_time:
  assumes "register_lease env st wall now i ma s t origin acq = Inr l0"
    and "fold (lease_run_step env) ops (l0, []) = (l, log)"
    and "snd (lease_do env op m l) = Inr ()" "op \<noteq> CommitOp"
  shows "at_now m < now + ABSOLUTE \<and> at_now m < now + (absolute_deadline_unix_ms (binding l) - wall)
    \<and> (\<exists>u\<in>insert now (selected_at log). at_now m < u + IDLE)
    \<and> (\<exists>u\<in>insert now (proved_at log). at_now m < u + WATCH)
    \<and> (origin = None \<and> session_actor s \<noteq> authority_actor s \<longrightarrow>
        (\<exists>g by_whom paired expiry. pairing_grant s = Some g
          \<and> latest_claim st g ''custom.client.pairing-completed'' = Some (by_whom, paired)
          \<and> Option.bind (pointer [''fields'', ''expires_at_unix_ms''] paired) as_u64 = Some expiry
          \<and> at_now m < now + (expiry - wall)))"
proof -
  obtain b initial where b: "l0 = new_lease b (origin \<noteq> None) initial acq ma wall now"
      "case origin of Some b' \<Rightarrow> b = b' | None \<Rightarrow> gateway_binding env st wall i ma s t acq = Inr b"
    by (rule register_lease_Inr [OF assms(1)])
  have j: "deadlines_justified now l log" "same_terms l0 l"
    using lease_run_justified [of now l0 "[]" env ops] new_lease_justified assms(2) b(1) by (auto split: prod.splits)
  have a: "absolute (clock l) = now + min (absolute_deadline_unix_ms b - wall) ABSOLUTE" "binding l = b"
    using j(2) by (simp_all add: same_terms_def b(1) new_lease_def)
  have e: "at_now m < absolute (clock l)" "at_now m < idle (clock l)" "at_now m < proof_until (clock l)"
    using lease_do_unexpired [OF assms(3,4)] by (auto simp: expired_code_None)
  have "\<exists>g by_whom paired expiry. pairing_grant s = Some g
        \<and> latest_claim st g ''custom.client.pairing-completed'' = Some (by_whom, paired)
        \<and> Option.bind (pointer [''fields'', ''expires_at_unix_ms''] paired) as_u64 = Some expiry
        \<and> at_now m < now + (expiry - wall)" if "origin = None" "session_actor s \<noteq> authority_actor s"
  proof -
    have g: "gateway_binding env st wall i ma s t acq = Inr b" using b(2) that(1) by simp
    show ?thesis using gateway_binding_deadline(2) [OF g that(2)] e(1) a(1) by (fastforce simp: min_def split: if_splits)
  qed
  then show ?thesis using e a j(1) by (auto simp: deadlines_justified_def)
qed

theorem lease_ends_in_time_witness:
  "(0 :: nat) < 0 + (absolute_deadline_unix_ms (binding example_lease) - 0)"
  using lease_ends_in_time [OF example_registered, of "[]" example_lease "[]" CheckOp "\<lparr>at_store = None, at_wall = 0, at_now = 0\<rparr>"]
    example_check
  by (simp add: lease_do_def)

end
