(* ===== verification/Raw_Splice.thy ===== *)
theory Raw_Splice
  imports Frame_Gate Terminal_Lease
begin

section \<open>The splice between a socket and a terminal\<close>

text \<open>
  Models \<open>splice\<close> and \<open>lease_query\<close> of \<open>crates/fractal-api-core/src/api/client_v0/raw_terminal.rs\<close>: the two loops
  between a WebSocket and the stream of a terminal, with the lease, the frame gate and the heartbeat. A definition is one
  turn of a loop, from one wait to the next; the code between takes no time. The heartbeat waits for
  the store, so it takes two turns. A socket that fails, and a client that goes away, end the splice. What the splice
  sends is kept with the time.
\<close>

subsection \<open>Messages\<close>

type_synonym bytes = "8 word list"

datatype socket_message = TextMessage string | BinaryMessage bytes | PingMessage | PongMessage | CloseMessage

datatype control = SelectedUse nat | AuthorityProof string string nat

definition CHUNK :: nat where "CHUNK = 16 * 1024"

text \<open>
  \<open>control\<close> says whether selected uses are passed on to a relay. The terminal's end is called the
  transport. \<open>asked\<close> is the revalidation the heartbeat waits for: its moment and whether it succeeded.
  \<open>proofs\<close> is for the proofs only: for each owner proof the moments of its revalidation and of its sending, and its number.
\<close>

record splice =
  splice_lease :: "lease option"
  splice_gate :: frame_gate
  splice_control :: bool
  heartbeats :: nat
  asked :: "(lease_moment \<times> bool) option"
  splice_open :: bool
  to_transport :: bytes
  to_socket :: "(nat \<times> socket_message) list"
  to_relay :: "nat list"
  proofs :: "(lease_moment \<times> lease_moment \<times> nat) list"

definition new_splice :: "raw_mode option \<Rightarrow> lease option \<Rightarrow> bool \<Rightarrow> splice" where
  "new_splice m l c =
     \<lparr>splice_lease = l, splice_gate = new_gate m, splice_control = c, heartbeats = 0, asked = None, splice_open = True,
      to_transport = [], to_socket = [], to_relay = [], proofs = []\<rparr>"

text \<open>The libraries: those of a lease, the tags of frames, and the reading of a control text.\<close>

record splice_env =
  leases :: lease_env
  from_u8 :: "8 word \<Rightarrow> message_type"
  read_control :: "string \<Rightarrow> control option"

subsection \<open>Turns of the loops\<close>

text \<open>A query of the lease needs a reader of the store; \<open>refused\<close> is the error if none is admitted.\<close>

definition lease_query :: "lease_env \<Rightarrow> string option \<Rightarrow> lease_op \<Rightarrow> lease_moment \<Rightarrow> lease \<Rightarrow> lease_outcome" where
  "lease_query env refused op m l =
     (case at_store m of
        None \<Rightarrow> (l, Inl ''authority stopped'')
      | Some _ \<Rightarrow> (case refused of Some e \<Rightarrow> (l, Inl e) | None \<Rightarrow> lease_do env op m l))"

definition end_splice :: "splice \<Rightarrow> splice" where
  "end_splice s = s\<lparr>splice_open := False\<rparr>"

text \<open>The lease after an operation; the splice ends if it failed.\<close>

definition with_lease :: "lease_outcome \<Rightarrow> (splice \<Rightarrow> splice) \<Rightarrow> splice \<Rightarrow> splice" where
  "with_lease r f s =
     (case r of
        (l, Inr _) \<Rightarrow> f (s\<lparr>splice_lease := Some l\<rparr>)
      | (l, Inl _) \<Rightarrow> end_splice (s\<lparr>splice_lease := Some l\<rparr>))"

definition send_socket :: "nat \<Rightarrow> socket_message \<Rightarrow> splice \<Rightarrow> splice" where
  "send_socket now msg s = s\<lparr>to_socket := to_socket s @ [(now, msg)]\<rparr>"

definition splice_text :: "splice_env \<Rightarrow> string option \<Rightarrow> lease_moment \<Rightarrow> string \<Rightarrow> splice \<Rightarrow> splice" where
  "splice_text env refused m t s =
     (case splice_lease s of
        None \<Rightarrow> end_splice s
      | Some l \<Rightarrow>
          (case read_control env t of
             None \<Rightarrow> end_splice s
           | Some (SelectedUse n) \<Rightarrow>
               with_lease (lease_query (leases env) refused (SelectedUseOp n) m l)
                 (\<lambda>s. if splice_control s then s\<lparr>to_relay := to_relay s @ [n]\<rparr> else s) s
           | Some (AuthorityProof lid ep n) \<Rightarrow>
               if owner_side l \<and> lid = bind_lease_id (binding l)
               then with_lease (lease_query (leases env) refused (ProofOp ep n) m l) id s
               else end_splice s))"

definition write_transport :: "splice_env \<Rightarrow> bytes \<Rightarrow> splice \<Rightarrow> splice" where
  "write_transport env bs s =
     (case write_gate (from_u8 env) (splice_gate s) bs of
        (g, out, ok) \<Rightarrow> s\<lparr>splice_gate := g, to_transport := to_transport s @ out, splice_open := (splice_open s \<and> ok)\<rparr>)"

definition splice_binary :: "splice_env \<Rightarrow> lease_moment \<Rightarrow> bytes \<Rightarrow> splice \<Rightarrow> splice" where
  "splice_binary env m bs s =
     (case splice_lease s of
        None \<Rightarrow> write_transport env bs s
      | Some l \<Rightarrow>
          with_lease (lease_do (leases env) CheckOp m l)
            (if owner_side l \<and> \<not> has_proof l then end_splice else write_transport env bs) s)"

definition splice_message :: "splice_env \<Rightarrow> string option \<Rightarrow> lease_moment \<Rightarrow> socket_message \<Rightarrow> splice \<Rightarrow> splice" where
  "splice_message env refused m msg s =
     (case msg of
        TextMessage t \<Rightarrow> splice_text env refused m t s
      | BinaryMessage bs \<Rightarrow> splice_binary env m bs s
      | PingMessage \<Rightarrow> s
      | PongMessage \<Rightarrow> s
      | CloseMessage \<Rightarrow> end_splice s)"

definition owner_proof_json :: "raw_lease_binding \<Rightarrow> nat \<Rightarrow> nat \<Rightarrow> json" where
  "owner_proof_json b n issued =
     JObject
       [(''issued_at_unix_ms'', JPosInt issued), (''lease_id'', JString (bind_lease_id b)), (''sequence'', JPosInt n),
        (''type'', JString ''owner-proof''), (''watcher_epoch'', JString (gateway_epoch b))]"

abbreviation owner_proof_text :: "lease_env \<Rightarrow> raw_lease_binding \<Rightarrow> nat \<Rightarrow> nat \<Rightarrow> string" where
  "owner_proof_text env b n issued \<equiv> json_text env (owner_proof_json b n issued)"

definition heartbeat_asks :: "splice_env \<Rightarrow> string option \<Rightarrow> lease_moment \<Rightarrow> splice \<Rightarrow> splice" where
  "heartbeat_asks env refused m s =
     (case (splice_lease s, asked s) of
        (Some l, None) \<Rightarrow>
          (case lease_query (leases env) refused RevalidateOp m l of
             (l', r) \<Rightarrow> s\<lparr>splice_lease := Some l', asked := Some (m, r = Inr ())\<rparr>)
      | _ \<Rightarrow> s)"

definition send_owner_proof :: "splice_env \<Rightarrow> lease_moment \<Rightarrow> lease_moment \<Rightarrow> raw_lease_binding \<Rightarrow> splice \<Rightarrow> splice" where
  "send_owner_proof env m0 m b s =
     (send_socket (at_now m) (TextMessage (owner_proof_text (leases env) b (heartbeats s) (at_wall m))) s)
       \<lparr>proofs := proofs s @ [(m0, m, heartbeats s)]\<rparr>"

text \<open>The second turn; where the gateway is the owner it asks the store once more.\<close>

definition heartbeat_answers :: "splice_env \<Rightarrow> string option \<Rightarrow> lease_moment \<Rightarrow> splice \<Rightarrow> splice" where
  "heartbeat_answers env refused m s =
     (case (splice_lease s, asked s) of
        (Some l, Some (m0, ok)) \<Rightarrow>
          (let s1 = s\<lparr>asked := None, heartbeats := heartbeats s + 1\<rparr>
           in if \<not> ok then end_splice (s\<lparr>asked := None\<rparr>)
              else if owner_side l then send_owner_proof env m0 m (binding l) s1
              else if bind_gateway (binding l) = bind_owner (binding l)
              then with_lease (lease_query (leases env) refused (ProofOp (gateway_epoch (binding l)) (heartbeats s1)) m l) id s1
              else s1)
      | _ \<Rightarrow> s)"

text \<open>Whether the loop reads the terminal at all, and a read of it.\<close>

definition may_read :: "splice \<Rightarrow> bool" where
  "may_read s = (case splice_lease s of None \<Rightarrow> True | Some l \<Rightarrow> \<not> owner_side l \<or> has_proof l)"

definition splice_read :: "splice_env \<Rightarrow> lease_moment \<Rightarrow> bytes \<Rightarrow> splice \<Rightarrow> splice" where
  "splice_read env m bs s =
     (if \<not> may_read s \<or> asked s \<noteq> None then s
      else if bs = [] then end_splice s
      else case splice_lease s of
        None \<Rightarrow> send_socket (at_now m) (BinaryMessage (take CHUNK bs)) s
      | Some l \<Rightarrow>
          with_lease (lease_do (leases env) CheckOp m l) (send_socket (at_now m) (BinaryMessage (take CHUNK bs))) s)"

definition splice_expired :: "splice_env \<Rightarrow> lease_moment \<Rightarrow> splice \<Rightarrow> splice" where
  "splice_expired env m s =
     (case splice_lease s of None \<Rightarrow> s | Some l \<Rightarrow> with_lease (lease_do (leases env) CheckOp m l) id s)"

text \<open>The observer of the lease, which other threads run.\<close>

definition splice_commit :: "splice_env \<Rightarrow> lease_moment \<Rightarrow> splice \<Rightarrow> splice" where
  "splice_commit env m s =
     s\<lparr>splice_lease := map_option (\<lambda>l. fst (lease_do (leases env) CommitOp m l)) (splice_lease s)\<rparr>"

datatype splice_event =
    Receives socket_message "string option"
  | HeartbeatAsks "string option"
  | HeartbeatAnswers "string option"
  | Reads bytes
  | Expires
  | Observes
  | Fails

definition splice_do :: "splice_env \<Rightarrow> lease_moment \<Rightarrow> splice_event \<Rightarrow> splice \<Rightarrow> splice" where
  "splice_do env m e s =
     (if e = Observes then splice_commit env m s
      else if \<not> splice_open s then s
      else case e of
        Receives msg refused \<Rightarrow> splice_message env refused m msg s
      | HeartbeatAsks refused \<Rightarrow> heartbeat_asks env refused m s
      | HeartbeatAnswers refused \<Rightarrow> heartbeat_answers env refused m s
      | Reads bs \<Rightarrow> splice_read env m bs s
      | Expires \<Rightarrow> splice_expired env m s
      | Observes \<Rightarrow> s
      | Fails \<Rightarrow> end_splice s)"

subsection \<open>Lemmas: the lease of a splice\<close>

lemma lease_query_cases:
  obtains "lease_query env refused op m l = lease_do env op m l" "at_store m \<noteq> None"
  | e where "lease_query env refused op m l = (l, Inl e)"
  by (cases "at_store m"; cases refused) (auto simp: lease_query_def)

lemma lease_do_proof_until:
  "(\<And>e n. op \<noteq> ProofOp e n) \<Longrightarrow> proof_until (clock (fst (lease_do env op m l))) = proof_until (clock l)"
  by (cases op) (auto simp: lease_do_clock extends_def)

text \<open>
  The lease keeps its terms; unless it is the owner's lease or the gateway is the owner, nothing
  the splice does is a proof.
\<close>

definition splice_keeps :: "lease \<Rightarrow> lease \<Rightarrow> bool" where
  "splice_keeps l l' =
     (same_terms l l' \<and> (\<not> owner_side l \<and> bind_gateway (binding l) \<noteq> bind_owner (binding l)
        \<longrightarrow> proof_until (clock l') = proof_until (clock l)))"

lemma splice_keeps_refl [simp]: "splice_keeps l l"
  by (simp add: splice_keeps_def)

lemma splice_keeps_trans: "splice_keeps l l' \<Longrightarrow> splice_keeps l' l'' \<Longrightarrow> splice_keeps l l''"
  by (auto simp: splice_keeps_def same_terms_def)

lemma splice_keeps_do:
  "(\<And>e n. op = ProofOp e n \<Longrightarrow> owner_side l \<or> bind_gateway (binding l) = bind_owner (binding l))
    \<Longrightarrow> splice_keeps l (fst (lease_do env op m l))"
  using lease_do_proof_until [of op env m l] same_terms_do by (auto simp: splice_keeps_def)

lemma splice_keeps_query:
  "(\<And>e n. op = ProofOp e n \<Longrightarrow> owner_side l \<or> bind_gateway (binding l) = bind_owner (binding l))
    \<Longrightarrow> splice_keeps l (fst (lease_query env refused op m l))"
  by (cases rule: lease_query_cases [of env refused op m l]) (auto intro: splice_keeps_do)

text \<open>What a step of a splice with a lease leaves of it.\<close>

definition leaves_lease :: "lease \<Rightarrow> splice \<Rightarrow> bool" where
  "leaves_lease l s = (\<exists>l'. splice_lease s = Some l' \<and> splice_keeps l l')"

lemma leaves_leaseI: "splice_lease s = Some l' \<Longrightarrow> splice_keeps l l' \<Longrightarrow> leaves_lease l s"
  by (simp add: leaves_lease_def)

lemma leaves_with_lease:
  "splice_keeps l (fst r) \<Longrightarrow> (\<And>s. splice_lease (f s) = splice_lease s) \<Longrightarrow> leaves_lease l (with_lease r f s)"
  by (cases r; cases "snd r") (auto simp: with_lease_def leaves_lease_def end_splice_def)

lemma splice_lease_keep [simp]:
  "splice_lease (end_splice s) = splice_lease s" "splice_lease (send_socket now msg s) = splice_lease s"
  "splice_lease (write_transport env bs s) = splice_lease s" "splice_lease (send_owner_proof env m0 m b s) = splice_lease s"
  by (simp_all add: end_splice_def send_socket_def write_transport_def send_owner_proof_def split: prod.split)

lemma heartbeat_leaves:
  assumes "splice_lease s = Some l"
  shows "leaves_lease l (heartbeat_asks env refused m s)" "leaves_lease l (heartbeat_answers env refused m s)"
proof -
  show "leaves_lease l (heartbeat_asks env refused m s)"
    using assms splice_keeps_query [of RevalidateOp l "leases env" refused m]
    by (auto simp: heartbeat_asks_def leaves_lease_def split: option.split prod.split)
  show "leaves_lease l (heartbeat_answers env refused m s)"
    using assms
    by (auto simp: heartbeat_answers_def Let_def split: option.split prod.split
        intro!: leaves_with_lease splice_keeps_query intro: leaves_leaseI)
qed

lemma message_leaves:
  assumes "splice_lease s = Some l"
  shows "leaves_lease l (splice_message env refused m msg s)"
  using assms
  by (auto simp: splice_message_def splice_text_def splice_binary_def split: socket_message.split option.split control.split
      intro!: leaves_with_lease splice_keeps_query splice_keeps_do intro: leaves_leaseI)

lemma splice_do_leaves:
  assumes "splice_lease s = Some l"
  shows "leaves_lease l (splice_do env m e s)"
proof (cases "e = Observes \<or> \<not> splice_open s")
  case True
  then show ?thesis using assms splice_keeps_do [of CommitOp l "leases env" m]
    by (auto simp: splice_do_def splice_commit_def leaves_lease_def)
next
  case False
  show ?thesis
  proof (cases e)
    case (Reads bs)
    then show ?thesis using assms False
      by (auto simp: splice_do_def splice_read_def intro!: leaves_with_lease splice_keeps_do intro: leaves_leaseI)
  next
    case Expires
    then show ?thesis using assms False
      by (auto simp: splice_do_def splice_expired_def intro!: leaves_with_lease splice_keeps_do)
  qed (use assms False in \<open>auto simp: splice_do_def message_leaves heartbeat_leaves intro: leaves_leaseI\<close>)
qed

subsection \<open>Lemmas: what a turn sends\<close>

text \<open>
  A turn sends nothing, or bytes under a lease that is live at that moment, or one owner proof for the
  revalidation it waited for. A revalidation is waited for only after the store was asked.
\<close>

definition turn_sends :: "splice_env \<Rightarrow> lease_moment \<Rightarrow> lease \<Rightarrow> splice \<Rightarrow> splice \<Rightarrow> bool" where
  "turn_sends env m l s s' =
     (to_socket s' = to_socket s \<and> proofs s' = proofs s
      \<or> (\<exists>bs. to_socket s' = to_socket s @ [(at_now m, BinaryMessage bs)] \<and> proofs s' = proofs s
           \<and> cancelled l = None \<and> expired_code (clock l) (at_now m) = None)
      \<or> (\<exists>m0 n. asked s = Some (m0, True) \<and> proofs s' = proofs s @ [(m0, m, n)]
           \<and> to_socket s' = to_socket s @ [(at_now m, TextMessage (owner_proof_text (leases env) (binding l) n (at_wall m)))]))"

definition turn_asks :: "splice_env \<Rightarrow> lease_moment \<Rightarrow> lease \<Rightarrow> splice \<Rightarrow> splice \<Rightarrow> bool" where
  "turn_asks env m l s s' =
     (asked s' = asked s \<or> asked s' = None
      \<or> (\<exists>ok. asked s' = Some (m, ok) \<and> (ok \<longrightarrow> (\<exists>db. at_store m = Some db \<and> snapshot_holds (leases env) db (at_wall m) l))))"

lemma with_lease_fields:
  assumes "\<And>s. to_socket (f s) = to_socket s" "\<And>s. proofs (f s) = proofs s" "\<And>s. asked (f s) = asked s"
  shows "to_socket (with_lease r f s) = to_socket s" "proofs (with_lease r f s) = proofs s" "asked (with_lease r f s) = asked s"
  using assms by (cases r; cases "snd r"; simp add: with_lease_def end_splice_def)+

lemma splice_fields [simp]:
  "to_socket (end_splice s) = to_socket s" "proofs (end_splice s) = proofs s" "asked (end_splice s) = asked s"
  "to_socket (write_transport env bs s) = to_socket s" "proofs (write_transport env bs s) = proofs s"
  "asked (write_transport env bs s) = asked s"
  "to_socket (send_socket now msg s) = to_socket s @ [(now, msg)]" "proofs (send_socket now msg s) = proofs s"
  "asked (send_socket now msg s) = asked s"
  by (simp_all add: end_splice_def write_transport_def send_socket_def split: prod.split)

lemma message_fields:
  "to_socket (splice_message env refused m msg s) = to_socket s" "proofs (splice_message env refused m msg s) = proofs s"
  "asked (splice_message env refused m msg s) = asked s"
  by (auto simp: splice_message_def splice_text_def splice_binary_def with_lease_fields
      split: socket_message.split option.split control.split)

lemma lease_query_revalidates:
  assumes "lease_query env refused RevalidateOp m l = (l', Inr x)"
  shows "\<exists>db. at_store m = Some db \<and> snapshot_holds env db (at_wall m) l"
proof (cases rule: lease_query_cases [of env refused RevalidateOp m l])
  case 1
  then have "revalidate env (at_store m) (at_wall m) (at_now m) l = (l', Inr ())"
    using assms by (simp add: lease_do_def)
  then have "snd (revalidate env (at_store m) (at_wall m) (at_now m) l) = Inr ()" by simp
  then show ?thesis by (simp add: revalidate_ok)
qed (use assms in simp)

lemma splice_do_turn:
  assumes "splice_lease s = Some l"
  shows "turn_sends env m l s (splice_do env m e s) \<and> turn_asks env m l s (splice_do env m e s)"
proof (cases "e = Observes \<or> \<not> splice_open s")
  case True
  then show ?thesis by (auto simp: splice_do_def splice_commit_def turn_sends_def turn_asks_def)
next
  case False
  show ?thesis
  proof (cases e)
    case (Reads bs)
    obtain l' res where c: "lease_do (leases env) CheckOp m l = (l', res)" by fastforce
    then have "res = Inr () \<Longrightarrow> cancelled l = None \<and> expired_code (clock l) (at_now m) = None"
      using lease_do_unexpired [of "leases env" CheckOp m l] by simp
    then show ?thesis using assms False Reads c
      by (cases res) (auto simp: splice_do_def splice_read_def with_lease_def turn_sends_def turn_asks_def)
  next
    case (HeartbeatAsks refused)
    obtain l' res where c: "lease_query (leases env) refused RevalidateOp m l = (l', res)" by fastforce
    then show ?thesis using assms False HeartbeatAsks lease_query_revalidates [of "leases env" refused m l l' "()"]
      by (auto simp: splice_do_def heartbeat_asks_def turn_sends_def turn_asks_def split: option.split)
  next
    case (HeartbeatAnswers refused)
    then show ?thesis using assms False
      by (auto simp: splice_do_def heartbeat_answers_def turn_sends_def turn_asks_def with_lease_fields send_owner_proof_def Let_def
          split: option.split)
  next
    case Expires
    then show ?thesis using assms False
      by (simp add: splice_do_def splice_expired_def turn_sends_def turn_asks_def with_lease_fields)
  qed (use False in \<open>simp_all add: splice_do_def message_fields turn_sends_def turn_asks_def\<close>)
qed

subsection \<open>Lemmas: what reaches the terminal\<close>

text \<open>What was written is what the reference filter passes of some stream, and the gate of an open splice can resume it.\<close>

definition gate_follows :: "(8 word \<Rightarrow> message_type) \<Rightarrow> raw_mode option \<Rightarrow> splice \<Rightarrow> bool" where
  "gate_follows f mo s =
     (\<exists>bs. if splice_open s
           then gate_ok (splice_gate s) \<and> (\<forall>rest. forward f mo False (bs @ rest)
             = (to_transport s @ fst (resume f (splice_gate s) rest), snd (resume f (splice_gate s) rest)))
           else fst (forward f mo False bs) = to_transport s)"

lemma gate_follows_new: "gate_follows f mo (new_splice mo l c)"
  by (auto simp: gate_follows_def new_splice_def gate_ok_def resume_def new_gate_def intro!: exI [of _ "[]"])

lemma gate_follows_passed:
  assumes "gate_follows f mo s"
  shows "\<exists>bs. fst (forward f mo False bs) = to_transport s"
proof (cases "splice_open s")
  case True
  then obtain bs where "gate_ok (splice_gate s)" "forward f mo False (bs @ [])
      = (to_transport s @ fst (resume f (splice_gate s) []), snd (resume f (splice_gate s) []))"
    using assms unfolding gate_follows_def by auto
  then show ?thesis by (auto simp: resume_nil intro!: exI [of _ bs])
qed (use assms in \<open>auto simp: gate_follows_def\<close>)

definition gate_kept :: "splice \<Rightarrow> splice \<Rightarrow> bool" where
  "gate_kept s s' = (splice_gate s' = splice_gate s \<and> to_transport s' = to_transport s \<and> (splice_open s' \<longrightarrow> splice_open s))"

lemma gate_follows_kept: "gate_follows f mo s \<Longrightarrow> gate_kept s s' \<Longrightarrow> gate_follows f mo s'"
  using gate_follows_passed [of f mo s] by (cases "splice_open s'") (auto simp: gate_follows_def gate_kept_def)

lemma gate_kept_refl [simp]: "gate_kept s s"
  by (simp add: gate_kept_def)

lemma gate_kept_simps [simp]:
  "gate_kept s (end_splice s)" "gate_kept s (send_socket now msg s)" "gate_kept s (s\<lparr>splice_lease := l\<rparr>)"
  "gate_kept s (s\<lparr>to_relay := ns\<rparr>)"
  by (simp_all add: gate_kept_def end_splice_def send_socket_def)

lemma gate_kept_trans: "gate_kept s s' \<Longrightarrow> gate_kept s' s'' \<Longrightarrow> gate_kept s s''"
  by (simp add: gate_kept_def)

lemma gate_kept_with_lease: "(\<And>s. gate_kept s (f s)) \<Longrightarrow> gate_kept s (with_lease r f s)"
  unfolding with_lease_def
  by (cases r; cases "snd r") (auto intro: gate_kept_trans [OF gate_kept_simps(3) gate_kept_simps(1)] gate_kept_trans [OF gate_kept_simps(3)])

lemma write_transport_follows:
  assumes "gate_follows f mo s" "splice_open s" "f = from_u8 env"
  shows "gate_follows f mo (write_transport env bs s)"
proof -
  obtain cs where cs: "gate_ok (splice_gate s)" "\<And>rest. forward f mo False (cs @ rest)
      = (to_transport s @ fst (resume f (splice_gate s) rest), snd (resume f (splice_gate s) rest))"
    using assms(1,2) unfolding gate_follows_def by auto
  obtain g out ok where w: "write_gate f (splice_gate s) bs = (g, out, ok)" by (cases "write_gate f (splice_gate s) bs")
  note wr = write_gate_resumes [OF cs(1) w]
  show ?thesis
  proof (cases ok)
    case True
    then have "forward f mo False ((cs @ bs) @ rest) = ((to_transport s @ out) @ fst (resume f g rest), snd (resume f g rest))" for rest
      using wr cs(2) [of "bs @ rest"] by simp
    then show ?thesis using True wr w assms(2,3) unfolding gate_follows_def write_transport_def by (intro exI [of _ "cs @ bs"]) simp
  next
    case False
    then have "fst (forward f mo False (cs @ bs)) = to_transport s @ out" using wr cs(2) [of bs] by (metis append_Nil2 fst_conv)
    then show ?thesis using False w assms(3) unfolding gate_follows_def write_transport_def by (intro exI [of _ "cs @ bs"]) simp
  qed
qed

lemma splice_binary_follows:
  assumes "gate_follows f mo s" "splice_open s" "f = from_u8 env"
  shows "gate_follows f mo (splice_binary env m bs s)"
proof (cases "splice_lease s")
  case (Some l)
  obtain l' res where c: "lease_do (leases env) CheckOp m l = (l', res)" by fastforce
  let ?s = "s\<lparr>splice_lease := Some l'\<rparr>"
  have "gate_follows f mo ?s" "splice_open ?s" using assms(1,2) by (auto intro: gate_follows_kept)
  then show ?thesis using Some c assms(3) write_transport_follows [of f mo ?s env bs]
    by (cases res) (auto simp: splice_binary_def with_lease_def intro: gate_follows_kept)
qed (use assms write_transport_follows in \<open>simp add: splice_binary_def\<close>)

lemma splice_do_follows:
  assumes "gate_follows f mo s" "f = from_u8 env"
  shows "gate_follows f mo (splice_do env m e s)"
proof (cases "\<exists>bs refused. e = Receives (BinaryMessage bs) refused \<and> splice_open s")
  case True
  then show ?thesis using assms splice_binary_follows by (auto simp: splice_do_def splice_message_def)
next
  case False
  have "gate_kept s (splice_do env m e s)"
    using False
    by (auto simp: splice_do_def splice_message_def splice_text_def splice_read_def splice_expired_def splice_commit_def
        heartbeat_asks_def heartbeat_answers_def send_owner_proof_def Let_def split: splice_event.split socket_message.split
        option.split prod.split control.split intro!: gate_kept_with_lease)
      (auto simp: gate_kept_def with_lease_def end_splice_def send_socket_def split: prod.splits sum.splits)
  then show ?thesis using assms(1) gate_follows_kept by blast
qed

end
