(* ===== verification/Fleet_Auth.thy ===== *)
theory Fleet_Auth
  imports Fleet_View
begin

section \<open>Signed messages between members\<close>

text \<open>
  Models \<open>FleetAuth\<close> of \<open>crates/smallclaims/src/sync/mod.rs\<close>: the headers that authenticate a request or an
  answer, with the HMAC of the fleet secret and, on a member, a signature of its key, and their verification under both spellings of
  the header names. The hash, the HMAC, the signature scheme, hexadecimal text and the set of texts that an HTTP header can
  hold are arguments; a header map is the list of values that \<open>get_all\<close> returns for a name.
\<close>

subsection \<open>Parameters\<close>

record auth_crypto =
  sha256_hex :: "string \<Rightarrow> string"
  hmac_sha256 :: "string \<Rightarrow> string \<Rightarrow> string"
  hex_encode :: "string \<Rightarrow> string"
  hex_decode :: "string \<Rightarrow> string option"
  sign_with :: "string \<Rightarrow> string \<Rightarrow> string"
  verify_member :: "string \<Rightarrow> string \<Rightarrow> string \<Rightarrow> bool"
  header_text :: "string \<Rightarrow> bool"

type_synonym header_map = "string \<Rightarrow> string list"

record fleet_auth =
  fleet_id :: string
  secret :: string
  member :: "string option"

subsection \<open>Signing\<close>

definition PROTOCOL :: string where "PROTOCOL = ''st3-replication-v1''"
definition MEMBER_SIGNATURE_DOMAIN :: string where "MEMBER_SIGNATURE_DOMAIN = ''st3-member-v1''"
definition HEADER_FLEET :: string where "HEADER_FLEET = ''x-st3-fleet''"
definition HEADER_NODE :: string where "HEADER_NODE = ''x-st3-node''"
definition HEADER_BODY :: string where "HEADER_BODY = ''x-st3-body-sha256''"
definition HEADER_SIGNATURE :: string where "HEADER_SIGNATURE = ''x-st3-signature''"
definition HEADER_REQUEST :: string where "HEADER_REQUEST = ''x-st3-request-digest''"
definition HEADER_MEMBER_KEY :: string where "HEADER_MEMBER_KEY = ''x-st3-member-key''"
definition HEADER_MEMBER_SIGNATURE :: string where "HEADER_MEMBER_SIGNATURE = ''x-st3-member-signature''"

lemmas header_defs = HEADER_FLEET_def HEADER_NODE_def HEADER_BODY_def HEADER_SIGNATURE_def HEADER_REQUEST_def
  HEADER_MEMBER_KEY_def HEADER_MEMBER_SIGNATURE_def

definition canonical :: "string \<Rightarrow> string \<Rightarrow> string \<Rightarrow> string \<Rightarrow> string \<Rightarrow> string option \<Rightarrow> string" where
  "canonical fleet meth path node digest request =
     join_text [newline] [PROTOCOL, meth, path, fleet, node, digest, (case request of Some r \<Rightarrow> r | None \<Rightarrow> [])]"

definition member_message :: "string \<Rightarrow> string" where
  "member_message c = MEMBER_SIGNATURE_DOMAIN @ [newline] @ c"

datatype auth_error =
    BadHeader string
  | ConflictingHeaders string
  | NoHeader string
  | OtherFleet | OtherNode | OtherBody | OtherAnswer | NotHexadecimal | BadSignature

definition insert_header :: "auth_crypto \<Rightarrow> string \<Rightarrow> string \<Rightarrow> header_map \<Rightarrow> auth_error + header_map" where
  "insert_header cr name value h = (if header_text cr value then Inr (h(name := [value])) else Inl (BadHeader name))"

definition add_member_signature :: "auth_crypto \<Rightarrow> fleet_auth \<Rightarrow> string \<Rightarrow> header_map \<Rightarrow> auth_error + header_map" where
  "add_member_signature cr a c h =
     (case member a of
        None \<Rightarrow> Inr h
      | Some k \<Rightarrow>
          and_then (insert_header cr HEADER_MEMBER_KEY k h)
            (insert_header cr HEADER_MEMBER_SIGNATURE (sign_with cr k (member_message c))))"

definition mac_signature :: "auth_crypto \<Rightarrow> fleet_auth \<Rightarrow> string \<Rightarrow> string" where
  "mac_signature cr a c = hex_encode cr (hmac_sha256 cr (secret a) c)"

definition signed_headers :: "auth_crypto \<Rightarrow> string \<Rightarrow> string \<Rightarrow> string \<Rightarrow> string \<Rightarrow> string option \<Rightarrow> auth_error + header_map" where
  "signed_headers cr fleet node digest sg request =
     and_then
       (try_fold (\<lambda>(name, value). insert_header cr name value)
          [(HEADER_FLEET, fleet), (HEADER_NODE, node), (HEADER_BODY, digest), (HEADER_SIGNATURE, sg)] (\<lambda>_. []))
       (\<lambda>h. case request of Some r \<Rightarrow> insert_header cr HEADER_REQUEST r h | None \<Rightarrow> Inr h)"

definition request_headers_method ::
  "auth_crypto \<Rightarrow> fleet_auth \<Rightarrow> string \<Rightarrow> string \<Rightarrow> string \<Rightarrow> string \<Rightarrow> auth_error + header_map"
where
  "request_headers_method cr a meth path node body =
     (let digest = sha256_hex cr body; c = canonical (fleet_id a) meth path node digest None
      in and_then (signed_headers cr (fleet_id a) node digest (mac_signature cr a c) None) (add_member_signature cr a c))"

definition response_headers_for ::
  "auth_crypto \<Rightarrow> fleet_auth \<Rightarrow> string \<Rightarrow> string \<Rightarrow> string \<Rightarrow> string \<Rightarrow> auth_error + header_map"
where
  "response_headers_for cr a path node body request =
     (let digest = sha256_hex cr body; c = canonical (fleet_id a) ''RESPONSE'' path node digest (Some request)
      in and_then (signed_headers cr (fleet_id a) node digest (mac_signature cr a c) (Some request)) (add_member_signature cr a c))"

subsection \<open>Verifying\<close>

definition HEADER_ALIASES :: "(string \<times> string) list" where
  "HEADER_ALIASES =
     [(HEADER_FLEET, ''x-fractal-fleet''), (HEADER_NODE, ''x-fractal-node''), (HEADER_BODY, ''x-fractal-body-sha256''),
      (HEADER_SIGNATURE, ''x-fractal-signature''), (HEADER_REQUEST, ''x-fractal-request-digest''),
      (HEADER_MEMBER_KEY, ''x-fractal-member-key''), (HEADER_MEMBER_SIGNATURE, ''x-fractal-member-signature'')]"

definition signed_field :: "auth_crypto \<Rightarrow> header_map \<Rightarrow> string \<times> string \<Rightarrow> auth_error + string option" where
  "signed_field cr h = (\<lambda>(old, new).
     case h old @ h new of
       [] \<Rightarrow> Inr None
     | v # vs \<Rightarrow>
         if list_all (\<lambda>x. x = v) vs then Inr (if header_text cr v then Some v else None)
         else Inl (ConflictingHeaders old))"

definition signed_header_fields :: "auth_crypto \<Rightarrow> header_map \<Rightarrow> auth_error + (string option list)" where
  "signed_header_fields cr h =
     try_fold (\<lambda>p fs. and_then (signed_field cr h p) (\<lambda>f. Inr (fs @ [f]))) HEADER_ALIASES []"

definition field :: "string option \<Rightarrow> string \<Rightarrow> auth_error + string" where
  "field v name = (case v of Some x \<Rightarrow> Inr x | None \<Rightarrow> Inl (NoHeader name))"

definition verify_sender ::
  "auth_crypto \<Rightarrow> fleet_auth \<Rightarrow> header_map \<Rightarrow> string \<Rightarrow> string \<Rightarrow> string \<Rightarrow> string option \<Rightarrow> string option \<Rightarrow> auth_error + sender"
where
  "verify_sender cr a h meth path body expected_node request_digest =
     and_then (signed_header_fields cr h) (\<lambda>fs.
     and_then (field (fs ! 0) HEADER_FLEET) (\<lambda>fleet.
     also_ok (ensure (fleet = fleet_id a) OtherFleet)
    (and_then (field (fs ! 1) HEADER_NODE) (\<lambda>node.
     also_ok (case expected_node of Some e \<Rightarrow> ensure (node = e) OtherNode | None \<Rightarrow> Inr ())
    (let digest = sha256_hex cr body
     in and_then (field (fs ! 2) HEADER_BODY) (\<lambda>body_hash.
        also_ok (ensure (body_hash = digest) OtherBody)
       (also_ok (case request_digest of
                   Some e \<Rightarrow> and_then (field (fs ! 4) HEADER_REQUEST) (\<lambda>r. ensure (r = e) OtherAnswer)
                 | None \<Rightarrow> Inr ())
       (and_then (field (fs ! 3) HEADER_SIGNATURE) (\<lambda>sg.
        case hex_decode cr sg of
          None \<Rightarrow> Inl NotHexadecimal
        | Some mac \<Rightarrow>
            (let c = canonical (fleet_id a) meth path node digest request_digest
             in also_ok (ensure (mac = hmac_sha256 cr (secret a) c) BadSignature)
               (Inr \<lparr>sender_name = node, sender_key = fs ! 5,
                     member_signature_valid =
                       (case (fs ! 5, fs ! 6) of
                          (Some k, Some s) \<Rightarrow> verify_member cr k (member_message c) s
                        | _ \<Rightarrow> False)\<rparr>)))))))))))"

subsection \<open>Lemmas: canonical texts\<close>

definition plain :: "string \<Rightarrow> bool" where
  "plain t = (newline \<notin> set t)"

lemma plain_constants [simp]: "plain PROTOCOL" "plain []" "plain ''RESPONSE''" "plain ''WATCH''"
  by (simp_all add: plain_def PROTOCOL_def)

abbreviation request_text :: "string option \<Rightarrow> string" where
  "request_text r \<equiv> (case r of Some x \<Rightarrow> x | None \<Rightarrow> [])"

lemma canonical_inject:
  assumes "list_all plain [m, p, f, n, d, request_text r]" "list_all plain [m', p', f', n', d', request_text r']"
    and "canonical f m p n d r = canonical f' m' p' n' d' r'"
  shows "f = f' \<and> m = m' \<and> p = p' \<and> n = n' \<and> d = d' \<and> request_text r = request_text r'"
proof -
  have "split_on newline (canonical f m p n d r) = [PROTOCOL, m, p, f, n, d, request_text r]"
    using assms(1) plain_constants(1) unfolding canonical_def by (intro split_on_join) (auto simp: plain_def)
  moreover have "split_on newline (canonical f' m' p' n' d' r') = [PROTOCOL, m', p', f', n', d', request_text r']"
    using assms(2) plain_constants(1) unfolding canonical_def by (intro split_on_join) (auto simp: plain_def)
  ultimately show ?thesis using assms(3) by simp
qed

lemma canonical_None: "canonical f m p n d None = canonical f m p n d (Some [])"
  by (simp add: canonical_def)

subsection \<open>Lemmas: what verification shows\<close>

lemma signed_field_text: "signed_field cr h p = Inr (Some v) \<Longrightarrow> header_text cr v \<and> (\<exists>n. v \<in> set (h n))"
proof -
  assume a: "signed_field cr h p = Inr (Some v)"
  then obtain vs where e: "h (fst p) @ h (snd p) = v # vs" "header_text cr v"
    by (auto simp: signed_field_def split: prod.splits list.splits if_splits)
  have "v \<in> set (h (fst p) @ h (snd p))" unfolding e(1) by simp
  then show ?thesis using e(2) by auto
qed

lemma signed_header_fields_Inr:
  assumes "signed_header_fields cr h = Inr fs"
  shows "length fs = 7" "i < 7 \<Longrightarrow> fs ! i = Some v \<Longrightarrow> header_text cr v \<and> (\<exists>n. v \<in> set (h n))"
proof -
  have fs: "length fs = 7 \<and> (\<forall>v. Some v \<in> set fs \<longrightarrow> header_text cr v \<and> (\<exists>n. v \<in> set (h n)))"
    using assms by (auto simp: signed_header_fields_def HEADER_ALIASES_def and_then_Inr dest: signed_field_text)
  then show "length fs = 7" by simp
  assume "i < 7" "fs ! i = Some v"
  then show "header_text cr v \<and> (\<exists>n. v \<in> set (h n))" using fs nth_mem [of i fs] by simp
qed

lemma field_Inr [simp]: "field v n = Inr x \<longleftrightarrow> v = Some x"
  by (auto simp: field_def split: option.split)

lemma case_option_Inr: "(case x of None \<Rightarrow> Inl e | Some y \<Rightarrow> f y) = Inr z \<longleftrightarrow> (\<exists>y. x = Some y \<and> f y = Inr z)"
  by (cases x) auto

lemma verify_sender_Inr:
  assumes "verify_sender cr a h meth path body expected rd = Inr s"
  shows "header_text cr (sender_name s)" "expected = Some e \<Longrightarrow> sender_name s = e"
    and "member_signature_valid s \<Longrightarrow> \<exists>k sg. sender_key s = Some k \<and> (\<exists>n. sg \<in> set (h n))
      \<and> verify_member cr k (member_message (canonical (fleet_id a) meth path (sender_name s) (sha256_hex cr body) rd)) sg"
proof -
  obtain fs node mac where fs: "signed_header_fields cr h = Inr fs" "fs ! 1 = Some node"
      "(case expected of Some e \<Rightarrow> ensure (node = e) OtherNode | None \<Rightarrow> Inr ()) = Inr ()"
    and s: "s = \<lparr>sender_name = node, sender_key = fs ! 5, member_signature_valid = (case (fs ! 5, fs ! 6) of
        (Some k, Some x) \<Rightarrow> verify_member cr k
          (member_message (canonical (fleet_id a) meth path node (sha256_hex cr body) rd)) x | _ \<Rightarrow> False)\<rparr>"
    using assms unfolding verify_sender_def Let_def and_then_Inr ensure_Inr field_Inr case_option_Inr by auto
  show "header_text cr (sender_name s)" using signed_header_fields_Inr(2) [OF fs(1), of 1] fs(2) s by simp
  show "expected = Some e \<Longrightarrow> sender_name s = e" using fs(3) s by simp
  show "member_signature_valid s \<Longrightarrow> \<exists>k sg. sender_key s = Some k \<and> (\<exists>n. sg \<in> set (h n))
      \<and> verify_member cr k (member_message (canonical (fleet_id a) meth path (sender_name s) (sha256_hex cr body) rd)) sg"
    using s signed_header_fields_Inr(2) [OF fs(1), of 6] by (auto split: option.splits)
qed

subsection \<open>Lemmas: headers that were just signed\<close>

lemma insert_header_Inr [simp]:
  "insert_header cr name value h = Inr h' \<longleftrightarrow> header_text cr value \<and> h' = h(name := [value])"
  by (auto simp: insert_header_def)

definition header_of :: "string \<Rightarrow> string \<Rightarrow> string \<Rightarrow> string \<Rightarrow> string option \<Rightarrow> (string \<times> string) option \<Rightarrow> header_map" where
  "header_of fleet node digest sg request mem =
     (\<lambda>n. if n = HEADER_FLEET then [fleet] else if n = HEADER_NODE then [node] else if n = HEADER_BODY then [digest]
          else if n = HEADER_SIGNATURE then [sg]
          else if n = HEADER_REQUEST then (case request of Some r \<Rightarrow> [r] | None \<Rightarrow> [])
          else if n = HEADER_MEMBER_KEY then (case mem of Some (k, _) \<Rightarrow> [k] | None \<Rightarrow> [])
          else if n = HEADER_MEMBER_SIGNATURE then (case mem of Some (_, x) \<Rightarrow> [x] | None \<Rightarrow> [])
          else [])"

lemma header_names:
  "distinct [HEADER_FLEET, HEADER_NODE, HEADER_BODY, HEADER_SIGNATURE, HEADER_REQUEST, HEADER_MEMBER_KEY, HEADER_MEMBER_SIGNATURE]"
  by (simp add: header_defs)

lemma signed_headers_member:
  assumes "and_then (signed_headers cr fleet node digest sg request) (add_member_signature cr a c) = Inr h"
  shows "h = header_of fleet node digest sg request (map_option (\<lambda>k. (k, sign_with cr k (member_message c))) (member a))"
    and "list_all (header_text cr) ([fleet, node, digest, sg] @ (case request of Some r \<Rightarrow> [r] | None \<Rightarrow> [])
      @ (case member a of Some k \<Rightarrow> [k, sign_with cr k (member_message c)] | None \<Rightarrow> []))"
  using assms header_names
  by (cases "member a"; cases request; auto simp: signed_headers_def add_member_signature_def and_then_Inr header_of_def)+

lemma signed_header_fields_of:
  assumes "list_all (header_text cr) ([fleet, node, digest, sg] @ (case request of Some r \<Rightarrow> [r] | None \<Rightarrow> [])
      @ (case mem of Some (k, x) \<Rightarrow> [k, x] | None \<Rightarrow> []))"
  shows "signed_header_fields cr (header_of fleet node digest sg request mem)
    = Inr [Some fleet, Some node, Some digest, Some sg, request, map_option fst mem, map_option snd mem]"
  using assms
  by (auto simp: signed_header_fields_def HEADER_ALIASES_def signed_field_def header_of_def header_defs split: option.splits)

lemma verify_signed:
  assumes laws: "\<And>b. hex_decode cr (hex_encode cr b) = Some b" "\<And>k m. verify_member cr k m (sign_with cr k m)"
    and c: "c = canonical (fleet_id a) meth path node (sha256_hex cr body) request"
    and h: "and_then (signed_headers cr (fleet_id a) node (sha256_hex cr body) (mac_signature cr a c) request)
      (add_member_signature cr a c) = Inr h"
  shows "verify_sender cr a h meth path body (Some node) request
    = Inr \<lparr>sender_name = node, sender_key = member a, member_signature_valid = (member a \<noteq> None)\<rparr>"
proof -
  let ?mem = "map_option (\<lambda>k. (k, sign_with cr k (member_message c))) (member a)"
  have "signed_header_fields cr h = Inr [Some (fleet_id a), Some node, Some (sha256_hex cr body), Some (mac_signature cr a c), request,
      map_option fst ?mem, map_option snd ?mem]"
    unfolding signed_headers_member(1) [OF h]
    using signed_headers_member(2) [OF h] by (intro signed_header_fields_of) (cases "member a"; simp)
  then show ?thesis
    using laws by (cases "member a"; cases request)
      (simp_all add: verify_sender_def Let_def field_def ensure_def mac_signature_def c)
qed

subsection \<open>An example\<close>

text \<open>A digest without collisions and without line feeds: it doubles the letter \<open>a\<close> and writes a line feed with it.\<close>

fun example_digest :: "string \<Rightarrow> string" where
  "example_digest [] = []"
| "example_digest (c # cs) =
     (if c = newline then ''an'' else if c = CHR ''a'' then ''aa'' else [c]) @ example_digest cs"

lemma example_digest_inject: "example_digest xs = example_digest ys \<Longrightarrow> xs = ys"
proof (induction xs arbitrary: ys)
  case Nil
  then show ?case by (cases ys) (auto split: if_splits)
next
  case (Cons x xs)
  then show ?case by (cases ys) (auto split: if_splits)
qed

lemma example_digest_plain: "plain (example_digest xs)"
  by (induction xs) (auto simp: plain_def)

declare example_digest.simps [simp del]

definition example_signing :: "(string \<Rightarrow> string \<Rightarrow> bool) \<Rightarrow> auth_crypto" where
  "example_signing v =
     \<lparr>sha256_hex = example_digest, hmac_sha256 = (\<lambda>_. example_digest), hex_encode = id, hex_decode = Some,
      sign_with = (\<lambda>_. example_digest), verify_member = (\<lambda>_. v), header_text = plain\<rparr>"

definition example_auth :: fleet_auth where
  "example_auth = \<lparr>fleet_id = ''f'', secret = ''s'', member = Some ''k''\<rparr>"

definition example_canonical :: string where
  "example_canonical = canonical ''f'' ''POST'' ''/p'' ''n'' (example_digest ''b'') None"

definition example_headers :: header_map where
  "example_headers = header_of ''f'' ''n'' (example_digest ''b'') (example_digest example_canonical) None
     (Some (''k'', example_digest (member_message example_canonical)))"

lemma plain_example [simp]: "plain ''f''" "plain ''n''" "plain ''k''" "plain ''POST''" "plain ''/p''" "plain ''r''"
  by (simp_all add: plain_def)

lemma example_verifies:
  "verify_sender (example_signing v) example_auth example_headers ''POST'' ''/p'' ''b'' (Some ''n'') None
    = Inr \<lparr>sender_name = ''n'', sender_key = Some ''k'',
           member_signature_valid = v (member_message example_canonical) (example_digest (member_message example_canonical))\<rparr>"
proof -
  have "signed_header_fields (example_signing v) example_headers
      = Inr [Some ''f'', Some ''n'', Some (example_digest ''b''), Some (example_digest example_canonical), None, Some ''k'',
          Some (example_digest (member_message example_canonical))]"
    unfolding example_headers_def
    by (subst signed_header_fields_of) (simp_all add: example_signing_def example_digest_plain)
  then show ?thesis
    by (simp add: verify_sender_def Let_def field_def ensure_def example_auth_def example_signing_def example_canonical_def)
qed

subsection \<open>Properties\<close>

text \<open>
  C29. What a member signs, a member of the same fleet verifies. Headers made for a request, or for the
  answer to one, verify for exactly that method, path, node, body and request, and name the node and its member key with a
  valid signature.
\<close>

theorem signed_message_verifies:
  assumes "\<forall>b. hex_decode cr (hex_encode cr b) = Some b" "\<forall>k m. verify_member cr k m (sign_with cr k m)"
    and "request_headers_method cr a meth path node body = Inr h"
    and "response_headers_for cr a path node answer request = Inr h'"
  shows "verify_sender cr a h meth path body (Some node) None
      = Inr \<lparr>sender_name = node, sender_key = member a, member_signature_valid = (member a \<noteq> None)\<rparr>
    \<and> verify_sender cr a h' ''RESPONSE'' path answer (Some node) (Some request)
      = Inr \<lparr>sender_name = node, sender_key = member a, member_signature_valid = (member a \<noteq> None)\<rparr>"
  using verify_signed [of cr _ a meth path node body None h] verify_signed [of cr _ a "''RESPONSE''" path node answer "Some request" h']
    assms
  by (simp add: request_headers_method_def response_headers_for_def Let_def)

theorem signed_message_verifies_witness:
  "\<exists>h h'. verify_sender (example_signing (\<lambda>m sg. sg = example_digest m)) example_auth h ''POST'' ''/p'' ''b'' (Some ''n'') None
      = Inr \<lparr>sender_name = ''n'', sender_key = Some ''k'', member_signature_valid = True\<rparr>
    \<and> verify_sender (example_signing (\<lambda>m sg. sg = example_digest m)) example_auth h' ''RESPONSE'' ''/p'' ''c'' (Some ''n'') (Some ''r'')
      = Inr \<lparr>sender_name = ''n'', sender_key = Some ''k'', member_signature_valid = True\<rparr>"
proof -
  let ?cr = "example_signing (\<lambda>m sg. sg = example_digest m)"
  have "\<exists>h. request_headers_method ?cr example_auth ''POST'' ''/p'' ''n'' ''b'' = Inr h"
    "\<exists>h'. response_headers_for ?cr example_auth ''/p'' ''n'' ''c'' ''r'' = Inr h'"
    by (simp_all add: request_headers_method_def response_headers_for_def Let_def and_then_Inr signed_headers_def
        add_member_signature_def mac_signature_def example_signing_def example_auth_def example_digest_plain)
  then obtain h h' where "request_headers_method ?cr example_auth ''POST'' ''/p'' ''n'' ''b'' = Inr h"
    "response_headers_for ?cr example_auth ''/p'' ''n'' ''c'' ''r'' = Inr h'" by auto
  from signed_message_verifies [OF _ _ this] show ?thesis
    by (auto simp: example_signing_def example_auth_def)
qed

text \<open>
  C21. A valid member signature proves the whole message. Let \<open>S\<close> be the requests and answers that the holder
  of a member key signed, and suppose that no signature of the key verifies on any other message, that digests of different bodies
  differ, and that no line of a message holds a line feed. Whenever verification accepts headers with a valid
  signature of that key, the holder signed exactly this fleet, method, path, node, body and request: a signature cannot be moved
  to another message.
\<close>

theorem member_signature_binds_message:
  assumes "verify_sender cr a h meth path body expected rd = Inr s" "member_signature_valid s" "sender_key s = Some k"
    and "\<forall>c sg. verify_member cr k (member_message c) sg \<longrightarrow>
      (\<exists>(f, m, p, n, b, r)\<in>S. c = canonical f m p n (sha256_hex cr b) (Some r))"
    and "\<forall>b b'. sha256_hex cr b = sha256_hex cr b' \<longrightarrow> b = b'"
    and "\<forall>b. plain (sha256_hex cr b)" "\<forall>v. header_text cr v \<longrightarrow> plain v"
    and "\<forall>(f, m, p, n, b, r)\<in>S. list_all plain [f, m, p, n, r]" "list_all plain [fleet_id a, meth, path, request_text rd]"
  shows "(fleet_id a, meth, path, sender_name s, body, request_text rd) \<in> S"
proof -
  note v = verify_sender_Inr [OF assms(1)]
  obtain sg where "verify_member cr k (member_message (canonical (fleet_id a) meth path (sender_name s) (sha256_hex cr body) rd)) sg"
    using v(3) assms(2,3) by auto
  then have "\<exists>(f, m, p, n, b, r)\<in>S. canonical (fleet_id a) meth path (sender_name s) (sha256_hex cr body) rd
      = canonical f m p n (sha256_hex cr b) (Some r)"
    by (rule assms(4) [rule_format])
  then obtain f m p n b r where r: "(f, m, p, n, b, r) \<in> S"
      "canonical (fleet_id a) meth path (sender_name s) (sha256_hex cr body) rd = canonical f m p n (sha256_hex cr b) (Some r)"
    by (elim bexE) (simp split: prod.splits)
  have "list_all plain [f, m, p, n, r]" using bspec [OF assms(8) r(1)] by simp
  then have "list_all plain [m, p, f, n, sha256_hex cr b, request_text (Some r)]" using assms(6) by simp
  moreover have "list_all plain [meth, path, fleet_id a, sender_name s, sha256_hex cr body, request_text rd]"
    using assms(6,7,9) v(1) by simp
  ultimately have "fleet_id a = f \<and> meth = m \<and> path = p \<and> sender_name s = n \<and> sha256_hex cr body = sha256_hex cr b
      \<and> request_text rd = request_text (Some r)"
    using r(2) by (intro canonical_inject)
  then show ?thesis using r(1) assms(5) by auto
qed

theorem member_signature_binds_message_witness:
  "\<exists>s. verify_sender (example_signing (\<lambda>m _. m = member_message example_canonical)) example_auth example_headers
      ''POST'' ''/p'' ''b'' (Some ''n'') None = Inr s
    \<and> (fleet_id example_auth, ''POST'', ''/p'', sender_name s, ''b'', request_text None)
        \<in> {(''f'', ''POST'', ''/p'', ''n'', ''b'', [])}"
proof -
  let ?cr = "example_signing (\<lambda>m _. m = member_message example_canonical)"
  let ?S = "{(''f'', ''POST'', ''/p'', ''n'', ''b'', [])}"
  let ?s = "\<lparr>sender_name = ''n'', sender_key = Some ''k'', member_signature_valid = True\<rparr>"
  have v: "verify_sender ?cr example_auth example_headers ''POST'' ''/p'' ''b'' (Some ''n'') None = Inr ?s"
    by (simp add: example_verifies)
  have "(fleet_id example_auth, ''POST'', ''/p'', sender_name ?s, ''b'', request_text None) \<in> ?S"
  proof (rule member_signature_binds_message [OF v])
    show "\<forall>c sg. verify_member ?cr ''k'' (member_message c) sg \<longrightarrow>
        (\<exists>(f, m, p, n, b, r)\<in>?S. c = canonical f m p n (sha256_hex ?cr b) (Some r))"
      by (simp add: example_signing_def member_message_def example_canonical_def canonical_None)
    show "\<forall>b b'. sha256_hex ?cr b = sha256_hex ?cr b' \<longrightarrow> b = b'" by (simp add: example_signing_def example_digest_inject)
  qed (simp_all add: example_signing_def example_digest_plain example_auth_def)
  then show ?thesis using v by blast
qed

end
