(* ===== verification/Lease_Bridge.thy ===== *)
theory Lease_Bridge
  imports Raw_Splice Fleet_Auth
begin

section \<open>A terminal watched from another node\<close>

text \<open>
  Models \<open>crates/fractal-peer/src/peer/raw_lease.rs\<close>. A person's client is connected to a gateway node and the
  terminal runs on an owner node. Each node holds a lease of its own and runs a splice: the gateway's between the client and its
  bridge, the owner's between its bridge and the terminal. The gateway's bridge revalidates the gateway's lease every
  second and sends the owner a signed proof of it; the owner's bridge passes the terminal's bytes on only for five
  seconds after the last proof. The owner's heartbeats are signed and sent to the gateway in the same way.

  Both nodes and the network between them are one machine. An event is one turn of one loop, and the network
  delivers any message at any time. Real time is in milliseconds; the wall clock of a node is ahead of it by a fixed
  amount. The JSON texts of proofs are arguments.
\<close>

subsection \<open>Proofs\<close>

definition WATCH_PATH :: string where "WATCH_PATH = ''/v1/peer/raw-terminal/authorization-watch''"
definition WATCH_DEADLINE :: nat where "WATCH_DEADLINE = 5000"

record proof_body =
  proof_binding :: raw_lease_binding
  watcher_epoch :: string
  proof_number :: nat
  issued_at_unix_ms :: nat
  proof_challenge :: string

text \<open>The texts of a body and of a proof with its headers, what a text is read as, and the names a header can have.\<close>

record wire =
  body_text :: "proof_body \<Rightarrow> string"
  proof_text :: "proof_body \<times> (string \<times> string) list \<Rightarrow> string"
  read_proof :: "string \<Rightarrow> (proof_body \<times> (string \<times> string) list) option"
  parse_json :: "string \<Rightarrow> json option"
  header_name :: "string \<Rightarrow> string option"

text \<open>The headers as a map of name to value, in the order of names.\<close>

definition header_pairs :: "header_map \<Rightarrow> (string \<times> string) list" where
  "header_pairs h =
     concat (map (\<lambda>n. map (Pair n) (h n))
       [HEADER_BODY, HEADER_FLEET, HEADER_MEMBER_KEY, HEADER_MEMBER_SIGNATURE, HEADER_NODE, HEADER_REQUEST, HEADER_SIGNATURE])"

text \<open>\<open>signed\<close>.\<close>

definition sign_proof :: "auth_crypto \<Rightarrow> wire \<Rightarrow> fleet_auth \<Rightarrow> string \<Rightarrow> proof_body \<Rightarrow> string option" where
  "sign_proof cr w a node body =
     (case request_headers_method cr a ''WATCH'' WATCH_PATH node (body_text w body) of
        Inl _ \<Rightarrow> None
      | Inr h \<Rightarrow> Some (proof_text w (body, header_pairs h)))"

definition abs_diff :: "nat \<Rightarrow> nat \<Rightarrow> nat" where
  "abs_diff x y = (if x \<le> y then y - x else x - y)"

definition collect_headers :: "auth_crypto \<Rightarrow> wire \<Rightarrow> (string \<times> string) list \<Rightarrow> auth_error + header_map" where
  "collect_headers cr w ps =
     try_fold (\<lambda>(k, v) h. case header_name w k of None \<Rightarrow> Inl (BadHeader k) | Some n \<Rightarrow> insert_header cr n v h) ps (\<lambda>_. [])"

text \<open>\<open>verify\<close>, without the texts of its errors.\<close>

definition verify_proof ::
  "auth_crypto \<Rightarrow> wire \<Rightarrow> fleet_auth \<Rightarrow> nat \<Rightarrow> string \<Rightarrow> string \<Rightarrow> raw_lease_binding \<Rightarrow> string option \<Rightarrow> (proof_body \<times> sender) option"
where
  "verify_proof cr w a wall t node b key =
     (if 16384 < length t then None
      else case read_proof w t of
        None \<Rightarrow> None
      | Some (body, ps) \<Rightarrow>
          if proof_binding body \<noteq> b then None
          else if watcher_epoch body = [] then None
          else case and_then (collect_headers cr w ps) (\<lambda>h.
                 verify_sender cr a h ''WATCH'' WATCH_PATH (body_text w body) (Some node) None) of
            Inl _ \<Rightarrow> None
          | Inr s \<Rightarrow>
              if \<not> (sender_key s = key \<and> (key = None \<or> member_signature_valid s)) then None
              else if 1000 < abs_diff wall (issued_at_unix_ms body) then None
              else Some (body, s))"

subsection \<open>State\<close>

record peer_node =
  peer_name :: string
  peer_auth :: fleet_auth
  peer_libs :: splice_env
  wall_ahead :: nat

text \<open>What is fixed for a stream, at the gateway, at the owner and for both.\<close>

record stream =
  stream_crypto :: auth_crypto
  stream_wire :: wire
  gateway_peer :: peer_node
  relay_links :: bool
  relay_peers :: "string list"
  relay_legacy :: bool
  relay_owner :: string
  relay_key :: "string option"
  owner_peer :: peer_node
  config_peers :: "string list"
  context_legacy :: bool
  bootstrap_keys :: "string list"
  route_binding :: raw_lease_binding
  route_key :: "string option"
  owner_epoch :: string

record gateway_bridge =
  gb_sequence :: nat
  gb_challenge :: "string option"
  gb_proof_sent :: bool
  gb_watcher :: "string option"
  gb_owner_sequence :: nat
  gb_controls :: nat
  gb_read :: nat
  gb_written :: bytes
  gb_sent :: "(nat \<times> socket_message) list"
  gb_open :: bool

record owner_bridge =
  ob_view :: fleet_view
  ob_deadline :: nat
  ob_ready :: bool
  ob_sequence :: nat
  ob_started :: bool
  ob_heartbeat :: nat
  ob_taken :: nat
  ob_local :: "socket_message list"
  ob_sent :: "(nat \<times> socket_message) list"
  ob_open :: bool

text \<open>
  Both nodes. The splices read what the bridges wrote for them up to a position. The last two fields are for the proofs only: when and with
  which store the gateway revalidated its lease for each proof it signed, and each proof the owner signed.
\<close>

record relay =
  real_now :: nat
  gw_store :: "authority_store option"
  ow_store :: "authority_store option"
  gw_splice :: splice
  ow_splice :: splice
  gw_bridge :: gateway_bridge
  ow_bridge :: owner_bridge
  gw_position :: nat
  ow_position :: nat
  gw_proofs :: "(lease_moment \<times> proof_body) list"
  ow_proofs :: "proof_body list"

definition gateway_moment :: "stream \<Rightarrow> relay \<Rightarrow> lease_moment" where
  "gateway_moment st r = \<lparr>at_store = gw_store r, at_wall = real_now r + wall_ahead (gateway_peer st), at_now = real_now r\<rparr>"

definition owner_moment :: "stream \<Rightarrow> relay \<Rightarrow> lease_moment" where
  "owner_moment st r = \<lparr>at_store = ow_store r, at_wall = real_now r + wall_ahead (owner_peer st), at_now = real_now r\<rparr>"

subsection \<open>The gateway's bridge\<close>

definition with_gateway :: "(gateway_bridge \<Rightarrow> gateway_bridge) \<Rightarrow> relay \<Rightarrow> relay" where
  "with_gateway f r = r\<lparr>gw_bridge := f (gw_bridge r)\<rparr>"

definition end_gateway :: "relay \<Rightarrow> relay" where
  "end_gateway = with_gateway (\<lambda>g. g\<lparr>gb_open := False\<rparr>)"

definition gateway_sends :: "socket_message \<Rightarrow> relay \<Rightarrow> relay" where
  "gateway_sends msg r = with_gateway (\<lambda>g. g\<lparr>gb_sent := gb_sent g @ [(real_now r, msg)]\<rparr>) r"

text \<open>An operation on the lease the bridge shares with the splice; the bridge ends if it fails.\<close>

definition gateway_lease :: "stream \<Rightarrow> lease_op \<Rightarrow> (relay \<Rightarrow> relay) \<Rightarrow> relay \<Rightarrow> relay" where
  "gateway_lease st op f r =
     (case splice_lease (gw_splice r) of
        None \<Rightarrow> f r
      | Some l \<Rightarrow>
          (case lease_do (leases (peer_libs (gateway_peer st))) op (gateway_moment st r) l of
             (l', res) \<Rightarrow>
               let r' = r\<lparr>gw_splice := (gw_splice r)\<lparr>splice_lease := Some l'\<rparr>\<rparr>
               in if res = Inr () then f r' else end_gateway r'))"

definition gateway_signs :: "stream \<Rightarrow> raw_lease_binding \<Rightarrow> string \<Rightarrow> relay \<Rightarrow> relay" where
  "gateway_signs st b given r =
     (let n = gb_sequence (gw_bridge r) + 1; m = gateway_moment st r;
          body = \<lparr>proof_binding = b, watcher_epoch = gateway_epoch b, proof_number = n, issued_at_unix_ms = at_wall m,
                  proof_challenge = given\<rparr>;
          r1 = with_gateway (\<lambda>g. g\<lparr>gb_sequence := n\<rparr>) r
      in case sign_proof (stream_crypto st) (stream_wire st) (peer_auth (gateway_peer st)) (peer_name (gateway_peer st)) body of
           None \<Rightarrow> end_gateway r1
         | Some t \<Rightarrow>
             (with_gateway (\<lambda>g. g\<lparr>gb_proof_sent := True\<rparr>) (gateway_sends (TextMessage t) r1))
               \<lparr>gw_proofs := gw_proofs r @ [(m, body)]\<rparr>)"

definition gateway_beat :: "stream \<Rightarrow> relay \<Rightarrow> relay" where
  "gateway_beat st r =
     (case (splice_lease (gw_splice r), gb_challenge (gw_bridge r)) of
        (Some l, Some given) \<Rightarrow> gateway_lease st RevalidateOp (gateway_signs st (binding l) given) r
      | _ \<Rightarrow> r)"

definition gateway_control :: "stream \<Rightarrow> relay \<Rightarrow> relay" where
  "gateway_control st r =
     (let g = gw_bridge r
      in if gb_proof_sent g \<and> gb_controls g < length (to_relay (gw_splice r))
         then with_gateway (\<lambda>g. g\<lparr>gb_controls := gb_controls g + 1\<rparr>)
           (gateway_sends (TextMessage (json_text (leases (peer_libs (gateway_peer st)))
              (JObject [(''sequence'', JPosInt (to_relay (gw_splice r) ! gb_controls g)), (''type'', JString ''selected-use'')]))) r)
         else r)"

definition gateway_uploads :: "stream \<Rightarrow> nat \<Rightarrow> relay \<Rightarrow> relay" where
  "gateway_uploads st n r =
     (let bs = take (min n CHUNK) (drop (gb_read (gw_bridge r)) (to_transport (gw_splice r)))
      in if \<not> gb_proof_sent (gw_bridge r) \<or> bs = [] then r
         else gateway_lease st CheckOp
           (\<lambda>r. with_gateway (\<lambda>g. g\<lparr>gb_read := gb_read g + length bs\<rparr>) (gateway_sends (BinaryMessage bs) r)) r)"

definition accept_raw_watcher :: "stream \<Rightarrow> authority_store option \<Rightarrow> sender \<Rightarrow> bool" where
  "accept_raw_watcher st db s =
     (case db of
        None \<Rightarrow> False
      | Some db \<Rightarrow>
          relay_links st \<and>
          (case accept (from_membership (fleet_membership_tx db
                   (map_option (Pair (peer_name (gateway_peer st))) (member (peer_auth (gateway_peer st)))))) s
                 (sender_name s \<in> set (relay_peers st)) (relay_legacy st) of
             Inl _ \<Rightarrow> False | Inr _ \<Rightarrow> True))"

text \<open>The first proof of the owner brings the challenge; later ones keep the lease alive.\<close>

definition gateway_proof :: "stream \<Rightarrow> lease \<Rightarrow> proof_body \<Rightarrow> relay \<Rightarrow> relay" where
  "gateway_proof st l p r =
     (let g = gw_bridge r
      in case gb_watcher g of
           None \<Rightarrow>
             if proof_number p \<noteq> 0 \<or> proof_challenge p = [] then end_gateway r
             else with_gateway (\<lambda>g. g\<lparr>gb_watcher := Some (watcher_epoch p), gb_challenge := Some (proof_challenge p)\<rparr>) r
         | Some ep \<Rightarrow>
             if proof_number p \<le> gb_owner_sequence g \<or> ep \<noteq> watcher_epoch p \<or> gb_challenge g \<noteq> Some (proof_challenge p)
             then end_gateway r
             else gateway_lease st (ProofOp (gateway_epoch (binding l)) (proof_number p)) id
               (with_gateway (\<lambda>g. g\<lparr>gb_owner_sequence := proof_number p\<rparr>) r))"

definition gateway_text :: "stream \<Rightarrow> string \<Rightarrow> relay \<Rightarrow> relay" where
  "gateway_text st t r =
     (case splice_lease (gw_splice r) of
        None \<Rightarrow> end_gateway r
      | Some l \<Rightarrow>
          (case verify_proof (stream_crypto st) (stream_wire st) (peer_auth (gateway_peer st)) (at_wall (gateway_moment st r)) t
                  (relay_owner st) (binding l) (relay_key st) of
             None \<Rightarrow> end_gateway r
           | Some (p, s) \<Rightarrow> if accept_raw_watcher st (gw_store r) s then gateway_proof st l p r else end_gateway r))"

definition gateway_message :: "stream \<Rightarrow> socket_message \<Rightarrow> relay \<Rightarrow> relay" where
  "gateway_message st msg r =
     (case msg of
        TextMessage t \<Rightarrow> gateway_text st t r
      | BinaryMessage bs \<Rightarrow> gateway_lease st CheckOp (with_gateway (\<lambda>g. g\<lparr>gb_written := gb_written g @ bs\<rparr>)) r
      | PingMessage \<Rightarrow> r
      | PongMessage \<Rightarrow> r
      | CloseMessage \<Rightarrow> end_gateway r)"

datatype gateway_turn = GatewayBeat | GatewayControl | GatewayUploads nat | GatewayGets socket_message | GatewayExpires | GatewayFails

definition gateway_turn_do :: "stream \<Rightarrow> gateway_turn \<Rightarrow> relay \<Rightarrow> relay" where
  "gateway_turn_do st e r =
     (if \<not> gb_open (gw_bridge r) then r
      else case e of
        GatewayBeat \<Rightarrow> gateway_beat st r
      | GatewayControl \<Rightarrow> gateway_control st r
      | GatewayUploads n \<Rightarrow> gateway_uploads st n r
      | GatewayGets msg \<Rightarrow> gateway_message st msg r
      | GatewayExpires \<Rightarrow> gateway_lease st CheckOp id r
      | GatewayFails \<Rightarrow> end_gateway r)"

subsection \<open>The owner's bridge\<close>

definition with_owner :: "(owner_bridge \<Rightarrow> owner_bridge) \<Rightarrow> relay \<Rightarrow> relay" where
  "with_owner f r = r\<lparr>ow_bridge := f (ow_bridge r)\<rparr>"

definition end_owner :: "relay \<Rightarrow> relay" where
  "end_owner = with_owner (\<lambda>b. b\<lparr>ob_open := False\<rparr>)"

definition owner_sends :: "socket_message \<Rightarrow> relay \<Rightarrow> relay" where
  "owner_sends msg r = with_owner (\<lambda>b. b\<lparr>ob_sent := ob_sent b @ [(real_now r, msg)]\<rparr>) r"

definition send_local :: "socket_message \<Rightarrow> relay \<Rightarrow> relay" where
  "send_local msg = with_owner (\<lambda>b. b\<lparr>ob_local := ob_local b @ [msg]\<rparr>)"

text \<open>\<open>FleetContext::accept\<close>.\<close>

definition context_accepts :: "stream \<Rightarrow> fleet_view \<Rightarrow> sender \<Rightarrow> bool" where
  "context_accepts st view s =
     (if member_signature_valid s \<and> list_all (\<lambda>m. view_name m \<noteq> sender_name s) (view_members view)
         \<and> (case sender_key s of None \<Rightarrow> False | Some k \<Rightarrow> k \<in> set (bootstrap_keys st))
      then True
      else case accept view s (sender_name s \<in> set (config_peers st)) (context_legacy st) of Inl _ \<Rightarrow> False | Inr _ \<Rightarrow> True)"

definition authority_proof_text :: "stream \<Rightarrow> nat \<Rightarrow> string" where
  "authority_proof_text st n =
     json_text (leases (peer_libs (owner_peer st)))
       (JObject [(''lease_id'', JString (bind_lease_id (route_binding st))), (''sequence'', JPosInt n),
                 (''type'', JString ''authority-proof''), (''watcher_epoch'', JString (gateway_epoch (route_binding st)))])"

definition owner_proof :: "stream \<Rightarrow> proof_body \<Rightarrow> relay \<Rightarrow> relay" where
  "owner_proof st p r =
     (let b = ow_bridge r
      in if watcher_epoch p \<noteq> gateway_epoch (route_binding st) \<or> proof_challenge p \<noteq> owner_epoch st
            \<or> proof_number p \<le> ob_sequence b \<or> ob_deadline b \<le> real_now r
         then end_owner r
         else with_owner (\<lambda>b. b\<lparr>ob_ready := True\<rparr>)
           (send_local (TextMessage (authority_proof_text st (proof_number p)))
             (with_owner (\<lambda>b. b\<lparr>ob_sequence := proof_number p, ob_deadline := real_now r + WATCH_DEADLINE\<rparr>) r)))"

definition owner_text :: "stream \<Rightarrow> string \<Rightarrow> relay \<Rightarrow> relay" where
  "owner_text st t r =
     (case parse_json (stream_wire st) t of
        None \<Rightarrow> end_owner r
      | Some v \<Rightarrow>
          if text_at ''type'' v = Some ''selected-use''
          then (if ob_ready (ow_bridge r) then send_local (TextMessage t) r else end_owner r)
          else case verify_proof (stream_crypto st) (stream_wire st) (peer_auth (owner_peer st)) (at_wall (owner_moment st r)) t
                      (trim_host (bind_gateway (route_binding st))) (route_binding st) (route_key st) of
            None \<Rightarrow> end_owner r
          | Some (p, s) \<Rightarrow> if context_accepts st (ob_view (ow_bridge r)) s then owner_proof st p r else end_owner r)"

definition owner_message :: "stream \<Rightarrow> socket_message \<Rightarrow> relay \<Rightarrow> relay" where
  "owner_message st msg r =
     (if ob_deadline (ow_bridge r) \<le> real_now r then end_owner r
      else case msg of
        BinaryMessage bs \<Rightarrow> if ob_ready (ow_bridge r) then send_local (BinaryMessage bs) r else end_owner r
      | TextMessage t \<Rightarrow> owner_text st t r
      | PingMessage \<Rightarrow> r
      | PongMessage \<Rightarrow> r
      | CloseMessage \<Rightarrow> end_owner r)"

definition owner_signs :: "stream \<Rightarrow> nat \<Rightarrow> nat \<Rightarrow> relay \<Rightarrow> relay" where
  "owner_signs st n issued r =
     (let body = \<lparr>proof_binding = route_binding st, watcher_epoch = owner_epoch st, proof_number = n, issued_at_unix_ms = issued,
                  proof_challenge = owner_epoch st\<rparr>
      in case sign_proof (stream_crypto st) (stream_wire st) (peer_auth (owner_peer st)) (peer_name (owner_peer st)) body of
           None \<Rightarrow> end_owner r
         | Some t \<Rightarrow> (owner_sends (TextMessage t) r)\<lparr>ow_proofs := ow_proofs r @ [body]\<rparr>)"

text \<open>The challenge, with which the download loop starts.\<close>

definition owner_starts :: "stream \<Rightarrow> relay \<Rightarrow> relay" where
  "owner_starts st r =
     (if ob_started (ow_bridge r) then r
      else owner_signs st 0 (at_wall (owner_moment st r)) (with_owner (\<lambda>b. b\<lparr>ob_started := True\<rparr>) r))"

definition owner_heartbeat :: "stream \<Rightarrow> string \<Rightarrow> relay \<Rightarrow> relay" where
  "owner_heartbeat st t r =
     (case parse_json (stream_wire st) t of
        None \<Rightarrow> end_owner r
      | Some v \<Rightarrow>
          (let n = (case Option.bind (json_get ''sequence'' v) as_u64 of Some n \<Rightarrow> n | None \<Rightarrow> 0)
           in if text_at ''type'' v \<noteq> Some ''owner-proof'' \<or> text_at ''lease_id'' v \<noteq> Some (bind_lease_id (route_binding st))
                 \<or> n \<le> ob_heartbeat (ow_bridge r)
              then end_owner r
              else let r1 = with_owner (\<lambda>b. b\<lparr>ob_heartbeat := n\<rparr>) r
                   in case Option.bind (json_get ''issued_at_unix_ms'' v) as_u64 of
                        None \<Rightarrow> end_owner r1
                      | Some issued \<Rightarrow>
                          if 1000 < abs_diff (at_wall (owner_moment st r)) issued then end_owner r1
                          else owner_signs st n issued r1))"

text \<open>The next message of the owner's splice.\<close>

definition owner_takes :: "stream \<Rightarrow> relay \<Rightarrow> relay" where
  "owner_takes st r =
     (let b = ow_bridge r
      in if \<not> ob_started b \<or> length (to_socket (ow_splice r)) \<le> ob_taken b then r
         else let r1 = with_owner (\<lambda>b. b\<lparr>ob_taken := ob_taken b + 1\<rparr>) r
              in case snd (to_socket (ow_splice r) ! ob_taken b) of
                   BinaryMessage bs \<Rightarrow>
                     if \<not> ob_ready b \<or> ob_deadline b \<le> real_now r then end_owner r1 else owner_sends (BinaryMessage bs) r1
                 | TextMessage t \<Rightarrow> owner_heartbeat st t r1
                 | PingMessage \<Rightarrow> r1
                 | PongMessage \<Rightarrow> r1
                 | CloseMessage \<Rightarrow> end_owner r1)"

datatype owner_turn = OwnerStarts | OwnerTakes | OwnerGets socket_message | OwnerExpires | OwnerFails

definition owner_turn_do :: "stream \<Rightarrow> owner_turn \<Rightarrow> relay \<Rightarrow> relay" where
  "owner_turn_do st e r =
     (if \<not> ob_open (ow_bridge r) then r
      else case e of
        OwnerStarts \<Rightarrow> owner_starts st r
      | OwnerTakes \<Rightarrow> owner_takes st r
      | OwnerGets msg \<Rightarrow> owner_message st msg r
      | OwnerExpires \<Rightarrow> if ob_deadline (ow_bridge r) \<le> real_now r then end_owner r else r
      | OwnerFails \<Rightarrow> end_owner r)"

subsection \<open>The machine\<close>

text \<open>Besides the turns of the bridges: time, commits, publication of a view, and the turns of the splices with what feeds them.\<close>

datatype relay_event =
    Passes nat
  | GatewayCommits "authority_store option"
  | OwnerCommits "authority_store option"
  | OwnerView fleet_view
  | GatewayTurn gateway_turn
  | OwnerTurn owner_turn
  | ClientSends socket_message "string option"
  | GatewayReads nat
  | GatewaySplice splice_event
  | OwnerReceives "string option"
  | TerminalSays bytes
  | OwnerSplice splice_event

text \<open>Turns that need no input.\<close>

definition own_turn :: "splice_event \<Rightarrow> bool" where
  "own_turn e = (case e of Receives _ _ \<Rightarrow> False | Reads _ \<Rightarrow> False | _ \<Rightarrow> True)"

definition gateway_splice_do :: "stream \<Rightarrow> splice_event \<Rightarrow> relay \<Rightarrow> relay" where
  "gateway_splice_do st e r = r\<lparr>gw_splice := splice_do (peer_libs (gateway_peer st)) (gateway_moment st r) e (gw_splice r)\<rparr>"

definition owner_splice_do :: "stream \<Rightarrow> splice_event \<Rightarrow> relay \<Rightarrow> relay" where
  "owner_splice_do st e r = r\<lparr>ow_splice := splice_do (peer_libs (owner_peer st)) (owner_moment st r) e (ow_splice r)\<rparr>"

definition gateway_reads :: "stream \<Rightarrow> nat \<Rightarrow> relay \<Rightarrow> relay" where
  "gateway_reads st n r =
     (let bs = take (min n CHUNK) (drop (gw_position r) (gb_written (gw_bridge r)))
      in if bs = [] then r else gateway_splice_do st (Reads bs) (r\<lparr>gw_position := gw_position r + length bs\<rparr>))"

definition owner_receives :: "stream \<Rightarrow> string option \<Rightarrow> relay \<Rightarrow> relay" where
  "owner_receives st refused r =
     (if length (ob_local (ow_bridge r)) \<le> ow_position r then r
      else owner_splice_do st (Receives (ob_local (ow_bridge r) ! ow_position r) refused) (r\<lparr>ow_position := ow_position r + 1\<rparr>))"

definition relay_do :: "stream \<Rightarrow> relay_event \<Rightarrow> relay \<Rightarrow> relay" where
  "relay_do st e r =
     (case e of
        Passes d \<Rightarrow> r\<lparr>real_now := real_now r + d\<rparr>
      | GatewayCommits db \<Rightarrow> r\<lparr>gw_store := db\<rparr>
      | OwnerCommits db \<Rightarrow> r\<lparr>ow_store := db\<rparr>
      | OwnerView v \<Rightarrow> with_owner (\<lambda>b. b\<lparr>ob_view := v\<rparr>) r
      | GatewayTurn t \<Rightarrow> gateway_turn_do st t r
      | OwnerTurn t \<Rightarrow> owner_turn_do st t r
      | ClientSends msg refused \<Rightarrow> gateway_splice_do st (Receives msg refused) r
      | GatewayReads n \<Rightarrow> gateway_reads st n r
      | GatewaySplice e \<Rightarrow> if own_turn e then gateway_splice_do st e r else r
      | OwnerReceives refused \<Rightarrow> owner_receives st refused r
      | TerminalSays bs \<Rightarrow> owner_splice_do st (Reads bs) r
      | OwnerSplice e \<Rightarrow> if own_turn e then owner_splice_do st e r else r)"

text \<open>
  A stream that has just been opened: the gateway's lease, the owner's lease for the binding of the route, and both bridges
  at their start.
\<close>

definition new_gateway_bridge :: gateway_bridge where
  "new_gateway_bridge =
     \<lparr>gb_sequence = 0, gb_challenge = None, gb_proof_sent = False, gb_watcher = None, gb_owner_sequence = 0, gb_controls = 0,
      gb_read = 0, gb_written = [], gb_sent = [], gb_open = True\<rparr>"

definition new_owner_bridge :: "fleet_view \<Rightarrow> nat \<Rightarrow> owner_bridge" where
  "new_owner_bridge view now =
     \<lparr>ob_view = view, ob_deadline = now + WATCH_DEADLINE, ob_ready = False, ob_sequence = 0, ob_started = False, ob_heartbeat = 0,
      ob_taken = 0, ob_local = [], ob_sent = [], ob_open = True\<rparr>"

definition new_relay :: "nat \<Rightarrow> authority_store \<Rightarrow> authority_store \<Rightarrow> fleet_view \<Rightarrow> lease \<Rightarrow> lease \<Rightarrow> relay" where
  "new_relay now gdb odb view gl ol =
     \<lparr>real_now = now, gw_store = Some gdb, ow_store = Some odb, gw_splice = new_splice (Some PeekMode) (Some gl) True,
      ow_splice = new_splice (Some PeekMode) (Some ol) False, gw_bridge = new_gateway_bridge, ow_bridge = new_owner_bridge view now,
      gw_position = 0, ow_position = 0, gw_proofs = [], ow_proofs = []\<rparr>"

definition relay_run :: "stream \<Rightarrow> relay_event list \<Rightarrow> relay \<Rightarrow> relay" where
  "relay_run st = fold (relay_do st)"

end
