(* ===== verification/Lease_Watch.thy ===== *)
theory Lease_Watch
  imports Lease_Bridge
begin

section \<open>What a watched terminal can show\<close>

text \<open>
  Proofs about the machine of \<open>Lease_Bridge\<close>: what each turn leaves alone, what a verified proof shows, and the three
  properties of a stream: each node lets bytes through only under the recent authority of the other, and nothing the
  client or the network does reaches the terminal. Two nodes that exchange proofs are the example of the witnesses.
\<close>

subsection \<open>Lemmas: what a turn leaves alone\<close>

lemmas gateway_defs = gateway_turn_do_def gateway_beat_def gateway_control_def gateway_uploads_def gateway_message_def gateway_text_def
  gateway_proof_def gateway_signs_def gateway_lease_def gateway_sends_def end_gateway_def with_gateway_def

lemmas owner_defs = owner_turn_do_def owner_starts_def owner_takes_def owner_message_def owner_text_def owner_proof_def
  owner_heartbeat_def owner_signs_def owner_sends_def send_local_def end_owner_def with_owner_def

lemmas bridge_splits = gateway_turn.split owner_turn.split socket_message.split option.split prod.split

lemma gateway_lease_frame:
  assumes "\<And>r. p (f r) = p r" "\<And>r s. p (r\<lparr>gw_splice := s\<rparr>) = p r" "\<And>r g. p (r\<lparr>gw_bridge := g\<rparr>) = p r"
  shows "p (gateway_lease st op f r) = p r"
  using assms by (simp add: gateway_lease_def end_gateway_def with_gateway_def Let_def split: option.split prod.split)

lemma gateway_signs_frame:
  assumes "\<And>r g. p (r\<lparr>gw_bridge := g\<rparr>) = p r" "\<And>r q. p (r\<lparr>gw_proofs := q\<rparr>) = p r"
  shows "p (gateway_signs st b given r) = p r"
  using assms by (simp add: gateway_signs_def end_gateway_def gateway_sends_def with_gateway_def Let_def split: option.split)

lemma gateway_turn_frame:
  assumes "\<And>r s. p (r\<lparr>gw_splice := s\<rparr>) = p r" "\<And>r g. p (r\<lparr>gw_bridge := g\<rparr>) = p r" "\<And>r q. p (r\<lparr>gw_proofs := q\<rparr>) = p r"
  shows "p (gateway_turn_do st e r) = p r"
proof -
  have g: "p (with_gateway f r) = p r" "p (end_gateway r) = p r" "p (gateway_sends msg r) = p r" for f msg r
    using assms by (simp_all add: end_gateway_def gateway_sends_def with_gateway_def)
  have l: "(\<And>r. p (f r) = p r) \<Longrightarrow> p (gateway_lease st op f r) = p r" for f op r
    using assms by (intro gateway_lease_frame)
  show ?thesis
    using gateway_signs_frame [of p] assms
    by (auto simp: gateway_turn_do_def gateway_beat_def gateway_control_def gateway_uploads_def gateway_message_def gateway_text_def
        gateway_proof_def Let_def g l split: bridge_splits)
qed

lemma gateway_turn_simps [simp]:
  "real_now (gateway_turn_do st e r) = real_now r" "gw_store (gateway_turn_do st e r) = gw_store r"
  "ow_store (gateway_turn_do st e r) = ow_store r" "ow_splice (gateway_turn_do st e r) = ow_splice r"
  "ow_bridge (gateway_turn_do st e r) = ow_bridge r" "ow_proofs (gateway_turn_do st e r) = ow_proofs r"
  by (rule gateway_turn_frame; simp)+

lemma owner_turn_frame:
  assumes "\<And>r b. p (r\<lparr>ow_bridge := b\<rparr>) = p r" "\<And>r q. p (r\<lparr>ow_proofs := q\<rparr>) = p r"
  shows "p (owner_turn_do st e r) = p r"
proof -
  have g: "p (with_owner f r) = p r" "p (end_owner r) = p r" "p (owner_sends msg r) = p r" "p (send_local msg r) = p r" for f msg r
    using assms by (simp_all add: end_owner_def owner_sends_def send_local_def with_owner_def)
  have s: "p (owner_signs st n i r) = p r" for n i r
    using assms by (simp add: owner_signs_def g Let_def split: option.split)
  show ?thesis
    by (auto simp: owner_turn_do_def owner_starts_def owner_takes_def owner_message_def owner_text_def owner_proof_def
        owner_heartbeat_def Let_def g s split: bridge_splits)
qed

lemma owner_turn_simps [simp]:
  "real_now (owner_turn_do st e r) = real_now r" "gw_store (owner_turn_do st e r) = gw_store r"
  "ow_store (owner_turn_do st e r) = ow_store r" "ow_splice (owner_turn_do st e r) = ow_splice r"
  "gw_splice (owner_turn_do st e r) = gw_splice r" "gw_proofs (owner_turn_do st e r) = gw_proofs r"
  by (rule owner_turn_frame; simp)+

lemmas splice_do_defs = gateway_splice_do_def owner_splice_do_def gateway_reads_def owner_receives_def Let_def with_owner_def

lemma relay_now: "real_now (relay_do st e r) = (case e of Passes d \<Rightarrow> real_now r + d | _ \<Rightarrow> real_now r)"
  by (simp add: relay_do_def splice_do_defs split: relay_event.split)

subsection \<open>Lemmas: the gateway's lease and its proofs\<close>

lemma gateway_lease_effect:
  assumes "splice_lease (gw_splice r) = Some l" "\<And>r. gw_splice (f r) = gw_splice r"
  shows "gw_splice (gateway_lease st op f r)
    = (gw_splice r)\<lparr>splice_lease := Some (fst (lease_do (leases (peer_libs (gateway_peer st))) op (gateway_moment st r) l))\<rparr>"
  using assms by (simp add: gateway_lease_def end_gateway_def with_gateway_def Let_def split: prod.split)

lemma with_gateway_simps [simp]:
  "gw_splice (with_gateway f r) = gw_splice r" "gw_proofs (with_gateway f r) = gw_proofs r" "gw_splice (end_gateway r) = gw_splice r"
  "gw_proofs (end_gateway r) = gw_proofs r" "gw_splice (gateway_sends msg r) = gw_splice r"
  "gw_proofs (gateway_sends msg r) = gw_proofs r" "gateway_moment st (with_gateway f r) = gateway_moment st r"
  by (simp_all add: with_gateway_def end_gateway_def gateway_sends_def gateway_moment_def)

lemma gateway_signs_splice [simp]: "gw_splice (gateway_signs st b given r) = gw_splice r"
  by (rule gateway_signs_frame) simp_all

lemma gateway_moment_simps [simp]:
  "at_now (gateway_moment st r) = real_now r" "at_store (gateway_moment st r) = gw_store r"
  "at_wall (gateway_moment st r) = real_now r + wall_ahead (gateway_peer st)"
  by (simp_all add: gateway_moment_def)

text \<open>What a turn of the gateway's bridge does to the lease; only a verified proof of the owner extends it.\<close>

definition gateway_keeps :: "stream \<Rightarrow> gateway_turn \<Rightarrow> relay \<Rightarrow> lease \<Rightarrow> lease \<Rightarrow> bool" where
  "gateway_keeps st e r l l' =
     (same_terms l l' \<and> (proof_until (clock l') = proof_until (clock l)
        \<or> (\<exists>t p s. e = GatewayGets (TextMessage t) \<and> proof_number p \<noteq> 0 \<and> proof_until (clock l') = real_now r + WATCH
             \<and> verify_proof (stream_crypto st) (stream_wire st) (peer_auth (gateway_peer st))
                 (real_now r + wall_ahead (gateway_peer st)) t (relay_owner st) (binding l) (relay_key st) = Some (p, s))))"

lemma gateway_keeps_refl [simp]: "gateway_keeps st e r l l"
  by (simp add: gateway_keeps_def)

lemma gateway_keeps_do:
  assumes "\<And>ep n. op \<noteq> ProofOp ep n"
  shows "gateway_keeps st e r l (fst (lease_do env op m l))"
  using assms same_terms_do lease_do_proof_until [of op env m l] by (simp add: gateway_keeps_def)

lemma gateway_text_keeps:
  assumes "splice_lease (gw_splice r) = Some l"
  shows "\<exists>l'. gw_splice (gateway_text st t r) = (gw_splice r)\<lparr>splice_lease := Some l'\<rparr> \<and> gateway_keeps st (GatewayGets (TextMessage t)) r l l'"
proof -
  have same: "(gw_splice r)\<lparr>splice_lease := Some l\<rparr> = gw_splice r" using assms by simp
  let ?v = "verify_proof (stream_crypto st) (stream_wire st) (peer_auth (gateway_peer st)) (at_wall (gateway_moment st r)) t
      (relay_owner st) (binding l) (relay_key st)"
  show ?thesis
  proof (cases "gw_splice (gateway_text st t r) = gw_splice r")
    case True
    then show ?thesis by (intro exI [of _ l]) (simp add: same)
  next
    case False
    then obtain p s where v: "?v = Some (p, s)" "accept_raw_watcher st (gw_store r) s" "gw_splice (gateway_proof st l p r) \<noteq> gw_splice r"
      using assms by (auto simp: gateway_text_def split: option.splits if_splits)
    then obtain op where op: "op = ProofOp (gateway_epoch (binding l)) (proof_number p)" "proof_number p \<noteq> 0"
      "gateway_proof st l p r = gateway_lease st op id (with_gateway (\<lambda>g. g\<lparr>gb_owner_sequence := proof_number p\<rparr>) r)"
      by (auto simp: gateway_proof_def Let_def split: option.splits if_splits)
    define l' where "l' = fst (lease_do (leases (peer_libs (gateway_peer st))) op (gateway_moment st r) l)"
    have "gateway_text st t r = gateway_proof st l p r" using v(1,2) assms by (simp add: gateway_text_def)
    then have "gw_splice (gateway_text st t r) = (gw_splice r)\<lparr>splice_lease := Some l'\<rparr>"
      using gateway_lease_effect [of "with_gateway (\<lambda>g. g\<lparr>gb_owner_sequence := proof_number p\<rparr>) r" l id st op] assms
      unfolding op(3) l'_def by simp
    moreover have "proof_until (clock l') = proof_until (clock l) \<or> proof_until (clock l') = real_now r + WATCH"
      unfolding l'_def op(1) by (simp add: lease_do_clock extends_def)
    then have "gateway_keeps st (GatewayGets (TextMessage t)) r l l'"
      using v(1) op(2) same_terms_do [of l _ op] by (auto simp: gateway_keeps_def l'_def)
    ultimately show ?thesis by blast
  qed
qed

lemma gateway_turn_keeps:
  assumes "splice_lease (gw_splice r) = Some l"
  shows "\<exists>l'. gw_splice (gateway_turn_do st e r) = (gw_splice r)\<lparr>splice_lease := Some l'\<rparr> \<and> gateway_keeps st e r l l'"
proof -
  have same: "(gw_splice r)\<lparr>splice_lease := Some l\<rparr> = gw_splice r" using assms by simp
  have op: "\<exists>l'. gw_splice (gateway_lease st op f r) = (gw_splice r)\<lparr>splice_lease := Some l'\<rparr> \<and> gateway_keeps st e r l l'"
    if "\<And>ep n. op \<noteq> ProofOp ep n" "\<And>r. gw_splice (f r) = gw_splice r" for op f e
    using gateway_lease_effect [OF assms that(2)] gateway_keeps_do that(1) by blast
  have id: "\<exists>l'. gw_splice r = (gw_splice r)\<lparr>splice_lease := Some l'\<rparr> \<and> gateway_keeps st e r l l'"
    by (intro exI [of _ l]) (simp add: same)
  show ?thesis
  proof (cases "gb_open (gw_bridge r)")
    case True
    show ?thesis
    proof (cases e)
      case (GatewayGets msg)
      then show ?thesis using True id gateway_text_keeps [OF assms]
        by (cases msg) (simp_all add: gateway_turn_do_def gateway_message_def op)
    qed (use True id assms in \<open>simp_all add: gateway_turn_do_def gateway_beat_def gateway_control_def gateway_uploads_def Let_def op
        split: option.split\<close>)
  qed (simp add: gateway_turn_do_def id)
qed

text \<open>The proofs it signs, each after the lease was revalidated.\<close>

definition gateway_vouches :: "stream \<Rightarrow> relay \<Rightarrow> lease \<Rightarrow> proof_body \<Rightarrow> bool" where
  "gateway_vouches st r l body =
     (proof_binding body = binding l \<and> issued_at_unix_ms body = real_now r + wall_ahead (gateway_peer st)
      \<and> (\<exists>db. gw_store r = Some db \<and> snapshot_holds (leases (peer_libs (gateway_peer st))) db (real_now r + wall_ahead (gateway_peer st)) l))"

lemma gateway_signs_proofs:
  "gw_proofs (gateway_signs st b given r) = gw_proofs r
    \<or> (\<exists>body. gw_proofs (gateway_signs st b given r) = gw_proofs r @ [(gateway_moment st r, body)] \<and> proof_binding body = b
         \<and> issued_at_unix_ms body = real_now r + wall_ahead (gateway_peer st))"
  by (auto simp: gateway_signs_def Let_def split: option.split)

lemma gateway_lease_proofs: "(\<And>r. gw_proofs (f r) = gw_proofs r) \<Longrightarrow> gw_proofs (gateway_lease st op f r) = gw_proofs r"
  by (rule gateway_lease_frame) simp_all

lemma gateway_turn_proofs:
  assumes "splice_lease (gw_splice r) = Some l"
  shows "gw_proofs (gateway_turn_do st e r) = gw_proofs r
    \<or> (\<exists>body. gw_proofs (gateway_turn_do st e r) = gw_proofs r @ [(gateway_moment st r, body)] \<and> gateway_vouches st r l body)"
proof (cases "e = GatewayBeat \<and> gb_open (gw_bridge r)")
  case True
  show ?thesis
  proof (cases "gb_challenge (gw_bridge r)")
    case (Some given)
    obtain l' res where d: "lease_do (leases (peer_libs (gateway_peer st))) RevalidateOp (gateway_moment st r) l = (l', res)" by fastforce
    let ?r = "r\<lparr>gw_splice := (gw_splice r)\<lparr>splice_lease := Some l'\<rparr>\<rparr>"
    have t: "gateway_turn_do st e r = (if res = Inr () then gateway_signs st (binding l) given ?r else end_gateway ?r)"
      using True Some assms d by (simp add: gateway_turn_do_def gateway_beat_def gateway_lease_def Let_def)
    have "res = Inr () \<Longrightarrow> \<exists>db. gw_store r = Some db \<and> snapshot_holds (leases (peer_libs (gateway_peer st))) db
        (real_now r + wall_ahead (gateway_peer st)) l"
      using d revalidate_ok [of "leases (peer_libs (gateway_peer st))" "gw_store r" "real_now r + wall_ahead (gateway_peer st)" "real_now r" l]
      by (simp add: lease_do_def)
    moreover have "gateway_moment st ?r = gateway_moment st r" by (simp add: gateway_moment_def)
    ultimately show ?thesis using gateway_signs_proofs [of st "binding l" given ?r] t by (auto simp: gateway_vouches_def)
  qed (use True assms in \<open>simp add: gateway_turn_do_def gateway_beat_def\<close>)
next
  case False
  then have "gw_proofs (gateway_turn_do st e r) = gw_proofs r"
    by (cases e) (auto simp: gateway_turn_do_def gateway_control_def gateway_uploads_def gateway_message_def gateway_text_def
        gateway_proof_def gateway_lease_proofs Let_def split: socket_message.split option.split)
  then show ?thesis by simp
qed

subsection \<open>Lemmas: turns of the owner's bridge\<close>

lemma owner_moment_simps [simp]:
  "at_now (owner_moment st r) = real_now r" "at_store (owner_moment st r) = ow_store r"
  "at_wall (owner_moment st r) = real_now r + wall_ahead (owner_peer st)"
  by (simp_all add: owner_moment_def)

definition same_watch :: "relay \<Rightarrow> relay \<Rightarrow> bool" where
  "same_watch r r' = (ob_ready (ow_bridge r') = ob_ready (ow_bridge r) \<and> ob_deadline (ow_bridge r') = ob_deadline (ow_bridge r))"

lemma with_owner_simps [simp]:
  "real_now (with_owner f r) = real_now r" "ow_bridge (with_owner f r) = f (ow_bridge r)" "ow_proofs (with_owner f r) = ow_proofs r"
  "owner_moment st (with_owner f r) = owner_moment st r"
  by (simp_all add: with_owner_def owner_moment_def)

lemma end_owner_simps [simp]: "ow_bridge (end_owner r) = (ow_bridge r)\<lparr>ob_open := False\<rparr>" "ow_proofs (end_owner r) = ow_proofs r"
  by (simp_all add: end_owner_def)

lemma owner_sends_simps [simp]:
  "ow_bridge (owner_sends msg r) = (ow_bridge r)\<lparr>ob_sent := ob_sent (ow_bridge r) @ [(real_now r, msg)]\<rparr>"
  "ow_proofs (owner_sends msg r) = ow_proofs r"
  "ow_bridge (send_local msg r) = (ow_bridge r)\<lparr>ob_local := ob_local (ow_bridge r) @ [msg]\<rparr>" "ow_proofs (send_local msg r) = ow_proofs r"
  by (simp_all add: owner_sends_def send_local_def)

text \<open>Signing adds one text, or ends the bridge.\<close>

lemma owner_signs_effect:
  "ow_bridge (owner_signs st n issued r) = (ow_bridge r)\<lparr>ob_open := False\<rparr> \<and> ow_proofs (owner_signs st n issued r) = ow_proofs r
    \<or> (\<exists>t body. ow_bridge (owner_signs st n issued r) = (ow_bridge r)\<lparr>ob_sent := ob_sent (ow_bridge r) @ [(real_now r, TextMessage t)]\<rparr>
         \<and> ow_proofs (owner_signs st n issued r) = ow_proofs r @ [body] \<and> proof_number body = n \<and> issued_at_unix_ms body = issued
         \<and> proof_binding body = route_binding st)"
  by (auto simp: owner_signs_def Let_def split: option.split)

lemma owner_signs_watch [simp]: "same_watch r (owner_signs st n issued r)"
  using owner_signs_effect [of st n issued r] by (auto simp: same_watch_def)

lemma same_watch_with_owner:
  "same_watch (with_owner f r) r' \<Longrightarrow> ob_ready (f (ow_bridge r)) = ob_ready (ow_bridge r)
    \<Longrightarrow> ob_deadline (f (ow_bridge r)) = ob_deadline (ow_bridge r) \<Longrightarrow> same_watch r r'"
  by (simp add: same_watch_def)

lemma owner_heartbeat_watch: "same_watch r (owner_heartbeat st t r)"
  by (auto simp: owner_heartbeat_def Let_def split: option.split intro: same_watch_with_owner [OF owner_signs_watch])
    (auto simp: same_watch_def)

lemma owner_takes_watch: "same_watch r (owner_takes st r)"
  by (auto simp: owner_takes_def Let_def split: socket_message.split intro: same_watch_with_owner [OF owner_heartbeat_watch])
    (auto simp: same_watch_def)

lemma owner_turn_watch:
  "same_watch r (owner_turn_do st e r)
    \<or> (\<exists>t p s. e = OwnerGets (TextMessage t) \<and> ob_deadline (ow_bridge (owner_turn_do st e r)) = real_now r + WATCH_DEADLINE
         \<and> verify_proof (stream_crypto st) (stream_wire st) (peer_auth (owner_peer st)) (real_now r + wall_ahead (owner_peer st)) t
             (trim_host (bind_gateway (route_binding st))) (route_binding st) (route_key st) = Some (p, s))"
proof -
  have [simp]: "same_watch r r" "same_watch r (end_owner r)" "same_watch r (send_local msg r)" for msg by (simp_all add: same_watch_def)
  have st: "same_watch r (owner_starts st r)"
    by (auto simp: owner_starts_def intro: same_watch_with_owner [OF owner_signs_watch])
  show ?thesis
    using owner_takes_watch st
    by (auto simp: owner_turn_do_def owner_message_def owner_text_def owner_proof_def Let_def
        split: owner_turn.split socket_message.split option.split)
qed

definition sends_watched :: "relay \<Rightarrow> relay \<Rightarrow> bool" where
  "sends_watched r r' =
     (\<exists>xs. ob_sent (ow_bridge r') = ob_sent (ow_bridge r) @ xs
        \<and> (\<forall>t bs. (t, BinaryMessage bs) \<in> set xs \<longrightarrow> t = real_now r \<and> ob_ready (ow_bridge r) \<and> real_now r < ob_deadline (ow_bridge r)))"

lemma owner_signs_sends: "ob_sent (ow_bridge r1) = ob_sent (ow_bridge r) \<Longrightarrow> sends_watched r (owner_signs st n issued r1)"
  using owner_signs_effect [of st n issued r1] by (auto simp: sends_watched_def)

lemma sends_watched_same: "ob_sent (ow_bridge r') = ob_sent (ow_bridge r) \<Longrightarrow> sends_watched r r'"
  by (auto simp: sends_watched_def)

lemma owner_heartbeat_sends: "ob_sent (ow_bridge r1) = ob_sent (ow_bridge r) \<Longrightarrow> sends_watched r (owner_heartbeat st t r1)"
  by (auto simp: owner_heartbeat_def Let_def split: option.split intro!: owner_signs_sends intro: sends_watched_same)

lemma owner_takes_sends: "sends_watched r (owner_takes st r)"
  by (auto simp: owner_takes_def Let_def split: socket_message.split intro!: owner_heartbeat_sends intro: sends_watched_same)
    (auto simp: sends_watched_def)

lemma owner_turn_sends: "sends_watched r (owner_turn_do st e r)"
  using owner_takes_sends
  by (auto simp: owner_turn_do_def owner_starts_def owner_message_def owner_text_def owner_proof_def Let_def
      split: owner_turn.split socket_message.split option.split intro!: owner_signs_sends intro: sends_watched_same)

text \<open>The owner signs its challenge, numbered zero, and the heartbeats of its splice.\<close>

definition heartbeat_of :: "stream \<Rightarrow> relay \<Rightarrow> proof_body \<Rightarrow> bool" where
  "heartbeat_of st r body =
     (\<exists>u t v. (u, TextMessage t) \<in> set (to_socket (ow_splice r)) \<and> parse_json (stream_wire st) t = Some v
        \<and> Option.bind (json_get ''issued_at_unix_ms'' v) as_u64 = Some (issued_at_unix_ms body))"

lemma owner_signs_proofs:
  "ow_proofs (owner_signs st n issued r) = ow_proofs r
    \<or> (\<exists>body. ow_proofs (owner_signs st n issued r) = ow_proofs r @ [body] \<and> proof_number body = n \<and> issued_at_unix_ms body = issued
         \<and> proof_binding body = route_binding st)"
  using owner_signs_effect [of st n issued r] by auto

lemma owner_heartbeat_proofs:
  "ow_proofs (owner_heartbeat st t r) = ow_proofs r
    \<or> (\<exists>body v. ow_proofs (owner_heartbeat st t r) = ow_proofs r @ [body] \<and> parse_json (stream_wire st) t = Some v
         \<and> Option.bind (json_get ''issued_at_unix_ms'' v) as_u64 = Some (issued_at_unix_ms body) \<and> proof_binding body = route_binding st)"
proof (cases "parse_json (stream_wire st) t")
  case (Some v)
  show ?thesis
    using Some owner_signs_proofs [of st _ _ "with_owner (\<lambda>b. b\<lparr>ob_heartbeat := _\<rparr>) r"]
    by (simp add: owner_heartbeat_def Let_def split: option.split) blast
qed (simp add: owner_heartbeat_def)

lemma owner_turn_proofs:
  "ow_proofs (owner_turn_do st e r) = ow_proofs r
    \<or> (\<exists>body. ow_proofs (owner_turn_do st e r) = ow_proofs r @ [body] \<and> proof_binding body = route_binding st
         \<and> (proof_number body = 0 \<or> heartbeat_of st r body))"
proof (cases e)
  case OwnerStarts
  then show ?thesis using owner_signs_proofs [of st 0 _ "with_owner (\<lambda>b. b\<lparr>ob_started := True\<rparr>) r"]
    by (auto simp: owner_turn_do_def owner_starts_def)
next
  case OwnerTakes
  let ?n = "ob_taken (ow_bridge r)"
  have "?n < length (to_socket (ow_splice r)) \<Longrightarrow> snd (to_socket (ow_splice r) ! ?n) = TextMessage t
      \<Longrightarrow> \<exists>u. (u, TextMessage t) \<in> set (to_socket (ow_splice r))" for t
    by (metis nth_mem prod.collapse)
  then show ?thesis using OwnerTakes owner_heartbeat_proofs [of st _ "with_owner (\<lambda>b. b\<lparr>ob_taken := ob_taken b + 1\<rparr>) r"]
    by (auto simp: owner_turn_do_def owner_takes_def heartbeat_of_def Let_def split: socket_message.split) blast+
qed (auto simp: owner_turn_do_def owner_message_def owner_text_def owner_proof_def Let_def split: socket_message.split option.split)

subsection \<open>Lemmas: a verified proof was signed\<close>

lemma collect_headers_values:
  assumes "collect_headers cr w ps = Inr h" "v \<in> set (h n)"
  shows "v \<in> snd ` set ps"
proof -
  have "\<forall>n. set (h n) \<subseteq> snd ` set ps"
    using assms(1) unfolding collect_headers_def
  proof (rule try_fold_invariant [where P = "\<lambda>h. \<forall>n. set (h n) \<subseteq> snd ` set ps"])
    fix x h h'
    assume x: "x \<in> set ps" "\<forall>n. set (h n) \<subseteq> snd ` set ps"
      "(case x of (k, v) \<Rightarrow> \<lambda>h. case header_name w k of None \<Rightarrow> Inl (BadHeader k) | Some n \<Rightarrow> insert_header cr n v h) h = Inr h'"
    then obtain n where "h' = h(n := [snd x])" by (auto split: prod.splits option.splits)
    then show "\<forall>n. set (h' n) \<subseteq> snd ` set ps" using x(1,2) by auto
  qed simp
  then show ?thesis using assms(2) by blast
qed

lemma verify_proof_Some:
  assumes "verify_proof cr w a wall t node b (Some k) = Some (p, s)"
  shows "proof_binding p = b" "abs_diff wall (issued_at_unix_ms p) \<le> 1000"
    and "\<exists>ps v. read_proof w t = Some (p, ps) \<and> v \<in> snd ` set ps \<and> header_text cr (sender_name s)
      \<and> verify_member cr k (member_message (canonical (fleet_id a) ''WATCH'' WATCH_PATH (sender_name s) (sha256_hex cr (body_text w p)) None)) v"
proof -
  obtain ps h where h: "read_proof w t = Some (p, ps)" "collect_headers cr w ps = Inr h"
      "verify_sender cr a h ''WATCH'' WATCH_PATH (body_text w p) (Some node) None = Inr s"
      "sender_key s = Some k" "member_signature_valid s" "proof_binding p = b" "abs_diff wall (issued_at_unix_ms p) \<le> 1000"
    using assms by (auto simp: verify_proof_def and_then_def split: if_splits option.splits sum.splits)
  show "proof_binding p = b" "abs_diff wall (issued_at_unix_ms p) \<le> 1000" by fact+
  obtain v n where v: "v \<in> set (h n)"
      "verify_member cr k (member_message (canonical (fleet_id a) ''WATCH'' WATCH_PATH (sender_name s) (sha256_hex cr (body_text w p)) None)) v"
    using verify_sender_Inr(3) [OF h(3,5)] h(4) by auto
  then show "\<exists>ps v. read_proof w t = Some (p, ps) \<and> v \<in> snd ` set ps \<and> header_text cr (sender_name s)
      \<and> verify_member cr k (member_message (canonical (fleet_id a) ''WATCH'' WATCH_PATH (sender_name s) (sha256_hex cr (body_text w p)) None)) v"
    using h(1) collect_headers_values [OF h(2) v(1)] verify_sender_Inr(1) [OF h(3)] by blast
qed

text \<open>
  What is assumed of the libraries: digests of different texts differ, different bodies for this binding have different
  texts, and no digest, header value, fleet id or node name holds a line feed.
\<close>

definition sound_libraries :: "stream \<Rightarrow> bool" where
  "sound_libraries st =
     (inj (sha256_hex (stream_crypto st)) 
      \<and> inj_on (body_text (stream_wire st)) {body. proof_binding body = route_binding st}
      \<and> (\<forall>b. plain (sha256_hex (stream_crypto st) b)) \<and> (\<forall>v. header_text (stream_crypto st) v \<longrightarrow> plain v)
      \<and> list_all plain [fleet_id (peer_auth (gateway_peer st)), fleet_id (peer_auth (owner_peer st)),
          peer_name (gateway_peer st), peer_name (owner_peer st)])"

text \<open>The text a node signs for a proof.\<close>

definition watch_text :: "stream \<Rightarrow> string \<Rightarrow> string \<Rightarrow> proof_body \<Rightarrow> string" where
  "watch_text st fleet node body =
     canonical fleet ''WATCH'' WATCH_PATH node (sha256_hex (stream_crypto st) (body_text (stream_wire st) body)) None"

definition node_text :: "stream \<Rightarrow> peer_node \<Rightarrow> proof_body \<Rightarrow> string" where
  "node_text st n = watch_text st (fleet_id (peer_auth n)) (peer_name n)"

text \<open>Texts signed for other purposes: none is a proof for this binding.\<close>

definition other_texts :: "stream \<Rightarrow> string set \<Rightarrow> bool" where
  "other_texts st S = (\<forall>fleet node body. proof_binding body = route_binding st \<longrightarrow> watch_text st fleet node body \<notin> S)"

text \<open>A message in which every value that verifies as a signature of the key is one on a text of the set.\<close>

definition carries_only :: "stream \<Rightarrow> string option \<Rightarrow> string set \<Rightarrow> string \<Rightarrow> bool" where
  "carries_only st key S t =
     (\<forall>k body ps v c. key = Some k \<longrightarrow> read_proof (stream_wire st) t = Some (body, ps) \<longrightarrow> v \<in> snd ` set ps
        \<longrightarrow> verify_member (stream_crypto st) k (member_message c) v \<longrightarrow> c \<in> S)"

lemma plain_watch [simp]: "plain WATCH_PATH"
  by (simp add: plain_def WATCH_PATH_def)

lemma watch_text_inject:
  assumes "sound_libraries st" "watch_text st f n body = watch_text st f' n' body'" "list_all plain [f, n, f', n']"
    and "proof_binding body = route_binding st" "proof_binding body' = route_binding st"
  shows "body = body'"
proof -
  let ?d = "\<lambda>b. sha256_hex (stream_crypto st) (body_text (stream_wire st) b)"
  have "list_all plain [''WATCH'', WATCH_PATH, f, n, ?d body, request_text None]"
    "list_all plain [''WATCH'', WATCH_PATH, f', n', ?d body', request_text None]"
    using assms(1,3) by (simp_all add: sound_libraries_def)
  from canonical_inject [OF this assms(2) [unfolded watch_text_def]] have "?d body = ?d body'" by blast
  then have "body_text (stream_wire st) body = body_text (stream_wire st) body'" using assms(1) by (simp add: sound_libraries_def inj_eq)
  moreover have "inj_on (body_text (stream_wire st)) {body. proof_binding body = route_binding st}"
    using assms(1) by (simp add: sound_libraries_def)
  ultimately show ?thesis using assms(4,5) by (simp add: inj_on_def)
qed

lemma plain_names:
  assumes "sound_libraries st"
  shows "plain (fleet_id (peer_auth (gateway_peer st)))" "plain (fleet_id (peer_auth (owner_peer st)))"
    "plain (peer_name (gateway_peer st))" "plain (peer_name (owner_peer st))"
  using assms by (simp_all add: sound_libraries_def)

lemma verified_signed:
  assumes "verify_proof (stream_crypto st) (stream_wire st) a wall t node (route_binding st) key = Some (p, s)" "key \<noteq> None"
    and "carries_only st key (S \<union> node_text st n ` B) t" "other_texts st S" "sound_libraries st" "plain (fleet_id a)"
    and "plain (fleet_id (peer_auth n))" "plain (peer_name n)" "\<And>q. q \<in> B \<Longrightarrow> proof_binding q = route_binding st"
  shows "p \<in> B"
proof -
  obtain k where k: "key = Some k" using assms(2) by auto
  note v = verify_proof_Some [OF assms(1) [unfolded k]]
  obtain ps x where x: "read_proof (stream_wire st) t = Some (p, ps)" "x \<in> snd ` set ps" "header_text (stream_crypto st) (sender_name s)"
      "verify_member (stream_crypto st) k (member_message (watch_text st (fleet_id a) (sender_name s) p)) x"
    using v(3) by (auto simp: watch_text_def)
  then have "watch_text st (fleet_id a) (sender_name s) p \<in> S \<union> node_text st n ` B"
    using assms(3) k unfolding carries_only_def by blast
  moreover have "watch_text st (fleet_id a) (sender_name s) p \<notin> S" using assms(4) v(1) by (simp add: other_texts_def)
  ultimately obtain q where "q \<in> B" "watch_text st (fleet_id a) (sender_name s) p = node_text st n q" by auto
  moreover have "plain (sender_name s)" using assms(5) x(3) by (simp add: sound_libraries_def)
  ultimately show ?thesis
    using watch_text_inject [OF assms(5), of "fleet_id a" "sender_name s" p "fleet_id (peer_auth n)" "peer_name n" q] assms(6-9) v(1)
    by (simp add: node_text_def)
qed

text \<open>
  Signatures cannot be forged: when a text is delivered to a node, each valid signature in it was made before,
  by the other node for this stream or for another purpose.
\<close>

definition unforged :: "stream \<Rightarrow> string set \<Rightarrow> string set \<Rightarrow> relay_event \<Rightarrow> relay \<Rightarrow> bool" where
  "unforged st Sg So e r =
     (case e of
        OwnerTurn (OwnerGets (TextMessage t)) \<Rightarrow>
          carries_only st (route_key st) (Sg \<union> node_text st (gateway_peer st) ` snd ` set (gw_proofs r)) t
      | GatewayTurn (GatewayGets (TextMessage t)) \<Rightarrow>
          carries_only st (relay_key st) (So \<union> node_text st (owner_peer st) ` set (ow_proofs r)) t
      | _ \<Rightarrow> True)"

fun honest :: "stream \<Rightarrow> string set \<Rightarrow> string set \<Rightarrow> relay_event list \<Rightarrow> relay \<Rightarrow> bool" where
  "honest st Sg So [] r = True"
| "honest st Sg So (e # es) r = (unforged st Sg So e r \<and> honest st Sg So es (relay_do st e r))"

lemma relay_run_snoc [simp]: "relay_run st (es @ [e]) r = relay_do st e (relay_run st es r)" "relay_run st [] r = r"
  by (simp_all add: relay_run_def)

lemma honest_snoc [simp]: "honest st Sg So (es @ [e]) r \<longleftrightarrow> honest st Sg So es r \<and> unforged st Sg So e (relay_run st es r)"
  by (induction es arbitrary: r) (simp_all add: relay_run_def)

subsection \<open>Lemmas: the owner waits for the gateway\<close>

definition skew :: "stream \<Rightarrow> nat" where
  "skew st = abs_diff (wall_ahead (gateway_peer st)) (wall_ahead (owner_peer st))"

lemma abs_diff_skew:
  "abs_diff (t + o1) (u + g) \<le> 1000 \<Longrightarrow> t \<le> u + 1000 + abs_diff g o1" "abs_diff (t + g) (u + o1) \<le> 1000 \<Longrightarrow> t \<le> u + 1000 + abs_diff g o1"
  by (auto simp: abs_diff_def split: if_splits)

text \<open>A state the run has passed.\<close>

definition earlier :: "stream \<Rightarrow> relay \<Rightarrow> relay_event list \<Rightarrow> (relay \<Rightarrow> bool) \<Rightarrow> bool" where
  "earlier st r0 es P = (\<exists>es1 es2. es = es1 @ es2 \<and> P (relay_run st es1 r0))"

lemma earlier_snoc: "earlier st r0 es P \<Longrightarrow> earlier st r0 (es @ [e]) P"
  unfolding earlier_def by (metis append_assoc)

lemma earlier_now: "P (relay_run st es r0) \<Longrightarrow> earlier st r0 (es @ [e]) P"
  unfolding earlier_def by blast

lemma relay_gateway_lease:
  assumes "splice_lease (gw_splice r) = Some l"
  shows "\<exists>l'. splice_lease (gw_splice (relay_do st e r)) = Some l' \<and> same_terms l l'"
proof -
  have s: "\<exists>l'. splice_lease (splice_do env m x (gw_splice r)) = Some l' \<and> same_terms l l'" for env m x
    using splice_do_leaves [OF assms, of env m x] by (auto simp: leaves_lease_def splice_keeps_def)
  show ?thesis
  proof (cases e)
    case (GatewayTurn x)
    then show ?thesis using gateway_turn_keeps [OF assms, of st x] by (auto simp: relay_do_def gateway_keeps_def)
  qed (use assms s in \<open>auto simp: relay_do_def splice_do_defs\<close>)
qed

lemma relay_gateway_proofs:
  assumes "splice_lease (gw_splice r) = Some l"
  shows "gw_proofs (relay_do st e r) = gw_proofs r
    \<or> (\<exists>body. gw_proofs (relay_do st e r) = gw_proofs r @ [(gateway_moment st r, body)] \<and> gateway_vouches st r l body)"
proof (cases e)
  case (GatewayTurn x)
  then show ?thesis using gateway_turn_proofs [OF assms, of st x] by (simp add: relay_do_def)
qed (auto simp: relay_do_def splice_do_defs)

lemma relay_watch:
  "same_watch r (relay_do st e r)
    \<or> (\<exists>t p s. e = OwnerTurn (OwnerGets (TextMessage t)) \<and> ob_deadline (ow_bridge (relay_do st e r)) = real_now r + WATCH_DEADLINE
         \<and> verify_proof (stream_crypto st) (stream_wire st) (peer_auth (owner_peer st)) (real_now r + wall_ahead (owner_peer st)) t
             (trim_host (bind_gateway (route_binding st))) (route_binding st) (route_key st) = Some (p, s))"
proof (cases e)
  case (OwnerTurn x)
  then show ?thesis using owner_turn_watch [of r st x] by (auto simp: relay_do_def)
qed (auto simp: relay_do_def splice_do_defs same_watch_def)

lemma relay_sends: "sends_watched r (relay_do st e r)"
proof (cases e)
  case (OwnerTurn x)
  then show ?thesis using owner_turn_sends by (simp add: relay_do_def)
qed (auto simp: relay_do_def splice_do_defs intro!: sends_watched_same)

lemma vouches_same_terms: "same_terms l l' \<Longrightarrow> gateway_vouches st r l' body = gateway_vouches st r l body"
  by (simp add: gateway_vouches_def snapshot_holds_same_terms) (simp add: same_terms_def)

text \<open>Every proof was signed in a state that authorised the lease, and readiness and deadline rest on a proof.\<close>

definition proved_by :: "relay \<Rightarrow> (nat \<Rightarrow> bool) \<Rightarrow> bool" where
  "proved_by r P = (\<exists>m body. (m, body) \<in> set (gw_proofs r) \<and> P (at_now m))"

definition watch_inv :: "stream \<Rightarrow> lease \<Rightarrow> relay \<Rightarrow> relay_event list \<Rightarrow> relay \<Rightarrow> bool" where
  "watch_inv st gl r0 es r =
     ((\<exists>l. splice_lease (gw_splice r) = Some l \<and> same_terms gl l)
      \<and> (\<forall>m body. (m, body) \<in> set (gw_proofs r) \<longrightarrow> at_now m \<le> real_now r
           \<and> earlier st r0 es (\<lambda>r1. gateway_moment st r1 = m \<and> gateway_vouches st r1 gl body))
      \<and> (ob_ready (ow_bridge r) \<longrightarrow> proved_by r (\<lambda>u. u \<le> real_now r \<and> ob_deadline (ow_bridge r) \<le> u + 6000 + skew st))
      \<and> (\<forall>t bs. (t, BinaryMessage bs) \<in> set (ob_sent (ow_bridge r)) \<longrightarrow> proved_by r (\<lambda>u. u \<le> t \<and> t < u + 6000 + skew st)))"

lemma proved_by_mono: "proved_by r P \<Longrightarrow> set (gw_proofs r) \<subseteq> set (gw_proofs r') \<Longrightarrow> (\<And>u. P u \<Longrightarrow> Q u) \<Longrightarrow> proved_by r' Q"
  unfolding proved_by_def by blast

lemma watch_inv_ready:
  assumes "watch_inv st gl r0 es r" "unforged st Sg So e r"
    and "sound_libraries st" "other_texts st Sg" "route_key st \<noteq> None" "binding gl = route_binding st"
    and "ob_ready (ow_bridge (relay_do st e r))"
  shows "proved_by r (\<lambda>u. u \<le> real_now r \<and> ob_deadline (ow_bridge (relay_do st e r)) \<le> u + 6000 + skew st)"
  using relay_watch [of r st e]
proof
  assume "same_watch r (relay_do st e r)"
  then show ?thesis using assms(1,7) by (simp add: watch_inv_def same_watch_def)
next
  let ?v = "\<lambda>t. verify_proof (stream_crypto st) (stream_wire st) (peer_auth (owner_peer st)) (real_now r + wall_ahead (owner_peer st)) t
      (trim_host (bind_gateway (route_binding st))) (route_binding st) (route_key st)"
  assume "\<exists>t p s. e = OwnerTurn (OwnerGets (TextMessage t))
      \<and> ob_deadline (ow_bridge (relay_do st e r)) = real_now r + WATCH_DEADLINE \<and> ?v t = Some (p, s)"
  then obtain t p s where v: "e = OwnerTurn (OwnerGets (TextMessage t))" "?v t = Some (p, s)"
      "ob_deadline (ow_bridge (relay_do st e r)) = real_now r + WATCH_DEADLINE" by blast
  have c: "carries_only st (route_key st) (Sg \<union> node_text st (gateway_peer st) ` snd ` set (gw_proofs r)) t"
    using assms(2) v(1) by (simp add: unforged_def)
  have "proof_binding q = route_binding st" if q: "q \<in> snd ` set (gw_proofs r)" for q
  proof -
    obtain m where "(m, q) \<in> set (gw_proofs r)" using q by auto
    then have "earlier st r0 es (\<lambda>r1. gateway_moment st r1 = m \<and> gateway_vouches st r1 gl q)"
      using assms(1) unfolding watch_inv_def by blast
    then show ?thesis using assms(6) by (auto simp: earlier_def gateway_vouches_def)
  qed
  then have "p \<in> snd ` set (gw_proofs r)" by (rule verified_signed [OF v(2) assms(5) c assms(4,3) plain_names(2,1,3) [OF assms(3)]])
  then obtain m where m: "(m, p) \<in> set (gw_proofs r)" by auto
  then have "at_now m \<le> real_now r" "earlier st r0 es (\<lambda>r1. gateway_moment st r1 = m \<and> gateway_vouches st r1 gl p)"
    using assms(1) by (auto simp: watch_inv_def)
  then have "at_now m \<le> real_now r \<and> issued_at_unix_ms p = at_now m + wall_ahead (gateway_peer st)"
    by (auto simp: earlier_def gateway_vouches_def)
  moreover have "abs_diff (real_now r + wall_ahead (owner_peer st)) (issued_at_unix_ms p) \<le> 1000"
    using v(2) assms(5) verify_proof_Some(2) by fastforce
  ultimately show ?thesis using m v(3) abs_diff_skew(1)
    unfolding proved_by_def skew_def WATCH_DEADLINE_def by fastforce
qed

lemma watch_inv_sent:
  assumes "watch_inv st gl r0 es r" "(t, BinaryMessage bs) \<in> set (ob_sent (ow_bridge (relay_do st e r)))"
  shows "proved_by r (\<lambda>u. u \<le> t \<and> t < u + 6000 + skew st)"
proof -
  obtain xs where xs: "ob_sent (ow_bridge (relay_do st e r)) = ob_sent (ow_bridge r) @ xs"
      "\<And>t bs. (t, BinaryMessage bs) \<in> set xs \<Longrightarrow> t = real_now r \<and> ob_ready (ow_bridge r) \<and> real_now r < ob_deadline (ow_bridge r)"
    using relay_sends [of r st e] unfolding sends_watched_def by blast
  show ?thesis
  proof (cases "(t, BinaryMessage bs) \<in> set (ob_sent (ow_bridge r))")
    case True
    then show ?thesis using assms(1) unfolding watch_inv_def by blast
  next
    case False
    then have t: "t = real_now r \<and> ob_ready (ow_bridge r) \<and> real_now r < ob_deadline (ow_bridge r)" using xs assms(2) by auto
    then have "proved_by r (\<lambda>u. u \<le> real_now r \<and> ob_deadline (ow_bridge r) \<le> u + 6000 + skew st)"
      using assms(1) unfolding watch_inv_def by blast
    then show ?thesis using subset_refl by (rule proved_by_mono) (use t in auto)
  qed
qed

lemma watch_inv_step:
  assumes "watch_inv st gl r0 es r" "r = relay_run st es r0" "unforged st Sg So e r"
    and "sound_libraries st" "other_texts st Sg" "route_key st \<noteq> None" "binding gl = route_binding st"
  shows "watch_inv st gl r0 (es @ [e]) (relay_do st e r)"
proof -
  let ?r = "relay_do st e r"
  obtain l where l: "splice_lease (gw_splice r) = Some l" "same_terms gl l" using assms(1) by (auto simp: watch_inv_def)
  have now: "real_now r \<le> real_now ?r" by (simp add: relay_now split: relay_event.split)
  have sub: "set (gw_proofs r) \<subseteq> set (gw_proofs ?r)" using relay_gateway_proofs [OF l(1), of st e] by auto
  have "at_now m \<le> real_now ?r \<and> earlier st r0 (es @ [e]) (\<lambda>r1. gateway_moment st r1 = m \<and> gateway_vouches st r1 gl body)"
    if m: "(m, body) \<in> set (gw_proofs ?r)" for m body
  proof (cases "(m, body) \<in> set (gw_proofs r)")
    case True
    then show ?thesis using assms(1) now earlier_snoc unfolding watch_inv_def by (meson le_trans)
  next
    case False
    then have "m = gateway_moment st r" "gateway_vouches st r l body"
      using relay_gateway_proofs [OF l(1), of st e] m by auto
    then show ?thesis using now assms(2) vouches_same_terms [OF l(2)] by (auto intro!: earlier_now)
  qed
  moreover have "proved_by ?r (\<lambda>u. u \<le> real_now ?r \<and> ob_deadline (ow_bridge ?r) \<le> u + 6000 + skew st)" if "ob_ready (ow_bridge ?r)"
    using watch_inv_ready [OF assms(1,3-7) that] sub by (rule proved_by_mono) (use now in auto)
  moreover have "proved_by ?r (\<lambda>u. u \<le> t \<and> t < u + 6000 + skew st)"
    if "(t, BinaryMessage bs) \<in> set (ob_sent (ow_bridge ?r))" for t bs
    using watch_inv_sent [OF assms(1) that] sub by (rule proved_by_mono)
  moreover have "\<exists>l'. splice_lease (gw_splice ?r) = Some l' \<and> same_terms gl l'"
    using relay_gateway_lease [OF l(1), of st e] same_terms_trans [OF l(2)] by blast
  ultimately show ?thesis unfolding watch_inv_def by blast
qed

lemma watch_inv_run:
  assumes "honest st Sg So es r0" "r0 = new_relay now gdb odb view gl ol"
    and "sound_libraries st" "other_texts st Sg" "route_key st \<noteq> None" "binding gl = route_binding st"
  shows "watch_inv st gl r0 es (relay_run st es r0)"
  using assms(1)
proof (induction es rule: rev_induct)
  case Nil
  show ?case by (simp add: assms(2) watch_inv_def new_relay_def new_splice_def new_owner_bridge_def)
next
  case (snoc e es)
  then show ?case using watch_inv_step [OF _ refl, of st gl r0 es Sg So e] assms(3-6) by simp
qed

subsection \<open>Lemmas: the gateway waits for the owner\<close>

lemma relay_owner_splice:
  obtains "ow_splice (relay_do st e r) = ow_splice r"
  | x where "ow_splice (relay_do st e r) = splice_do (peer_libs (owner_peer st)) (owner_moment st r) x (ow_splice r)"
    "ow_proofs (relay_do st e r) = ow_proofs r"
proof -
  have m: "owner_moment st (r\<lparr>ow_position := n\<rparr>) = owner_moment st r" for n by (simp add: owner_moment_def)
  have "ow_splice (relay_do st e r) = ow_splice r
    \<or> (\<exists>x. ow_splice (relay_do st e r) = splice_do (peer_libs (owner_peer st)) (owner_moment st r) x (ow_splice r)
         \<and> ow_proofs (relay_do st e r) = ow_proofs r)"
    by (cases e) (auto simp: relay_do_def splice_do_defs m)
  then show ?thesis using that by blast
qed

lemma relay_gateway_splice:
  obtains "gw_splice (relay_do st e r) = gw_splice r"
  | x where "gw_splice (relay_do st e r) = splice_do (peer_libs (gateway_peer st)) (gateway_moment st r) x (gw_splice r)"
  | y where "e = GatewayTurn y" "gw_splice (relay_do st e r) = gw_splice (gateway_turn_do st y r)"
proof -
  have m: "gateway_moment st (r\<lparr>gw_position := n\<rparr>) = gateway_moment st r" for n by (simp add: gateway_moment_def)
  have "gw_splice (relay_do st e r) = gw_splice r
    \<or> (\<exists>x. gw_splice (relay_do st e r) = splice_do (peer_libs (gateway_peer st)) (gateway_moment st r) x (gw_splice r))
    \<or> (\<exists>y. e = GatewayTurn y \<and> gw_splice (relay_do st e r) = gw_splice (gateway_turn_do st y r))"
    by (cases e) (auto simp: relay_do_def splice_do_defs m)
  then show ?thesis using that by blast
qed

text \<open>A revalidation by the owner, in a state the run has passed.\<close>

definition owner_vouches :: "stream \<Rightarrow> relay \<Rightarrow> lease \<Rightarrow> bool" where
  "owner_vouches st r l =
     (\<exists>db. ow_store r = Some db \<and> snapshot_holds (leases (peer_libs (owner_peer st))) db (real_now r + wall_ahead (owner_peer st)) l)"

definition revalidated :: "stream \<Rightarrow> lease \<Rightarrow> relay \<Rightarrow> relay_event list \<Rightarrow> lease_moment \<Rightarrow> bool" where
  "revalidated st ol r0 es m0 = earlier st r0 es (\<lambda>r1. owner_moment st r1 = m0 \<and> owner_vouches st r1 ol)"

text \<open>An owner proof: its revalidation, and the state in which the answer was sent on.\<close>

definition answered :: "stream \<Rightarrow> lease \<Rightarrow> relay \<Rightarrow> relay_event list \<Rightarrow> lease_moment \<Rightarrow> lease_moment \<Rightarrow> bool" where
  "answered st ol r0 es m0 m =
     (\<exists>es1 es2. es = es1 @ es2 \<and> owner_moment st (relay_run st es1 r0) = m
        \<and> asked (ow_splice (relay_run st es1 r0)) = Some (m0, True) \<and> revalidated st ol r0 es1 m0)"

lemma answered_snoc: "answered st ol r0 es m0 m \<Longrightarrow> answered st ol r0 (es @ [e]) m0 m"
  unfolding answered_def by (metis append_assoc)

lemma revalidated_snoc: "revalidated st ol r0 es m0 \<Longrightarrow> revalidated st ol r0 (es @ [e]) m0"
  unfolding revalidated_def by (rule earlier_snoc)

definition issued_by :: "splice \<Rightarrow> (nat \<Rightarrow> lease_moment \<Rightarrow> bool) \<Rightarrow> bool" where
  "issued_by s P = (\<exists>m0 m n. (m0, m, n) \<in> set (proofs s) \<and> P n m)"

lemma issued_by_mono: "issued_by s P \<Longrightarrow> set (proofs s) \<subseteq> set (proofs s') \<Longrightarrow> (\<And>n m. P n m \<Longrightarrow> Q n m) \<Longrightarrow> issued_by s' Q"
  unfolding issued_by_def by blast

definition owner_inv :: "stream \<Rightarrow> lease \<Rightarrow> relay \<Rightarrow> relay_event list \<Rightarrow> relay \<Rightarrow> bool" where
  "owner_inv st ol r0 es r =
     ((\<exists>l. splice_lease (ow_splice r) = Some l \<and> same_terms ol l)
      \<and> (\<forall>m0. asked (ow_splice r) = Some (m0, True) \<longrightarrow> revalidated st ol r0 es m0)
      \<and> (\<forall>m0 m n. (m0, m, n) \<in> set (proofs (ow_splice r)) \<longrightarrow> at_now m \<le> real_now r \<and> answered st ol r0 es m0 m)
      \<and> (\<forall>u t. (u, TextMessage t) \<in> set (to_socket (ow_splice r)) \<longrightarrow>
           issued_by (ow_splice r) (\<lambda>n m. t = owner_proof_text (leases (peer_libs (owner_peer st))) (binding ol) n (at_wall m)))
      \<and> (\<forall>body\<in>set (ow_proofs r). proof_binding body = route_binding st
           \<and> (proof_number body \<noteq> 0 \<longrightarrow> issued_by (ow_splice r) (\<lambda>n m. issued_at_unix_ms body = at_wall m))))"

text \<open>JSON texts of heartbeats are read back as they were written.\<close>

definition reads_back :: "stream \<Rightarrow> raw_lease_binding \<Rightarrow> bool" where
  "reads_back st b =
     (\<forall>n i. parse_json (stream_wire st) (owner_proof_text (leases (peer_libs (owner_peer st))) b n i) = Some (owner_proof_json b n i))"

lemma heartbeat_proof:
  assumes "owner_inv st ol r0 es r" "reads_back st (binding ol)" "heartbeat_of st r body"
  shows "issued_by (ow_splice r) (\<lambda>n m. issued_at_unix_ms body = at_wall m)"
proof -
  obtain u t v where h: "(u, TextMessage t) \<in> set (to_socket (ow_splice r))" "parse_json (stream_wire st) t = Some v"
      "Option.bind (json_get ''issued_at_unix_ms'' v) as_u64 = Some (issued_at_unix_ms body)"
    using assms(3) by (auto simp: heartbeat_of_def)
  then have "issued_by (ow_splice r) (\<lambda>n m. t = owner_proof_text (leases (peer_libs (owner_peer st))) (binding ol) n (at_wall m))"
    using assms(1) unfolding owner_inv_def by blast
  then obtain m0 m n where m: "(m0, m, n) \<in> set (proofs (ow_splice r))"
      "t = owner_proof_text (leases (peer_libs (owner_peer st))) (binding ol) n (at_wall m)"
    unfolding issued_by_def by blast
  then have "v = owner_proof_json (binding ol) n (at_wall m)" using h(2) assms(2) by (simp add: reads_back_def)
  then have "issued_at_unix_ms body = at_wall m" using h(3) by (simp add: owner_proof_json_def)
  then show ?thesis using m(1) unfolding issued_by_def by blast
qed

lemma relay_owner_proofs:
  "ow_splice (relay_do st e r) = ow_splice r \<Longrightarrow> ow_proofs (relay_do st e r) = ow_proofs r
    \<or> (\<exists>body. ow_proofs (relay_do st e r) = ow_proofs r @ [body] \<and> proof_binding body = route_binding st
         \<and> (proof_number body = 0 \<or> heartbeat_of st r body))"
proof (cases e)
  case (OwnerTurn x)
  then show ?thesis using owner_turn_proofs [of st x r] by (simp add: relay_do_def)
qed (auto simp: relay_do_def splice_do_defs)

text \<open>A step in which the owner's splice rests, and one in which it takes a turn.\<close>

lemma owner_inv_rest:
  assumes inv: "owner_inv st ol r0 es r" and rb: "reads_back st (binding ol)" and rest: "ow_splice (relay_do st e r) = ow_splice r"
  shows "owner_inv st ol r0 (es @ [e]) (relay_do st e r)"
proof -
  have now: "real_now r \<le> real_now (relay_do st e r)" by (simp add: relay_now split: relay_event.split)
  have "proof_binding body = route_binding st
      \<and> (proof_number body \<noteq> 0 \<longrightarrow> issued_by (ow_splice r) (\<lambda>n m. issued_at_unix_ms body = at_wall m))"
    if "body \<in> set (ow_proofs (relay_do st e r))" for body
  proof (cases "body \<in> set (ow_proofs r)")
    case True
    then show ?thesis using inv unfolding owner_inv_def by blast
  next
    case False
    then have "proof_binding body = route_binding st \<and> (proof_number body = 0 \<or> heartbeat_of st r body)"
      using that relay_owner_proofs [OF rest] by auto
    then show ?thesis using heartbeat_proof [OF inv rb, of body] by auto
  qed
  moreover have "at_now m \<le> real_now (relay_do st e r) \<and> answered st ol r0 (es @ [e]) m0 m"
    if "(m0, m, n) \<in> set (proofs (ow_splice r))" for m0 m n
    using that inv now answered_snoc unfolding owner_inv_def by (meson le_trans)
  ultimately show ?thesis using inv revalidated_snoc unfolding owner_inv_def rest by blast
qed

lemma turn_sends_text:
  assumes "turn_sends env m l s s'" "(u, TextMessage t) \<in> set (to_socket s')"
  shows "(u, TextMessage t) \<in> set (to_socket s) \<or> issued_by s' (\<lambda>n m. t = owner_proof_text (leases env) (binding l) n (at_wall m))"
proof (cases "(u, TextMessage t) \<in> set (to_socket s)")
  case False
  then obtain m0 n where "proofs s' = proofs s @ [(m0, m, n)]" "t = owner_proof_text (leases env) (binding l) n (at_wall m)"
    using assms unfolding turn_sends_def by auto
  then have "(m0, m, n) \<in> set (proofs s') \<and> t = owner_proof_text (leases env) (binding l) n (at_wall m)" by simp
  then show ?thesis unfolding issued_by_def by blast
qed simp

lemma turn_sends_proofs:
  assumes "turn_sends env m l s s'"
  shows "set (proofs s) \<subseteq> set (proofs s')"
    and "(m0, m', n) \<in> set (proofs s') \<Longrightarrow> (m0, m', n) \<in> set (proofs s) \<or> m' = m \<and> asked s = Some (m0, True)"
  using assms by (auto simp: turn_sends_def)

lemma owner_turn_asks:
  assumes "turn_asks (peer_libs (owner_peer st)) (owner_moment st r) l s s'" "same_terms ol l" "asked s' = Some (m0, True)"
  shows "asked s = Some (m0, True) \<or> m0 = owner_moment st r \<and> owner_vouches st r ol"
  using assms snapshot_holds_same_terms [OF assms(2)] by (auto simp: turn_asks_def owner_vouches_def)

lemma signed_mono:
  assumes "\<forall>body\<in>B. proof_binding body = b \<and> (proof_number body \<noteq> 0 \<longrightarrow> issued_by s (\<lambda>n m. issued_at_unix_ms body = at_wall m))"
    and "set (proofs s) \<subseteq> set (proofs s')"
  shows "\<forall>body\<in>B. proof_binding body = b \<and> (proof_number body \<noteq> 0 \<longrightarrow> issued_by s' (\<lambda>n m. issued_at_unix_ms body = at_wall m))"
proof (intro ballI conjI impI)
  fix body assume body: "body \<in> B"
  then show "proof_binding body = b" using assms(1) by blast
  assume "proof_number body \<noteq> 0"
  then have "issued_by s (\<lambda>n m. issued_at_unix_ms body = at_wall m)" using assms(1) body by blast
  then show "issued_by s' (\<lambda>n m. issued_at_unix_ms body = at_wall m)" using assms(2) by (rule issued_by_mono)
qed

lemma owner_inv_turn:
  assumes inv: "owner_inv st ol r0 es r" and r: "r = relay_run st es r0"
    and s': "ow_splice (relay_do st e r) = splice_do (peer_libs (owner_peer st)) (owner_moment st r) x (ow_splice r)"
    and p': "ow_proofs (relay_do st e r) = ow_proofs r"
  shows "owner_inv st ol r0 (es @ [e]) (relay_do st e r)"
proof -
  let ?m = "owner_moment st r" and ?s = "ow_splice r" and ?s' = "ow_splice (relay_do st e r)"
  have now: "real_now r \<le> real_now (relay_do st e r)" by (simp add: relay_now split: relay_event.split)
  obtain l where l: "splice_lease ?s = Some l" "same_terms ol l" using inv by (auto simp: owner_inv_def)
  have turn: "turn_sends (peer_libs (owner_peer st)) ?m l ?s ?s'" "turn_asks (peer_libs (owner_peer st)) ?m l ?s ?s'"
    unfolding s' using splice_do_turn [OF l(1)] by auto
  note sub = turn_sends_proofs(1) [OF turn(1)]
  have "\<exists>l'. splice_lease ?s' = Some l' \<and> same_terms ol l'"
    unfolding s' using splice_do_leaves [OF l(1), of _ ?m x] same_terms_trans [OF l(2)] by (auto simp: leaves_lease_def splice_keeps_def)
  moreover have "revalidated st ol r0 (es @ [e]) m0" if "asked ?s' = Some (m0, True)" for m0
    using owner_turn_asks [OF turn(2) l(2) that]
  proof
    assume "asked ?s = Some (m0, True)"
    then show ?thesis using inv unfolding owner_inv_def by (intro revalidated_snoc) blast
  next
    assume "m0 = ?m \<and> owner_vouches st r ol"
    then show ?thesis unfolding revalidated_def r by (intro earlier_now) simp
  qed
  moreover have "at_now m \<le> real_now (relay_do st e r) \<and> answered st ol r0 (es @ [e]) m0 m" if m: "(m0, m, n) \<in> set (proofs ?s')" for m0 m n
    using turn_sends_proofs(2) [OF turn(1) m]
  proof
    assume "(m0, m, n) \<in> set (proofs ?s)"
    then show ?thesis using inv now answered_snoc unfolding owner_inv_def by (meson le_trans)
  next
    assume "m = ?m \<and> asked ?s = Some (m0, True)"
    then show ?thesis using now inv r unfolding answered_def owner_inv_def by auto
  qed
  moreover have "issued_by ?s' (\<lambda>n m. t = owner_proof_text (leases (peer_libs (owner_peer st))) (binding ol) n (at_wall m))"
    if "(u, TextMessage t) \<in> set (to_socket ?s')" for u t
    using turn_sends_text [OF turn(1) that]
  proof
    assume "(u, TextMessage t) \<in> set (to_socket ?s)"
    then have "issued_by ?s (\<lambda>n m. t = owner_proof_text (leases (peer_libs (owner_peer st))) (binding ol) n (at_wall m))"
      using inv unfolding owner_inv_def by blast
    then show ?thesis using sub by (rule issued_by_mono)
  qed (use l(2) in \<open>simp add: same_terms_def\<close>)
  moreover have "\<forall>body\<in>set (ow_proofs r). proof_binding body = route_binding st
      \<and> (proof_number body \<noteq> 0 \<longrightarrow> issued_by ?s' (\<lambda>n m. issued_at_unix_ms body = at_wall m))"
    using _ sub by (rule signed_mono) (use inv in \<open>simp add: owner_inv_def\<close>)
  ultimately show ?thesis unfolding owner_inv_def p' by blast
qed

lemma owner_inv_run:
  assumes "r0 = new_relay now gdb odb view gl ol" "reads_back st (binding ol)"
  shows "owner_inv st ol r0 es (relay_run st es r0)"
proof (induction es rule: rev_induct)
  case Nil
  show ?case by (simp add: assms(1) owner_inv_def new_relay_def new_splice_def)
next
  case (snoc e es)
  then show ?case
    using relay_owner_splice [of st e "relay_run st es r0"] owner_inv_rest [OF snoc assms(2), of e] owner_inv_turn [OF snoc refl, of e]
    by (metis relay_run_snoc(1))
qed

text \<open>How long the gateway's lease is kept alive, by its start or by an owner proof.\<close>

definition kept_alive :: "stream \<Rightarrow> lease \<Rightarrow> splice \<Rightarrow> nat \<Rightarrow> nat \<Rightarrow> bool" where
  "kept_alive st gl s x t =
     (x \<le> proof_until (clock gl) \<or> issued_by s (\<lambda>n m. at_now m \<le> t \<and> x \<le> at_now m + 6000 + skew st))"

lemma kept_alive_mono:
  "kept_alive st gl s x t \<Longrightarrow> set (proofs s) \<subseteq> set (proofs s') \<Longrightarrow> x' \<le> x \<Longrightarrow> t \<le> t' \<Longrightarrow> kept_alive st gl s' x' t'"
  using issued_by_mono [of s "\<lambda>n m. at_now m \<le> t \<and> x \<le> at_now m + 6000 + skew st" s'
      "\<lambda>n m. at_now m \<le> t' \<and> x' \<le> at_now m + 6000 + skew st"]
  unfolding kept_alive_def by fastforce

definition client_inv :: "stream \<Rightarrow> lease \<Rightarrow> relay \<Rightarrow> bool" where
  "client_inv st gl r =
     ((\<exists>l. splice_lease (gw_splice r) = Some l \<and> same_terms gl l \<and> kept_alive st gl (ow_splice r) (proof_until (clock l)) (real_now r))
      \<and> (\<forall>t bs. (t, BinaryMessage bs) \<in> set (to_socket (gw_splice r)) \<longrightarrow> kept_alive st gl (ow_splice r) (t + 1) t))"

lemma relay_proofs_mono:
  assumes "owner_inv st ol r0 es r"
  shows "set (proofs (ow_splice r)) \<subseteq> set (proofs (ow_splice (relay_do st e r)))"
proof (cases rule: relay_owner_splice [of st e r])
  case (2 x)
  obtain l where "splice_lease (ow_splice r) = Some l" using assms by (auto simp: owner_inv_def)
  then show ?thesis unfolding 2 using splice_do_turn turn_sends_proofs(1) by blast
qed simp

lemma owner_proof_extends:
  assumes inv: "owner_inv st ol r0 es r" and "unforged st Sg So (GatewayTurn (GatewayGets (TextMessage t))) r"
    and v: "verify_proof (stream_crypto st) (stream_wire st) (peer_auth (gateway_peer st)) (real_now r + wall_ahead (gateway_peer st)) t
      (relay_owner st) (route_binding st) (relay_key st) = Some (p, s)"
    and "proof_number p \<noteq> 0" "sound_libraries st" "other_texts st So" "relay_key st \<noteq> None"
  shows "kept_alive st gl (ow_splice r) (real_now r + WATCH) (real_now r)"
proof -
  have c: "carries_only st (relay_key st) (So \<union> node_text st (owner_peer st) ` set (ow_proofs r)) t"
    using assms(2) by (simp add: unforged_def)
  have "proof_binding q = route_binding st" if "q \<in> set (ow_proofs r)" for q
    using that inv unfolding owner_inv_def by blast
  then have "p \<in> set (ow_proofs r)" by (rule verified_signed [OF v assms(7) c assms(6,5) plain_names(1,2,4) [OF assms(5)]])
  then obtain m0 m n where m: "(m0, m, n) \<in> set (proofs (ow_splice r))" "issued_at_unix_ms p = at_wall m"
    using inv assms(4) unfolding owner_inv_def issued_by_def by blast
  then have "at_now m \<le> real_now r" "answered st ol r0 es m0 m" using inv unfolding owner_inv_def by blast+
  then have now: "at_now m \<le> real_now r" "at_wall m = at_now m + wall_ahead (owner_peer st)" by (auto simp: answered_def)
  have "abs_diff (real_now r + wall_ahead (gateway_peer st)) (at_now m + wall_ahead (owner_peer st)) \<le> 1000"
    using v assms(7) verify_proof_Some(2) m(2) now(2) by fastforce
  then have "real_now r + WATCH \<le> at_now m + 6000 + skew st"
    using abs_diff_skew(2) [of "real_now r"] by (fastforce simp: skew_def WATCH_def)
  then show ?thesis using m(1) now(1) unfolding kept_alive_def issued_by_def by blast
qed

lemma gateway_splice_sends:
  assumes "turn_sends env m l s s'" "(t, BinaryMessage bs) \<in> set (to_socket s')"
  shows "(t, BinaryMessage bs) \<in> set (to_socket s) \<or> t = at_now m \<and> t < proof_until (clock l)"
  using assms by (auto simp: turn_sends_def expired_code_None)

lemma client_lease_step:
  assumes own: "owner_inv st ol r0 es r" and un: "unforged st Sg So e r"
    and libs: "sound_libraries st" "other_texts st So" "relay_key st \<noteq> None"
    and l: "splice_lease (gw_splice r) = Some l" "kept_alive st gl (ow_splice r) (proof_until (clock l)) (real_now r)"
    and terms: "binding l = route_binding st" "\<not> owner_side l" "bind_gateway (binding l) \<noteq> bind_owner (binding l)"
  shows "\<exists>l'. splice_lease (gw_splice (relay_do st e r)) = Some l' \<and> same_terms l l'
    \<and> kept_alive st gl (ow_splice r) (proof_until (clock l')) (real_now r)"
proof (cases rule: relay_gateway_splice [of st e r])
  case (2 x)
  then show ?thesis
    using splice_do_leaves [OF l(1), of "peer_libs (gateway_peer st)" "gateway_moment st r" x] terms l(2)
    by (auto simp: leaves_lease_def splice_keeps_def)
next
  case (3 y)
  obtain l' where k: "gw_splice (gateway_turn_do st y r) = (gw_splice r)\<lparr>splice_lease := Some l'\<rparr>" "gateway_keeps st y r l l'"
    using gateway_turn_keeps [OF l(1)] by blast
  then have "kept_alive st gl (ow_splice r) (proof_until (clock l')) (real_now r)"
    using l(2) owner_proof_extends [OF own _ _ _ libs] un 3(1) unfolding gateway_keeps_def terms(1) by metis
  then show ?thesis using k 3(2) by (simp add: gateway_keeps_def)
qed (use l in simp)

lemma client_sends_step:
  assumes l: "splice_lease (gw_splice r) = Some l" and t: "(t, BinaryMessage bs) \<in> set (to_socket (gw_splice (relay_do st e r)))"
  shows "(t, BinaryMessage bs) \<in> set (to_socket (gw_splice r)) \<or> t = real_now r \<and> t < proof_until (clock l)"
proof (cases rule: relay_gateway_splice [of st e r])
  case (2 x)
  then show ?thesis using splice_do_turn [OF l] gateway_splice_sends t by (metis gateway_moment_simps(1))
next
  case (3 y)
  obtain l' where "gw_splice (gateway_turn_do st y r) = (gw_splice r)\<lparr>splice_lease := Some l'\<rparr>"
    using gateway_turn_keeps [OF l] by blast
  then show ?thesis using t unfolding 3(2) by simp
qed (use t in simp)

lemma client_inv_step:
  assumes inv: "client_inv st gl r" and own: "owner_inv st ol r0 es r" and un: "unforged st Sg So e r"
    and libs: "sound_libraries st" "other_texts st So" "relay_key st \<noteq> None"
    and gl: "binding gl = route_binding st" "\<not> owner_side gl" "bind_gateway (binding gl) \<noteq> bind_owner (binding gl)"
  shows "client_inv st gl (relay_do st e r)"
proof -
  let ?r = "relay_do st e r"
  note sub = relay_proofs_mono [OF own, of e]
  have now: "real_now r \<le> real_now ?r" by (simp add: relay_now split: relay_event.split)
  obtain l where l: "splice_lease (gw_splice r) = Some l" "same_terms gl l"
      "kept_alive st gl (ow_splice r) (proof_until (clock l)) (real_now r)"
    using inv by (auto simp: client_inv_def)
  have terms: "binding l = route_binding st" "\<not> owner_side l" "bind_gateway (binding l) \<noteq> bind_owner (binding l)"
    using gl l(2) by (simp_all add: same_terms_def)
  obtain l' where l': "splice_lease (gw_splice ?r) = Some l'" "same_terms l l'"
      "kept_alive st gl (ow_splice r) (proof_until (clock l')) (real_now r)"
    using client_lease_step [OF own un libs l(1,3) terms] by blast
  have "kept_alive st gl (ow_splice ?r) (proof_until (clock l')) (real_now ?r)"
    using l'(3) sub le_refl now by (rule kept_alive_mono)
  moreover have "kept_alive st gl (ow_splice ?r) (t + 1) t" if t: "(t, BinaryMessage bs) \<in> set (to_socket (gw_splice ?r))" for t bs
  proof -
    have "kept_alive st gl (ow_splice r) (t + 1) t"
      using client_sends_step [OF l(1) t] l(3) inv kept_alive_mono [OF l(3) subset_refl, of "t + 1" t] unfolding client_inv_def by auto
    then show ?thesis using sub by (rule kept_alive_mono) simp_all
  qed
  ultimately show ?thesis unfolding client_inv_def using l'(1) same_terms_trans [OF l(2) l'(2)] by blast
qed

lemma client_inv_run:
  assumes "honest st Sg So es r0" "r0 = new_relay now gdb odb view gl ol" "reads_back st (binding ol)"
    and "sound_libraries st" "other_texts st So" "relay_key st \<noteq> None"
    and "binding gl = route_binding st" "\<not> owner_side gl" "bind_gateway (binding gl) \<noteq> bind_owner (binding gl)"
  shows "client_inv st gl (relay_run st es r0)"
  using assms(1)
proof (induction es rule: rev_induct)
  case Nil
  show ?case by (simp add: assms(2) client_inv_def new_relay_def new_splice_def kept_alive_def)
next
  case (snoc e es)
  then show ?case using client_inv_step [OF _ owner_inv_run [OF assms(2,3)] _ assms(4-9), of es Sg e] by simp
qed

subsection \<open>Lemmas: what reaches the terminal of the owner\<close>

lemma owner_gate_follows:
  "gate_follows (from_u8 (peer_libs (owner_peer st))) (Some PeekMode)
    (ow_splice (relay_run st es (new_relay now gdb odb view gl ol)))"
proof (induction es rule: rev_induct)
  case Nil
  show ?case by (simp add: new_relay_def gate_follows_new)
next
  case (snoc e es)
  then show ?case
    by (cases rule: relay_owner_splice [of st e "relay_run st es (new_relay now gdb odb view gl ol)"]) (simp_all add: splice_do_follows)
qed

subsection \<open>Lemmas: a proof that arrives in time\<close>

definition header_names_known :: "wire \<Rightarrow> bool" where
  "header_names_known w =
     (\<forall>n\<in>{HEADER_BODY, HEADER_FLEET, HEADER_MEMBER_KEY, HEADER_MEMBER_SIGNATURE, HEADER_NODE, HEADER_SIGNATURE}. header_name w n = Some n)"

lemma header_of_values:
  "header_of fleet node digest sg request mem HEADER_BODY = [digest]" "header_of fleet node digest sg request mem HEADER_FLEET = [fleet]"
  "header_of fleet node digest sg request mem HEADER_NODE = [node]" "header_of fleet node digest sg request mem HEADER_SIGNATURE = [sg]"
  "header_of fleet node digest sg request mem HEADER_REQUEST = (case request of Some r \<Rightarrow> [r] | None \<Rightarrow> [])"
  "header_of fleet node digest sg request mem HEADER_MEMBER_KEY = (case mem of Some (k, _) \<Rightarrow> [k] | None \<Rightarrow> [])"
  "header_of fleet node digest sg request mem HEADER_MEMBER_SIGNATURE = (case mem of Some (_, x) \<Rightarrow> [x] | None \<Rightarrow> [])"
  by (simp_all add: header_of_def header_defs)

lemma header_map_eqI:
  assumes "list_all (\<lambda>n. h n = h' n)
      [HEADER_BODY, HEADER_FLEET, HEADER_MEMBER_KEY, HEADER_MEMBER_SIGNATURE, HEADER_NODE, HEADER_REQUEST, HEADER_SIGNATURE]"
    and "\<And>n. n \<notin> {HEADER_BODY, HEADER_FLEET, HEADER_MEMBER_KEY, HEADER_MEMBER_SIGNATURE, HEADER_NODE, HEADER_REQUEST, HEADER_SIGNATURE}
      \<Longrightarrow> h n = h' n"
  shows "h = h'"
proof
  fix n
  show "h n = h' n" using assms(1) assms(2) [of n] by auto
qed

lemma collect_header_pairs:
  assumes "header_names_known w"
    and "list_all (header_text cr) ([fleet, node, digest, sg] @ (case mem of Some (k, x) \<Rightarrow> [k, x] | None \<Rightarrow> []))"
  shows "collect_headers cr w (header_pairs (header_of fleet node digest sg None mem)) = Inr (header_of fleet node digest sg None mem)"
proof -
  let ?h = "header_of fleet node digest sg None mem"
  show ?thesis
  proof (cases mem)
    case None
    have "collect_headers cr w (header_pairs ?h)
        = Inr ((\<lambda>_. [])(HEADER_BODY := [digest], HEADER_FLEET := [fleet], HEADER_NODE := [node], HEADER_SIGNATURE := [sg]))"
      using assms None by (simp add: collect_headers_def header_pairs_def header_of_values header_names_known_def insert_header_def)
    moreover have "(\<lambda>_. [])(HEADER_BODY := [digest], HEADER_FLEET := [fleet], HEADER_NODE := [node], HEADER_SIGNATURE := [sg]) = ?h"
    proof (rule header_map_eqI, goal_cases)
      case 1
      show ?case using None by (simp add: header_of_values) (simp add: header_defs)
    qed (use None in \<open>simp add: header_of_def\<close>)
    ultimately show ?thesis by simp
  next
    case (Some kx)
    obtain k x where kx: "kx = (k, x)" by force
    have "collect_headers cr w (header_pairs ?h)
        = Inr ((\<lambda>_. [])(HEADER_BODY := [digest], HEADER_FLEET := [fleet], HEADER_MEMBER_KEY := [k], HEADER_MEMBER_SIGNATURE := [x],
            HEADER_NODE := [node], HEADER_SIGNATURE := [sg]))"
      using assms Some kx by (simp add: collect_headers_def header_pairs_def header_of_values header_names_known_def insert_header_def)
    moreover have "(\<lambda>_. [])(HEADER_BODY := [digest], HEADER_FLEET := [fleet], HEADER_MEMBER_KEY := [k], HEADER_MEMBER_SIGNATURE := [x],
            HEADER_NODE := [node], HEADER_SIGNATURE := [sg]) = ?h"
    proof (rule header_map_eqI, goal_cases)
      case 1
      show ?case using Some kx by (simp add: header_of_values) (simp add: header_defs)
    qed (use Some kx in \<open>simp add: header_of_def\<close>)
    ultimately show ?thesis by simp
  qed
qed

lemma verify_sender_cong:
  assumes "fleet_id a = fleet_id a'" "secret a = secret a'"
  shows "verify_sender cr a h m p b e rd = verify_sender cr a' h m p b e rd"
  unfolding verify_sender_def assms by (rule refl)

text \<open>Laws of the signature scheme and of the texts.\<close>

definition faithful_libraries :: "auth_crypto \<Rightarrow> wire \<Rightarrow> bool" where
  "faithful_libraries cr w =
     ((\<forall>b. hex_decode cr (hex_encode cr b) = Some b) \<and> (\<forall>k m. verify_member cr k m (sign_with cr k m)) \<and> header_names_known w)"

lemma signed_proof_verifies:
  assumes laws: "faithful_libraries cr w"
    and h: "request_headers_method cr a ''WATCH'' WATCH_PATH node (body_text w body) = Inr h" "read_proof w t = Some (body, header_pairs h)"
    and a': "fleet_id a' = fleet_id a" "secret a' = secret a"
    and body: "length t \<le> 16384" "proof_binding body = b" "watcher_epoch body \<noteq> []" "abs_diff wall (issued_at_unix_ms body) \<le> 1000"
  shows "verify_proof cr w a' wall t node b (member a)
    = Some (body, \<lparr>sender_name = node, sender_key = member a, member_signature_valid = (member a \<noteq> None)\<rparr>)"
proof -
  let ?d = "sha256_hex cr (body_text w body)" and ?c = "canonical (fleet_id a) ''WATCH'' WATCH_PATH node (sha256_hex cr (body_text w body)) None"
  have s: "and_then (signed_headers cr (fleet_id a) node ?d (mac_signature cr a ?c) None) (add_member_signature cr a ?c) = Inr h"
    using h(1) by (simp add: request_headers_method_def Let_def)
  have "collect_headers cr w (header_pairs h) = Inr h"
    unfolding signed_headers_member(1) [OF s]
    using laws signed_headers_member(2) [OF s]
    by (intro collect_header_pairs) (auto simp: faithful_libraries_def split: option.splits)
  moreover have "verify_sender cr a' h ''WATCH'' WATCH_PATH (body_text w body) (Some node) None
      = Inr \<lparr>sender_name = node, sender_key = member a, member_signature_valid = (member a \<noteq> None)\<rparr>"
    using verify_signed [OF _ _ refl s] laws verify_sender_cong [OF a'] by (simp add: faithful_libraries_def)
  ultimately show ?thesis using h(2) body by (cases "member a") (simp_all add: verify_proof_def)
qed

subsection \<open>An example: two nodes\<close>

definition example_route :: raw_lease_binding where
  "example_route = example_binding\<lparr>bind_gateway := ''host/g'', gateway_member_key := Some ''k'', owner_member_key := Some ''q''\<rparr>"

text \<open>Texts for the values the example writes.\<close>

definition example_json :: "json \<Rightarrow> string" where
  "example_json v =
     (case v of
        JObject ((_, JPosInt i) # _ # (_, JPosInt n) # _) \<Rightarrow> ''p'' @ replicate n CHR ''a'' @ replicate i CHR ''c''
      | JObject ((_, JString _) # (_, JPosInt n) # _) \<Rightarrow> ''a'' @ replicate n CHR ''a''
      | _ \<Rightarrow> ''j'')"

definition example_parse :: "string \<Rightarrow> json option" where
  "example_parse t =
     (case t of
        c # cs \<Rightarrow> if c = CHR ''p'' then Some (owner_proof_json example_route (length (filter ((=) CHR ''a'') cs)) (length (filter ((=) CHR ''c'') cs)))
                  else Some JNull
      | [] \<Rightarrow> None)"

definition example_control :: "string \<Rightarrow> control option" where
  "example_control t = (case t of c # cs \<Rightarrow> if c = CHR ''a'' then Some (AuthorityProof ''x'' ''e'' (length cs)) else None | [] \<Rightarrow> None)"

definition example_body_text :: "proof_body \<Rightarrow> string" where
  "example_body_text b =
     join_text [newline] [example_digest (watcher_epoch b), example_digest (proof_challenge b), replicate (proof_number b) CHR ''a'',
       replicate (issued_at_unix_ms b) CHR ''a'']"

definition example_bridge_env :: lease_env where
  "example_bridge_env = example_lease_env\<lparr>json_text := example_json\<rparr>"

definition example_libs :: splice_env where
  "example_libs = \<lparr>leases = example_bridge_env, from_u8 = (\<lambda>_. MsgOther), read_control = example_control\<rparr>"

definition example_peer :: "string \<Rightarrow> string \<Rightarrow> peer_node" where
  "example_peer name key =
     \<lparr>peer_name = name, peer_auth = \<lparr>fleet_id = ''f'', secret = ''s'', member = Some key\<rparr>, peer_libs = example_libs, wall_ahead = 0\<rparr>"

definition example_proof :: "string \<Rightarrow> nat \<Rightarrow> proof_body" where
  "example_proof ep n =
     \<lparr>proof_binding = example_route, watcher_epoch = ep, proof_number = n, issued_at_unix_ms = 0, proof_challenge = ''w''\<rparr>"

definition example_watch :: "(string \<Rightarrow> string \<Rightarrow> bool) \<Rightarrow> string \<Rightarrow> string \<Rightarrow> proof_body \<Rightarrow> (string \<times> string) list" where
  "example_watch v name key body =
     (case request_headers_method (example_signing v) (peer_auth (example_peer name key)) ''WATCH'' WATCH_PATH name (example_body_text body) of
        Inr h \<Rightarrow> header_pairs h | Inl _ \<Rightarrow> [])"

abbreviation example_valid :: "string \<Rightarrow> string \<Rightarrow> bool" where
  "example_valid m sg \<equiv> sg = example_digest m"

text \<open>The proofs of the two nodes, by the names \<open>w0\<close>, \<open>w1\<close> and \<open>e1\<close>.\<close>

definition example_read :: "string \<Rightarrow> (proof_body \<times> (string \<times> string) list) option" where
  "example_read t =
     (if t = ''w0'' then Some (example_proof ''w'' 0, example_watch example_valid ''n'' ''q'' (example_proof ''w'' 0))
      else if t = ''w1'' then Some (example_proof ''w'' 1, example_watch example_valid ''n'' ''q'' (example_proof ''w'' 1))
      else if t = ''e1'' then Some (example_proof ''e'' 1, example_watch example_valid ''g'' ''k'' (example_proof ''e'' 1))
      else None)"

definition example_wire :: wire where
  "example_wire =
     \<lparr>body_text = example_body_text,
      proof_text = (\<lambda>(b, _). watcher_epoch b @ (if proof_number b = 0 then ''0'' else ''1'')),
      read_proof = example_read, parse_json = example_parse, header_name = Some\<rparr>"

definition example_stream :: stream where
  "example_stream =
     \<lparr>stream_crypto = example_signing example_valid, stream_wire = example_wire, gateway_peer = example_peer ''g'' ''k'', relay_links = True,
      relay_peers = [''n''], relay_legacy = True, relay_owner = ''n'', relay_key = Some ''q'', owner_peer = example_peer ''n'' ''q'',
      config_peers = [''g''], context_legacy = True, bootstrap_keys = [], route_binding = example_route, route_key = Some ''k'',
      owner_epoch = ''w''\<rparr>"

definition example_authority :: "string \<Rightarrow> string \<Rightarrow> string \<Rightarrow> membership_authority" where
  "example_authority name key peer = \<lparr>auth_node = name, local_key = Some key, auth_peers = [peer], auth_legacy = True\<rparr>"

text \<open>The gateway's lease is about to end.\<close>

definition example_gateway_lease :: lease where
  "example_gateway_lease =
     (let l = new_lease example_route False ''j'' ''j''
        (example_authority ''g'' ''k'' ''n'') 0 0
      in l\<lparr>clock := (clock l)\<lparr>proof_until := 1\<rparr>\<rparr>)"

definition example_owner_lease :: lease where
  "example_owner_lease =
     new_lease example_route True ''j'' ''j'' (example_authority ''n'' ''q'' ''g'') 0 0"

definition example_relay :: relay where
  "example_relay =
     new_relay 0 (example_leases (Some example_runtime)) (example_leases (Some example_runtime))
       \<lparr>view_anchor = None, view_members = [], legacy_removed = []\<rparr> example_gateway_lease example_owner_lease"

definition example_opening :: "relay_event list" where
  "example_opening = [OwnerTurn OwnerStarts, GatewayTurn (GatewayGets (TextMessage ''w0'')), GatewayTurn GatewayBeat]"

definition example_heartbeat :: "relay_event list" where
  "example_heartbeat =
     [OwnerReceives None, TerminalSays [7], OwnerTurn OwnerTakes, OwnerSplice (HeartbeatAsks None), OwnerSplice (HeartbeatAnswers None),
      OwnerTurn OwnerTakes]"

definition example_events :: "relay_event list" where
  "example_events = example_opening @ OwnerTurn (OwnerGets (TextMessage ''e1'')) # example_heartbeat"

definition example_ending :: "relay_event list" where
  "example_ending = [Passes 1, GatewayTurn (GatewayGets (BinaryMessage [7])), GatewayReads 1]"

lemma example_header_text [simp]: "header_text (example_signing v) = plain" "sha256_hex (example_signing v) = example_digest"
  "hmac_sha256 (example_signing v) = (\<lambda>_. example_digest)" "hex_encode (example_signing v) = id" "hex_decode (example_signing v) = Some"
  "sign_with (example_signing v) = (\<lambda>_. example_digest)" "verify_member (example_signing v) = (\<lambda>_. v)"
  by (simp_all add: example_signing_def)

lemma example_faithful: "faithful_libraries (example_signing example_valid) example_wire"
  by (simp add: faithful_libraries_def header_names_known_def example_wire_def)

text \<open>The headers of a proof, and that they can be made.\<close>

definition example_watch_headers :: "string \<Rightarrow> string \<Rightarrow> proof_body \<Rightarrow> header_map" where
  "example_watch_headers name key body =
     (let d = example_digest (example_body_text body); c = canonical ''f'' ''WATCH'' WATCH_PATH name d None
      in header_of ''f'' name d (example_digest c) None (Some (key, example_digest (member_message c))))"

lemma example_request_headers:
  assumes "plain name" "plain key"
  shows "request_headers_method (example_signing v) (peer_auth (example_peer name key)) ''WATCH'' WATCH_PATH name (example_body_text body)
    = Inr (example_watch_headers name key body)"
proof -
  let ?a = "peer_auth (example_peer name key)"
  obtain h where h: "request_headers_method (example_signing v) ?a ''WATCH'' WATCH_PATH name (example_body_text body) = Inr h"
    using assms by (simp add: request_headers_method_def Let_def and_then_Inr signed_headers_def add_member_signature_def mac_signature_def
        example_peer_def example_digest_plain)
  then show ?thesis
    using signed_headers_member(1) [of "example_signing v" _ _ _ _ None ?a _ h]
    by (simp add: request_headers_method_def Let_def example_watch_headers_def mac_signature_def example_peer_def)
qed

lemma example_names_plain [simp]: "plain ''g''" "plain ''q''"
  by (simp_all add: plain_def)

lemma example_pairs: "plain name \<Longrightarrow> plain key \<Longrightarrow> example_watch v name key body = header_pairs (example_watch_headers name key body)"
  by (simp add: example_watch_def example_request_headers)

lemma example_signs:
  assumes "plain name" "plain key"
  shows "sign_proof (example_signing v) example_wire (peer_auth (example_peer name key)) name body
    = Some (watcher_epoch body @ (if proof_number body = 0 then ''0'' else ''1''))"
  using example_request_headers [OF assms, of v body] by (simp add: sign_proof_def example_wire_def)

lemma example_verifies_watch:
  assumes "example_read t = Some (body, example_watch example_valid name key body)" "plain name" "plain key" "length t \<le> 16384"
    and "proof_binding body = example_route" "watcher_epoch body \<noteq> []" "issued_at_unix_ms body = 0"
  shows "verify_proof (example_signing example_valid) example_wire (peer_auth (example_peer name' key')) 0 t name example_route (Some key)
    = Some (body, \<lparr>sender_name = name, sender_key = Some key, member_signature_valid = True\<rparr>)"
proof -
  have m: "member (peer_auth (example_peer name key)) = Some key" by (simp add: example_peer_def)
  show ?thesis
    using signed_proof_verifies [OF example_faithful, of "peer_auth (example_peer name key)" name body "example_watch_headers name key body" t
        "peer_auth (example_peer name' key')" example_route 0] assms example_request_headers [OF assms(2,3), of example_valid body] m
    by (simp add: example_wire_def example_pairs example_peer_def abs_diff_def)
qed

lemma example_texts:
  "verify_proof (example_signing example_valid) example_wire (peer_auth (example_peer name key)) 0 ''w0'' ''n'' example_route (Some ''q'')
    = Some (example_proof ''w'' 0, \<lparr>sender_name = ''n'', sender_key = Some ''q'', member_signature_valid = True\<rparr>)"
  "verify_proof (example_signing example_valid) example_wire (peer_auth (example_peer name key)) 0 ''w1'' ''n'' example_route (Some ''q'')
    = Some (example_proof ''w'' 1, \<lparr>sender_name = ''n'', sender_key = Some ''q'', member_signature_valid = True\<rparr>)"
  "verify_proof (example_signing example_valid) example_wire (peer_auth (example_peer name key)) 0 ''e1'' ''g'' example_route (Some ''k'')
    = Some (example_proof ''e'' 1, \<lparr>sender_name = ''g'', sender_key = Some ''k'', member_signature_valid = True\<rparr>)"
  by (rule example_verifies_watch; simp add: example_read_def example_proof_def)+

lemma example_nodes [simp]: "trim_host ''host/g'' = ''g''"
  by code_simp

lemma example_route_snapshot:
  "snapshot example_bridge_env (example_leases (Some example_runtime)) wall example_route False ''j'' (example_authority ''g'' ''k'' ''n'') = Inr ''j''"
  "snapshot example_bridge_env (example_leases (Some example_runtime)) wall example_route True ''j'' (example_authority ''n'' ''q'' ''g'') = Inr ''j''"
  by (simp_all add: snapshot_def validate_membership_def validate_host_def check_runtime_def authority_def example_lease_defs
      text_at_def Let_def ensure_def example_route_def example_bridge_env_def example_authority_def example_json_def accept_def current_def
      ended_keys_def principal_epoch_def)

lemma example_accepts:
  "accept_raw_watcher example_stream (Some (example_leases rt)) \<lparr>sender_name = ''n'', sender_key = Some k, member_signature_valid = b\<rparr>"
  "context_accepts example_stream \<lparr>view_anchor = None, view_members = [], legacy_removed = []\<rparr>
     \<lparr>sender_name = ''g'', sender_key = Some k, member_signature_valid = b\<rparr>"
  by (simp_all add: accept_raw_watcher_def context_accepts_def example_stream_def example_leases_def fleet_membership_tx_def view_of_nobody
      accept_def current_def ended_keys_def Let_def)

lemma example_peer_simps [simp]:
  "peer_name (example_peer name key) = name" "peer_libs (example_peer name key) = example_libs" "wall_ahead (example_peer name key) = 0"
  by (simp_all add: example_peer_def)

lemma example_stream_simps [simp]:
  "stream_crypto example_stream = example_signing example_valid" "stream_wire example_stream = example_wire"
  "gateway_peer example_stream = example_peer ''g'' ''k''" "owner_peer example_stream = example_peer ''n'' ''q''"
  "relay_owner example_stream = ''n''" "relay_key example_stream = Some ''q''" "route_binding example_stream = example_route"
  "route_key example_stream = Some ''k''" "owner_epoch example_stream = ''w''"
  by (simp_all add: example_stream_def)

lemma example_libs_simps [simp]:
  "leases example_libs = example_bridge_env" "read_control example_libs = example_control" "parse_json example_wire = example_parse"
  "json_text example_bridge_env = example_json"
  by (simp_all add: example_libs_def example_wire_def example_bridge_env_def)

lemma example_route_simps [simp]:
  "gateway_epoch example_route = ''e''" "bind_lease_id example_route = ''x''" "bind_gateway example_route = ''host/g''"
  "bind_owner example_route = ''host/n''" "absolute_deadline_unix_ms example_route = 300000"
  by (simp_all add: example_route_def example_binding_def)

lemmas example_turn_defs = relay_run_def relay_do_def gateway_defs owner_defs splice_do_defs gateway_moment_def owner_moment_def
  new_relay_def new_splice_def new_gateway_bridge_def new_owner_bridge_def new_gate_def example_relay_def example_opening_def

lemma example_challenge_signed: "ow_proofs (relay_run example_stream [OwnerTurn OwnerStarts] example_relay) = [example_proof ''w'' 0]"
  by (simp add: example_turn_defs example_signs example_proof_def)

lemmas example_lease_do_defs = lease_do_def revalidate_def check_def proof_op_def and_also_def unless_cancelled_def expire_def expired_code_def
  snapshot_holds_def example_gateway_lease_def example_owner_lease_def new_lease_def IDLE_def ABSOLUTE_def WATCH_def
  example_route_snapshot

lemmas example_splice_defs = splice_do_def splice_message_def splice_text_def splice_binary_def with_lease_def lease_query_def splice_read_def
  may_read_def has_proof_def send_socket_def heartbeat_asks_def heartbeat_answers_def send_owner_proof_def own_turn_def
  authority_proof_text_def owner_proof_json_def example_json_def example_parse_def example_control_def CHUNK_def WATCH_DEADLINE_def text_at_def
  abs_diff_def end_splice_def

lemmas example_run_defs = example_turn_defs example_signs example_proof_def example_texts example_accepts example_lease_do_defs

lemma example_proof_signed: "map snd (gw_proofs (relay_run example_stream example_opening example_relay)) = [example_proof ''e'' 1]"
  by (simp add: example_run_defs)

lemma example_run_forwards:
  "(0, BinaryMessage [7]) \<in> set (ob_sent (ow_bridge (relay_run example_stream
     (example_opening @ OwnerTurn (OwnerGets (TextMessage ''e1'')) # example_heartbeat) example_relay)))"
  by (simp add: example_run_defs example_splice_defs example_heartbeat_def)

lemma example_run_proofs:
  "set (ow_proofs (relay_run example_stream (example_opening @ OwnerTurn (OwnerGets (TextMessage ''e1'')) # example_heartbeat) example_relay))
   = {example_proof ''w'' 0, example_proof ''w'' 1}"
  by (simp add: example_run_defs example_splice_defs example_heartbeat_def)

lemma example_run_shows:
  "(1, BinaryMessage [7]) \<in> set (to_socket (gw_splice (relay_run example_stream
     ((example_opening @ OwnerTurn (OwnerGets (TextMessage ''e1'')) # example_heartbeat)
      @ GatewayTurn (GatewayGets (TextMessage ''w1'')) # example_ending) example_relay)))"
  by (simp add: example_run_defs example_splice_defs example_heartbeat_def example_ending_def)

lemma example_reads_back: "reads_back example_stream example_route"
  by (simp add: reads_back_def example_parse_def example_json_def owner_proof_json_def)

lemma example_body_text_inject:
  assumes "example_body_text x = example_body_text y" "proof_binding x = example_route" "proof_binding y = example_route"
  shows "x = y"
proof -
  let ?parts = "\<lambda>b :: proof_body. [example_digest (watcher_epoch b), example_digest (proof_challenge b), replicate (proof_number b) CHR ''a'',
       replicate (issued_at_unix_ms b) CHR ''a'']"
  have "split_on newline (example_body_text b) = ?parts b" for b
    using example_digest_plain unfolding example_body_text_def by (intro split_on_join) (auto simp: plain_def)
  then have "?parts x = ?parts y" using assms(1) by metis
  then have "watcher_epoch x = watcher_epoch y" "proof_challenge x = proof_challenge y" "proof_number x = proof_number y"
      "issued_at_unix_ms x = issued_at_unix_ms y"
    by (auto dest: example_digest_inject)
  then show ?thesis using assms(2,3) by simp
qed

lemma example_sound: "sound_libraries example_stream"
proof -
  have "inj_on example_body_text {b. proof_binding b = example_route}" using example_body_text_inject by (auto intro: inj_onI)
  moreover have "inj example_digest" using example_digest_inject by (auto intro: injI)
  moreover have "fleet_id (peer_auth (example_peer name key)) = ''f''" for name key by (simp add: example_peer_def)
  ultimately show ?thesis by (simp add: sound_libraries_def example_wire_def example_digest_plain)
qed

lemma example_digest_member: "\<exists>x. example_digest (member_message c) = ''st3-member-v1an'' @ x"
  by (simp add: member_message_def MEMBER_SIGNATURE_DOMAIN_def example_digest.simps)

lemma example_carries:
  assumes "example_read t = Some (body, example_watch example_valid name key body)" "plain name" "plain key" "length name = 1" "length key = 1"
    and "hd (example_body_text body) \<noteq> CHR ''s''" "node_text example_stream (example_peer name key) body \<in> S"
  shows "carries_only example_stream k S t"
  unfolding carries_only_def
proof (intro allI impI)
  fix k' body' ps v c
  let ?c = "node_text example_stream (example_peer name key) body"
  assume a: "read_proof (stream_wire example_stream) t = Some (body', ps)" "v \<in> snd ` set ps"
    "verify_member (stream_crypto example_stream) k' (member_message c) v"
  have "ps = header_pairs (example_watch_headers name key body)"
    using a(1) assms(1-3) by (auto simp: example_wire_def example_pairs)
  then have "v \<in> {example_digest (example_body_text body), ''f'', key, example_digest (member_message ?c), name, example_digest ?c}"
    using a(2) by (auto simp: header_pairs_def example_watch_headers_def Let_def header_of_values node_text_def watch_text_def
        example_wire_def example_peer_def)
  moreover have v: "v = example_digest (member_message c)" using a(3) by simp
  then have "15 \<le> length v" using example_digest_member [of c] by auto
  moreover have "example_digest (example_body_text body) \<noteq> v"
    using assms(6) v by (auto dest!: example_digest_inject simp: member_message_def MEMBER_SIGNATURE_DOMAIN_def)
  moreover have "example_digest ?c \<noteq> v"
    using v by (auto dest!: example_digest_inject simp: member_message_def MEMBER_SIGNATURE_DOMAIN_def node_text_def watch_text_def canonical_def
        PROTOCOL_def)
  ultimately have "example_digest (member_message ?c) = example_digest (member_message c)" using assms(4,5) v by auto
  then have "?c = c" by (auto dest: example_digest_inject simp: member_message_def)
  then show "c \<in> S" using assms(7) by simp
qed

lemma honest_append: "honest st Sg So (xs @ ys) r \<longleftrightarrow> honest st Sg So xs r \<and> honest st Sg So ys (relay_run st xs r)"
  by (induction xs arbitrary: r) (simp_all add: relay_run_def)

lemma example_body_start: "hd (example_body_text (example_proof ''w'' n)) \<noteq> CHR ''s''" "hd (example_body_text (example_proof ''e'' n)) \<noteq> CHR ''s''"
  by (simp_all add: example_body_text_def example_proof_def example_digest.simps)

lemma example_unforged:
  "example_proof ''w'' 0 \<in> set (ow_proofs r) \<Longrightarrow> unforged example_stream Sg So (GatewayTurn (GatewayGets (TextMessage ''w0''))) r"
  "example_proof ''w'' 1 \<in> set (ow_proofs r) \<Longrightarrow> unforged example_stream Sg So (GatewayTurn (GatewayGets (TextMessage ''w1''))) r"
  "example_proof ''e'' 1 \<in> snd ` set (gw_proofs r) \<Longrightarrow> unforged example_stream Sg So (OwnerTurn (OwnerGets (TextMessage ''e1''))) r"
  using example_carries [of "''w0''" "example_proof ''w'' 0" "''n''" "''q''"] example_carries [of "''w1''" "example_proof ''w'' 1" "''n''" "''q''"]
    example_carries [of "''e1''" "example_proof ''e'' 1" "''g''" "''k''"]
  by (simp_all add: unforged_def example_read_def example_body_start)

lemma example_honest: "honest example_stream Sg So example_events example_relay"
proof -
  let ?r = "relay_run example_stream [OwnerTurn OwnerStarts] example_relay"
  have "unforged example_stream Sg So (GatewayTurn (GatewayGets (TextMessage ''w0''))) ?r"
    by (rule example_unforged(1)) (simp add: example_challenge_signed)
  then have "honest example_stream Sg So example_opening example_relay"
    by (simp add: example_opening_def unforged_def relay_run_def)
  moreover have "example_proof ''e'' 1 \<in> snd ` set (gw_proofs (relay_run example_stream example_opening example_relay))"
    using example_proof_signed by (metis list.set_intros(1) list.set_map)
  then have "unforged example_stream Sg So (OwnerTurn (OwnerGets (TextMessage ''e1''))) (relay_run example_stream example_opening example_relay)"
    by (rule example_unforged(3))
  moreover have "honest example_stream Sg So example_heartbeat r" for r by (simp add: example_heartbeat_def unforged_def)
  ultimately show ?thesis by (simp add: example_events_def honest_append)
qed

lemma example_honest_end:
  "honest example_stream Sg So (example_events @ GatewayTurn (GatewayGets (TextMessage ''w1'')) # example_ending) example_relay"
proof -
  have "unforged example_stream Sg So (GatewayTurn (GatewayGets (TextMessage ''w1''))) (relay_run example_stream example_events example_relay)"
    by (rule example_unforged(2)) (simp add: example_run_proofs example_events_def)
  moreover have "honest example_stream Sg So example_ending r" for r by (simp add: example_ending_def unforged_def)
  ultimately show ?thesis by (simp add: honest_append example_honest)
qed

subsection \<open>Properties\<close>

text \<open>
  C10. The owner lets a terminal out only under the gateway's authority. Signatures of the gateway's key are not forged and
  the libraries are sound; the network and the clients do what they like. Whenever the owner's bridge
  sends bytes of the terminal at a time \<open>t\<close>, the run passed a state, less than six seconds and the skew of the two wall clocks
  before, in which the gateway's own store authorised the lease: the terminal runs, the fleet accepts both nodes and the
  person's pairing is there and not revoked. So after a revocation at the gateway the owner falls silent in that time.
\<close>

theorem owner_follows_gateway:
  assumes "honest st Sg So es r0" "r0 = new_relay now gdb odb view gl ol" "sound_libraries st" "other_texts st Sg"
    and "route_key st \<noteq> None" "binding gl = route_binding st"
    and "(t, BinaryMessage bs) \<in> set (ob_sent (ow_bridge (relay_run st es r0)))"
  shows "\<exists>es1 es2 db. es = es1 @ es2 \<and> gw_store (relay_run st es1 r0) = Some db
    \<and> authorised (leases (peer_libs (gateway_peer st))) db (real_now (relay_run st es1 r0) + wall_ahead (gateway_peer st)) gl
    \<and> real_now (relay_run st es1 r0) \<le> t \<and> t < real_now (relay_run st es1 r0) + 6000 + skew st"
proof -
  have inv: "watch_inv st gl r0 es (relay_run st es r0)" by (rule watch_inv_run [OF assms(1-6)])
  then obtain m body where m: "(m, body) \<in> set (gw_proofs (relay_run st es r0))" "at_now m \<le> t" "t < at_now m + 6000 + skew st"
    using assms(7) unfolding watch_inv_def proved_by_def by blast
  then obtain es1 es2 where e: "es = es1 @ es2" "gateway_moment st (relay_run st es1 r0) = m" "gateway_vouches st (relay_run st es1 r0) gl body"
    using inv unfolding watch_inv_def earlier_def by blast
  then have "at_now m = real_now (relay_run st es1 r0)" by auto
  then show ?thesis using e m(2,3) snapshot_holds_authorised unfolding gateway_vouches_def by auto
qed

theorem owner_follows_gateway_witness:
  "(0, BinaryMessage [7]) \<in> set (ob_sent (ow_bridge (relay_run example_stream example_events example_relay)))
    \<and> (\<exists>es1 es2 db. example_events = es1 @ es2 \<and> gw_store (relay_run example_stream es1 example_relay) = Some db
        \<and> authorised example_bridge_env db (real_now (relay_run example_stream es1 example_relay)) example_gateway_lease
        \<and> real_now (relay_run example_stream es1 example_relay) = 0)"
proof -
  have b: "binding example_gateway_lease = route_binding example_stream" by (simp add: example_gateway_lease_def new_lease_def Let_def)
  have "(0, BinaryMessage [7]) \<in> set (ob_sent (ow_bridge (relay_run example_stream example_events example_relay)))"
    using example_run_forwards by (simp add: example_events_def)
  with owner_follows_gateway [OF example_honest [of "{}" "{}"] example_relay_def example_sound _ _ b this] show ?thesis
    by (simp add: other_texts_def)
qed

text \<open>
  C11. The gateway shows a terminal only on a heartbeat the owner sent. Signatures of the owner's key are not
  forged, the owner has a member key the gateway knows, the libraries are sound, the heartbeats of a lease are
  read back as they were written, and the two nodes are different; the network and the clients do what they
  like. Whenever the gateway's splice sends bytes to the client at a time \<open>t\<close>, either \<open>t\<close> is before the
  first deadline of the gateway's lease, or the owner's splice passed on, as a heartbeat, the answer of a
  revalidation, less than six seconds and the skew of the clocks before \<open>t\<close>, and the owner's own store authorised
  its lease when that revalidation was asked for. The bound is on passing the answer on: how long the
  owner's splice waits between asking and passing on is not bounded.
\<close>

theorem gateway_follows_owner:
  assumes "honest st Sg So es r0" "r0 = new_relay now gdb odb view gl ol" "reads_back st (binding ol)" "sound_libraries st"
    and "other_texts st So" "relay_key st \<noteq> None" "binding gl = route_binding st" "\<not> owner_side gl"
    and "bind_gateway (binding gl) \<noteq> bind_owner (binding gl)"
    and "(t, BinaryMessage bs) \<in> set (to_socket (gw_splice (relay_run st es r0)))"
  shows "t < proof_until (clock gl)
    \<or> (\<exists>es1 es2 es3 db. es = es1 @ es2 @ es3 \<and> ow_store (relay_run st es1 r0) = Some db
        \<and> authorised (leases (peer_libs (owner_peer st))) db (real_now (relay_run st es1 r0) + wall_ahead (owner_peer st)) ol
        \<and> asked (ow_splice (relay_run st (es1 @ es2) r0)) = Some (owner_moment st (relay_run st es1 r0), True)
        \<and> real_now (relay_run st (es1 @ es2) r0) \<le> t \<and> t < real_now (relay_run st (es1 @ es2) r0) + 6000 + skew st)"
proof -
  have own: "owner_inv st ol r0 es (relay_run st es r0)" by (rule owner_inv_run [OF assms(2,3)])
  have "kept_alive st gl (ow_splice (relay_run st es r0)) (t + 1) t"
    using client_inv_run [OF assms(1-9)] assms(10) unfolding client_inv_def by blast
  then consider "t < proof_until (clock gl)"
    | m0 m n where "(m0, m, n) \<in> set (proofs (ow_splice (relay_run st es r0)))" "at_now m \<le> t" "t < at_now m + 6000 + skew st"
    unfolding kept_alive_def issued_by_def by fastforce
  then show ?thesis
  proof cases
    case 2
    then have "answered st ol r0 es m0 m" using own unfolding owner_inv_def by blast
    then obtain es12 es3 es1 es2 where e: "es = es12 @ es3" "es12 = es1 @ es2" "owner_moment st (relay_run st es12 r0) = m"
        "asked (ow_splice (relay_run st es12 r0)) = Some (m0, True)" "owner_moment st (relay_run st es1 r0) = m0"
        "owner_vouches st (relay_run st es1 r0) ol"
      unfolding answered_def revalidated_def earlier_def by blast
    then obtain db where "ow_store (relay_run st es1 r0) = Some db"
        "authorised (leases (peer_libs (owner_peer st))) db (real_now (relay_run st es1 r0) + wall_ahead (owner_peer st)) ol"
      using snapshot_holds_authorised unfolding owner_vouches_def by blast
    then show ?thesis using e 2(2,3)
      by (intro disjI2 exI [of _ es1] exI [of _ es2] exI [of _ es3] exI [of _ db]) auto
  qed simp
qed

theorem gateway_follows_owner_witness:
  "(1, BinaryMessage [7]) \<in> set (to_socket (gw_splice (relay_run example_stream
      (example_events @ GatewayTurn (GatewayGets (TextMessage ''w1'')) # example_ending) example_relay)))
    \<and> (\<exists>es1 es2 es3 db. example_events @ GatewayTurn (GatewayGets (TextMessage ''w1'')) # example_ending = es1 @ es2 @ es3
        \<and> ow_store (relay_run example_stream es1 example_relay) = Some db
        \<and> authorised example_bridge_env db (real_now (relay_run example_stream es1 example_relay)) example_owner_lease
        \<and> asked (ow_splice (relay_run example_stream (es1 @ es2) example_relay))
            = Some (owner_moment example_stream (relay_run example_stream es1 example_relay), True)
        \<and> real_now (relay_run example_stream (es1 @ es2) example_relay) \<le> 1)"
proof -
  have l: "binding example_gateway_lease = route_binding example_stream" "\<not> owner_side example_gateway_lease"
      "bind_gateway (binding example_gateway_lease) \<noteq> bind_owner (binding example_gateway_lease)"
      "proof_until (clock example_gateway_lease) = 1" "binding example_owner_lease = example_route"
    by (simp_all add: example_gateway_lease_def example_owner_lease_def new_lease_def Let_def)
  have "(1, BinaryMessage [7]) \<in> set (to_socket (gw_splice (relay_run example_stream
      (example_events @ GatewayTurn (GatewayGets (TextMessage ''w1'')) # example_ending) example_relay)))"
    using example_run_shows by (simp add: example_events_def)
  with gateway_follows_owner [OF example_honest_end [of "{}" "{}"] example_relay_def _ example_sound _ _ l(1-3) this] show ?thesis
    by (simp add: other_texts_def l(4,5) example_reads_back)
qed

text \<open>
  C12. A watched terminal is not touched. Whatever the client, the gateway and the network do, the bytes
  the owner's splice writes to the terminal are one peek frame followed only by detach and status frames.
\<close>

theorem watched_terminal_untouched:
  "\<exists>ts. frame_tags (to_transport (ow_splice (relay_run st es (new_relay now gdb odb view gl ol)))) = Some ts
    \<and> map (from_u8 (peer_libs (owner_peer st))) ts \<in> insert [] {MsgPeek # r |r. set r \<subseteq> {MsgDetach, MsgStatus}}"
proof -
  let ?f = "from_u8 (peer_libs (owner_peer st))"
  obtain bs where bs: "fst (forward ?f (Some PeekMode) False bs) = to_transport (ow_splice (relay_run st es (new_relay now gdb odb view gl ol)))"
    using gate_follows_passed [OF owner_gate_follows] by blast
  obtain ts where ts: "frame_tags (fst (forward ?f (Some PeekMode) False bs)) = Some ts"
      "\<forall>t r. ts = t # r \<longrightarrow> permitted (Some PeekMode) False (?f t) \<and> (\<forall>u\<in>set r. permitted (Some PeekMode) True (?f u))"
    using forward_frames [of ?f "Some PeekMode" False bs] by blast
  then have "map ?f ts \<in> insert [] {MsgPeek # r |r. set r \<subseteq> {MsgDetach, MsgStatus}}"
    by (cases ts) (auto simp: permitted_def)
  then show ?thesis using ts(1) bs by auto
qed

end
