(* ===== verification/Spec2Isabelle.thy ===== *)
theory Spec2Isabelle
  imports Prelude Seat_Queue Lane Delivery_Recovery Membership Canonical Digest Retired Claim_Ranges Windows Writer_Queue
    Principal Claim_Verdicts Trust_Roots Join_Code Task_Plan Command_Policy Gateway_Safety
    Lease_Watch
begin

text \<open>
  This library verifies parts of \<^emph>\<open>smalltalk\<close> (\<open>st\<close>), a system in which people and coding agents share work
  through a replicated graph of signed claims. A \<^emph>\<open>node\<close> runs one daemon. The daemon stores claims in SQLite through one
  writer thread, exchanges them with the other nodes of its \<^emph>\<open>fleet\<close>, judges which claims speak for their
  author, projects them to seats, lanes and tasks, starts and stops agent sessions to match the declared
  tasks, and hands messages to external harnesses. A separate \<^emph>\<open>gateway\<close> process, under its own user, keeps
  secrets and runs commands with them for callers it can identify.

  \<^bold>\<open>The parts and the theories that model them.\<close> Paths are under \<open>src/crates/\<close>; a theory keeps the names of
  the Rust functions and follows their order.

  \<^item> \<open>Prelude\<close>: the result type (\<open>Inl\<close> an error), \<open>and_then\<close> and \<open>try_fold\<close> for the \<open>?\<close> operator, facts on
    sorted lists, maps and folds, and the locale \<open>monotone_machine\<close>: a step function that respects a
    preorder makes every run respect it. \<open>Text_Codec\<close> and \<open>Json\<close>: the string functions and JSON values the
    sources use. A Rust \<open>String\<close> is the list of its UTF-8 bytes.
  \<^item> \<open>Seat_Queue\<close> (\<open>fractal-kernel/src/seat_queue.rs\<close>) and \<open>Lane\<close> (\<open>lane.rs\<close>): replay of joins, moves and marks to the order of a
    seat's runs and of a lane's entries, and the choice of the next step. Locale \<open>ordered_line\<close> is the contract of a line of
    runs that both rely on.
  \<^item> \<open>Delivery_Ledger\<close>, \<open>Delivery_Recovery\<close> (\<open>fractal-drivers/src/delivery_ledger.rs\<close>, \<open>fsatomic.rs\<close>,
    \<open>migrations/delivery_state\<close>): the file that records how far each message went, with every write failing or
    succeeding, crashes, restarts, and the records of earlier releases.
  \<^item> \<open>Membership\<close> (\<open>smallclaims/src/fleet/membership.rs\<close>), \<open>Trust_Roots\<close>, \<open>Principal\<close>
    (\<open>principal.rs\<close>), \<open>Claim_Verdicts\<close> (\<open>store/principals.rs\<close>, \<open>judging.rs\<close>): which
    nodes belong to the fleet, which keys speak for whom, and the verdict on a claim.
  \<^item> \<open>Canonical\<close> (\<open>store/canonical.rs\<close>), \<open>Digest\<close> (\<open>projection_digest.rs\<close>),
    \<open>Claim_Ranges\<close> (\<open>claim_ranges.rs\<close>, \<open>replication.rs\<close>), \<open>Retired\<close> (\<open>retired.rs\<close>): the order of claims, digests that
    two replicas compare, and the ledger of ids that may never return. Tables are lists or maps of rows and a trigger is part of the
    statement that fires it. Locale \<open>digest_group\<close> is the algebra of the accumulator.
  \<^item> \<open>Writer_Queue\<close> (\<open>smallclaims/src/sqlite/writer_queue.rs\<close>, \<open>sqlite.rs\<close>) and \<open>Windows\<close>
    (\<open>windows.rs\<close>, \<open>windows/intervals.rs\<close>, \<open>fifo.rs\<close>): the writer's admission of jobs, loans and fences, its group
    commit, and the rolling histograms of latency.
  \<^item> \<open>Join_Code\<close> (\<open>fleet/code.rs\<close>): the text a new node joins a fleet with.
  \<^item> \<open>Task_Plan\<close> (\<open>fractal-drivers/src/reconcile.rs\<close>, \<open>agent-spec/src/spec.rs\<close>): the plan that compares
    declared tasks with live sessions.
  \<^item> \<open>Command_Policy\<close>, \<open>Caller_Identity\<close>, \<open>Gateway_Store\<close>, \<open>Gateway\<close>
    (\<open>fractal-secrets/src/sekrets/\<close>: \<open>policy.rs\<close>, \<open>identity.rs\<close>, \<open>store.rs\<close>, \<open>gateway.rs\<close>,
    \<open>protocol.rs\<close>, \<open>authorized.rs\<close>, \<open>files.rs\<close>) and \<open>Tile_Registry\<close> (\<open>fractal-tiles-registry\<close>):
    the gateway. Its state is the store, the token cache and the open connections; \<open>gateway_step\<close> is one event and a
    run is a fold over events. \<open>Gateway_Access\<close> proves once, in the locale \<open>store_contract\<close>, that a
    property kept by each store operation is kept by every request; \<open>Gateway_Safety\<close> interprets it
    for five properties and draws the guarantees from them.
  \<^item> \<open>Fleet_View\<close> (\<open>smallclaims/src/fleet/view.rs\<close>), \<open>Fleet_Auth\<close> (\<open>sync/mod.rs\<close>): whom a node
    accepts messages from, and the headers that authenticate a message between members.
  \<^item> \<open>Frame_Gate\<close>, \<open>Terminal_Lease\<close>, \<open>Raw_Splice\<close> (\<open>fractal-api-core/src/api/client_v0/raw_terminal.rs\<close>,
    \<open>raw_terminal/lease.rs\<close>): what a client of a raw terminal may send to it, the lease under which it may watch, and
    the two loops between a socket and the terminal. A lease shares a node with a writer; \<open>lease_step\<close> is one step of either, so commits
    fall anywhere between the steps of a registration.
  \<^item> \<open>Lease_Bridge\<close> and its proofs in \<open>Lease_Watch\<close> (\<open>fractal-peer/src/peer/raw_lease.rs\<close>): a terminal watched from
    another node. The state \<open>relay\<close> holds both nodes, each with its store, lease, splice and bridge; an event is one
    turn of one loop, and the network delivers any message at any time. Only signatures are assumed not to be forged.

  \<^bold>\<open>What the theorems show.\<close> Delivery: what a ledger has recorded is on disk before a message is sent,
  survives crashes and is never sent twice. Trust: every claim that counts descends from the fleet's anchor by a
  chain of admissions and grants, the outcome does not depend on arrival order, and a nonce is used once.
  Replication: the byte order of keys is the order of claims, a complete index holds exact digests, paged folds and
  imports end with the right result. Writer: background work is not starved, every background loan
  queued before a fence is served before it, a batch commits as a whole.
  Plans: a plan does exactly what each task's declared and live state ask for, adopts the agents that need nothing, and two plans carried
  out leave nothing to do. Gateway:
  who a caller is rests on the kernel, on root's files or on a registered key; secrets are used only by those
  entitled, only their owner changes them, and a revoked grant stays revoked.
  Terminals: a client that may only watch never types, however it cuts its stream; an open lease is
  authorised by the store as it is and ends in time; the owner lets a terminal's bytes out only under the
  gateway's authority of the last six seconds, plus the skew of the clocks, and the gateway shows them only on a heartbeat of the owner as young as that. Messages: acceptance follows the
  documented table but for one kind of sender, what a member signs verifies, and a valid signature proves the whole message.
  This root theory holds the property that spans trust roots, membership and verdicts.
  Some theorems state where the code differs from its documentation; they are named in the findings of the
  manifest.

  \<^bold>\<open>Bounds and fuel.\<close> The membership loop keeps the bound of the code, \<open>2 * n + 4\<close> rounds for \<open>n\<close>
  claims; \<open>Membership.membership_complete\<close> shows it is enough without departures. Judging recurses to
  the depth \<open>MAX_CHAIN_DEPTH\<close> of the code. The paged fold and import are given a number of pages, and the theorems show how
  many suffice. File substitution in arguments ends because every step uses up an \<open>@\<close> sign. Integers keep
  their width where the code can wrap or saturate (digests, counters, histogram counts, frame lengths,
  the age of an attestation) and are \<open>nat\<close> or \<open>int\<close> elsewhere.
  Lease times are milliseconds; the code between two waits of a loop takes no time.

  \<^bold>\<open>Parameters.\<close> Signature schemes, SHA-2, CBOR, base32 and base64, JSON, TOML and URL parsing, and the kernel
  (\<open>/proc\<close>, sockets, time, files) are arguments of the definitions that use them; where a theorem needs
  something of them it is a named hypothesis, with a witness that instantiates it.

  \<^bold>\<open>Not modelled.\<close> The SQL text itself, migrations and read caches of the stores; HTTP and socket framing; the
  processes, pseudo-terminals and sandboxes of the runtime; the rendering of command lines for external harnesses; parsers of KDL and TOML
  documents, whose syntax trees come from third-party crates; the terminal, web and phone clients; telemetry. These are I/O,
  presentation or calls of code outside the repository, and their values appear as inputs where a modelled part reads them. Faults
  of SQLite are not modelled, except where a theory says so.
\<close>

section \<open>Properties that span components\<close>

text \<open>A node that the anchor of the example fleet admitted, and a claim that its key signed.\<close>

definition anchor_sig :: claim_signature where
  "anchor_sig = example_sig\<lparr>signer := ''host/r'', sig_key := ''kr''\<rparr>"

definition fleet_roots :: "(string \<times> string) set" where
  "fleet_roots = fst (trust_roots_tx None 0 (fold_membership (Some ''kr'') example_fleet) ''r'' None)"

lemma fleet_roots_anchor: "(''host/r'', ''kr'') \<in> fleet_roots"
proof -
  have "(''host/'' @ ''r'', ''kr'') \<in> member_roots (fold_membership (Some ''kr'') example_fleet)"
    unfolding fold_membership_example
    by (rule admitted_member_root [of "example_fleet ! 0"]) (simp_all add: example_defs)
  then show ?thesis by (simp add: fleet_roots_def trust_roots_tx_def)
qed

text \<open>
  C5. Every verified claim descends from the anchor of the fleet. When a node judges a claim verified
  against the trust roots it folds from its fleet claims, the winning signature is one of the claim's
  candidates and matches its content, and its key is the node's own, or was admitted by a fleet claim that a chain of admissions leads to from the anchor key, or
  was granted in a chain of valid grants that ends at such a node key; and a roots cache that agrees
  with its generation does not change this.
\<close>

theorem verified_from_anchor:
  assumes "judge_claim cr st i = (Verified, Some s)" and "distinct (map claim_id cs)"
    and "coherent at cache" and "at g = fold_membership (Some a) cs"
    and "trust_roots st = fst (trust_roots_tx cache g (fold_membership (Some a) cs) origin own)"
  shows "vouched cr st a (set (fleet_claims cs)) origin own (signer s) (sig_key s)
    \<and> (\<exists>r. claim_row_of st i = Some r \<and> s \<in> set (signature_candidates st i) \<and> signature_matches cr r s)"
proof (rule conjI [OF speaks_vouched [OF _ assms(2)] conjunct2 [OF verified_speaks [OF assms(1)]]])
  show "speaks cr st (signer s) (sig_key s)" using verified_speaks [OF assms(1)] by simp
  show "trust_roots st = member_roots (fold_membership (Some a) cs)
      \<union> (case own of None \<Rightarrow> {} | Some k \<Rightarrow> {(''host/'' @ origin, k)})"
    unfolding assms(5) by (rule trust_roots_tx_coherent(2) [OF assms(3)]) (simp add: assms(4))
qed

theorem verified_from_anchor_witness:
  "vouched example_crypto (example_store anchor_sig fleet_roots) ''kr'' (set (fleet_claims example_fleet)) ''r'' None ''host/r'' ''kr''"
proof -
  have v: "judge_claim example_crypto (example_store anchor_sig fleet_roots) ''c'' = (Verified, Some anchor_sig)"
    by (rule example_store_verified)
      (simp_all add: anchor_sig_def example_sig_def family_of_def split_once_def strip_prefix_def fleet_roots_anchor)
  have "vouched example_crypto (example_store anchor_sig fleet_roots) ''kr'' (set (fleet_claims example_fleet)) ''r'' None
      (signer anchor_sig) (sig_key anchor_sig)"
    by (rule conjunct1 [OF verified_from_anchor [OF v, where cache = None and g = 0 and at = "\<lambda>_. fold_membership (Some ''kr'') example_fleet"]])
      (simp_all add: example_fleet_def example_claim_def coherent_def example_store_def fleet_roots_def)
  then show ?thesis by (simp add: anchor_sig_def)
qed

end
